(* ===== verification/Prelude.thy ===== *)
theory Prelude
  imports Main "HOL-Library.Word" "HOL-Library.Multiset"
begin

text \<open>
  Shared vocabulary of the development: machine integers, thread identifiers, the
  interleaving semantics that every concurrent component uses, and the interfaces
  (locales) through which invariants and mutual exclusion are proved once.

  A concurrent component is a deterministic, executable function
  \<open>step :: 'l \<Rightarrow> 's \<Rightarrow> 's option\<close>: a label says which thread moves and resolves every
  choice the environment has (which thread a notification wakes, which call a client
  makes); \<open>None\<close> means that the thread cannot move there. One label is one atomic
  operation of the source. A schedule is a list of labels; \<open>run\<close> executes it, and
  \<open>reachable\<close> closes the start state under steps.
\<close>

section \<open>Machine integers and threads\<close>

type_synonym u16 = "16 word"
type_synonym u32 = "32 word"
type_synonym u64 = "64 word"
type_synonym size_t = "64 word"
type_synonym tid = nat

lemma unat_plus_one_u64: "Suc (unat w) < 2 ^ 64 \<Longrightarrow> unat (w + 1 :: u64) = Suc (unat w)"
  by (simp add: unat_word_ariths)

lemma unat_plus_one_u32: "Suc (unat w) < 2 ^ 32 \<Longrightarrow> unat (w + 1 :: u32) = Suc (unat w)"
  by (simp add: unat_word_ariths)

lemma unat_u64_less: "unat (w :: u64) < 2 ^ 64"
  using unsigned_less [where 'a = nat and 'b = 64, of w] by simp

lemma unat_minus_one_u64: "0 < unat (w :: u64) \<Longrightarrow> unat (w - 1) = unat w - 1"
  by (simp add: unat_gt_0 unat_minus_one)

lemma replicate_two: "replicate 2 x = [x, x]"
  by (simp add: numeral_2_eq_2)

section \<open>Interleaving semantics\<close>

fun run :: "('l \<Rightarrow> 's \<Rightarrow> 's option) \<Rightarrow> 'l list \<Rightarrow> 's \<Rightarrow> 's option" where
  "run step [] s = Some s"
| "run step (l # ls) s = (case step l s of None \<Rightarrow> None | Some s' \<Rightarrow> run step ls s')"

inductive reachable :: "('l \<Rightarrow> 's \<Rightarrow> 's option) \<Rightarrow> 's \<Rightarrow> 's \<Rightarrow> bool"
  for step :: "'l \<Rightarrow> 's \<Rightarrow> 's option" and start :: 's where
  start: "reachable step start start"
| step: "reachable step start s \<Longrightarrow> step l s = Some s' \<Longrightarrow> reachable step start s'"

lemma run_append:
  "run step (xs @ ys) s = (case run step xs s of None \<Rightarrow> None | Some s' \<Rightarrow> run step ys s')"
  by (induction xs arbitrary: s) (auto split: option.splits)

lemma run_snoc_SomeE:
  assumes "run step (ls @ [l]) s = Some s'"
  obtains m where "run step ls s = Some m" and "step l m = Some s'"
  using assms by (auto simp: run_append split: option.splits)

lemma reachable_iff_run: "reachable step start s \<longleftrightarrow> (\<exists>ls. run step ls start = Some s)"
proof
  assume "reachable step start s"
  then show "\<exists>ls. run step ls start = Some s"
  proof (induction rule: reachable.induct)
    case start
    have "run step [] start = Some start" by simp
    then show ?case by blast
  next
    case (step s l s')
    then obtain ls where "run step ls start = Some s" by blast
    with step.hyps have "run step (ls @ [l]) start = Some s'" by (simp add: run_append)
    then show ?case by blast
  qed
next
  assume "\<exists>ls. run step ls start = Some s"
  then obtain ls where "run step ls start = Some s" by blast
  then show "reachable step start s"
  proof (induction ls arbitrary: s rule: rev_induct)
    case Nil
    then show ?case by (simp add: reachable.start)
  next
    case (snoc l ls)
    then obtain m where "run step ls start = Some m" and "step l m = Some s"
      by (blast elim: run_snoc_SomeE)
    with snoc.IH show ?case by (blast intro: reachable.step)
  qed
qed

lemma run_reachable: "run step ls start = Some s \<Longrightarrow> reachable step start s"
  by (auto simp: reachable_iff_run)

lemma reachable_run: "reachable step start s \<Longrightarrow> run step ls s = Some s' \<Longrightarrow> reachable step start s'"
  by (induction ls arbitrary: s) (auto split: option.splits intro: reachable.step)

section \<open>Interfaces: invariants and exclusive locks\<close>

text \<open>
  The contract of an inductive invariant: it holds at the start and every step keeps it.
  What a client gets: it holds in every reachable state, and after every schedule.
\<close>

locale invariant_system =
  fixes step :: "'l \<Rightarrow> 's \<Rightarrow> 's option"
    and start :: 's
    and inv :: "'s \<Rightarrow> bool"
  assumes inv_start: "inv start"
    and inv_step: "inv s \<Longrightarrow> step l s = Some s' \<Longrightarrow> inv s'"
begin

lemma inv_reachable: "reachable step start s \<Longrightarrow> inv s"
  by (induction rule: reachable.induct) (auto intro: inv_start inv_step)

lemma inv_run: "run step ls start = Some s \<Longrightarrow> inv s"
  by (blast intro: inv_reachable run_reachable)

end

text \<open>
  The contract of a refinement with stuttering: the detailed system starts in a state related to the start of the
  abstract one, and every detailed step is a (possibly empty) schedule of the abstract system. What a client gets:
  every reachable detailed state is related to a reachable abstract one.
\<close>

locale stuttering_refinement =
  fixes cstep :: "'l \<Rightarrow> 's \<Rightarrow> 's option"
    and cstart :: 's
    and astep :: "'m \<Rightarrow> 'a \<Rightarrow> 'a option"
    and astart :: 'a
    and related :: "'s \<Rightarrow> 'a \<Rightarrow> bool"
    and schedule :: "'s \<Rightarrow> 'l \<Rightarrow> 'm list"
  assumes related_start: "related cstart astart"
    and related_step: "related s a \<Longrightarrow> cstep l s = Some s' \<Longrightarrow> \<exists>a'. run astep (schedule s l) a = Some a' \<and> related s' a'"
begin

lemma refines: "reachable cstep cstart s \<Longrightarrow> \<exists>a. reachable astep astart a \<and> related s a"
proof (induction rule: reachable.induct)
  case start
  show ?case by (intro exI conjI) (rule reachable.start, rule related_start)
next
  case (step s l s')
  then obtain a where a: "reachable astep astart a" "related s a" by blast
  from related_step [OF a(2) step.hyps(2)] obtain a' where "run astep (schedule s l) a = Some a'" "related s' a'" by blast
  from reachable_run [OF a(1) this(1)] this(2) show ?case by blast
qed

text \<open>The same for schedules, with a bound on the abstract schedule when no step needs more than one abstract step.\<close>

lemma refines_run:
  assumes "run cstep ls cstart = Some s" and short: "\<And>s l. length (schedule s l) \<le> 1"
  shows "\<exists>ms a. run astep ms astart = Some a \<and> length ms \<le> length ls \<and> related s a"
  using assms(1)
proof (induction ls arbitrary: s rule: rev_induct)
  case Nil
  then have "run astep [] astart = Some astart \<and> length ([] :: 'm list) \<le> length ([] :: 'l list) \<and> related s astart"
    using related_start by auto
  then show ?case by blast
next
  case (snoc l ls)
  from snoc.prems obtain m where m: "run cstep ls cstart = Some m" "cstep l m = Some s" by (blast elim: run_snoc_SomeE)
  from snoc.IH [OF m(1)] obtain ms a where ms: "run astep ms astart = Some a" "length ms \<le> length ls" "related m a" by blast
  from related_step [OF ms(3) m(2)] obtain a' where a': "run astep (schedule m l) a = Some a'" "related s a'" by blast
  have "run astep (ms @ schedule m l) astart = Some a'" using ms(1) a'(1) by (simp add: run_append)
  moreover have "length (ms @ schedule m l) \<le> length (ls @ [l])" using ms(2) short [of m l] by simp
  ultimately show ?case using a'(2) by blast
qed

end

text \<open>
  The contract of a component whose counters wrap around: the invariant is indexed by the
  number of steps made so far and is kept as long as that number stays below a bound
  (the number of values of the counter).
\<close>

locale bounded_invariant_system =
  fixes step :: "'l \<Rightarrow> 's \<Rightarrow> 's option"
    and start :: 's
    and inv :: "nat \<Rightarrow> 's \<Rightarrow> bool"
    and bound :: nat
  assumes binv_start: "inv 0 start"
    and binv_step: "inv k s \<Longrightarrow> Suc k < bound \<Longrightarrow> step l s = Some s' \<Longrightarrow> inv (Suc k) s'"
begin

lemma binv_run: "run step ls start = Some s \<Longrightarrow> length ls < bound \<Longrightarrow> inv (length ls) s"
proof (induction ls arbitrary: s rule: rev_induct)
  case Nil
  then have "s = start" by simp
  then show ?case by (simp add: binv_start)
next
  case (snoc l ls)
  from snoc.prems(1) obtain m where m: "run step ls start = Some m" "step l m = Some s"
    by (blast elim: run_snoc_SomeE)
  from snoc.prems(2) have "length ls < bound" by simp
  with snoc.IH m(1) have "inv (length ls) m" by blast
  with m(2) snoc.prems(2) show ?case by (auto intro: binv_step)
qed

end

text \<open>
  The contract of a mutual exclusion lock: \<open>holds s t\<close> says that thread \<open>t\<close> has returned
  from a successful acquisition and has not released the lock yet.
\<close>

locale exclusive_lock = invariant_system +
  fixes holds :: "'s \<Rightarrow> tid \<Rightarrow> bool"
  assumes holds_unique: "inv s \<Longrightarrow> holds s i \<Longrightarrow> holds s j \<Longrightarrow> i = j"
begin

lemma mutual_exclusion: "reachable step start s \<Longrightarrow> holds s i \<Longrightarrow> holds s j \<Longrightarrow> i = j"
  by (blast intro: holds_unique inv_reachable)

end

text \<open>The same contract for a lock whose tickets wrap around.\<close>

locale bounded_exclusive_lock = bounded_invariant_system +
  fixes holds :: "'s \<Rightarrow> tid \<Rightarrow> bool"
  assumes bholds_unique: "inv k s \<Longrightarrow> holds s i \<Longrightarrow> holds s j \<Longrightarrow> i = j"
begin

lemma bounded_mutual_exclusion:
  "run step ls start = Some s \<Longrightarrow> length ls < bound \<Longrightarrow> holds s i \<Longrightarrow> holds s j \<Longrightarrow> i = j"
  by (blast intro: bholds_unique binv_run)

end

section \<open>Taking an element out of a list\<close>

text \<open>A queue from which the environment takes any element: removal of position \<open>k\<close>.\<close>

lemma remove_nth_distinct:
  assumes "distinct xs" "k < length xs"
  shows "distinct (take k xs @ drop (Suc k) xs)"
    and "set (take k xs @ drop (Suc k) xs) = set xs - {xs ! k}"
proof -
  have xs: "xs = take k xs @ xs ! k # drop (Suc k) xs" using assms(2) by (rule id_take_nth_drop)
  with assms(1) have d: "distinct (take k xs @ xs ! k # drop (Suc k) xs)" by simp
  then show "distinct (take k xs @ drop (Suc k) xs)" by simp
  have "set xs = insert (xs ! k) (set (take k xs @ drop (Suc k) xs))"
    by (subst xs) simp
  moreover have "xs ! k \<notin> set (take k xs @ drop (Suc k) xs)" using d by auto
  ultimately show "set (take k xs @ drop (Suc k) xs) = set xs - {xs ! k}" by blast
qed

lemma count_remove_nth:
  assumes "k < length xs"
  shows "count_list (take k xs @ drop (Suc k) xs) f + of_bool (xs ! k = f) = count_list xs f"
proof -
  have "count_list xs f = count_list (take k xs @ xs ! k # drop (Suc k) xs) f"
    using id_take_nth_drop [OF assms] by simp
  then show ?thesis by simp
qed

lemma mset_remove_nth: "k < length xs \<Longrightarrow> mset xs = add_mset (xs ! k) (mset (take k xs @ drop (Suc k) xs))"
  by (metis append.assoc append_Cons append_Nil id_take_nth_drop mset.simps(2) mset_append
      union_mset_add_mset_right)

section \<open>Counting threads by program counter\<close>

text \<open>
  Program counters are kept in a list indexed by thread. \<open>cnt P xs\<close> counts the threads
  whose program counter satisfies \<open>P\<close>.
\<close>

definition cnt :: "('a \<Rightarrow> bool) \<Rightarrow> 'a list \<Rightarrow> nat" where
  "cnt P xs = length (filter P xs)"

lemma cnt_Nil [simp]: "cnt P [] = 0"
  by (simp add: cnt_def)

lemma cnt_Cons [simp]: "cnt P (x # xs) = (if P x then Suc (cnt P xs) else cnt P xs)"
  by (simp add: cnt_def)

lemma cnt_append [simp]: "cnt P (xs @ ys) = cnt P xs + cnt P ys"
  by (simp add: cnt_def)

lemma cnt_replicate [simp]: "cnt P (replicate n x) = (if P x then n else 0)"
  by (simp add: cnt_def)

lemma cnt_update:
  "i < length xs \<Longrightarrow> cnt P (xs[i := v]) + of_bool (P (xs ! i)) = cnt P xs + of_bool (P v)"
proof -
  assume i: "i < length xs"
  have "cnt P (xs[i := v]) = cnt P (take i xs @ v # drop (Suc i) xs)"
    using i by (simp add: upd_conv_take_nth_drop)
  moreover have "cnt P xs = cnt P (take i xs @ xs ! i # drop (Suc i) xs)"
    using i by (simp add: id_take_nth_drop [symmetric])
  ultimately show ?thesis by simp
qed

lemma cnt_update_eq:
  "i < length xs \<Longrightarrow> cnt P (xs[i := v]) = cnt P xs + of_bool (P v) - of_bool (P (xs ! i))"
  using cnt_update [of i xs P v] by linarith

lemma cnt_le_length: "cnt P xs \<le> length xs"
  by (simp add: cnt_def)

lemma cnt_pos_iff: "0 < cnt P xs \<longleftrightarrow> (\<exists>i < length xs. P (xs ! i))"
proof -
  have "0 < cnt P xs \<longleftrightarrow> (\<exists>x \<in> set xs. P x)"
    by (simp add: cnt_def filter_empty_conv)
  then show ?thesis by (metis in_set_conv_nth)
qed

lemma cnt_posI: "i < length xs \<Longrightarrow> P (xs ! i) \<Longrightarrow> 0 < cnt P xs"
  by (auto simp: cnt_pos_iff)

lemma cnt_zeroD: "cnt P xs = 0 \<Longrightarrow> i < length xs \<Longrightarrow> \<not> P (xs ! i)"
  using cnt_posI by fastforce

lemma cnt_two:
  assumes "i < length xs" "j < length xs" "i \<noteq> j" "P (xs ! i)" "P (xs ! j)"
  shows "2 \<le> cnt P xs"
proof -
  have "P (xs[i := xs ! i] ! j)" using assms by simp
  have "cnt P xs = cnt P (take i xs @ xs ! i # drop (Suc i) xs)"
    using assms(1) by (simp add: id_take_nth_drop [symmetric])
  then have c: "cnt P xs = Suc (cnt P (take i xs) + cnt P (drop (Suc i) xs))"
    using assms(4) by simp
  have "0 < cnt P (take i xs) \<or> 0 < cnt P (drop (Suc i) xs)"
  proof (cases "j < i")
    case True
    then have "0 < cnt P (take i xs)" using assms by (intro cnt_posI [of j]) auto
    then show ?thesis by simp
  next
    case False
    then have "0 < cnt P (drop (Suc i) xs)"
      using assms by (intro cnt_posI [of "j - Suc i"]) auto
    then show ?thesis by simp
  qed
  with c show ?thesis by linarith
qed

lemma cnt_le_one_unique:
  "cnt P xs \<le> 1 \<Longrightarrow> i < length xs \<Longrightarrow> j < length xs \<Longrightarrow> P (xs ! i) \<Longrightarrow> P (xs ! j) \<Longrightarrow> i = j"
  using cnt_two [of i xs j P] by fastforce

lemma cnt_fullD: "cnt P xs = length xs \<Longrightarrow> i < length xs \<Longrightarrow> P (xs ! i)"
  by (metis cnt_def length_filter_less nth_mem order.irrefl)

lemma cnt_full: "(\<And>x. x \<in> set xs \<Longrightarrow> P x) \<Longrightarrow> cnt P xs = length xs"
  by (simp add: cnt_def)

lemma cnt_not_full:
  assumes "cnt P xs < length xs"
  obtains i where "i < length xs" "\<not> P (xs ! i)"
  using assms cnt_full [of xs P] by (metis in_set_conv_nth order.irrefl)

lemma cnt_disj:
  "(\<And>x. \<not> (P x \<and> Q x)) \<Longrightarrow> cnt (\<lambda>x. P x \<or> Q x) xs = cnt P xs + cnt Q xs"
  by (induction xs) auto

lemma cnt_mono: "(\<And>x. P x \<Longrightarrow> Q x) \<Longrightarrow> cnt P xs \<le> cnt Q xs"
  by (induction xs) (auto simp: le_SucI)

text \<open>\<open>wsum f xs\<close> adds up a weight of the threads.\<close>

definition wsum :: "('a \<Rightarrow> nat) \<Rightarrow> 'a list \<Rightarrow> nat" where
  "wsum f xs = sum_list (map f xs)"

lemma wsum_Nil [simp]: "wsum f [] = 0"
  by (simp add: wsum_def)

lemma wsum_Cons [simp]: "wsum f (x # xs) = f x + wsum f xs"
  by (simp add: wsum_def)

lemma wsum_replicate [simp]: "wsum f (replicate n x) = n * f x"
  by (simp add: wsum_def sum_list_replicate)

lemma wsum_update: "i < length xs \<Longrightarrow> wsum f (xs[i := v]) + f (xs ! i) = wsum f xs + f v"
  by (induction xs arbitrary: i) (auto split: nat.splits)

lemma wsum_update_eq: "i < length xs \<Longrightarrow> wsum f (xs[i := v]) = wsum f xs + f v - f (xs ! i)"
  using wsum_update [of i xs f v] by linarith

lemma wsum_update_same: "i < length xs \<Longrightarrow> f v = f (xs ! i) \<Longrightarrow> wsum f (xs[i := v]) = wsum f xs"
  using wsum_update [of i xs f v] by linarith

lemma wsum_ge: "i < length xs \<Longrightarrow> f (xs ! i) \<le> wsum f xs"
  by (induction xs arbitrary: i) (auto simp: nth_Cons' le_Suc_eq split: nat.splits intro: trans_le_add2)

lemma wsum_pos: "0 < wsum f xs \<Longrightarrow> \<exists>i < length xs. 0 < f (xs ! i)"
proof -
  assume "0 < wsum f xs"
  then have "\<exists>x \<in> set xs. 0 < f x" by (induction xs) auto
  then show ?thesis by (metis in_set_conv_nth)
qed

lemma wsum_map_same: "(\<And>x. x \<in> set xs \<Longrightarrow> f (g x) = f x) \<Longrightarrow> wsum f (map g xs) = wsum f xs"
  by (induction xs) auto

section \<open>Parking and waking\<close>

text \<open>
  Blocking on a condition variable or on an atomic (\<open>wait\<close>) parks a thread: its program
  counter says so, and \<open>wake\<close> gives the program counter a parked thread resumes with
  (\<open>None\<close> for a thread that is not parked). \<open>notify_one\<close> wakes one parked thread of the
  environment's choice, and none only if nobody is parked; \<open>notify_all\<close> wakes all.
\<close>

fun notify_one :: "('p \<Rightarrow> 'p option) \<Rightarrow> tid option \<Rightarrow> 'p list \<Rightarrow> 'p list option" where
  "notify_one wake (Some w) pcs =
     (if w < length pcs then map_option (\<lambda>p. pcs[w := p]) (wake (pcs ! w)) else None)"
| "notify_one wake None pcs =
     (if list_all (\<lambda>p. wake p = None) pcs then Some pcs else None)"

definition notify_all :: "('p \<Rightarrow> 'p option) \<Rightarrow> 'p list \<Rightarrow> 'p list" where
  "notify_all wake pcs = map (\<lambda>p. case wake p of None \<Rightarrow> p | Some q \<Rightarrow> q) pcs"

lemma notify_one_length: "notify_one wake c pcs = Some pcs' \<Longrightarrow> length pcs' = length pcs"
  by (cases c) (auto split: if_splits)

lemma notify_one_cases:
  assumes "notify_one wake c pcs = Some pcs'"
  obtains (none) "pcs' = pcs" "cnt (\<lambda>p. wake p \<noteq> None) pcs = 0"
  | (one) w p where "w < length pcs" "wake (pcs ! w) = Some p" "pcs' = pcs[w := p]"
  using assms by (cases c) (auto simp: cnt_def list_all_iff filter_empty_conv split: if_splits)

text \<open>Notification commutes with a change of the names of the program points.\<close>

lemma notify_one_map:
  assumes "\<And>p. wake' (f p) = map_option f (wake p)"
  shows "notify_one wake' c (map f pcs) = map_option (map f) (notify_one wake c pcs)"
  by (cases c) (auto simp: assms list_all_iff map_update option.map_comp comp_def)

lemma notify_all_map:
  assumes "\<And>p. wake' (f p) = map_option f (wake p)"
  shows "notify_all wake' (map f pcs) = map f (notify_all wake pcs)"
  by (auto simp: notify_all_def assms split: option.splits)

lemma notify_all_length [simp]: "length (notify_all wake pcs) = length pcs"
  by (simp add: notify_all_def)

lemma notify_all_nth [simp]:
  "i < length pcs \<Longrightarrow>
   notify_all wake pcs ! i = (case wake (pcs ! i) of None \<Rightarrow> pcs ! i | Some q \<Rightarrow> q)"
  by (simp add: notify_all_def)

lemma cnt_notify_all:
  "cnt P (notify_all wake pcs) = cnt (\<lambda>p. P (case wake p of None \<Rightarrow> p | Some q \<Rightarrow> q)) pcs"
  by (induction pcs) (auto simp: notify_all_def)

end
