(* ===== verification/Spinlock.thy ===== *)
theory Spinlock
  imports Prelude
begin

text \<open>
  The two spinlocks: the test-and-set lock of \<^verbatim>\<open>mutex/spinlock\<close> over the assembly
  primitives of \<^verbatim>\<open>atomics.S\<close>, and the test-and-test-and-set lock that guards the fiber
  stack pool (\<^verbatim>\<open>fibers/coroutine/mtf/fibers/spinlock\<close>). Clients call \<open>Lock\<close>,
  \<open>TryLock\<close> and \<open>Unlock\<close> in any order the locking discipline allows: only a thread
  that is outside calls an acquisition, only the holder calls \<open>Unlock\<close>.
\<close>

section \<open>Atomic primitives (atomics.S)\<close>

text \<open>The cell the pointer in \<^verbatim>\<open>%rdi\<close> names; the result is what \<^verbatim>\<open>%rax\<close> holds at \<^verbatim>\<open>retq\<close>.\<close>

definition AtomicLoad :: "u64 \<Rightarrow> u64" where
  "AtomicLoad cell = cell"

definition AtomicStore :: "u64 \<Rightarrow> u64 \<Rightarrow> u64" where
  "AtomicStore cell v = v"

definition AtomicExchange :: "u64 \<Rightarrow> u64 \<Rightarrow> u64 \<times> u64" where
  "AtomicExchange cell v = (v, cell)"

section \<open>Client labels\<close>

datatype lock_label = CallLock tid | CallTryLock tid | CallUnlock tid | Go tid

section \<open>TASSpinLock\<close>

datatype tas_pc =
    TasOutside
  | TasLocking            \<comment> \<open>in \<open>Lock\<close>, before the exchange of the loop condition\<close>
  | TasTrying             \<comment> \<open>in \<open>TryLock\<close>, before its exchange\<close>
  | TasHolding
  | TasUnlocking          \<comment> \<open>in \<open>Unlock\<close>, before its store\<close>

record tas_lock =
  tas_locked :: u64
  tas_pcs :: "tas_pc list"

definition tas_init :: "nat \<Rightarrow> tas_lock" where
  "tas_init n = \<lparr>tas_locked = 0, tas_pcs = replicate n TasOutside\<rparr>"

definition tas_goto :: "tid \<Rightarrow> tas_pc \<Rightarrow> tas_lock \<Rightarrow> tas_lock" where
  "tas_goto t p s = s\<lparr>tas_pcs := (tas_pcs s)[t := p]\<rparr>"

text \<open>One evaluation of the condition of the loop in \<open>Lock\<close>; staying is a pause.\<close>

definition TASSpinLock_Lock :: "tid \<Rightarrow> tas_lock \<Rightarrow> tas_lock" where
  "TASSpinLock_Lock t s =
     (let (cell, old) = AtomicExchange (tas_locked s) 1; s' = s\<lparr>tas_locked := cell\<rparr>
      in if old \<noteq> 0 then s' else tas_goto t TasHolding s')"

definition TASSpinLock_TryLock :: "tid \<Rightarrow> tas_lock \<Rightarrow> bool \<times> tas_lock" where
  "TASSpinLock_TryLock t s =
     (let (cell, old) = AtomicExchange (tas_locked s) 1; s' = s\<lparr>tas_locked := cell\<rparr>
      in (old = 0, tas_goto t (if old = 0 then TasHolding else TasOutside) s'))"

definition TASSpinLock_Unlock :: "tid \<Rightarrow> tas_lock \<Rightarrow> tas_lock" where
  "TASSpinLock_Unlock t s =
     tas_goto t TasOutside (s\<lparr>tas_locked := AtomicStore (tas_locked s) 0\<rparr>)"

fun tas_step :: "lock_label \<Rightarrow> tas_lock \<Rightarrow> tas_lock option" where
  "tas_step (CallLock t) s =
     (if t < length (tas_pcs s) \<and> tas_pcs s ! t = TasOutside
      then Some (tas_goto t TasLocking s) else None)"
| "tas_step (CallTryLock t) s =
     (if t < length (tas_pcs s) \<and> tas_pcs s ! t = TasOutside
      then Some (tas_goto t TasTrying s) else None)"
| "tas_step (CallUnlock t) s =
     (if t < length (tas_pcs s) \<and> tas_pcs s ! t = TasHolding
      then Some (tas_goto t TasUnlocking s) else None)"
| "tas_step (Go t) s =
     (if t < length (tas_pcs s) then
        (case tas_pcs s ! t of
           TasLocking \<Rightarrow> Some (TASSpinLock_Lock t s)
         | TasTrying \<Rightarrow> Some (snd (TASSpinLock_TryLock t s))
         | TasUnlocking \<Rightarrow> Some (TASSpinLock_Unlock t s)
         | _ \<Rightarrow> None)
      else None)"

fun tas_owns :: "tas_pc \<Rightarrow> bool" where
  "tas_owns TasHolding = True"
| "tas_owns TasUnlocking = True"
| "tas_owns _ = False"

definition tas_holds :: "tas_lock \<Rightarrow> tid \<Rightarrow> bool" where
  "tas_holds s t \<longleftrightarrow> t < length (tas_pcs s) \<and> tas_owns (tas_pcs s ! t)"

definition tas_inv :: "tas_lock \<Rightarrow> bool" where
  "tas_inv s \<longleftrightarrow> tas_locked s \<in> {0, 1} \<and>
     cnt tas_owns (tas_pcs s) = (if tas_locked s = 0 then 0 else 1)"

lemmas tas_defs = TASSpinLock_Lock_def TASSpinLock_TryLock_def TASSpinLock_Unlock_def
  AtomicExchange_def AtomicStore_def tas_goto_def Let_def

lemma tas_inv_init: "tas_inv (tas_init n)"
  by (simp add: tas_inv_def tas_init_def)

lemma tas_inv_step: "tas_inv s \<Longrightarrow> tas_step l s = Some s' \<Longrightarrow> tas_inv s'"
  by (cases l)
    (auto simp: tas_inv_def tas_defs cnt_update_eq split: if_splits tas_pc.splits)

lemma tas_holds_unique: "tas_inv s \<Longrightarrow> tas_holds s i \<Longrightarrow> tas_holds s j \<Longrightarrow> i = j"
  by (rule cnt_le_one_unique [of tas_owns "tas_pcs s"])
    (auto simp: tas_inv_def tas_holds_def)

interpretation tas: exclusive_lock tas_step "tas_init n" tas_inv tas_holds for n
  by unfold_locales (fact tas_inv_init, fact tas_inv_step, fact tas_holds_unique)

section \<open>mtf::fibers::Spinlock\<close>

datatype spin_pc =
    SpinOutside
  | SpinExchange          \<comment> \<open>before the exchange of the outer loop condition\<close>
  | SpinLoad              \<comment> \<open>before the load of the inner loop condition\<close>
  | SpinHolding
  | SpinUnlocking

record spin_lock =
  spin_locked :: u32
  spin_pcs :: "spin_pc list"

definition spin_init :: "nat \<Rightarrow> spin_lock" where
  "spin_init n = \<lparr>spin_locked = 0, spin_pcs = replicate n SpinOutside\<rparr>"

definition spin_goto :: "tid \<Rightarrow> spin_pc \<Rightarrow> spin_lock \<Rightarrow> spin_lock" where
  "spin_goto t p s = s\<lparr>spin_pcs := (spin_pcs s)[t := p]\<rparr>"

definition Spinlock_lock :: "tid \<Rightarrow> spin_lock \<Rightarrow> spin_lock option" where
  "Spinlock_lock t s =
     (case spin_pcs s ! t of
        SpinExchange \<Rightarrow>
          Some (spin_goto t (if spin_locked s \<noteq> 0 then SpinLoad else SpinHolding)
                  (s\<lparr>spin_locked := 1\<rparr>))
      | SpinLoad \<Rightarrow>
          Some (spin_goto t (if spin_locked s \<noteq> 0 then SpinLoad else SpinExchange) s)
      | _ \<Rightarrow> None)"

definition Spinlock_unlock :: "tid \<Rightarrow> spin_lock \<Rightarrow> spin_lock" where
  "Spinlock_unlock t s = spin_goto t SpinOutside (s\<lparr>spin_locked := 0\<rparr>)"

fun spin_step :: "lock_label \<Rightarrow> spin_lock \<Rightarrow> spin_lock option" where
  "spin_step (CallLock t) s =
     (if t < length (spin_pcs s) \<and> spin_pcs s ! t = SpinOutside
      then Some (spin_goto t SpinExchange s) else None)"
| "spin_step (CallTryLock t) s = None"
| "spin_step (CallUnlock t) s =
     (if t < length (spin_pcs s) \<and> spin_pcs s ! t = SpinHolding
      then Some (spin_goto t SpinUnlocking s) else None)"
| "spin_step (Go t) s =
     (if t < length (spin_pcs s) then
        (if spin_pcs s ! t = SpinUnlocking then Some (Spinlock_unlock t s)
         else Spinlock_lock t s)
      else None)"

fun spin_owns :: "spin_pc \<Rightarrow> bool" where
  "spin_owns SpinHolding = True"
| "spin_owns SpinUnlocking = True"
| "spin_owns _ = False"

definition spin_holds :: "spin_lock \<Rightarrow> tid \<Rightarrow> bool" where
  "spin_holds s t \<longleftrightarrow> t < length (spin_pcs s) \<and> spin_owns (spin_pcs s ! t)"

definition spin_inv :: "spin_lock \<Rightarrow> bool" where
  "spin_inv s \<longleftrightarrow> spin_locked s \<in> {0, 1} \<and>
     cnt spin_owns (spin_pcs s) = (if spin_locked s = 0 then 0 else 1)"

lemmas spin_defs = Spinlock_lock_def Spinlock_unlock_def spin_goto_def

lemma spin_inv_init: "spin_inv (spin_init n)"
  by (simp add: spin_inv_def spin_init_def)

lemma spin_inv_step: "spin_inv s \<Longrightarrow> spin_step l s = Some s' \<Longrightarrow> spin_inv s'"
  by (cases l)
    (auto simp: spin_inv_def spin_defs cnt_update_eq split: if_splits spin_pc.splits)

lemma spin_holds_unique: "spin_inv s \<Longrightarrow> spin_holds s i \<Longrightarrow> spin_holds s j \<Longrightarrow> i = j"
  by (rule cnt_le_one_unique [of spin_owns "spin_pcs s"])
    (auto simp: spin_inv_def spin_holds_def)

interpretation spin: exclusive_lock spin_step "spin_init n" spin_inv spin_holds for n
  by unfold_locales (fact spin_inv_init, fact spin_inv_step, fact spin_holds_unique)

section \<open>Properties\<close>

text \<open>Mutual exclusion of the test-and-set lock for any number of threads and any schedule
  of \<open>Lock\<close>, \<open>TryLock\<close> and \<open>Unlock\<close> calls; and the cell is 0 exactly when nobody holds it.\<close>

theorem TASSpinLock_mutual_exclusion:
  assumes "reachable tas_step (tas_init n) s"
  shows "(tas_holds s i \<and> tas_holds s j \<longrightarrow> i = j) \<and>
    (tas_locked s = 0 \<longleftrightarrow> (\<forall>t. \<not> tas_holds s t))"
proof (intro conjI)
  have inv: "tas_inv s" using assms by (rule tas.inv_reachable)
  show "tas_holds s i \<and> tas_holds s j \<longrightarrow> i = j"
    using tas.mutual_exclusion [OF assms] by blast
  have "tas_locked s = 0 \<longleftrightarrow> \<not> 0 < cnt tas_owns (tas_pcs s)" using inv by (simp add: tas_inv_def)
  also have "\<dots> \<longleftrightarrow> (\<forall>t. \<not> tas_holds s t)" unfolding cnt_pos_iff tas_holds_def by blast
  finally show "tas_locked s = 0 \<longleftrightarrow> (\<forall>t. \<not> tas_holds s t)" .
qed

theorem TASSpinLock_mutual_exclusion_witness:
  "\<exists>s. reachable tas_step (tas_init 2) s \<and> tas_holds s 1 \<and>
    (tas_holds s 0 \<and> tas_holds s 1 \<longrightarrow> (0 :: tid) = 1) \<and>
    (tas_locked s = 0 \<longleftrightarrow> (\<forall>t. \<not> tas_holds s t))"
proof -
  obtain s where s: "run tas_step [CallLock 0, CallTryLock 1, Go 1, Go 0] (tas_init 2) = Some s"
    and h: "tas_holds s 1"
    by (simp add: tas_init_def tas_defs tas_holds_def replicate_two)
  have r: "reachable tas_step (tas_init 2) s" using s by (rule run_reachable)
  from TASSpinLock_mutual_exclusion [OF r, of 0 1] r h show ?thesis by blast
qed

text \<open>\<open>TryLock\<close> is exact and \<open>Lock\<close> makes progress: in a reachable state the exchange of
  either call acquires the lock if and only if nobody holds it at that moment.\<close>

theorem TASSpinLock_acquires_iff_free:
  assumes "reachable tas_step (tas_init n) s" and "t < length (tas_pcs s)"
    and "tas_pcs s ! t = TasTrying"
  shows "(fst (TASSpinLock_TryLock t s) \<longleftrightarrow> (\<forall>u. \<not> tas_holds s u)) \<and>
    (tas_holds (snd (TASSpinLock_TryLock t s)) t \<longleftrightarrow> fst (TASSpinLock_TryLock t s)) \<and>
    (tas_holds (TASSpinLock_Lock t s) t \<longleftrightarrow> (\<forall>u. \<not> tas_holds s u))"
proof -
  have inv: "tas_inv s" using assms(1) by (rule tas.inv_reachable)
  have "tas_locked s = 0 \<longleftrightarrow> \<not> 0 < cnt tas_owns (tas_pcs s)" using inv by (simp add: tas_inv_def)
  also have "\<dots> \<longleftrightarrow> (\<forall>u. \<not> tas_holds s u)" unfolding cnt_pos_iff tas_holds_def by blast
  finally have free: "(\<forall>u. \<not> tas_holds s u) \<longleftrightarrow> tas_locked s = 0" by blast
  show ?thesis unfolding free using assms(2,3) by (simp add: tas_defs tas_holds_def)
qed

theorem TASSpinLock_acquires_iff_free_witness:
  "\<exists>s. reachable tas_step (tas_init 2) s \<and> tas_pcs s ! 1 = TasTrying \<and>
    (fst (TASSpinLock_TryLock 1 s) \<longleftrightarrow> (\<forall>u. \<not> tas_holds s u)) \<and>
    (tas_holds (snd (TASSpinLock_TryLock 1 s)) 1 \<longleftrightarrow> fst (TASSpinLock_TryLock 1 s)) \<and>
    (tas_holds (TASSpinLock_Lock 1 s) 1 \<longleftrightarrow> (\<forall>u. \<not> tas_holds s u))"
proof -
  obtain s where s: "run tas_step [CallLock 0, Go 0, CallTryLock 1] (tas_init 2) = Some s"
    and p: "1 < length (tas_pcs s)" "tas_pcs s ! 1 = TasTrying"
    by (simp add: tas_init_def tas_defs replicate_two)
  have r: "reachable tas_step (tas_init 2) s" using s by (rule run_reachable)
  from TASSpinLock_acquires_iff_free [OF r p] r p show ?thesis by blast
qed

text \<open>Mutual exclusion of the test-and-test-and-set lock that guards the stack pool, and
  progress: while nobody holds it, a thread in \<open>lock\<close> acquires it within two of its own steps.\<close>

theorem Spinlock_mutual_exclusion:
  assumes "reachable spin_step (spin_init n) s"
  shows "(spin_holds s i \<and> spin_holds s j \<longrightarrow> i = j) \<and>
    ((\<forall>u. \<not> spin_holds s u) \<and> t < length (spin_pcs s) \<and> spin_pcs s ! t = SpinLoad \<longrightarrow>
       (\<exists>s'. run spin_step [Go t, Go t] s = Some s' \<and> spin_holds s' t))"
proof -
  have inv: "spin_inv s" using assms by (rule spin.inv_reachable)
  have "spin_locked s = 0 \<longleftrightarrow> \<not> 0 < cnt spin_owns (spin_pcs s)" using inv by (simp add: spin_inv_def)
  also have "\<dots> \<longleftrightarrow> (\<forall>u. \<not> spin_holds s u)" unfolding cnt_pos_iff spin_holds_def by blast
  finally have free: "(\<forall>u. \<not> spin_holds s u) \<longleftrightarrow> spin_locked s = 0" by blast
  show ?thesis unfolding free using spin.mutual_exclusion [OF assms]
    by (auto simp: spin_defs spin_holds_def)
qed

theorem Spinlock_mutual_exclusion_witness:
  "\<exists>s. reachable spin_step (spin_init 2) s \<and> (\<forall>u. \<not> spin_holds s u) \<and> spin_pcs s ! 1 = SpinLoad \<and>
    (\<exists>s'. run spin_step [Go 1, Go 1] s = Some s' \<and> spin_holds s' 1)"
proof -
  obtain s where s: "run spin_step [CallLock 0, Go 0, CallLock 1, Go 1, CallUnlock 0, Go 0]
      (spin_init 2) = Some s"
    and e: "s = \<lparr>spin_locked = 0, spin_pcs = [SpinOutside, SpinLoad]\<rparr>"
    by (simp add: spin_init_def spin_defs replicate_two)
  have p: "1 < length (spin_pcs s)" "spin_pcs s ! 1 = SpinLoad" using e by simp_all
  have f: "\<forall>u. \<not> spin_holds s u" using e by (auto simp: spin_holds_def nth_Cons' split: if_splits)
  have r: "reachable spin_step (spin_init 2) s" using s by (rule run_reachable)
  from Spinlock_mutual_exclusion [OF r, of 0 0 1] r p f show ?thesis by blast
qed

end
