(* ===== verification/Ticket_Lock.thy ===== *)
theory Ticket_Lock
  imports Prelude Spinlock
begin

text \<open>
  The ticket lock of \<^verbatim>\<open>mutex/try-lock/ticket_lock.hpp\<close>. Tickets are \<open>size_t\<close> and wrap
  around; the theorems are about schedules of fewer than \<open>2 ^ 64\<close> atomic operations.
\<close>

section \<open>Model\<close>

datatype tk_pc =
    TkOutside
  | TkFetch                 \<comment> \<open>in \<open>Lock\<close>, before \<open>next_free_ticket_.fetch_add(1)\<close>\<close>
  | TkSpin size_t           \<comment> \<open>in \<open>Lock\<close>, spinning with \<open>this_thread_ticket\<close>\<close>
  | TkTryLoad               \<comment> \<open>in \<open>TryLock\<close>, before \<open>owner_ticket_.load()\<close>\<close>
  | TkTryCas size_t         \<comment> \<open>in \<open>TryLock\<close>, before the compare-exchange with \<open>current\<close>\<close>
  | TkHolding
  | TkUnlockLoad            \<comment> \<open>in \<open>Unlock\<close>, before \<open>owner_ticket_.load()\<close>\<close>
  | TkUnlockStore size_t    \<comment> \<open>in \<open>Unlock\<close>, before the store of the loaded value plus one\<close>

record ticket_lock =
  next_free_ticket :: size_t
  owner_ticket :: size_t
  tk_pcs :: "tk_pc list"

definition tk_init :: "nat \<Rightarrow> ticket_lock" where
  "tk_init n = \<lparr>next_free_ticket = 0, owner_ticket = 0, tk_pcs = replicate n TkOutside\<rparr>"

definition tk_goto :: "tid \<Rightarrow> tk_pc \<Rightarrow> ticket_lock \<Rightarrow> ticket_lock" where
  "tk_goto t p s = s\<lparr>tk_pcs := (tk_pcs s)[t := p]\<rparr>"

definition TicketLock_Lock :: "tid \<Rightarrow> ticket_lock \<Rightarrow> ticket_lock option" where
  "TicketLock_Lock t s =
     (case tk_pcs s ! t of
        TkFetch \<Rightarrow>
          Some (tk_goto t (TkSpin (next_free_ticket s))
                  (s\<lparr>next_free_ticket := next_free_ticket s + 1\<rparr>))
      | TkSpin this_thread_ticket \<Rightarrow>
          Some (if this_thread_ticket \<noteq> owner_ticket s then s else tk_goto t TkHolding s)
      | _ \<Rightarrow> None)"

definition TicketLock_TryLock :: "tid \<Rightarrow> ticket_lock \<Rightarrow> ticket_lock option" where
  "TicketLock_TryLock t s =
     (case tk_pcs s ! t of
        TkTryLoad \<Rightarrow> Some (tk_goto t (TkTryCas (owner_ticket s)) s)
      | TkTryCas current \<Rightarrow>
          Some (if next_free_ticket s = current
                then tk_goto t TkHolding (s\<lparr>next_free_ticket := current + 1\<rparr>)
                else tk_goto t TkOutside s)
      | _ \<Rightarrow> None)"

definition TicketLock_Unlock :: "tid \<Rightarrow> ticket_lock \<Rightarrow> ticket_lock option" where
  "TicketLock_Unlock t s =
     (case tk_pcs s ! t of
        TkUnlockLoad \<Rightarrow> Some (tk_goto t (TkUnlockStore (owner_ticket s)) s)
      | TkUnlockStore v \<Rightarrow> Some (tk_goto t TkOutside (s\<lparr>owner_ticket := v + 1\<rparr>))
      | _ \<Rightarrow> None)"

definition tk_call :: "tid \<Rightarrow> tk_pc \<Rightarrow> tk_pc \<Rightarrow> ticket_lock \<Rightarrow> ticket_lock option" where
  "tk_call t p q s =
     (if t < length (tk_pcs s) \<and> tk_pcs s ! t = p then Some (tk_goto t q s) else None)"

fun tk_step :: "lock_label \<Rightarrow> ticket_lock \<Rightarrow> ticket_lock option" where
  "tk_step (CallLock t) s = tk_call t TkOutside TkFetch s"
| "tk_step (CallTryLock t) s = tk_call t TkOutside TkTryLoad s"
| "tk_step (CallUnlock t) s = tk_call t TkHolding TkUnlockLoad s"
| "tk_step (Go t) s =
     (if t < length (tk_pcs s) then
        (case tk_pcs s ! t of
           TkFetch \<Rightarrow> TicketLock_Lock t s
         | TkSpin _ \<Rightarrow> TicketLock_Lock t s
         | TkTryLoad \<Rightarrow> TicketLock_TryLock t s
         | TkTryCas _ \<Rightarrow> TicketLock_TryLock t s
         | TkUnlockLoad \<Rightarrow> TicketLock_Unlock t s
         | TkUnlockStore _ \<Rightarrow> TicketLock_Unlock t s
         | _ \<Rightarrow> None)
      else None)"

section \<open>Invariant\<close>

text \<open>The ticket a thread occupies; the holder occupies the owner's.\<close>

fun pc_ticket :: "size_t \<Rightarrow> tk_pc \<Rightarrow> nat option" where
  "pc_ticket ow (TkSpin w) = Some (unat w)"
| "pc_ticket ow TkHolding = Some (unat ow)"
| "pc_ticket ow TkUnlockLoad = Some (unat ow)"
| "pc_ticket ow (TkUnlockStore _) = Some (unat ow)"
| "pc_ticket ow _ = None"

fun tk_owns :: "tk_pc \<Rightarrow> bool" where
  "tk_owns TkHolding = True"
| "tk_owns TkUnlockLoad = True"
| "tk_owns (TkUnlockStore _) = True"
| "tk_owns _ = False"

definition tk_holds :: "ticket_lock \<Rightarrow> tid \<Rightarrow> bool" where
  "tk_holds s t \<longleftrightarrow> t < length (tk_pcs s) \<and> tk_owns (tk_pcs s ! t)"

definition tk_ticket :: "ticket_lock \<Rightarrow> tid \<Rightarrow> nat option" where
  "tk_ticket s t =
     (if t < length (tk_pcs s) then pc_ticket (owner_ticket s) (tk_pcs s ! t) else None)"

definition tk_locals :: "ticket_lock \<Rightarrow> bool" where
  "tk_locals s \<longleftrightarrow>
     (\<forall>t v. t < length (tk_pcs s) \<longrightarrow> tk_pcs s ! t = TkUnlockStore v \<longrightarrow> v = owner_ticket s) \<and>
     (\<forall>t c. t < length (tk_pcs s) \<longrightarrow> tk_pcs s ! t = TkTryCas c \<longrightarrow>
        unat c \<le> unat (owner_ticket s))"

text \<open>
  The occupied tickets are exactly those from the owner's up to the next free one, each
  held by one thread, and no counter has wrapped after \<open>k\<close> steps.
\<close>

definition tk_inv :: "nat \<Rightarrow> ticket_lock \<Rightarrow> bool" where
  "tk_inv k s \<longleftrightarrow>
     unat (owner_ticket s) \<le> unat (next_free_ticket s) \<and> unat (next_free_ticket s) \<le> k \<and>
     tk_locals s \<and>
     (\<forall>i w. tk_ticket s i = Some w \<longrightarrow>
        unat (owner_ticket s) \<le> w \<and> w < unat (next_free_ticket s)) \<and>
     (\<forall>i j w. tk_ticket s i = Some w \<longrightarrow> tk_ticket s j = Some w \<longrightarrow> i = j) \<and>
     (\<forall>w. unat (owner_ticket s) \<le> w \<longrightarrow> w < unat (next_free_ticket s) \<longrightarrow>
        (\<exists>i. tk_ticket s i = Some w))"

lemma tk_inv_range:
  "tk_inv k s \<Longrightarrow> tk_ticket s i = Some w \<Longrightarrow>
   unat (owner_ticket s) \<le> w \<and> w < unat (next_free_ticket s)"
  by (simp add: tk_inv_def)

lemma tk_inv_inj: "tk_inv k s \<Longrightarrow> tk_ticket s i = Some w \<Longrightarrow> tk_ticket s j = Some w \<Longrightarrow> i = j"
  by (auto simp: tk_inv_def)

lemma tk_inv_onto:
  assumes "tk_inv k s" "unat (owner_ticket s) \<le> w" "w < unat (next_free_ticket s)"
  obtains i where "tk_ticket s i = Some w"
  using assms by (auto simp: tk_inv_def)

lemma tk_ticket_goto:
  "t < length (tk_pcs s) \<Longrightarrow>
   tk_ticket (tk_goto t p s) i = (if i = t then pc_ticket (owner_ticket s) p else tk_ticket s i)"
  by (simp add: tk_ticket_def tk_goto_def)

lemma tk_inv_init: "tk_inv 0 (tk_init n)"
  by (simp add: tk_inv_def tk_init_def tk_locals_def tk_ticket_def)

lemma tk_holds_ticket: "tk_holds s t \<Longrightarrow> tk_ticket s t = Some (unat (owner_ticket s))"
  by (cases "tk_pcs s ! t") (auto simp: tk_holds_def tk_ticket_def)

lemma tk_holds_unique: "tk_inv k s \<Longrightarrow> tk_holds s i \<Longrightarrow> tk_holds s j \<Longrightarrow> i = j"
  using tk_holds_ticket [of s i] tk_holds_ticket [of s j] by (auto simp: tk_inv_def)

text \<open>A step that moves a thread between program counters with the same ticket.\<close>

lemma tk_inv_same_ticket:
  assumes "tk_inv k s" "t < length (tk_pcs s)"
    "pc_ticket (owner_ticket s) p = tk_ticket s t" "tk_locals (tk_goto t p s)"
  shows "tk_inv (Suc k) (tk_goto t p s)"
proof -
  have "tk_ticket (tk_goto t p s) = tk_ticket s"
    using assms(2,3) by (auto simp: tk_ticket_goto)
  then show ?thesis using assms(1,4) by (auto simp: tk_inv_def tk_goto_def)
qed

text \<open>A step that hands out the next free ticket.\<close>

lemma tk_inv_take:
  assumes inv: "tk_inv k s" and k: "Suc k < 2 ^ 64" and t: "t < length (tk_pcs s)"
    and none: "tk_ticket s t = None"
    and p: "pc_ticket (owner_ticket s) p = Some (unat (next_free_ticket s))"
    and loc: "tk_locals (tk_goto t p (s\<lparr>next_free_ticket := next_free_ticket s + 1\<rparr>))"
  shows "tk_inv (Suc k) (tk_goto t p (s\<lparr>next_free_ticket := next_free_ticket s + 1\<rparr>))"
proof -
  let ?nx = "unat (next_free_ticket s)" and ?ow = "unat (owner_ticket s)"
  let ?s' = "tk_goto t p (s\<lparr>next_free_ticket := next_free_ticket s + 1\<rparr>)"
  have nx: "unat (next_free_ticket s + 1) = Suc ?nx"
    using inv k by (intro unat_plus_one_u64) (simp add: tk_inv_def)
  have tk: "tk_ticket ?s' i = (if i = t then Some ?nx else tk_ticket s i)" for i
    using t p by (simp add: tk_ticket_def tk_goto_def)
  have range: "?ow \<le> w \<and> w < Suc ?nx" if "tk_ticket ?s' i = Some w" for i w
  proof (cases "i = t")
    case True
    with that inv show ?thesis by (simp add: tk tk_inv_def)
  next
    case False
    with that tk_inv_range [OF inv, of i w] show ?thesis by (simp add: tk)
  qed
  have uniq: "i = j" if "tk_ticket ?s' i = Some w" "tk_ticket ?s' j = Some w" for i j w
    using that tk_inv_range [OF inv] tk_inv_inj [OF inv]
    by (fastforce simp: tk split: if_splits)
  have onto: "\<exists>i. tk_ticket ?s' i = Some w" if w: "?ow \<le> w" "w < Suc ?nx" for w
  proof (cases "w = ?nx")
    case True
    then show ?thesis by (auto simp: tk)
  next
    case False
    with w obtain i where "tk_ticket s i = Some w" by (auto elim: tk_inv_onto [OF inv])
    with none have "tk_ticket ?s' i = Some w" by (auto simp: tk)
    then show ?thesis by blast
  qed
  show ?thesis
    using inv loc range uniq onto by (auto simp: tk_inv_def tk_goto_def nx)
qed

text \<open>The release: the owner counter moves past the ticket the holder occupies.\<close>

lemma tk_inv_release:
  assumes inv: "tk_inv k s" and k: "Suc k < 2 ^ 64" and h: "tk_holds s t"
  shows "tk_inv (Suc k) (tk_goto t TkOutside (s\<lparr>owner_ticket := owner_ticket s + 1\<rparr>))"
proof -
  let ?nx = "unat (next_free_ticket s)" and ?ow = "unat (owner_ticket s)"
  let ?s' = "tk_goto t TkOutside (s\<lparr>owner_ticket := owner_ticket s + 1\<rparr>)"
  have t: "t < length (tk_pcs s)" using h by (simp add: tk_holds_def)
  have mine: "tk_ticket s t = Some ?ow" using h by (rule tk_holds_ticket)
  with inv have less: "?ow < ?nx" and nxk: "?nx \<le> k" by (auto simp: tk_inv_def)
  have ow: "unat (owner_ticket s + 1) = Suc ?ow"
    using less nxk k by (intro unat_plus_one_u64) simp
  have others: "\<not> tk_owns (tk_pcs s ! i)" if "i \<noteq> t" "i < length (tk_pcs s)" for i
    using that tk_holds_unique [OF inv h] by (auto simp: tk_holds_def)
  have tk: "tk_ticket ?s' i = (if i = t then None else tk_ticket s i)" for i
    using t others [of i]
    by (cases "tk_pcs s ! i") (auto simp: tk_ticket_def tk_goto_def nth_list_update)
  have range: "Suc ?ow \<le> w \<and> w < ?nx" if "tk_ticket ?s' i = Some w" for i w
  proof -
    from that have i: "i \<noteq> t" "tk_ticket s i = Some w" by (auto simp: tk split: if_splits)
    with inv mine have "w \<noteq> ?ow" by (auto simp: tk_inv_def)
    with i inv show ?thesis by (fastforce simp: tk_inv_def)
  qed
  have onto: "\<exists>i. tk_ticket ?s' i = Some w" if w: "Suc ?ow \<le> w" "w < ?nx" for w
  proof -
    from w obtain i where i: "tk_ticket s i = Some w"
      by (metis tk_inv_onto [OF inv] Suc_leD)
    with mine w have "i \<noteq> t" by auto
    with i show ?thesis by (auto simp: tk)
  qed
  have loc: "tk_locals ?s'"
    unfolding tk_locals_def
  proof (intro conjI allI impI)
    fix i v
    assume "i < length (tk_pcs ?s')" and v: "tk_pcs ?s' ! i = TkUnlockStore v"
    with t others [of i] show "v = owner_ticket ?s'"
      by (cases "i = t") (auto simp: tk_goto_def)
  next
    fix i c
    assume i: "i < length (tk_pcs ?s')" and c: "tk_pcs ?s' ! i = TkTryCas c"
    with t have "tk_pcs s ! i = TkTryCas c" "i < length (tk_pcs s)"
      by (cases "i = t"; auto simp: tk_goto_def)+
    with inv have "unat c \<le> ?ow" by (auto simp: tk_inv_def tk_locals_def)
    then show "unat c \<le> unat (owner_ticket ?s')" by (simp add: tk_goto_def ow)
  qed
  have uniq: "i = j" if "tk_ticket ?s' i = Some w" "tk_ticket ?s' j = Some w" for i j w
    using that tk_inv_inj [OF inv] by (auto simp: tk split: if_splits)
  have fields: "owner_ticket ?s' = owner_ticket s + 1" "next_free_ticket ?s' = next_free_ticket s"
    by (simp_all add: tk_goto_def)
  show ?thesis
    unfolding tk_inv_def fields ow using less nxk loc range uniq onto by auto
qed

lemma tk_locals_goto:
  assumes "tk_locals s" "t < length (tk_pcs s)"
    "\<And>v. p = TkUnlockStore v \<Longrightarrow> v = owner_ticket s"
    "\<And>c. p = TkTryCas c \<Longrightarrow> unat c \<le> unat (owner_ticket s)"
  shows "tk_locals (tk_goto t p (s\<lparr>next_free_ticket := x\<rparr>))" "tk_locals (tk_goto t p s)"
  using assms by (auto simp: tk_locals_def tk_goto_def nth_list_update)

lemma tk_inv_Suc: "tk_inv k s \<Longrightarrow> tk_inv (Suc k) s"
  by (auto simp: tk_inv_def)

lemma tk_inv_call:
  assumes "tk_inv k s" "tk_call t p q s = Some s'"
    "pc_ticket (owner_ticket s) q = pc_ticket (owner_ticket s) p"
    "\<And>v. q \<noteq> TkUnlockStore v" "\<And>c. q \<noteq> TkTryCas c"
  shows "tk_inv (Suc k) s'"
proof -
  from assms(2) have t: "t < length (tk_pcs s)" "tk_pcs s ! t = p" and s': "s' = tk_goto t q s"
    by (auto simp: tk_call_def split: if_splits)
  have "tk_locals (tk_goto t q s)"
    using assms t by (intro tk_locals_goto) (auto simp: tk_inv_def)
  with assms t show ?thesis unfolding s' by (intro tk_inv_same_ticket) (auto simp: tk_ticket_def)
qed

lemma tk_inv_go:
  assumes inv: "tk_inv k s" and k: "Suc k < 2 ^ 64" and step: "tk_step (Go t) s = Some s'"
  shows "tk_inv (Suc k) s'"
proof -
  have t: "t < length (tk_pcs s)" using step by (auto split: if_splits)
  have loc: "tk_locals s" using inv by (simp add: tk_inv_def)
  have ticket: "tk_ticket s t = pc_ticket (owner_ticket s) (tk_pcs s ! t)"
    using t by (simp add: tk_ticket_def)
  note moves = tk_inv_same_ticket [OF inv t] tk_locals_goto [OF loc t]
  show ?thesis
  proof (cases "tk_pcs s ! t")
    case TkFetch
    with step t have "s' = tk_goto t (TkSpin (next_free_ticket s))
        (s\<lparr>next_free_ticket := next_free_ticket s + 1\<rparr>)"
      by (simp add: TicketLock_Lock_def)
    with TkFetch ticket show ?thesis
      by (auto intro!: tk_inv_take inv k t tk_locals_goto(1) loc)
  next
    case (TkSpin w)
    show ?thesis
    proof (cases "w = owner_ticket s")
      case True
      with TkSpin step t ticket show ?thesis
        by (auto simp: TicketLock_Lock_def intro!: moves)
    next
      case False
      with TkSpin step t tk_inv_Suc [OF inv] show ?thesis
        by (auto simp: TicketLock_Lock_def)
    qed
  next
    case TkTryLoad
    with step t ticket show ?thesis
      by (auto simp: TicketLock_TryLock_def intro!: moves)
  next
    case (TkTryCas c)
    have c: "unat c \<le> unat (owner_ticket s)" using TkTryCas loc t by (auto simp: tk_locals_def)
    show ?thesis
    proof (cases "next_free_ticket s = c")
      case True
      with c inv have "unat (owner_ticket s) = unat (next_free_ticket s)"
        by (simp add: tk_inv_def)
      moreover from True TkTryCas step t have "s' = tk_goto t TkHolding
          (s\<lparr>next_free_ticket := next_free_ticket s + 1\<rparr>)"
        by (simp add: TicketLock_TryLock_def)
      ultimately show ?thesis
        using TkTryCas ticket by (auto intro!: tk_inv_take inv k t tk_locals_goto(1) loc)
    next
      case False
      with TkTryCas step t ticket show ?thesis
        by (auto simp: TicketLock_TryLock_def intro!: moves)
    qed
  next
    case TkUnlockLoad
    with step t ticket show ?thesis
      by (auto simp: TicketLock_Unlock_def intro!: moves)
  next
    case (TkUnlockStore v)
    with loc t have "v = owner_ticket s" by (auto simp: tk_locals_def)
    moreover have "tk_holds s t" using TkUnlockStore t by (simp add: tk_holds_def)
    ultimately show ?thesis
      using TkUnlockStore step t tk_inv_release [OF inv k, of t]
      by (auto simp: TicketLock_Unlock_def)
  qed (use step t in auto)
qed

lemma tk_inv_step:
  assumes "tk_inv k s" "Suc k < 2 ^ 64" "tk_step l s = Some s'"
  shows "tk_inv (Suc k) s'"
proof (cases l)
  case (Go t)
  with assms show ?thesis by (blast intro: tk_inv_go)
qed (use assms in \<open>auto intro!: tk_inv_call [OF assms(1)]\<close>)

interpretation ticket:
  bounded_exclusive_lock tk_step "tk_init n" tk_inv "2 ^ 64" tk_holds for n
  by unfold_locales (fact tk_inv_init, fact tk_inv_step, fact tk_holds_unique)

section \<open>Properties\<close>

lemmas tk_eval = tk_init_def tk_call_def tk_goto_def TicketLock_Lock_def
  TicketLock_TryLock_def TicketLock_Unlock_def

text \<open>C8: The ticket lock under any interleaving of \<open>Lock\<close>, \<open>TryLock\<close> and \<open>Unlock\<close> by any number of threads, for every schedule of
  fewer than \<open>2 ^ 64\<close> atomic operations: two threads never hold the lock together, and it is handed over in the order in
  which tickets were taken: when a spinning thread's step makes it the holder, nobody held the lock and no other spinning thread
  has an older ticket.\<close>

theorem TicketLock_exclusive_and_fifo:
  assumes "run tk_step ls (tk_init n) = Some s" and "length ls < 2 ^ 64"
  shows "(\<forall>i j. tk_holds s i \<and> tk_holds s j \<longrightarrow> i = j) \<and>
    (\<forall>i a s'. i < length (tk_pcs s) \<and> tk_pcs s ! i = TkSpin a \<and> tk_step (Go i) s = Some s' \<and> tk_holds s' i \<longrightarrow>
       (\<forall>j b. j < length (tk_pcs s) \<longrightarrow> tk_pcs s ! j = TkSpin b \<longrightarrow> unat a \<le> unat b) \<and> (\<forall>j. \<not> tk_holds s j))"
proof (intro conjI allI impI)
  have inv: "tk_inv (length ls) s" using assms by (rule ticket.binv_run)
  show "i = j" if "tk_holds s i \<and> tk_holds s j" for i j
    using ticket.bounded_mutual_exclusion [OF assms] that by blast
  fix i a s' j
  assume h: "i < length (tk_pcs s) \<and> tk_pcs s ! i = TkSpin a \<and> tk_step (Go i) s = Some s' \<and> tk_holds s' i"
  then have a: "a = owner_ticket s" by (auto simp: TicketLock_Lock_def tk_holds_def split: if_splits)
  show "unat a \<le> unat b" if "j < length (tk_pcs s)" "tk_pcs s ! j = TkSpin b" for b
    using that tk_inv_range [OF inv, of j "unat b"] a by (simp add: tk_ticket_def)
  have i: "tk_ticket s i = Some (unat (owner_ticket s))" using h a by (simp add: tk_ticket_def)
  show "\<not> tk_holds s j"
  proof
    assume "tk_holds s j"
    with i have "i = j" by (blast intro: tk_inv_inj [OF inv] tk_holds_ticket)
    with \<open>tk_holds s j\<close> h show False by (simp add: tk_holds_def)
  qed
qed

theorem TicketLock_exclusive_and_fifo_witness:
  "\<exists>s s'. run tk_step [CallLock 0, Go 0, CallLock 1, Go 1] (tk_init 2) = Some s
     \<and> tk_step (Go 0) s = Some s' \<and> tk_holds s' 0
     \<and> (\<forall>j b. j < length (tk_pcs s) \<longrightarrow> tk_pcs s ! j = TkSpin b \<longrightarrow> unat (0::size_t) \<le> unat b)
     \<and> (\<forall>j. \<not> tk_holds s j)"
proof -
  let ?ls = "[CallLock 0, Go 0, CallLock 1, Go 1]"
  let ?s = "\<lparr>next_free_ticket = 2, owner_ticket = 0, tk_pcs = [TkSpin 0, TkSpin 1]\<rparr>"
  let ?s' = "\<lparr>next_free_ticket = 2, owner_ticket = 0, tk_pcs = [TkHolding, TkSpin 1]\<rparr>"
  have r: "run tk_step ?ls (tk_init 2) = Some ?s"
    by (simp add: tk_eval numeral_2_eq_2)
  have st: "tk_step (Go 0) ?s = Some ?s'" by (simp add: tk_eval)
  have h: "tk_holds ?s' 0" by (simp add: tk_holds_def)
  from TicketLock_exclusive_and_fifo [OF r] r st h show ?thesis by fastforce
qed

text \<open>\<open>TryLock\<close> is exact at its compare-exchange: it acquires the lock if and only if no
  thread holds it or waits for it at that moment and the owner ticket it loaded is current;
  otherwise it leaves the lock untouched.\<close>

theorem TicketLock_TryLock_exact:
  assumes "run tk_step ls (tk_init n) = Some s" and "length ls < 2 ^ 64"
    and "t < length (tk_pcs s)" and "tk_pcs s ! t = TkTryCas c"
    and "tk_step (Go t) s = Some s'"
  shows "(tk_holds s' t \<longleftrightarrow> c = owner_ticket s \<and> (\<forall>i. tk_ticket s i = None))
    \<and> (\<not> tk_holds s' t \<longrightarrow> s' = tk_goto t TkOutside s)"
proof -
  have inv: "tk_inv (length ls) s" using assms(1,2) by (rule ticket.binv_run)
  have le: "unat c \<le> unat (owner_ticket s)"
    using inv assms(3,4) by (auto simp: tk_inv_def tk_locals_def)
  have ord: "unat (owner_ticket s) \<le> unat (next_free_ticket s)"
    using inv by (simp add: tk_inv_def)
  have free: "(\<forall>i. tk_ticket s i = None) \<longleftrightarrow> owner_ticket s = next_free_ticket s"
  proof
    assume none: "\<forall>i. tk_ticket s i = None"
    have "\<not> unat (owner_ticket s) < unat (next_free_ticket s)"
      using none tk_inv_onto [OF inv order.refl] by fastforce
    with ord show "owner_ticket s = next_free_ticket s" by (simp add: word_unat_eq_iff)
  next
    assume "owner_ticket s = next_free_ticket s"
    then show "\<forall>i. tk_ticket s i = None"
      using tk_inv_range [OF inv] by (metis not_None_eq not_le order.strict_iff_not)
  qed
  have "next_free_ticket s = c \<longleftrightarrow> c = owner_ticket s \<and> owner_ticket s = next_free_ticket s"
    using le ord by (auto simp: word_unat_eq_iff)
  then show ?thesis
    using assms(3-5) free
    by (auto simp: TicketLock_TryLock_def tk_holds_def tk_goto_def split: if_splits)
qed

theorem TicketLock_TryLock_exact_witness:
  "\<exists>s s'. run tk_step [CallTryLock 0, Go 0] (tk_init 1) = Some s
     \<and> tk_step (Go 0) s = Some s' \<and> tk_holds s' 0 \<and> (\<forall>i. tk_ticket s i = None)"
proof -
  let ?s = "\<lparr>next_free_ticket = 0, owner_ticket = 0, tk_pcs = [TkTryCas 0]\<rparr>"
  let ?s' = "\<lparr>next_free_ticket = 1, owner_ticket = 0, tk_pcs = [TkHolding]\<rparr>"
  have r: "run tk_step [CallTryLock 0, Go 0] (tk_init 1) = Some ?s" by (simp add: tk_eval)
  have st: "tk_step (Go 0) ?s = Some ?s'" by (simp add: tk_eval)
  have "tk_holds ?s' 0" by (simp add: tk_holds_def)
  with TicketLock_TryLock_exact [OF r _ _ _ st, of 0] r st show ?thesis by auto
qed

text \<open>The ticket lock never gets stuck: as long as some thread is spinning in \<open>Lock\<close>,
  either a thread holds the lock or some spinning thread acquires it with its very next
  step.\<close>

theorem TicketLock_progress:
  assumes "run tk_step ls (tk_init n) = Some s" and "length ls < 2 ^ 64"
    and "i < length (tk_pcs s)" and "tk_pcs s ! i = TkSpin a"
  shows "(\<exists>t. tk_holds s t) \<or>
    (\<exists>t w s'. tk_pcs s ! t = TkSpin w \<and> tk_step (Go t) s = Some s' \<and> tk_holds s' t)"
proof -
  have inv: "tk_inv (length ls) s" using assms(1,2) by (rule ticket.binv_run)
  have "tk_ticket s i = Some (unat a)" using assms(3,4) by (simp add: tk_ticket_def)
  with inv have "unat (owner_ticket s) < unat (next_free_ticket s)"
    using tk_inv_range [OF inv] by fastforce
  then obtain t where t: "tk_ticket s t = Some (unat (owner_ticket s))"
    by (auto elim: tk_inv_onto [OF inv order.refl])
  then have len: "t < length (tk_pcs s)" by (auto simp: tk_ticket_def split: if_splits)
  show ?thesis
  proof (cases "tk_holds s t")
    case False
    with t len obtain w where "tk_pcs s ! t = TkSpin w" "w = owner_ticket s"
      by (cases "tk_pcs s ! t") (auto simp: tk_holds_def tk_ticket_def word_unat_eq_iff)
    with len show ?thesis by (auto simp: TicketLock_Lock_def tk_holds_def tk_goto_def)
  qed blast
qed

theorem TicketLock_progress_witness:
  "\<exists>s. run tk_step [CallLock 0, Go 0] (tk_init 1) = Some s \<and> tk_pcs s ! 0 = TkSpin 0 \<and>
     ((\<exists>t. tk_holds s t) \<or>
      (\<exists>t w s'. tk_pcs s ! t = TkSpin w \<and> tk_step (Go t) s = Some s' \<and> tk_holds s' t))"
proof -
  let ?s = "\<lparr>next_free_ticket = 1, owner_ticket = 0, tk_pcs = [TkSpin 0]\<rparr>"
  have r: "run tk_step [CallLock 0, Go 0] (tk_init 1) = Some ?s" by (simp add: tk_eval)
  from TicketLock_progress [OF r, of 0 0] r show ?thesis by fastforce
qed

end
