(* ===== verification/Futex_Mutex.thy ===== *)
theory Futex_Mutex
  imports Prelude
begin

text \<open>
  The futex mutex of \<^verbatim>\<open>mutex/mutex/mutex.hpp\<close>: a 32-bit state word, a 32-bit counter of
  waiting threads, and the blocking \<open>wait\<close> and \<open>notify_one\<close> of the atomic state word.
  \<open>state_.wait(LOCKED)\<close> compares and parks in one atomic operation; a woken thread (also a
  spuriously woken one) compares again before \<open>wait\<close> returns.
\<close>

section \<open>Model\<close>

datatype mx_pc =
    MxOutside
  | MxExchange       \<comment> \<open>\<open>Lock\<close>: before the first \<open>state_.exchange(LOCKED)\<close>\<close>
  | MxCounterUp      \<comment> \<open>\<open>Lock\<close>: before \<open>waiting_counter_.fetch_add(1)\<close>\<close>
  | MxWait           \<comment> \<open>\<open>Lock\<close>: in \<open>state_.wait(LOCKED)\<close>, before its comparison\<close>
  | MxParked         \<comment> \<open>\<open>Lock\<close>: asleep in \<open>state_.wait(LOCKED)\<close>\<close>
  | MxRetry          \<comment> \<open>\<open>Lock\<close>: before the exchange of the loop condition\<close>
  | MxCounterDown    \<comment> \<open>\<open>Lock\<close>: before \<open>waiting_counter_.fetch_sub(1)\<close>\<close>
  | MxHolding
  | MxStore          \<comment> \<open>\<open>Unlock\<close>: before \<open>state_.store(UNLOCKED)\<close>\<close>
  | MxCheck          \<comment> \<open>\<open>Unlock\<close>: before reading \<open>waiting_counter_\<close>\<close>
  | MxNotify         \<comment> \<open>\<open>Unlock\<close>: before \<open>state_.notify_one()\<close>\<close>

datatype mx_label =
    MxCallLock tid
  | MxCallUnlock tid
  | MxGo tid
  | MxGoNotify tid "tid option"   \<comment> \<open>\<open>notify_one\<close> by a thread, with the thread it wakes\<close>
  | MxSpurious tid

record futex_mutex =
  mx_state :: u32
  waiting_counter :: u32
  mx_pcs :: "mx_pc list"

definition UNLOCKED :: u32 where "UNLOCKED = 0"
definition LOCKED :: u32 where "LOCKED = 1"

definition mx_init :: "nat \<Rightarrow> futex_mutex" where
  "mx_init n = \<lparr>mx_state = UNLOCKED, waiting_counter = 0, mx_pcs = replicate n MxOutside\<rparr>"

definition mx_goto :: "tid \<Rightarrow> mx_pc \<Rightarrow> futex_mutex \<Rightarrow> futex_mutex" where
  "mx_goto t p s = s\<lparr>mx_pcs := (mx_pcs s)[t := p]\<rparr>"

fun mx_wake :: "mx_pc \<Rightarrow> mx_pc option" where
  "mx_wake MxParked = Some MxWait"
| "mx_wake _ = None"

definition Mutex_Lock :: "tid \<Rightarrow> futex_mutex \<Rightarrow> futex_mutex option" where
  "Mutex_Lock t s =
     (case mx_pcs s ! t of
        MxExchange \<Rightarrow>
          Some (mx_goto t (if mx_state s = 0 then MxHolding else MxCounterUp)
                  (s\<lparr>mx_state := LOCKED\<rparr>))
      | MxCounterUp \<Rightarrow>
          Some (mx_goto t MxWait (s\<lparr>waiting_counter := waiting_counter s + 1\<rparr>))
      | MxWait \<Rightarrow> Some (mx_goto t (if mx_state s = LOCKED then MxParked else MxRetry) s)
      | MxRetry \<Rightarrow>
          Some (mx_goto t (if mx_state s \<noteq> 0 then MxWait else MxCounterDown)
                  (s\<lparr>mx_state := LOCKED\<rparr>))
      | MxCounterDown \<Rightarrow>
          Some (mx_goto t MxHolding (s\<lparr>waiting_counter := waiting_counter s - 1\<rparr>))
      | _ \<Rightarrow> None)"

definition Mutex_Unlock :: "tid \<Rightarrow> tid option \<Rightarrow> futex_mutex \<Rightarrow> futex_mutex option" where
  "Mutex_Unlock t woken s =
     (case mx_pcs s ! t of
        MxStore \<Rightarrow> Some (mx_goto t MxCheck (s\<lparr>mx_state := UNLOCKED\<rparr>))
      | MxCheck \<Rightarrow> Some (mx_goto t (if waiting_counter s > 0 then MxNotify else MxOutside) s)
      | MxNotify \<Rightarrow>
          map_option (\<lambda>pcs. s\<lparr>mx_pcs := pcs\<rparr>)
            (notify_one mx_wake woken ((mx_pcs s)[t := MxOutside]))
      | _ \<Rightarrow> None)"

fun mx_step :: "mx_label \<Rightarrow> futex_mutex \<Rightarrow> futex_mutex option" where
  "mx_step (MxCallLock t) s =
     (if t < length (mx_pcs s) \<and> mx_pcs s ! t = MxOutside
      then Some (mx_goto t MxExchange s) else None)"
| "mx_step (MxCallUnlock t) s =
     (if t < length (mx_pcs s) \<and> mx_pcs s ! t = MxHolding
      then Some (mx_goto t MxStore s) else None)"
| "mx_step (MxGo t) s =
     (if t < length (mx_pcs s) then
        (if mx_pcs s ! t \<in> {MxStore, MxCheck} then Mutex_Unlock t None s else Mutex_Lock t s)
      else None)"
| "mx_step (MxGoNotify t woken) s =
     (if t < length (mx_pcs s) \<and> mx_pcs s ! t = MxNotify
      then Mutex_Unlock t woken s else None)"
| "mx_step (MxSpurious t) s =
     (if t < length (mx_pcs s) \<and> mx_pcs s ! t = MxParked
      then Some (mx_goto t MxWait s) else None)"

section \<open>Invariant\<close>

definition mx_owns :: "mx_pc \<Rightarrow> bool" where
  "mx_owns p \<longleftrightarrow> p \<in> {MxCounterDown, MxHolding, MxStore}"

definition mx_counted :: "mx_pc \<Rightarrow> bool" where
  "mx_counted p \<longleftrightarrow> p \<in> {MxWait, MxParked, MxRetry, MxCounterDown}"

text \<open>A thread that will look at the state word again, or that will wake one that sleeps.\<close>

definition mx_rescuer :: "mx_pc \<Rightarrow> bool" where
  "mx_rescuer p \<longleftrightarrow> p \<in> {MxCounterDown, MxHolding, MxStore, MxCheck, MxNotify, MxWait, MxRetry}"

abbreviation mx_parked :: "mx_pc \<Rightarrow> bool" where
  "mx_parked p \<equiv> p = MxParked"

definition mx_holds :: "futex_mutex \<Rightarrow> tid \<Rightarrow> bool" where
  "mx_holds s t \<longleftrightarrow> t < length (mx_pcs s) \<and> mx_pcs s ! t \<in> {MxHolding, MxStore}"

definition mx_inv :: "nat \<Rightarrow> futex_mutex \<Rightarrow> bool" where
  "mx_inv n s \<longleftrightarrow>
     length (mx_pcs s) = n \<and>
     mx_state s \<in> {0, 1} \<and>
     cnt mx_owns (mx_pcs s) = (if mx_state s = 0 then 0 else 1) \<and>
     waiting_counter s = of_nat (cnt mx_counted (mx_pcs s)) \<and>
     (n < 2 ^ 32 \<longrightarrow> 0 < cnt mx_parked (mx_pcs s) \<longrightarrow> 0 < cnt mx_rescuer (mx_pcs s))"

lemmas mx_pc_defs = mx_owns_def mx_counted_def mx_rescuer_def

lemmas mx_defs = Mutex_Lock_def Mutex_Unlock_def mx_goto_def UNLOCKED_def LOCKED_def

lemma mx_inv_init: "mx_inv n (mx_init n)"
  by (simp add: mx_inv_def mx_init_def UNLOCKED_def mx_pc_defs)

text \<open>One thread moves from \<open>p\<close> to \<open>q\<close>: what the move must do to the two words, and why
  a sleeping thread keeps somebody who will wake it.\<close>

lemma mx_inv_move:
  assumes inv: "mx_inv n s" and t: "t < n" and p: "mx_pcs s ! t = p"
    and s': "mx_pcs s' = (mx_pcs s)[t := q]"
    and st: "mx_state s' \<in> {0, 1}"
    and own: "(if mx_state s' = 0 then 0 else 1) + of_bool (mx_owns p)
      = (if mx_state s = 0 then 0 else (1::nat)) + of_bool (mx_owns q)"
    and wc: "waiting_counter s' + of_bool (mx_counted p)
      = waiting_counter s + of_bool (mx_counted q)"
    and res: "n < 2 ^ 32 \<Longrightarrow> mx_rescuer q \<or> (\<not> mx_rescuer p \<and> q \<noteq> MxParked)
      \<or> mx_state s' \<noteq> 0 \<or> (cnt mx_parked (mx_pcs s) = 0 \<and> q \<noteq> MxParked)
      \<or> 2 \<le> cnt mx_rescuer (mx_pcs s)"
  shows "mx_inv n s'"
proof -
  let ?ps = "mx_pcs s" and ?qs = "(mx_pcs s)[t := q]"
  have len: "t < length ?ps" using inv t by (simp add: mx_inv_def)
  note upd = cnt_update [OF len, of _ q, unfolded p]
  have o: "cnt mx_owns ?qs = (if mx_state s' = 0 then 0 else 1)"
    using upd [of mx_owns] own inv by (auto simp: mx_inv_def split: if_splits)
  have "of_nat (cnt mx_counted ?qs + of_bool (mx_counted p))
      = (of_nat (cnt mx_counted ?ps + of_bool (mx_counted q)) :: u32)"
    by (simp only: upd [of mx_counted])
  then have "of_nat (cnt mx_counted ?qs) + of_bool (mx_counted p)
      = waiting_counter s + of_bool (mx_counted q)"
    using inv by (simp add: mx_inv_def)
  with wc have w: "waiting_counter s' = of_nat (cnt mx_counted ?qs)" by (metis add_right_cancel)
  have "cnt mx_owns ?qs \<le> cnt mx_rescuer ?qs" by (rule cnt_mono) (auto simp: mx_pc_defs)
  moreover have "mx_rescuer q \<Longrightarrow> 0 < cnt mx_rescuer ?qs"
    using len by (intro cnt_posI [of t]) auto
  ultimately have "n < 2 ^ 32 \<longrightarrow> 0 < cnt mx_parked ?qs \<longrightarrow> 0 < cnt mx_rescuer ?qs"
    using res upd [of mx_parked] upd [of mx_rescuer] o inv
    by (auto simp: mx_inv_def of_bool_def split: if_splits)
  with o w st inv s' show ?thesis by (simp add: mx_inv_def)
qed

lemma mx_counted_small:
  assumes "mx_inv n s" "n < 2 ^ 32" "waiting_counter s = 0"
  shows "cnt mx_parked (mx_pcs s) = 0"
proof -
  have "cnt mx_counted (mx_pcs s) < 2 ^ 32"
    using assms cnt_le_length [of mx_counted "mx_pcs s"] by (simp add: mx_inv_def)
  then have "cnt mx_counted (mx_pcs s) = 0"
    using assms by (auto simp: mx_inv_def word_of_nat_eq_0_iff dest: nat_dvd_not_less)
  moreover have "cnt mx_parked (mx_pcs s) \<le> cnt mx_counted (mx_pcs s)"
    by (rule cnt_mono) (simp add: mx_counted_def)
  ultimately show ?thesis by simp
qed

lemma mx_inv_notify:
  assumes inv: "mx_inv n s" and t: "t < n" "mx_pcs s ! t = MxNotify"
    and step: "Mutex_Unlock t c s = Some s'"
  shows "mx_inv n s'"
proof -
  have len: "length (mx_pcs s) = n" and st: "mx_state s \<in> {0, 1}"
    using inv by (simp_all add: mx_inv_def)
  from step t obtain pcs where pcs: "notify_one mx_wake c ((mx_pcs s)[t := MxOutside]) = Some pcs"
    and s': "s' = s\<lparr>mx_pcs := pcs\<rparr>"
    by (auto simp: Mutex_Unlock_def)
  from pcs show ?thesis
  proof (cases rule: notify_one_cases)
    case none
    have "(\<lambda>p. mx_wake p \<noteq> None) = mx_parked" by (rule ext, rename_tac p, case_tac p) auto
    with none(2) cnt_update [of t "mx_pcs s" mx_parked MxOutside] t len
    have "cnt mx_parked (mx_pcs s) = 0" by simp
    then show ?thesis
      using none(1) s' st by (intro mx_inv_move [OF inv t]) (auto simp: mx_pc_defs)
  next
    case (one w p)
    have w: "w \<noteq> t" "w < n" using one(1,2) len by (auto simp: nth_list_update split: if_splits)
    then have wp: "mx_pcs s ! w = MxParked" "p = MxWait"
      using one(2) by (cases "mx_pcs s ! w"; simp)+
    let ?m = "s\<lparr>mx_pcs := (mx_pcs s)[w := MxWait]\<rparr>"
    have m: "mx_inv n ?m"
      using st wp by (intro mx_inv_move [OF inv w(2), of _ ?m MxWait]) (auto simp: mx_pc_defs)
    have "2 \<le> cnt mx_rescuer (mx_pcs ?m)"
      using w t len by (intro cnt_two [of t _ w]) (auto simp: mx_pc_defs)
    moreover have "mx_pcs s' = (mx_pcs ?m)[t := MxOutside]"
      using one(3) wp(2) w s' by (simp add: list_update_swap)
    ultimately show ?thesis
      using st w t s' by (intro mx_inv_move [OF m t(1) refl, of s' MxOutside]) (auto simp: mx_pc_defs)
  qed
qed

lemma mx_inv_step:
  assumes inv: "mx_inv n s" and step: "mx_step l s = Some s'"
  shows "mx_inv n s'"
proof -
  have st: "mx_state s = 0 \<or> mx_state s = 1" and len: "length (mx_pcs s) = n"
    using inv by (auto simp: mx_inv_def)
  note move = mx_inv_move [OF inv _ refl]
  show ?thesis
  proof (cases l)
    case (MxGoNotify t c)
    with step len mx_inv_notify [OF inv, of t c s'] show ?thesis by (auto split: if_splits)
  next
    case (MxGo t)
    with step have t: "t < n" using len by (auto split: if_splits)
    have own: "mx_state s = 1" if "mx_owns (mx_pcs s ! t)"
      using that st inv t len cnt_posI [of t "mx_pcs s" mx_owns] by (auto simp: mx_inv_def)
    show ?thesis
      using step MxGo t st own mx_counted_small [OF inv]
      by (cases "mx_pcs s ! t") (auto simp: len mx_defs mx_pc_defs word_gt_0 split: if_splits intro!: move)
  qed (use step st in \<open>auto simp: len mx_defs mx_pc_defs split: if_splits intro!: move\<close>)
qed

lemma mx_holds_unique: "mx_inv n s \<Longrightarrow> mx_holds s i \<Longrightarrow> mx_holds s j \<Longrightarrow> i = j"
  by (rule cnt_le_one_unique [of mx_owns "mx_pcs s"])
    (auto simp: mx_inv_def mx_holds_def mx_owns_def)

interpretation mx: exclusive_lock mx_step "mx_init n" "mx_inv n" mx_holds for n
  by unfold_locales (fact mx_inv_init, fact mx_inv_step, fact mx_holds_unique)

section \<open>Properties\<close>

text \<open>C18: Mutual exclusion of the futex mutex: under every interleaving of \<open>Lock\<close> and
  \<open>Unlock\<close>, with every choice of woken threads and with spurious wake-ups, two threads
  never hold the mutex together.\<close>

theorem Mutex_mutual_exclusion:
  assumes "reachable mx_step (mx_init n) s" and "mx_holds s i" and "mx_holds s j"
  shows "i = j"
  using assms by (rule mx.mutual_exclusion)

lemmas mx_eval = mx_init_def mx_defs

theorem Mutex_mutual_exclusion_witness:
  "\<exists>s. reachable mx_step (mx_init 2) s \<and> mx_holds s 0 \<and> \<not> mx_holds s 1"
proof -
  obtain s where s: "run mx_step [MxCallLock 0, MxGo 0, MxCallLock 1, MxGo 1, MxGo 1, MxGo 1]
      (mx_init 2) = Some s" and h: "mx_holds s 0"
    by (simp add: mx_eval mx_holds_def)
  have r: "reachable mx_step (mx_init 2) s" using s by (rule run_reachable)
  have "\<not> mx_holds s 1" using Mutex_mutual_exclusion [OF r h, of 1] by auto
  with r h show ?thesis by blast
qed

text \<open>C19: No lost wake-up in the futex mutex (fewer than \<open>2 ^ 32\<close> threads): whenever a thread
  sleeps in \<open>state_.wait\<close>, some other thread is awake that holds the mutex, is still in
  \<open>Unlock\<close> ahead of its notification, or is about to compare the state again; the
  system is never asleep as a whole. Moreover the counter equals the number of threads
  between \<open>fetch_add\<close> and \<open>fetch_sub\<close>.\<close>

theorem Mutex_no_lost_wakeup:
  assumes "reachable mx_step (mx_init n) s" and "n < 2 ^ 32"
    and "i < length (mx_pcs s)" and "mx_pcs s ! i = MxParked"
  shows "(\<exists>t < length (mx_pcs s). mx_rescuer (mx_pcs s ! t) \<and> t \<noteq> i)
    \<and> unat (waiting_counter s) = cnt mx_counted (mx_pcs s)"
proof -
  have inv: "mx_inv n s" using assms(1) by (rule mx.inv_reachable)
  have "0 < cnt mx_parked (mx_pcs s)" using assms(3,4) by (intro cnt_posI [of i]) auto
  with inv assms(2) have "0 < cnt mx_rescuer (mx_pcs s)" by (simp add: mx_inv_def)
  then obtain t where t: "t < length (mx_pcs s)" "mx_rescuer (mx_pcs s ! t)"
    by (auto simp: cnt_pos_iff)
  with assms(4) have "t \<noteq> i" by (auto simp: mx_rescuer_def)
  moreover have "cnt mx_counted (mx_pcs s) < 2 ^ 32"
    using inv assms(2) cnt_le_length [of mx_counted "mx_pcs s"] by (simp add: mx_inv_def)
  then have "unat (waiting_counter s) = cnt mx_counted (mx_pcs s)"
    using inv by (simp add: mx_inv_def unat_of_nat take_bit_nat_eq_self)
  ultimately show ?thesis using t by blast
qed

theorem Mutex_no_lost_wakeup_witness:
  "\<exists>s. reachable mx_step (mx_init 2) s \<and> mx_pcs s ! 1 = MxParked \<and>
     (\<exists>t < length (mx_pcs s). mx_rescuer (mx_pcs s ! t) \<and> t \<noteq> 1)
     \<and> unat (waiting_counter s) = cnt mx_counted (mx_pcs s)"
proof -
  obtain s where s: "run mx_step [MxCallLock 0, MxGo 0, MxCallLock 1, MxGo 1, MxGo 1, MxGo 1]
      (mx_init 2) = Some s" and p: "mx_pcs s ! 1 = MxParked" "1 < length (mx_pcs s)"
    by (simp add: mx_eval)
  have r: "reachable mx_step (mx_init 2) s" using s by (rule run_reachable)
  from Mutex_no_lost_wakeup [OF r _ p(2,1)] r p(1) show ?thesis by auto
qed

end
