(* ===== verification/Semaphore.thy ===== *)
theory Semaphore
  imports Prelude
begin

text \<open>
  The counting semaphore of \<^verbatim>\<open>condvar/semaphore/semaphore.hpp\<close>. A critical section under
  the (standard) mutex is one step. \<open>Acquire\<close> takes the mutex and evaluates the predicate
  of \<open>enough_tokens_.wait\<close>: if it fails, the thread parks and gives up the mutex in the
  same step; a woken thread takes the mutex again and re-evaluates it.
\<close>

section \<open>Model\<close>

record semaphore =
  current_number :: size_t

definition Semaphore_ctor :: "size_t \<Rightarrow> semaphore" where
  "Semaphore_ctor initial = \<lparr>current_number = initial\<rparr>"

text \<open>The critical section of \<open>Acquire\<close>; \<open>None\<close> when the predicate fails and it waits.\<close>

definition Semaphore_Acquire :: "semaphore \<Rightarrow> semaphore option" where
  "Semaphore_Acquire s =
     (if current_number s > 0 then Some (s\<lparr>current_number := current_number s - 1\<rparr>) else None)"

definition Semaphore_Release :: "semaphore \<Rightarrow> semaphore" where
  "Semaphore_Release s = s\<lparr>current_number := current_number s + 1\<rparr>"

datatype sem_pc =
    SemOutside
  | SemEntry              \<comment> \<open>in \<open>Acquire\<close>, before taking the mutex\<close>
  | SemParked             \<comment> \<open>asleep in \<open>enough_tokens_.wait\<close>\<close>
  | SemWoken              \<comment> \<open>woken, before taking the mutex again\<close>

datatype sem_label =
    SemCallAcquire tid
  | SemGo tid
  | SemRelease tid "tid option"   \<comment> \<open>\<open>Release\<close>, with the thread its \<open>notify_one\<close> wakes\<close>
  | SemSpurious tid

text \<open>\<open>acquired\<close> and \<open>released\<close> are history: the numbers of calls that have taken effect.\<close>

record sem_system =
  sem :: semaphore
  sem_pcs :: "sem_pc list"
  acquired :: nat
  released :: nat

definition sem_init :: "size_t \<Rightarrow> nat \<Rightarrow> sem_system" where
  "sem_init initial n =
     \<lparr>sem = Semaphore_ctor initial, sem_pcs = replicate n SemOutside, acquired = 0, released = 0\<rparr>"

fun sem_wake :: "sem_pc \<Rightarrow> sem_pc option" where
  "sem_wake SemParked = Some SemWoken"
| "sem_wake _ = None"

definition sem_acquire_step :: "tid \<Rightarrow> sem_system \<Rightarrow> sem_system" where
  "sem_acquire_step t s =
     (case Semaphore_Acquire (sem s) of
        None \<Rightarrow> s\<lparr>sem_pcs := (sem_pcs s)[t := SemParked]\<rparr>
      | Some q \<Rightarrow> s\<lparr>sem := q, sem_pcs := (sem_pcs s)[t := SemOutside],
                   acquired := Suc (acquired s)\<rparr>)"

fun sem_step :: "sem_label \<Rightarrow> sem_system \<Rightarrow> sem_system option" where
  "sem_step (SemCallAcquire t) s =
     (if t < length (sem_pcs s) \<and> sem_pcs s ! t = SemOutside
      then Some (s\<lparr>sem_pcs := (sem_pcs s)[t := SemEntry]\<rparr>) else None)"
| "sem_step (SemGo t) s =
     (if t < length (sem_pcs s) \<and> sem_pcs s ! t \<in> {SemEntry, SemWoken}
      then Some (sem_acquire_step t s) else None)"
| "sem_step (SemRelease t woken) s =
     (if t < length (sem_pcs s) \<and> sem_pcs s ! t = SemOutside
      then map_option (\<lambda>pcs. s\<lparr>sem := Semaphore_Release (sem s), sem_pcs := pcs,
                               released := Suc (released s)\<rparr>)
             (notify_one sem_wake woken (sem_pcs s))
      else None)"
| "sem_step (SemSpurious t) s =
     (if t < length (sem_pcs s) \<and> sem_pcs s ! t = SemParked
      then Some (s\<lparr>sem_pcs := (sem_pcs s)[t := SemWoken]\<rparr>) else None)"

section \<open>Invariant\<close>

abbreviation sem_parked :: "sem_pc \<Rightarrow> bool" where
  "sem_parked p \<equiv> p = SemParked"

abbreviation sem_woken :: "sem_pc \<Rightarrow> bool" where
  "sem_woken p \<equiv> p = SemWoken"

text \<open>
  Permits are conserved, and a thread sleeps only if at least as many threads are already
  woken as there are permits.
\<close>

definition sem_inv :: "size_t \<Rightarrow> nat \<Rightarrow> sem_system \<Rightarrow> bool" where
  "sem_inv initial k s \<longleftrightarrow>
     unat (current_number (sem s)) + acquired s = unat initial + released s \<and>
     released s \<le> k \<and>
     (cnt sem_parked (sem_pcs s) = 0 \<or>
      unat (current_number (sem s)) \<le> cnt sem_woken (sem_pcs s))"

lemma sem_inv_init: "sem_inv i 0 (sem_init i n)"
  by (simp add: sem_inv_def sem_init_def Semaphore_ctor_def)

lemma Semaphore_Acquire_iff:
  "Semaphore_Acquire q = Some q' \<longleftrightarrow>
     0 < unat (current_number q) \<and> q' = q\<lparr>current_number := current_number q - 1\<rparr>"
  by (auto simp: Semaphore_Acquire_def word_gt_0 unat_gt_0)

lemma Semaphore_Acquire_None: "Semaphore_Acquire q = None \<longleftrightarrow> current_number q = 0"
  by (auto simp: Semaphore_Acquire_def word_gt_0)

lemma sem_inv_acquire:
  assumes "sem_inv i k s" "t < length (sem_pcs s)" "sem_pcs s ! t \<in> {SemEntry, SemWoken}"
  shows "sem_inv i (Suc k) (sem_acquire_step t s)"
proof (cases "Semaphore_Acquire (sem s)")
  case None
  then have "current_number (sem s) = 0" by (simp add: Semaphore_Acquire_None)
  with assms None show ?thesis by (auto simp: sem_acquire_step_def sem_inv_def)
next
  case (Some q)
  then have q: "0 < unat (current_number (sem s))"
    "q = (sem s)\<lparr>current_number := current_number (sem s) - 1\<rparr>"
    by (simp_all add: Semaphore_Acquire_iff)
  with assms Some show ?thesis
    by (auto simp: sem_acquire_step_def sem_inv_def cnt_update_eq unat_minus_one_u64)
qed

lemma sem_inv_release:
  assumes inv: "sem_inv i k s" and k: "Suc k < 2 ^ 64 - unat i"
    and n: "notify_one sem_wake c (sem_pcs s) = Some pcs"
  shows "sem_inv i (Suc k) (s\<lparr>sem := Semaphore_Release (sem s), sem_pcs := pcs,
    released := Suc (released s)\<rparr>)"
proof -
  have "unat (current_number (sem s) + 1) = Suc (unat (current_number (sem s)))"
    using inv k by (intro unat_plus_one_u64) (auto simp: sem_inv_def)
  note cur = this
  from n show ?thesis
  proof (cases rule: notify_one_cases)
    case none
    have "(\<lambda>p. sem_wake p \<noteq> None) = sem_parked" by (rule ext, rename_tac p, case_tac p) auto
    with none inv show ?thesis by (simp add: sem_inv_def Semaphore_Release_def cur)
  next
    case (one w p)
    then have "sem_pcs s ! w = SemParked" "p = SemWoken" by (cases "sem_pcs s ! w"; simp)+
    with one inv show ?thesis
      by (auto simp: sem_inv_def Semaphore_Release_def cur cnt_update_eq)
  qed
qed

lemma sem_inv_step:
  assumes "sem_inv i k s" "Suc k < 2 ^ 64 - unat i" "sem_step l s = Some s'"
  shows "sem_inv i (Suc k) s'"
proof (cases l)
  case (SemGo t)
  with assms show ?thesis by (auto intro: sem_inv_acquire split: if_splits)
next
  case (SemRelease t c)
  with assms show ?thesis by (auto intro!: sem_inv_release split: if_splits)
qed (use assms in \<open>auto simp: sem_inv_def cnt_update_eq split: if_splits\<close>)

interpretation sema:
  bounded_invariant_system sem_step "sem_init i n" "sem_inv i" "2 ^ 64 - unat i" for i n
  by unfold_locales (fact sem_inv_init, fact sem_inv_step)

section \<open>Interface for clients\<close>

text \<open>
  What a client such as the blocking queue relies on: the atomic effect of \<open>Acquire\<close>
  and \<open>Release\<close> on the number of tokens, below the number at which the counter wraps.
\<close>

locale counting_semaphore =
  fixes acquire :: "'s \<Rightarrow> 's option" and release :: "'s \<Rightarrow> 's" and tokens :: "'s \<Rightarrow> nat"
    and wrap :: nat
  assumes acquire_blocks: "acquire q = None \<longleftrightarrow> tokens q = 0"
    and acquire_takes: "acquire q = Some q' \<Longrightarrow> tokens q = Suc (tokens q')"
    and release_gives: "Suc (tokens q) < wrap \<Longrightarrow> tokens (release q) = Suc (tokens q)"
begin

lemma acquire_after_release:
  assumes "Suc (tokens q) < wrap"
  obtains q' where "acquire (release q) = Some q'" "tokens q' = tokens q"
proof -
  have r: "tokens (release q) = Suc (tokens q)" using assms by (rule release_gives)
  then obtain q' where q': "acquire (release q) = Some q'"
    using acquire_blocks [of "release q"] by (cases "acquire (release q)") auto
  with r have "tokens q' = tokens q" using acquire_takes [OF q'] by simp
  with q' that show thesis by blast
qed

lemma acquire_enabled: "0 < tokens q \<longleftrightarrow> (\<exists>q'. acquire q = Some q')"
  using acquire_blocks [of q] by (cases "acquire q") auto

end

definition tokens :: "semaphore \<Rightarrow> nat" where
  "tokens q = unat (current_number q)"

interpretation csem: counting_semaphore Semaphore_Acquire Semaphore_Release tokens "2 ^ 64"
proof unfold_locales
  fix q q' :: semaphore
  show "Semaphore_Acquire q = None \<longleftrightarrow> tokens q = 0"
    by (simp add: Semaphore_Acquire_None tokens_def unat_eq_zero)
  show "Semaphore_Acquire q = Some q' \<Longrightarrow> tokens q = Suc (tokens q')"
    by (auto simp: Semaphore_Acquire_iff tokens_def unat_minus_one_u64)
  show "Suc (tokens q) < 2 ^ 64 \<Longrightarrow> tokens (Semaphore_Release q) = Suc (tokens q)"
    by (simp add: Semaphore_Release_def tokens_def unat_plus_one_u64)
qed

section \<open>Properties\<close>

text \<open>Permits are conserved: after any schedule that cannot overflow the counter, the
  permits left plus the completed \<open>Acquire\<close> calls equal the initial permits plus the
  completed \<open>Release\<close> calls; so no more permits are ever handed out than were available.\<close>

theorem Semaphore_permits_conserved:
  assumes "run sem_step ls (sem_init i n) = Some s" and "length ls < 2 ^ 64 - unat i"
  shows "unat (current_number (sem s)) + acquired s = unat i + released s
    \<and> acquired s \<le> unat i + released s"
proof -
  have "sem_inv i (length ls) s" using assms by (rule sema.binv_run)
  then show ?thesis by (auto simp: sem_inv_def)
qed

lemmas sem_eval = sem_init_def Semaphore_ctor_def sem_acquire_step_def Semaphore_Acquire_def
  Semaphore_Release_def

theorem Semaphore_permits_conserved_witness:
  "\<exists>s. run sem_step [SemCallAcquire 0, SemGo 0, SemCallAcquire 1, SemGo 1,
       SemRelease 0 (Some 1), SemGo 1] (sem_init 1 2) = Some s
     \<and> unat (current_number (sem s)) + acquired s = unat (1::size_t) + released s
     \<and> acquired s \<le> unat (1::size_t) + released s"
proof -
  let ?ls = "[SemCallAcquire 0, SemGo 0, SemCallAcquire 1, SemGo 1,
       SemRelease 0 (Some 1), SemGo 1]"
  obtain s where s: "run sem_step ?ls (sem_init 1 2) = Some s"
    by (simp add: sem_eval numeral_2_eq_2)
  from Semaphore_permits_conserved [OF s] s show ?thesis by auto
qed

text \<open>No lost wake-up: if a thread sleeps in \<open>Acquire\<close> although a permit is available,
  then a woken thread exists, and its next step completes its \<open>Acquire\<close>.\<close>

theorem Semaphore_no_lost_wakeup:
  assumes "run sem_step ls (sem_init i n) = Some s" and "length ls < 2 ^ 64 - unat i"
    and "t < length (sem_pcs s)" and "sem_pcs s ! t = SemParked"
    and "current_number (sem s) > 0"
  shows "\<exists>w s'. sem_pcs s ! w = SemWoken \<and> sem_step (SemGo w) s = Some s'
    \<and> acquired s' = Suc (acquired s)"
proof -
  have inv: "sem_inv i (length ls) s" using assms(1,2) by (rule sema.binv_run)
  have "0 < cnt sem_parked (sem_pcs s)" using assms(3,4) by (intro cnt_posI [of t]) auto
  moreover have "0 < unat (current_number (sem s))"
    using assms(5) by (simp add: unat_gt_0 word_gt_0)
  ultimately have "0 < cnt sem_woken (sem_pcs s)" using inv by (auto simp: sem_inv_def)
  then obtain w where "w < length (sem_pcs s)" "sem_pcs s ! w = SemWoken"
    by (auto simp: cnt_pos_iff)
  with assms(5) show ?thesis
    by (auto simp: sem_acquire_step_def Semaphore_Acquire_def)
qed

theorem Semaphore_no_lost_wakeup_witness:
  "\<exists>s. run sem_step [SemCallAcquire 0, SemGo 0, SemCallAcquire 1, SemGo 1,
       SemRelease 2 (Some 1)] (sem_init 0 3) = Some s \<and> sem_pcs s ! 0 = SemParked
     \<and> (\<exists>w s'. sem_pcs s ! w = SemWoken \<and> sem_step (SemGo w) s = Some s'
          \<and> acquired s' = Suc (acquired s))"
proof -
  let ?ls = "[SemCallAcquire 0, SemGo 0, SemCallAcquire 1, SemGo 1, SemRelease 2 (Some 1)]"
  obtain s where s: "run sem_step ?ls (sem_init 0 3) = Some s"
    and p: "0 < length (sem_pcs s)" "sem_pcs s ! 0 = SemParked" "current_number (sem s) > 0"
    by (simp add: sem_eval numeral_3_eq_3)
  from Semaphore_no_lost_wakeup [OF s _ p] s p(2) show ?thesis by simp
qed

end
