(* ===== verification/Bounded_Queue.thy ===== *)
theory Bounded_Queue
  imports Semaphore
begin

text \<open>
  The bounded blocking queue of \<^verbatim>\<open>condvar/semaphore/blocking_queue.hpp\<close>, built from three
  semaphores. Every semaphore call is one step (it is one critical section), every access
  to the unprotected deque is one step, so all interleavings of \<open>Put\<close> and \<open>Take\<close> are
  covered. Reading \<open>front()\<close> of an empty deque is undefined behaviour in C++; the model
  records it in \<open>bq_ub\<close>.
\<close>

section \<open>Model\<close>

datatype 'a bq_pc =
    BqOutside
  | BqPutTop 'a         \<comment> \<open>\<open>Put\<close>: before \<open>bound_top_tokens_.Acquire()\<close>\<close>
  | BqPutLock 'a        \<comment> \<open>\<open>Put\<close>: before \<open>queue_protector_.Acquire()\<close>\<close>
  | BqPutPush 'a        \<comment> \<open>\<open>Put\<close>: before \<open>buffer_.push_back\<close>\<close>
  | BqPutUnlock         \<comment> \<open>\<open>Put\<close>: before \<open>queue_protector_.Release()\<close>\<close>
  | BqPutBottom         \<comment> \<open>\<open>Put\<close>: before \<open>bound_bottom_tokens_.Release()\<close>\<close>
  | BqTakeBottom        \<comment> \<open>\<open>Take\<close>: before \<open>bound_bottom_tokens_.Acquire()\<close>\<close>
  | BqTakeLock          \<comment> \<open>\<open>Take\<close>: before \<open>queue_protector_.Acquire()\<close>\<close>
  | BqTakePop           \<comment> \<open>\<open>Take\<close>: before \<open>front()\<close> and \<open>pop_front()\<close>\<close>
  | BqTakeUnlock 'a     \<comment> \<open>\<open>Take\<close>: before \<open>queue_protector_.Release()\<close>\<close>
  | BqTakeTop 'a        \<comment> \<open>\<open>Take\<close>: before \<open>bound_top_tokens_.Release()\<close>\<close>

datatype 'a bq_label = BqCallPut tid 'a | BqCallTake tid | BqGo tid

text \<open>\<open>bq_in\<close> and \<open>bq_out\<close> are history: the values in the order they entered and left.\<close>

record 'a blocking_queue =
  bound_top_tokens :: semaphore
  bound_bottom_tokens :: semaphore
  queue_protector :: semaphore
  bq_buffer :: "'a list"
  bq_ub :: bool
  bq_pcs :: "'a bq_pc list"
  bq_in :: "'a list"
  bq_out :: "'a list"

definition BlockingQueue_ctor :: "size_t \<Rightarrow> nat \<Rightarrow> 'a blocking_queue" where
  "BlockingQueue_ctor capacity n =
     \<lparr>bound_top_tokens = Semaphore_ctor capacity, bound_bottom_tokens = Semaphore_ctor 0,
      queue_protector = Semaphore_ctor 1, bq_buffer = [], bq_ub = False,
      bq_pcs = replicate n BqOutside, bq_in = [], bq_out = []\<rparr>"

definition bq_goto :: "tid \<Rightarrow> 'a bq_pc \<Rightarrow> 'a blocking_queue \<Rightarrow> 'a blocking_queue" where
  "bq_goto t p s = s\<lparr>bq_pcs := (bq_pcs s)[t := p]\<rparr>"

definition BlockingQueue_Put :: "tid \<Rightarrow> 'a blocking_queue \<Rightarrow> 'a blocking_queue option" where
  "BlockingQueue_Put t s =
     (case bq_pcs s ! t of
        BqPutTop v \<Rightarrow>
          map_option (\<lambda>q. bq_goto t (BqPutLock v) (s\<lparr>bound_top_tokens := q\<rparr>))
            (Semaphore_Acquire (bound_top_tokens s))
      | BqPutLock v \<Rightarrow>
          map_option (\<lambda>q. bq_goto t (BqPutPush v) (s\<lparr>queue_protector := q\<rparr>))
            (Semaphore_Acquire (queue_protector s))
      | BqPutPush v \<Rightarrow>
          Some (bq_goto t BqPutUnlock
                  (s\<lparr>bq_buffer := bq_buffer s @ [v], bq_in := bq_in s @ [v]\<rparr>))
      | BqPutUnlock \<Rightarrow>
          Some (bq_goto t BqPutBottom
                  (s\<lparr>queue_protector := Semaphore_Release (queue_protector s)\<rparr>))
      | BqPutBottom \<Rightarrow>
          Some (bq_goto t BqOutside
                  (s\<lparr>bound_bottom_tokens := Semaphore_Release (bound_bottom_tokens s)\<rparr>))
      | _ \<Rightarrow> None)"

definition BlockingQueue_Take :: "tid \<Rightarrow> 'a blocking_queue \<Rightarrow> 'a blocking_queue option" where
  "BlockingQueue_Take t s =
     (case bq_pcs s ! t of
        BqTakeBottom \<Rightarrow>
          map_option (\<lambda>q. bq_goto t BqTakeLock (s\<lparr>bound_bottom_tokens := q\<rparr>))
            (Semaphore_Acquire (bound_bottom_tokens s))
      | BqTakeLock \<Rightarrow>
          map_option (\<lambda>q. bq_goto t BqTakePop (s\<lparr>queue_protector := q\<rparr>))
            (Semaphore_Acquire (queue_protector s))
      | BqTakePop \<Rightarrow>
          Some (case bq_buffer s of
                  [] \<Rightarrow> s\<lparr>bq_ub := True\<rparr>
                | v # rest \<Rightarrow>
                    bq_goto t (BqTakeUnlock v) (s\<lparr>bq_buffer := rest, bq_out := bq_out s @ [v]\<rparr>))
      | BqTakeUnlock v \<Rightarrow>
          Some (bq_goto t (BqTakeTop v)
                  (s\<lparr>queue_protector := Semaphore_Release (queue_protector s)\<rparr>))
      | BqTakeTop v \<Rightarrow>
          Some (bq_goto t BqOutside
                  (s\<lparr>bound_top_tokens := Semaphore_Release (bound_top_tokens s)\<rparr>))
      | _ \<Rightarrow> None)"

fun bq_putting :: "'a bq_pc \<Rightarrow> bool" where
  "bq_putting (BqPutTop _) = True"
| "bq_putting (BqPutLock _) = True"
| "bq_putting (BqPutPush _) = True"
| "bq_putting BqPutUnlock = True"
| "bq_putting BqPutBottom = True"
| "bq_putting _ = False"

fun bq_step :: "'a bq_label \<Rightarrow> 'a blocking_queue \<Rightarrow> 'a blocking_queue option" where
  "bq_step (BqCallPut t v) s =
     (if t < length (bq_pcs s) \<and> bq_pcs s ! t = BqOutside
      then Some (bq_goto t (BqPutTop v) s) else None)"
| "bq_step (BqCallTake t) s =
     (if t < length (bq_pcs s) \<and> bq_pcs s ! t = BqOutside
      then Some (bq_goto t BqTakeBottom s) else None)"
| "bq_step (BqGo t) s =
     (if t < length (bq_pcs s) then
        (if bq_putting (bq_pcs s ! t) then BlockingQueue_Put t s else BlockingQueue_Take t s)
      else None)"

section \<open>Invariant\<close>

text \<open>Who owns a slot on the way in, a slot on the way out, the protector.\<close>

fun bq_in_flight :: "'a bq_pc \<Rightarrow> bool" where
  "bq_in_flight (BqPutLock _) = True"
| "bq_in_flight (BqPutPush _) = True"
| "bq_in_flight BqPutUnlock = True"
| "bq_in_flight BqPutBottom = True"
| "bq_in_flight BqTakeLock = True"
| "bq_in_flight BqTakePop = True"
| "bq_in_flight (BqTakeUnlock _) = True"
| "bq_in_flight (BqTakeTop _) = True"
| "bq_in_flight _ = False"

fun bq_stored :: "'a bq_pc \<Rightarrow> bool" where
  "bq_stored BqPutUnlock = True"
| "bq_stored BqPutBottom = True"
| "bq_stored BqTakeLock = True"
| "bq_stored BqTakePop = True"
| "bq_stored _ = False"

fun bq_protected :: "'a bq_pc \<Rightarrow> bool" where
  "bq_protected (BqPutPush _) = True"
| "bq_protected BqPutUnlock = True"
| "bq_protected BqTakePop = True"
| "bq_protected (BqTakeUnlock _) = True"
| "bq_protected _ = False"

definition bq_inv :: "size_t \<Rightarrow> 'a blocking_queue \<Rightarrow> bool" where
  "bq_inv capacity s \<longleftrightarrow>
     tokens (bound_top_tokens s) + tokens (bound_bottom_tokens s)
       + cnt bq_in_flight (bq_pcs s) = unat capacity \<and>
     length (bq_buffer s) = tokens (bound_bottom_tokens s) + cnt bq_stored (bq_pcs s) \<and>
     tokens (queue_protector s) + cnt bq_protected (bq_pcs s) = 1 \<and>
     bq_in s = bq_out s @ bq_buffer s \<and>
     \<not> bq_ub s"

lemma bq_inv_ctor: "bq_inv capacity (BlockingQueue_ctor capacity n)"
  by (simp add: bq_inv_def BlockingQueue_ctor_def Semaphore_ctor_def tokens_def)

text \<open>One thread moves; the rest of the state changes as the counts require.\<close>

lemma bq_inv_move:
  assumes inv: "bq_inv capacity s" and t: "t < length (bq_pcs s)" and p: "bq_pcs s ! t = p"
    and pcs: "bq_pcs s' = (bq_pcs s)[t := q]"
    and slots: "tokens (bound_top_tokens s') + tokens (bound_bottom_tokens s') + of_bool (bq_in_flight q)
      = tokens (bound_top_tokens s) + tokens (bound_bottom_tokens s) + of_bool (bq_in_flight p)"
    and stored: "length (bq_buffer s') + tokens (bound_bottom_tokens s) + of_bool (bq_stored p)
      = length (bq_buffer s) + tokens (bound_bottom_tokens s') + of_bool (bq_stored q)"
    and prot: "tokens (queue_protector s') + of_bool (bq_protected q)
      = tokens (queue_protector s) + of_bool (bq_protected p)"
    and hist: "bq_in s' = bq_out s' @ bq_buffer s'" and ub: "\<not> bq_ub s'"
  shows "bq_inv capacity s'"
proof -
  note upd = cnt_update [OF t, of _ q, unfolded p]
  show ?thesis
    using inv upd [of bq_in_flight] upd [of bq_stored] upd [of bq_protected]
      slots stored prot hist ub
    unfolding bq_inv_def pcs by linarith
qed

lemma bq_slot_bound:
  assumes inv: "bq_inv capacity s" and t: "t < length (bq_pcs s)" "bq_in_flight (bq_pcs s ! t)"
  shows "Suc (tokens (bound_top_tokens s)) < 2 ^ 64"
    and "Suc (tokens (bound_bottom_tokens s)) < 2 ^ 64"
proof -
  have "0 < cnt bq_in_flight (bq_pcs s)" using t by (rule cnt_posI)
  moreover have "unat capacity < 2 ^ 64" by (rule unat_u64_less)
  ultimately show "Suc (tokens (bound_top_tokens s)) < 2 ^ 64"
    and "Suc (tokens (bound_bottom_tokens s)) < 2 ^ 64"
    using inv unfolding bq_inv_def by linarith+
qed

lemma bq_protector_taken:
  assumes "bq_inv capacity s" "t < length (bq_pcs s)" "bq_protected (bq_pcs s ! t)"
  shows "tokens (queue_protector s) = 0"
  using assms cnt_posI [of t "bq_pcs s" bq_protected] by (simp add: bq_inv_def)

lemma bq_nonempty:
  assumes "bq_inv capacity s" "t < length (bq_pcs s)" "bq_stored (bq_pcs s ! t)"
  shows "bq_buffer s \<noteq> []"
  using assms cnt_posI [of t "bq_pcs s" bq_stored] by (auto simp: bq_inv_def)

lemma bq_inv_Put:
  assumes inv: "bq_inv capacity s" and t: "t < length (bq_pcs s)"
    and step: "BlockingQueue_Put t s = Some s'"
  shows "bq_inv capacity s'"
proof -
  note move = bq_inv_move [OF inv t refl]
  have hist: "bq_in s = bq_out s @ bq_buffer s" "\<not> bq_ub s" using inv by (simp_all add: bq_inv_def)
  show ?thesis
    using step hist bq_slot_bound [OF inv t] bq_protector_taken [OF inv t]
    by (cases "bq_pcs s ! t")
      (auto simp: BlockingQueue_Put_def bq_goto_def csem.release_gives
        dest!: csem.acquire_takes intro!: move)
qed

lemma bq_inv_Take:
  assumes inv: "bq_inv capacity s" and t: "t < length (bq_pcs s)"
    and step: "BlockingQueue_Take t s = Some s'"
  shows "bq_inv capacity s'"
proof -
  note move = bq_inv_move [OF inv t refl]
  have hist: "bq_in s = bq_out s @ bq_buffer s" "\<not> bq_ub s" using inv by (simp_all add: bq_inv_def)
  show ?thesis
    using step hist bq_slot_bound [OF inv t] bq_protector_taken [OF inv t] bq_nonempty [OF inv t]
    by (cases "bq_pcs s ! t")
      (auto simp: BlockingQueue_Take_def bq_goto_def csem.release_gives split: list.splits
        dest!: csem.acquire_takes intro!: move)
qed

lemma bq_inv_step:
  assumes "bq_inv capacity s" "bq_step l s = Some s'"
  shows "bq_inv capacity s'"
proof (cases l)
  case (BqGo t)
  with assms show ?thesis by (auto intro: bq_inv_Put bq_inv_Take split: if_splits)
qed (use assms in \<open>auto simp: bq_goto_def bq_inv_def cnt_update_eq split: if_splits\<close>)

interpretation bq: invariant_system bq_step "BlockingQueue_ctor capacity n" "bq_inv capacity"
  for capacity n
  by unfold_locales (fact bq_inv_ctor, fact bq_inv_step)

section \<open>Properties\<close>

text \<open>C30: Under every interleaving of \<open>Put\<close> and \<open>Take\<close> the bounded queue never holds more than
  \<open>capacity\<close> elements, never calls \<open>front()\<close> on an empty deque, and at most one thread
  touches the unprotected deque at a time.\<close>

theorem BlockingQueue_bounded_and_safe:
  assumes "reachable bq_step (BlockingQueue_ctor capacity n) s"
  shows "length (bq_buffer s) \<le> unat capacity \<and> \<not> bq_ub s \<and> cnt bq_protected (bq_pcs s) \<le> 1"
proof -
  have inv: "bq_inv capacity s" using assms by (rule bq.inv_reachable)
  have "cnt bq_stored (bq_pcs s) \<le> cnt bq_in_flight (bq_pcs s)"
    by (rule cnt_mono, rename_tac p, case_tac p) auto
  with inv show ?thesis unfolding bq_inv_def by linarith
qed

lemmas bq_eval = BlockingQueue_ctor_def Semaphore_ctor_def bq_goto_def BlockingQueue_Put_def
  BlockingQueue_Take_def Semaphore_Acquire_def Semaphore_Release_def

theorem BlockingQueue_bounded_and_safe_witness:
  "\<exists>s :: nat blocking_queue. reachable bq_step (BlockingQueue_ctor 1 2) s \<and> bq_buffer s = [7]
     \<and> length (bq_buffer s) \<le> unat (1 :: size_t) \<and> \<not> bq_ub s \<and> cnt bq_protected (bq_pcs s) \<le> 1"
proof -
  obtain s :: "nat blocking_queue"
    where s: "run bq_step [BqCallPut 0 7, BqGo 0, BqGo 0, BqGo 0] (BlockingQueue_ctor 1 2) = Some s"
      and b: "bq_buffer s = [7]"
    by (simp add: bq_eval)
  have r: "reachable bq_step (BlockingQueue_ctor 1 2) s" using s by (rule run_reachable)
  from BlockingQueue_bounded_and_safe [OF r] r b show ?thesis by blast
qed

text \<open>The bounded queue is FIFO and loses nothing: at every moment the sequence of values
  that have been pushed is the sequence of values that have been popped followed by the
  buffer's contents.\<close>

theorem BlockingQueue_fifo:
  assumes "reachable bq_step (BlockingQueue_ctor capacity n) s"
  shows "bq_in s = bq_out s @ bq_buffer s"
  using bq.inv_reachable [OF assms] by (simp add: bq_inv_def)

theorem BlockingQueue_fifo_witness:
  "\<exists>s :: nat blocking_queue. reachable bq_step (BlockingQueue_ctor 2 2) s
     \<and> bq_in s = [7, 8] \<and> bq_out s = [7] \<and> bq_in s = bq_out s @ bq_buffer s"
proof -
  obtain s :: "nat blocking_queue"
    where s: "run bq_step ([BqCallPut 0 7] @ replicate 5 (BqGo 0) @ [BqCallPut 0 8]
      @ replicate 5 (BqGo 0) @ [BqCallTake 1, BqGo 1, BqGo 1, BqGo 1])
      (BlockingQueue_ctor 2 2) = Some s"
      and b: "bq_in s = [7, 8]" "bq_out s = [7]"
    by (simp add: bq_eval numeral_eq_Suc)
  have r: "reachable bq_step (BlockingQueue_ctor 2 2) s" using s by (rule run_reachable)
  from BlockingQueue_fifo [OF r] r b show ?thesis by blast
qed

text \<open>The bounded queue does not deadlock. If no thread inside \<open>Put\<close> or \<open>Take\<close> can move,
  then every such thread waits for what the queue's state really lacks: all of them are
  in \<open>Put\<close> and the buffer holds \<open>capacity\<close> elements, or all of them are in \<open>Take\<close> and the
  buffer is empty.\<close>

theorem BlockingQueue_no_deadlock:
  assumes "reachable bq_step (BlockingQueue_ctor capacity n) s" and "0 < capacity"
    and inside: "\<exists>p \<in> set (bq_pcs s). p \<noteq> BqOutside"
    and stuck: "\<forall>t. bq_step (BqGo t) s = None"
  shows "(\<forall>p \<in> set (bq_pcs s). p = BqOutside \<or> (\<exists>v. p = BqPutTop v))
      \<and> length (bq_buffer s) = unat capacity
    \<or> (\<forall>p \<in> set (bq_pcs s). p = BqOutside \<or> p = BqTakeBottom) \<and> bq_buffer s = []"
proof -
  have inv: "bq_inv capacity s" using assms(1) by (rule bq.inv_reachable)
  have blocked: "(\<exists>v. p = BqPutTop v \<and> tokens (bound_top_tokens s) = 0)
      \<or> (p = BqTakeBottom \<and> tokens (bound_bottom_tokens s) = 0)
      \<or> ((\<exists>v. p = BqPutLock v) \<or> p = BqTakeLock) \<and> tokens (queue_protector s) = 0
      \<or> p = BqOutside" if p: "p \<in> set (bq_pcs s)" for p
  proof -
    from p obtain t where t: "t < length (bq_pcs s)" "bq_pcs s ! t = p"
      by (auto simp: in_set_conv_nth)
    with stuck have "(if bq_putting p then BlockingQueue_Put t s else BlockingQueue_Take t s) = None"
      by (metis bq_step.simps(3))
    with t show ?thesis
      by (cases p) (auto simp: BlockingQueue_Put_def BlockingQueue_Take_def csem.acquire_blocks)
  qed
  have "cnt bq_protected (bq_pcs s) = 0"
    using blocked by (fastforce simp: cnt_def filter_empty_conv)
  with inv have prot: "tokens (queue_protector s) = 1" by (simp add: bq_inv_def)
  with blocked have wait: "(\<exists>v. p = BqPutTop v \<and> tokens (bound_top_tokens s) = 0)
      \<or> (p = BqTakeBottom \<and> tokens (bound_bottom_tokens s) = 0) \<or> p = BqOutside"
    if "p \<in> set (bq_pcs s)" for p using that by fastforce
  then have none: "cnt bq_in_flight (bq_pcs s) = 0" "cnt bq_stored (bq_pcs s) = 0"
    by (fastforce simp: cnt_def filter_empty_conv)+
  then have sum: "tokens (bound_top_tokens s) + tokens (bound_bottom_tokens s) = unat capacity"
    and buf: "length (bq_buffer s) = tokens (bound_bottom_tokens s)"
    using inv by (simp_all add: bq_inv_def)
  have cap: "0 < unat capacity" using assms(2) by (simp add: unat_gt_0 word_gt_0)
  show ?thesis
  proof (cases "tokens (bound_bottom_tokens s) = 0")
    case True
    with sum cap have "tokens (bound_top_tokens s) \<noteq> 0" by simp
    with wait True buf show ?thesis by fastforce
  next
    case False
    with wait have "\<forall>p \<in> set (bq_pcs s). p = BqOutside \<or> (\<exists>v. p = BqPutTop v)"
      and "tokens (bound_top_tokens s) = 0"
      using inside by fastforce+
    with sum buf show ?thesis by auto
  qed
qed

theorem BlockingQueue_no_deadlock_witness:
  "\<exists>s :: nat blocking_queue. reachable bq_step (BlockingQueue_ctor 1 1) s
     \<and> (\<forall>t. bq_step (BqGo t) s = None) \<and> length (bq_buffer s) = unat (1 :: size_t)"
proof -
  obtain s :: "nat blocking_queue"
    where s: "run bq_step ([BqCallPut 0 7] @ replicate 5 (BqGo 0) @ [BqCallPut 0 8])
      (BlockingQueue_ctor 1 1) = Some s"
      and p: "bq_pcs s = [BqPutTop 8]" and q: "current_number (bound_top_tokens s) = 0"
    by (simp add: bq_eval numeral_eq_Suc)
  have r: "reachable bq_step (BlockingQueue_ctor 1 1) s" using s by (rule run_reachable)
  have stuck: "\<forall>t. bq_step (BqGo t) s = None"
    using p q by (simp add: BlockingQueue_Put_def Semaphore_Acquire_def)
  have "length (bq_buffer s) = unat (1 :: size_t)"
    using BlockingQueue_no_deadlock [OF r _ _ stuck] p by simp
  with r stuck show ?thesis by blast
qed

end
