(* ===== verification/Barrier.thy ===== *)
theory Barrier
  imports Prelude
begin

text \<open>
  The cyclic barrier of \<^verbatim>\<open>condvar/barrier/cyclic_barrier.hpp\<close>, used by exactly
  \<open>participants\<close> threads any number of times. \<open>Arrive\<close> is one critical section up to its
  return or to the wait; the wait's predicate reads the counter that was current when the
  thread arrived (the reference \<open>current_counter\<close>), so the parked thread remembers that
  counter's index.
\<close>

section \<open>Model\<close>

datatype bar_pc =
    BarOutside
  | BarEntry            \<comment> \<open>in \<open>Arrive\<close>, before taking the mutex\<close>
  | BarParked size_t    \<comment> \<open>asleep in \<open>all_reached_barrier_.wait\<close> on that counter\<close>
  | BarWoken size_t     \<comment> \<open>woken, before evaluating the predicate again\<close>

datatype bar_label = BarCallArrive tid | BarGo tid | BarSpurious tid

text \<open>History: \<open>bar_generation\<close> counts the completed rounds, \<open>bar_arrived\<close> and \<open>bar_left\<close>
  how often each thread has been counted by \<open>Arrive\<close> and has returned from it.\<close>

record barrier =
  bar_index :: size_t
  bar_participants :: size_t
  to_wait_counter :: "size_t list"
  bar_pcs :: "bar_pc list"
  bar_generation :: nat
  bar_arrived :: "nat list"
  bar_left :: "nat list"

definition CyclicBarrier_ctor :: "size_t \<Rightarrow> barrier" where
  "CyclicBarrier_ctor participants =
     \<lparr>bar_index = 0, bar_participants = participants, to_wait_counter = [0, 0],
      bar_pcs = replicate (unat participants) BarOutside, bar_generation = 0,
      bar_arrived = replicate (unat participants) 0,
      bar_left = replicate (unat participants) 0\<rparr>"

fun bar_wake :: "bar_pc \<Rightarrow> bar_pc option" where
  "bar_wake (BarParked i) = Some (BarWoken i)"
| "bar_wake _ = None"

definition bar_return :: "tid \<Rightarrow> barrier \<Rightarrow> barrier" where
  "bar_return t s = s\<lparr>bar_pcs := (bar_pcs s)[t := BarOutside],
     bar_left := (bar_left s)[t := Suc (bar_left s ! t)]\<rparr>"

text \<open>The wait with a predicate: return when it holds, park otherwise.\<close>

definition bar_wait :: "tid \<Rightarrow> size_t \<Rightarrow> barrier \<Rightarrow> barrier" where
  "bar_wait t i s =
     (if to_wait_counter s ! unat i = bar_participants s then bar_return t s
      else s\<lparr>bar_pcs := (bar_pcs s)[t := BarParked i]\<rparr>)"

definition CyclicBarrier_Arrive :: "tid \<Rightarrow> barrier \<Rightarrow> barrier" where
  "CyclicBarrier_Arrive t s =
     (let i = bar_index s;
          counters = (to_wait_counter s)[unat i := to_wait_counter s ! unat i + 1];
          s1 = s\<lparr>to_wait_counter := counters,
                 bar_arrived := (bar_arrived s)[t := Suc (bar_arrived s ! t)]\<rparr>
      in if counters ! unat i \<noteq> bar_participants s then bar_wait t i s1
         else
           (let i' = (if i \<noteq> 0 then 0 else 1)
            in bar_return t
                 (s1\<lparr>bar_index := i', to_wait_counter := counters[unat i' := 0],
                     bar_pcs := notify_all bar_wake (bar_pcs s1),
                     bar_generation := Suc (bar_generation s)\<rparr>)))"

fun bar_step :: "bar_label \<Rightarrow> barrier \<Rightarrow> barrier option" where
  "bar_step (BarCallArrive t) s =
     (if t < length (bar_pcs s) \<and> bar_pcs s ! t = BarOutside
      then Some (s\<lparr>bar_pcs := (bar_pcs s)[t := BarEntry]\<rparr>) else None)"
| "bar_step (BarGo t) s =
     (if t < length (bar_pcs s) then
        (case bar_pcs s ! t of
           BarEntry \<Rightarrow> Some (CyclicBarrier_Arrive t s)
         | BarWoken i \<Rightarrow> Some (bar_wait t i s)
         | _ \<Rightarrow> None)
      else None)"
| "bar_step (BarSpurious t) s =
     (if t < length (bar_pcs s) then
        map_option (\<lambda>p. s\<lparr>bar_pcs := (bar_pcs s)[t := p]\<rparr>) (bar_wake (bar_pcs s ! t))
      else None)"

section \<open>Invariant\<close>

text \<open>Per thread, relative to the generation \<open>g\<close> and the current index \<open>x\<close>.\<close>

fun bar_local :: "nat \<Rightarrow> size_t \<Rightarrow> bar_pc \<Rightarrow> nat \<Rightarrow> nat \<Rightarrow> bool" where
  "bar_local g x BarOutside arrived left \<longleftrightarrow> arrived = g \<and> left = g"
| "bar_local g x BarEntry arrived left \<longleftrightarrow> arrived = g \<and> left = g"
| "bar_local g x (BarParked i) arrived left \<longleftrightarrow> arrived = Suc g \<and> left = g \<and> i = x"
| "bar_local g x (BarWoken i) arrived left \<longleftrightarrow>
     arrived = Suc g \<and> left = g \<and> i = x \<or> arrived = g \<and> Suc left = g \<and> i = 1 - x"

definition bar_inv :: "size_t \<Rightarrow> barrier \<Rightarrow> bool" where
  "bar_inv participants s \<longleftrightarrow>
     bar_participants s = participants \<and>
     length (bar_pcs s) = unat participants \<and>
     length (bar_arrived s) = unat participants \<and>
     length (bar_left s) = unat participants \<and>
     length (to_wait_counter s) = 2 \<and>
     bar_index s \<in> {0, 1} \<and>
     unat (to_wait_counter s ! unat (bar_index s))
       = cnt (\<lambda>a. a = Suc (bar_generation s)) (bar_arrived s) \<and>
     (0 < participants \<longrightarrow>
        cnt (\<lambda>a. a = Suc (bar_generation s)) (bar_arrived s) < unat participants) \<and>
     (0 < bar_generation s \<longrightarrow>
        to_wait_counter s ! unat (1 - bar_index s) = participants) \<and>
     (\<forall>t < unat participants.
        bar_local (bar_generation s) (bar_index s) (bar_pcs s ! t)
          (bar_arrived s ! t) (bar_left s ! t))"

lemma bar_inv_ctor: "bar_inv participants (CyclicBarrier_ctor participants)"
  by (auto simp: bar_inv_def CyclicBarrier_ctor_def word_gt_0 unat_gt_0)

lemma bar_inv_local:
  "bar_inv n s \<Longrightarrow> t < length (bar_pcs s) \<Longrightarrow>
   bar_local (bar_generation s) (bar_index s) (bar_pcs s ! t) (bar_arrived s ! t) (bar_left s ! t)"
  by (simp add: bar_inv_def)

text \<open>A thread changes its program counter and, if it returns, its count of returns.\<close>

lemma bar_inv_pc:
  assumes "bar_inv n s" "t < length (bar_pcs s)"
    "bar_local (bar_generation s) (bar_index s) p (bar_arrived s ! t) l"
  shows "bar_inv n (s\<lparr>bar_pcs := (bar_pcs s)[t := p], bar_left := (bar_left s)[t := l]\<rparr>)"
  using assms by (auto simp: bar_inv_def nth_list_update)

lemma bar_inv_pc_only:
  assumes "bar_inv n s" "t < length (bar_pcs s)"
    "bar_local (bar_generation s) (bar_index s) p (bar_arrived s ! t) (bar_left s ! t)"
  shows "bar_inv n (s\<lparr>bar_pcs := (bar_pcs s)[t := p]\<rparr>)"
  using assms by (auto simp: bar_inv_def nth_list_update)

lemma bar_inv_wait:
  assumes inv: "bar_inv n s" and t: "t < length (bar_pcs s)" and p: "bar_pcs s ! t = BarWoken i"
  shows "bar_inv n (bar_wait t i s)"
proof -
  have loc: "bar_local (bar_generation s) (bar_index s) (BarWoken i) (bar_arrived s ! t) (bar_left s ! t)"
    using bar_inv_local [OF inv t] p by simp
  show ?thesis
  proof (cases "i = bar_index s")
    case True
    have "0 < n" using inv t by (auto simp: bar_inv_def word_gt_0)
    then have "to_wait_counter s ! unat i \<noteq> bar_participants s"
      using inv True by (auto simp: bar_inv_def word_unat_eq_iff)
    then have "bar_wait t i s = s\<lparr>bar_pcs := (bar_pcs s)[t := BarParked i]\<rparr>"
      by (simp add: bar_wait_def)
    moreover have "bar_index s \<noteq> 1 - bar_index s" using inv by (auto simp: bar_inv_def)
    ultimately show ?thesis
      using loc True by (auto intro!: bar_inv_pc_only [OF inv t])
  next
    case False
    with loc have old: "bar_arrived s ! t = bar_generation s" "Suc (bar_left s ! t) = bar_generation s"
      "i = 1 - bar_index s" by auto
    with inv have "to_wait_counter s ! unat i = bar_participants s" by (auto simp: bar_inv_def)
    then show ?thesis
      using old by (auto simp: bar_wait_def bar_return_def intro!: bar_inv_pc [OF inv t])
  qed
qed

text \<open>An arrival that is not the last one of its round.\<close>

lemma bar_inv_arrive_wait:
  assumes inv: "bar_inv n s" and t: "t < length (bar_pcs s)" and p: "bar_pcs s ! t = BarEntry"
    and less: "to_wait_counter s ! unat (bar_index s) + 1 \<noteq> bar_participants s"
  shows "bar_inv n (CyclicBarrier_Arrive t s)"
proof -
  let ?g = "bar_generation s" and ?x = "unat (bar_index s)"
  let ?c = "to_wait_counter s ! ?x"
  let ?isg = "\<lambda>a. a = Suc ?g"
  have x: "?x < 2" "unat (1 - bar_index s) \<noteq> ?x" using inv by (auto simp: bar_inv_def)
  have me: "bar_arrived s ! t = ?g" "bar_left s ! t = ?g"
    using bar_inv_local [OF inv t] p by auto
  have ta: "t < length (bar_arrived s)" "t < unat n" "length (to_wait_counter s) = 2"
    using inv t by (auto simp: bar_inv_def)
  have c: "unat ?c = cnt ?isg (bar_arrived s)" "cnt ?isg (bar_arrived s) < unat n"
    "bar_participants s = n"
    using inv ta by (auto simp: bar_inv_def word_gt_0)
  have "unat (?c + 1) = Suc (unat ?c)"
    using c unat_u64_less [of n] by (intro unat_plus_one_u64) linarith
  moreover have "cnt ?isg ((bar_arrived s)[t := Suc ?g]) = Suc (cnt ?isg (bar_arrived s))"
    using ta me by (simp add: cnt_update_eq)
  ultimately have count: "unat (?c + 1) = cnt ?isg ((bar_arrived s)[t := Suc ?g])"
    and lt: "unat (?c + 1) < unat n"
    using c less by (auto simp: word_unat_eq_iff)
  have "CyclicBarrier_Arrive t s = s\<lparr>to_wait_counter := (to_wait_counter s)[?x := ?c + 1],
      bar_arrived := (bar_arrived s)[t := Suc ?g], bar_pcs := (bar_pcs s)[t := BarParked (bar_index s)]\<rparr>"
    using less x ta me by (simp add: CyclicBarrier_Arrive_def bar_wait_def Let_def)
  then show ?thesis
    using inv x ta me count lt by (auto simp: bar_inv_def nth_list_update)
qed

text \<open>The last arrival of a round: everybody else waits on the completed counter.\<close>

lemma bar_inv_arrive_last:
  assumes inv: "bar_inv n s" and t: "t < length (bar_pcs s)" and p: "bar_pcs s ! t = BarEntry"
    and last: "to_wait_counter s ! unat (bar_index s) + 1 = bar_participants s"
  shows "bar_inv n (CyclicBarrier_Arrive t s)"
proof -
  let ?g = "bar_generation s" and ?x = "unat (bar_index s)"
  let ?isg = "\<lambda>a. a = Suc ?g" and ?arr = "(bar_arrived s)[t := Suc (bar_arrived s ! t)]"
  let ?x' = "if bar_index s \<noteq> 0 then 0 else 1 :: size_t"
  have x: "bar_index s = 0 \<or> bar_index s = 1" using inv by (auto simp: bar_inv_def)
  have me: "bar_arrived s ! t = ?g" "bar_left s ! t = ?g"
    using bar_inv_local [OF inv t] p by auto
  have ta: "t < length (bar_arrived s)" "t < unat n" "length (to_wait_counter s) = 2"
      "length (bar_arrived s) = unat n" "length (bar_pcs s) = unat n" "length (bar_left s) = unat n"
    using inv t by (auto simp: bar_inv_def)
  have c: "unat (to_wait_counter s ! ?x) = cnt ?isg (bar_arrived s)"
    "cnt ?isg (bar_arrived s) < unat n" "bar_participants s = n"
    using inv ta by (auto simp: bar_inv_def word_gt_0)
  have "unat n = Suc (unat (to_wait_counter s ! ?x))"
    using last c unat_u64_less [of n] unat_plus_one_u64 [of "to_wait_counter s ! ?x"] by auto
  moreover have "cnt ?isg ?arr = Suc (cnt ?isg (bar_arrived s))"
    using ta me by (simp add: cnt_update_eq)
  ultimately have "cnt ?isg ?arr = length ?arr" using c ta by simp
  then have full: "?arr ! u = Suc ?g" if "u < unat n" for u
    using cnt_fullD [of ?isg ?arr u] that ta by simp
  have none: "cnt (\<lambda>a. a = Suc (Suc ?g)) ?arr = 0"
  proof (rule ccontr)
    assume "cnt (\<lambda>a. a = Suc (Suc ?g)) ?arr \<noteq> 0"
    then have "0 < cnt (\<lambda>a. a = Suc (Suc ?g)) ?arr" by simp
    then obtain u where "u < length ?arr" "?arr ! u = Suc (Suc ?g)"
      unfolding cnt_pos_iff by (elim exE conjE)
    with full [of u] ta(4) show False by simp
  qed
  have others: "notify_all bar_wake (bar_pcs s) ! u = BarWoken (bar_index s)
      \<and> bar_left s ! u = ?g" if "u < unat n" "u \<noteq> t" for u
  proof -
    have "bar_arrived s ! u = Suc ?g" using full [of u] that ta by simp
    with bar_inv_local [OF inv, of u] that ta show ?thesis
      by (cases "bar_pcs s ! u") auto
  qed
  have eq: "CyclicBarrier_Arrive t s = s\<lparr>bar_index := ?x', bar_generation := Suc ?g,
      to_wait_counter := (to_wait_counter s)[?x := n, unat ?x' := 0], bar_arrived := ?arr,
      bar_pcs := (notify_all bar_wake (bar_pcs s))[t := BarOutside],
      bar_left := (bar_left s)[t := Suc ?g]\<rparr>"
    using last c(3) x ta me by (auto simp: CyclicBarrier_Arrive_def bar_return_def Let_def)
  let ?s = "CyclicBarrier_Arrive t s"
  have loc: "bar_local (Suc ?g) ?x' (bar_pcs ?s ! u) (bar_arrived ?s ! u) (bar_left ?s ! u)"
    if "u < unat n" for u
  proof (cases "u = t")
    case True
    then show ?thesis using full [of t] ta by (simp add: eq)
  next
    case False
    with others [OF that] full [OF that] that ta x show ?thesis by (auto simp: eq)
  qed
  have "to_wait_counter ?s ! unat ?x' = 0" "to_wait_counter ?s ! unat (1 - ?x') = n"
    "length (to_wait_counter ?s) = 2"
    using x ta(3) by (auto simp: eq)
  with loc none ta c(3) show ?thesis
    by (simp add: bar_inv_def eq)
qed

lemma bar_inv_step:
  assumes inv: "bar_inv n s" and step: "bar_step l s = Some s'"
  shows "bar_inv n s'"
proof (cases l)
  case (BarGo t)
  with step show ?thesis
    using bar_inv_wait [OF inv] bar_inv_arrive_wait [OF inv] bar_inv_arrive_last [OF inv]
    by (auto split: if_splits bar_pc.splits)
next
  case (BarCallArrive t)
  with step bar_inv_local [OF inv, of t] show ?thesis
    by (auto split: if_splits intro!: bar_inv_pc_only [OF inv])
next
  case (BarSpurious t)
  with step obtain i where "t < length (bar_pcs s)" "bar_pcs s ! t = BarParked i"
      "s' = s\<lparr>bar_pcs := (bar_pcs s)[t := BarWoken i]\<rparr>"
    by (cases "bar_pcs s ! t") (auto split: if_splits)
  with bar_inv_local [OF inv, of t] show ?thesis
    by (auto intro!: bar_inv_pc_only [OF inv])
qed

interpretation bar: invariant_system bar_step "CyclicBarrier_ctor n" "bar_inv n" for n
  by unfold_locales (fact bar_inv_ctor, fact bar_inv_step)

section \<open>Properties\<close>

text \<open>C29: Nobody passes the barrier early, in any round: a thread that has returned from its
  \<open>k\<close>-th \<open>Arrive\<close> finds that every participant has called \<open>Arrive\<close> at least \<open>k\<close> times, and
  no participant is ever more than one round ahead of another.\<close>

theorem CyclicBarrier_nobody_passes_early:
  assumes "reachable bar_step (CyclicBarrier_ctor n) s" and "t < unat n" and "u < unat n"
  shows "bar_left s ! t \<le> bar_arrived s ! u \<and> bar_arrived s ! t \<le> Suc (bar_arrived s ! u)"
proof -
  have inv: "bar_inv n s" using assms(1) by (rule bar.inv_reachable)
  have rng: "bar_left s ! v \<le> bar_generation s \<and> bar_generation s \<le> bar_arrived s ! v
      \<and> bar_arrived s ! v \<le> Suc (bar_generation s)" if "v < unat n" for v
    using bar_inv_local [OF inv, of v] that inv
    by (cases "bar_pcs s ! v") (auto simp: bar_inv_def)
  from rng [OF assms(2)] rng [OF assms(3)] show ?thesis by linarith
qed

lemma CyclicBarrier_ctor_two:
  "CyclicBarrier_ctor 2 = \<lparr>bar_index = 0, bar_participants = 2, to_wait_counter = [0, 0],
     bar_pcs = [BarOutside, BarOutside], bar_generation = 0, bar_arrived = [0, 0],
     bar_left = [0, 0]\<rparr>"
  by (simp add: CyclicBarrier_ctor_def replicate_two)

theorem CyclicBarrier_nobody_passes_early_witness:
  "\<exists>s. reachable bar_step (CyclicBarrier_ctor 2) s \<and> bar_left s ! 0 = 1
     \<and> bar_left s ! 0 \<le> bar_arrived s ! 1 \<and> bar_arrived s ! 0 \<le> Suc (bar_arrived s ! 1)"
proof -
  obtain s where s: "run bar_step [BarCallArrive 0, BarGo 0, BarCallArrive 1, BarGo 1, BarGo 0]
      (CyclicBarrier_ctor 2) = Some s" and l: "bar_left s ! 0 = 1"
    by (simp add: CyclicBarrier_ctor_two CyclicBarrier_Arrive_def bar_wait_def bar_return_def
        notify_all_def Let_def)
  have r: "reachable bar_step (CyclicBarrier_ctor 2) s" using s by (rule run_reachable)
  from CyclicBarrier_nobody_passes_early [OF r, of 0 1] r l show ?thesis by auto
qed

text \<open>The barrier does not deadlock: in every reachable state some participant is not
  waiting for the current round, and if it is inside \<open>Arrive\<close> it can move: it either is
  about to be counted, or has been released and its next step returns from \<open>Arrive\<close>.\<close>

theorem CyclicBarrier_no_deadlock:
  assumes "reachable bar_step (CyclicBarrier_ctor n) s" and "0 < n"
  shows "\<exists>t < unat n. bar_pcs s ! t = BarOutside \<or> bar_pcs s ! t = BarEntry
    \<or> (\<exists>s'. bar_step (BarGo t) s = Some s' \<and> bar_pcs s' ! t = BarOutside)"
proof -
  have inv: "bar_inv n s" using assms(1) by (rule bar.inv_reachable)
  have "cnt (\<lambda>a. a = Suc (bar_generation s)) (bar_arrived s) < length (bar_arrived s)"
    using inv assms(2) by (simp add: bar_inv_def)
  then obtain t where t: "t < length (bar_arrived s)" "bar_arrived s ! t \<noteq> Suc (bar_generation s)"
    by (rule cnt_not_full)
  with inv have len: "t < unat n" "t < length (bar_pcs s)" by (simp_all add: bar_inv_def)
  have loc: "bar_local (bar_generation s) (bar_index s) (bar_pcs s ! t) (bar_arrived s ! t) (bar_left s ! t)"
    using inv len(2) by (rule bar_inv_local)
  show ?thesis
  proof (cases "bar_pcs s ! t")
    case (BarWoken i)
    with loc t inv have "to_wait_counter s ! unat i = bar_participants s"
      by (auto simp: bar_inv_def)
    with BarWoken len have "\<exists>s'. bar_step (BarGo t) s = Some s' \<and> bar_pcs s' ! t = BarOutside"
      by (simp add: bar_wait_def bar_return_def)
    with len show ?thesis by blast
  qed (use loc t len in auto)
qed

theorem CyclicBarrier_no_deadlock_witness:
  "\<exists>s. reachable bar_step (CyclicBarrier_ctor 2) s \<and> bar_pcs s ! 1 = BarParked 0
     \<and> (\<exists>t < unat (2 :: size_t). bar_pcs s ! t = BarOutside \<or> bar_pcs s ! t = BarEntry
         \<or> (\<exists>s'. bar_step (BarGo t) s = Some s' \<and> bar_pcs s' ! t = BarOutside))"
proof -
  obtain s where s: "run bar_step [BarCallArrive 1, BarGo 1] (CyclicBarrier_ctor 2) = Some s"
    and l: "bar_pcs s ! 1 = BarParked 0"
    by (simp add: CyclicBarrier_ctor_two CyclicBarrier_Arrive_def bar_wait_def bar_return_def
        Let_def)
  have r: "reachable bar_step (CyclicBarrier_ctor 2) s" using s by (rule run_reachable)
  have "0 < (2 :: size_t)" by simp
  from CyclicBarrier_no_deadlock [OF r this] r l show ?thesis by blast
qed

end
