(* ===== verification/Condvar.thy ===== *)
theory Condvar
  imports Prelude
begin

text \<open>
  The condition variable of \<^verbatim>\<open>condvar/condvar/condvar.hpp\<close>: a 32-bit ticket that every
  notification advances, and \<open>Wait\<close> built from a load, the release of the client's mutex,
  \<open>ticket_.wait\<close> and the re-acquisition of the mutex. Every atomic operation is a step of
  its own, so a notification may come between any two of them. The client's mutex is the
  template parameter: an exclusive lock, represented by its owner.

  The blocking operations of the atomic are those of the C++ standard: \<open>wait\<close> returns only after a comparison
  that fails, so a woken thread, also a spuriously woken one, compares again; \<open>notify_one\<close> and \<open>notify_all\<close> unblock
  waiting operations that are eligible, those that blocked on a value older than one that happened before the notification.
\<close>

section \<open>Model\<close>

text \<open>The ghost number next to a ticket is the number of notifications at the load.\<close>

datatype cv_pc =
    CvOutside
  | CvHolding                  \<comment> \<open>holds the client's mutex, outside of any method\<close>
  | CvWait                     \<comment> \<open>in \<open>Wait\<close>, before the load\<close>
  | CvUnlock u32 nat           \<comment> \<open>before \<open>mutex.unlock()\<close>\<close>
  | CvFutex u32 nat            \<comment> \<open>before \<open>ticket_.wait(current_ticket)\<close>\<close>
  | CvParked u32 nat           \<comment> \<open>asleep in it\<close>
  | CvLock                     \<comment> \<open>before \<open>mutex.lock()\<close>\<close>
  | CvNotifyOne bool nat       \<comment> \<open>after the \<open>fetch_add\<close>; whether the caller holds the mutex, number of this notification\<close>
  | CvNotifyAll bool nat

datatype cv_label =
    CvCallLock tid
  | CvCallUnlock tid
  | CvCallWait tid
  | CvCallNotifyOne tid        \<comment> \<open>enters \<open>NotifyOne\<close> and does its \<open>fetch_add\<close>\<close>
  | CvCallNotifyAll tid
  | CvGo tid "tid option"      \<comment> \<open>next operation; for \<open>notify_one\<close>, the thread it wakes\<close>
  | CvSpurious tid

text \<open>History: \<open>cv_seq\<close> counts the \<open>fetch_add\<close>s, \<open>cv_all_done\<close> is the highest number of a
  completed \<open>NotifyAll\<close>.\<close>

record condvar =
  ticket :: u32
  cv_owner :: "tid option"
  cv_pcs :: "cv_pc list"
  cv_seq :: nat
  cv_all_done :: nat

definition cv_init :: "nat \<Rightarrow> condvar" where
  "cv_init n = \<lparr>ticket = 0, cv_owner = None, cv_pcs = replicate n CvOutside, cv_seq = 0,
     cv_all_done = 0\<rparr>"

definition cv_goto :: "tid \<Rightarrow> cv_pc \<Rightarrow> condvar \<Rightarrow> condvar" where
  "cv_goto t p s = s\<lparr>cv_pcs := (cv_pcs s)[t := p]\<rparr>"

text \<open>The client's mutex.\<close>

definition cv_mutex_lock :: "tid \<Rightarrow> condvar \<Rightarrow> condvar option" where
  "cv_mutex_lock t s =
     (if cv_owner s = None then Some (cv_goto t CvHolding (s\<lparr>cv_owner := Some t\<rparr>)) else None)"

definition cv_mutex_unlock :: "tid \<Rightarrow> cv_pc \<Rightarrow> condvar \<Rightarrow> condvar" where
  "cv_mutex_unlock t p s = cv_goto t p (s\<lparr>cv_owner := None\<rparr>)"

text \<open>Waking by the notification of number \<open>m\<close>: the thread blocked on the value before some notification up to that one.\<close>

fun cv_wake :: "nat \<Rightarrow> cv_pc \<Rightarrow> cv_pc option" where
  "cv_wake m (CvParked tk k) = (if k < m then Some (CvFutex tk k) else None)"
| "cv_wake m _ = None"

definition ConditionVariable_Wait :: "tid \<Rightarrow> condvar \<Rightarrow> condvar option" where
  "ConditionVariable_Wait t s =
     (case cv_pcs s ! t of
        CvWait \<Rightarrow> Some (cv_goto t (CvUnlock (ticket s) (cv_seq s)) s)
      | CvUnlock tk k \<Rightarrow> Some (cv_mutex_unlock t (CvFutex tk k) s)
      | CvFutex tk k \<Rightarrow>
          Some (cv_goto t (if ticket s = tk then CvParked tk k else CvLock) s)
      | CvLock \<Rightarrow> cv_mutex_lock t s
      | _ \<Rightarrow> None)"

definition cv_fetch_add :: "condvar \<Rightarrow> condvar" where
  "cv_fetch_add s = s\<lparr>ticket := ticket s + 1, cv_seq := Suc (cv_seq s)\<rparr>"

definition ConditionVariable_NotifyOne :: "tid \<Rightarrow> tid option \<Rightarrow> condvar \<Rightarrow> condvar option" where
  "ConditionVariable_NotifyOne t w s =
     (case cv_pcs s ! t of
        CvOutside \<Rightarrow> Some (cv_goto t (CvNotifyOne False (Suc (cv_seq s))) (cv_fetch_add s))
      | CvHolding \<Rightarrow> Some (cv_goto t (CvNotifyOne True (Suc (cv_seq s))) (cv_fetch_add s))
      | CvNotifyOne held m \<Rightarrow>
          map_option (\<lambda>pcs. cv_goto t (if held then CvHolding else CvOutside) (s\<lparr>cv_pcs := pcs\<rparr>))
            (notify_one (cv_wake m) w (cv_pcs s))
      | _ \<Rightarrow> None)"

definition ConditionVariable_NotifyAll :: "tid \<Rightarrow> condvar \<Rightarrow> condvar option" where
  "ConditionVariable_NotifyAll t s =
     (case cv_pcs s ! t of
        CvOutside \<Rightarrow> Some (cv_goto t (CvNotifyAll False (Suc (cv_seq s))) (cv_fetch_add s))
      | CvHolding \<Rightarrow> Some (cv_goto t (CvNotifyAll True (Suc (cv_seq s))) (cv_fetch_add s))
      | CvNotifyAll held m \<Rightarrow>
          Some (cv_goto t (if held then CvHolding else CvOutside)
            (s\<lparr>cv_pcs := notify_all (cv_wake m) (cv_pcs s), cv_all_done := max m (cv_all_done s)\<rparr>))
      | _ \<Rightarrow> None)"

fun cv_step :: "cv_label \<Rightarrow> condvar \<Rightarrow> condvar option" where
  "cv_step (CvCallLock t) s =
     (if t < length (cv_pcs s) \<and> cv_pcs s ! t = CvOutside then cv_mutex_lock t s else None)"
| "cv_step (CvCallUnlock t) s =
     (if t < length (cv_pcs s) \<and> cv_pcs s ! t = CvHolding
      then Some (cv_mutex_unlock t CvOutside s) else None)"
| "cv_step (CvCallWait t) s =
     (if t < length (cv_pcs s) \<and> cv_pcs s ! t = CvHolding
      then Some (cv_goto t CvWait s) else None)"
| "cv_step (CvCallNotifyOne t) s =
     (if t < length (cv_pcs s) \<and> cv_pcs s ! t \<in> {CvOutside, CvHolding}
      then ConditionVariable_NotifyOne t None s else None)"
| "cv_step (CvCallNotifyAll t) s =
     (if t < length (cv_pcs s) \<and> cv_pcs s ! t \<in> {CvOutside, CvHolding}
      then ConditionVariable_NotifyAll t s else None)"
| "cv_step (CvGo t w) s =
     (if t < length (cv_pcs s) then
        (case cv_pcs s ! t of
           CvOutside \<Rightarrow> None
         | CvHolding \<Rightarrow> None
         | CvNotifyOne held m \<Rightarrow> ConditionVariable_NotifyOne t w s
         | CvNotifyAll held m \<Rightarrow> ConditionVariable_NotifyAll t s
         | _ \<Rightarrow> ConditionVariable_Wait t s)
      else None)"
| "cv_step (CvSpurious t) s =
     (if t < length (cv_pcs s)
      then case cv_pcs s ! t of CvParked tk k \<Rightarrow> Some (cv_goto t (CvFutex tk k) s) | _ \<Rightarrow> None
      else None)"

section \<open>Invariant\<close>

fun cv_owns :: "cv_pc \<Rightarrow> bool" where
  "cv_owns CvHolding = True"
| "cv_owns CvWait = True"
| "cv_owns (CvUnlock tk k) = True"
| "cv_owns (CvNotifyOne held m) = held"
| "cv_owns (CvNotifyAll held m) = held"
| "cv_owns _ = False"

text \<open>\<open>q\<close> is the number of notifications so far, \<open>d\<close> the last completed \<open>NotifyAll\<close>.\<close>

fun cv_local :: "nat \<Rightarrow> nat \<Rightarrow> cv_pc \<Rightarrow> bool" where
  "cv_local q d (CvUnlock tk k) \<longleftrightarrow> tk = of_nat k \<and> k \<le> q"
| "cv_local q d (CvFutex tk k) \<longleftrightarrow> tk = of_nat k \<and> k \<le> q"
| "cv_local q d (CvParked tk k) \<longleftrightarrow> tk = of_nat k \<and> k \<le> q \<and> d \<le> k"
| "cv_local q d (CvNotifyOne held m) \<longleftrightarrow> m \<le> q"
| "cv_local q d (CvNotifyAll held m) \<longleftrightarrow> m \<le> q"
| "cv_local q d _ \<longleftrightarrow> True"

definition cv_inv :: "nat \<Rightarrow> condvar \<Rightarrow> bool" where
  "cv_inv j s \<longleftrightarrow>
     ticket s = of_nat (cv_seq s) \<and> cv_seq s \<le> j \<and> cv_all_done s \<le> cv_seq s \<and>
     (\<forall>t < length (cv_pcs s). cv_local (cv_seq s) (cv_all_done s) (cv_pcs s ! t) \<and>
        (cv_owns (cv_pcs s ! t) \<longleftrightarrow> cv_owner s = Some t))"

lemmas cv_defs = ConditionVariable_Wait_def ConditionVariable_NotifyOne_def
  ConditionVariable_NotifyAll_def cv_mutex_lock_def cv_mutex_unlock_def cv_goto_def cv_fetch_add_def

lemma cv_inv_init: "cv_inv 0 (cv_init n)"
  by (simp add: cv_inv_def cv_init_def)

lemma cv_inv_thread:
  "cv_inv j s \<Longrightarrow> t < length (cv_pcs s) \<Longrightarrow>
   cv_local (cv_seq s) (cv_all_done s) (cv_pcs s ! t) \<and> (cv_owns (cv_pcs s ! t) \<longleftrightarrow> cv_owner s = Some t)"
  by (simp add: cv_inv_def)

lemma cv_local_Suc: "cv_local q d p \<Longrightarrow> cv_local (Suc q) d p"
  by (cases p) auto

text \<open>A step of one thread that changes only its own program counter and perhaps the owner.\<close>

lemma cv_inv_move:
  assumes "cv_inv j s" "t < length (cv_pcs s)" "cv_local (cv_seq s) (cv_all_done s) p"
    "o' = (if cv_owns p then Some t else if cv_owns (cv_pcs s ! t) then None else cv_owner s)"
    "cv_owns p \<longrightarrow> cv_owns (cv_pcs s ! t) \<or> cv_owner s = None"
  shows "cv_inv (Suc j) (s\<lparr>cv_owner := o', cv_pcs := (cv_pcs s)[t := p]\<rparr>)"
  using assms by (auto simp: cv_inv_def nth_list_update le_SucI split: if_splits)

lemma cv_inv_lock:
  assumes "cv_inv j s" "t < length (cv_pcs s)" "\<not> cv_owns (cv_pcs s ! t)"
    "cv_mutex_lock t s = Some s'"
  shows "cv_inv (Suc j) s'"
  using assms cv_inv_move [of j s t CvHolding "Some t"]
  by (auto simp: cv_mutex_lock_def cv_goto_def split: if_splits)

lemma cv_inv_unlock:
  assumes "cv_inv j s" "t < length (cv_pcs s)" "cv_owns (cv_pcs s ! t)"
    "cv_local (cv_seq s) (cv_all_done s) p" "\<not> cv_owns p"
  shows "cv_inv (Suc j) (cv_mutex_unlock t p s)"
  using assms cv_inv_move [of j s t p None]
  by (auto simp: cv_mutex_unlock_def cv_goto_def)

lemma cv_inv_goto:
  assumes "cv_inv j s" "t < length (cv_pcs s)" "cv_local (cv_seq s) (cv_all_done s) p"
    "cv_owns p \<longleftrightarrow> cv_owns (cv_pcs s ! t)"
  shows "cv_inv (Suc j) (cv_goto t p s)"
  using assms by (auto simp: cv_inv_def cv_goto_def nth_list_update le_SucI)

lemma cv_inv_fetch_add:
  assumes "cv_inv j s" "t < length (cv_pcs s)"
    "cv_local (Suc (cv_seq s)) (cv_all_done s) p" "cv_owns p \<longleftrightarrow> cv_owns (cv_pcs s ! t)"
  shows "cv_inv (Suc j) (cv_goto t p (cv_fetch_add s))"
  using assms
  by (auto simp: cv_inv_def cv_goto_def cv_fetch_add_def nth_list_update cv_local_Suc ac_simps)

text \<open>Waking threads keeps the invariant: a woken thread compares again.\<close>

lemma cv_inv_woken:
  assumes "cv_inv j s" "length pcs = length (cv_pcs s)"
    "\<And>u. u < length pcs \<Longrightarrow> pcs ! u = cv_pcs s ! u \<or> cv_wake m (cv_pcs s ! u) = Some (pcs ! u)"
  shows "cv_inv j (s\<lparr>cv_pcs := pcs\<rparr>)"
proof -
  have "cv_local (cv_seq s) (cv_all_done s) (pcs ! u) \<and> (cv_owns (pcs ! u) \<longleftrightarrow> cv_owner s = Some u)"
    if "u < length pcs" for u
    using assms(3) [OF that] cv_inv_thread [OF assms(1), of u] that assms(2)
    by (cases "cv_pcs s ! u") (auto split: if_splits dest!: sym [of "CvFutex _ _"])
  with assms(1) show ?thesis by (simp add: cv_inv_def)
qed

lemma cv_inv_notify_one:
  assumes inv: "cv_inv j s" and t: "t < length (cv_pcs s)" and p: "cv_pcs s ! t = CvNotifyOne held m"
    and n: "notify_one (cv_wake m) w (cv_pcs s) = Some pcs"
  shows "cv_inv (Suc j) (cv_goto t (if held then CvHolding else CvOutside) (s\<lparr>cv_pcs := pcs\<rparr>))"
proof -
  have len: "length pcs = length (cv_pcs s)" using n by (rule notify_one_length)
  from n have each: "u < length pcs \<Longrightarrow>
      pcs ! u = cv_pcs s ! u \<or> cv_wake m (cv_pcs s ! u) = Some (pcs ! u)" for u
    by (rule notify_one_cases) (auto simp: nth_list_update)
  have woken: "cv_inv j (s\<lparr>cv_pcs := pcs\<rparr>)" using inv len each by (rule cv_inv_woken)
  have "pcs ! t = CvNotifyOne held m" using each [of t] t len p by simp
  then show ?thesis using cv_inv_goto [OF woken, of t] t len by simp
qed

lemma cv_inv_notify_all:
  assumes inv: "cv_inv j s" and t: "t < length (cv_pcs s)" and p: "cv_pcs s ! t = CvNotifyAll held m"
  shows "cv_inv (Suc j) (cv_goto t (if held then CvHolding else CvOutside)
    (s\<lparr>cv_pcs := notify_all (cv_wake m) (cv_pcs s), cv_all_done := max m (cv_all_done s)\<rparr>))"
proof -
  let ?pcs = "notify_all (cv_wake m) (cv_pcs s)"
  have woken: "cv_inv j (s\<lparr>cv_pcs := ?pcs\<rparr>)"
    using inv by (rule cv_inv_woken) (auto split: option.splits)
  have nobody: "cv_wake m (?pcs ! u) = None" if "u < length (cv_pcs s)" for u
    using that by (cases "cv_pcs s ! u") auto
  have up: "cv_local q (max m d) x" if "cv_local q d x" "cv_wake m x = None" for q d x
    using that by (cases x) (auto split: if_splits)
  have "m \<le> cv_seq s" using cv_inv_thread [OF inv t] p by simp
  with woken have "cv_inv j (s\<lparr>cv_pcs := ?pcs, cv_all_done := max m (cv_all_done s)\<rparr>)"
    using up nobody by (auto simp: cv_inv_def)
  then show ?thesis using cv_inv_goto [of j _ t] t p by simp
qed

lemma cv_inv_wait:
  assumes inv: "cv_inv j s" and t: "t < length (cv_pcs s)"
    and step: "ConditionVariable_Wait t s = Some s'" and bound: "j < 2 ^ 32"
  shows "cv_inv (Suc j) s'"
proof -
  have q: "cv_seq s < 2 ^ 32" "ticket s = of_nat (cv_seq s)" "cv_all_done s \<le> cv_seq s"
    using inv bound by (auto simp: cv_inv_def)
  have same: "k = cv_seq s" if "(of_nat (cv_seq s) :: u32) = of_nat k" "k \<le> cv_seq s" for k
    using that q by (simp add: word_of_nat_eq_iff take_bit_nat_eq_self)
  note loc = cv_inv_thread [OF inv t]
  show ?thesis
  proof (cases "cv_pcs s ! t")
    case (CvFutex tk k)
    with loc have k: "tk = of_nat k" "k \<le> cv_seq s" "\<not> cv_owns (cv_pcs s ! t)" by auto
    let ?p = "if ticket s = tk then CvParked tk k else CvLock"
    have "cv_local (cv_seq s) (cv_all_done s) ?p" using same [of k] k q by auto
    then have "cv_inv (Suc j) (cv_goto t ?p s)"
      by (rule cv_inv_goto [OF inv t]) (use k in simp)
    then show ?thesis using CvFutex step by (simp add: ConditionVariable_Wait_def)
  qed (use loc q step in \<open>auto simp: ConditionVariable_Wait_def
        intro!: cv_inv_goto [OF inv t] cv_inv_unlock [OF inv t] intro: cv_inv_lock [OF inv t]\<close>)
qed

lemma cv_inv_step:
  assumes inv: "cv_inv j s" and bound: "Suc j < 2 ^ 32" and step: "cv_step l s = Some s'"
  shows "cv_inv (Suc j) s'"
proof (cases l)
  case (CvGo t w)
  from bound have b: "j < 2 ^ 32" by simp
  from step CvGo have t: "t < length (cv_pcs s)" by (simp split: if_splits)
  show ?thesis
  proof (cases "cv_pcs s ! t")
    case (CvNotifyOne held m)
    then obtain pcs where "notify_one (cv_wake m) w (cv_pcs s) = Some pcs"
      "s' = cv_goto t (if held then CvHolding else CvOutside) (s\<lparr>cv_pcs := pcs\<rparr>)"
      using step CvGo t by (auto simp: ConditionVariable_NotifyOne_def)
    with cv_inv_notify_one [OF inv t CvNotifyOne] show ?thesis by blast
  next
    case (CvNotifyAll held m)
    then show ?thesis
      using step CvGo t cv_inv_notify_all [OF inv t] by (simp add: ConditionVariable_NotifyAll_def)
  qed (use step CvGo t cv_inv_wait [OF inv t _ b] in simp_all)
next
  case (CvSpurious t)
  then obtain tk k where p: "t < length (cv_pcs s)" "cv_pcs s ! t = CvParked tk k" "s' = cv_goto t (CvFutex tk k) s"
    using step by (auto split: if_splits cv_pc.splits)
  with cv_inv_thread [OF inv p(1)] show ?thesis by (auto intro!: cv_inv_goto [OF inv])
next
  case (CvCallLock t)
  then show ?thesis using step cv_inv_lock [OF inv, of t s'] by (auto split: if_splits)
next
  case (CvCallUnlock t)
  then show ?thesis using step cv_inv_unlock [OF inv, of t CvOutside] by (auto split: if_splits)
next
  case (CvCallWait t)
  then show ?thesis using step cv_inv_goto [OF inv, of t CvWait] by (auto split: if_splits)
next
  case (CvCallNotifyOne t)
  then show ?thesis using step
    by (auto simp: ConditionVariable_NotifyOne_def split: if_splits intro!: cv_inv_fetch_add [OF inv])
next
  case (CvCallNotifyAll t)
  then show ?thesis using step
    by (auto simp: ConditionVariable_NotifyAll_def split: if_splits intro!: cv_inv_fetch_add [OF inv])
qed

interpretation cv: bounded_invariant_system cv_step "cv_init n" cv_inv "2 ^ 32" for n
  by unfold_locales (fact cv_inv_init, fact cv_inv_step)

section \<open>Properties\<close>






text \<open>\<open>Wait\<close> returns with the client's mutex held, and the mutex is exclusive throughout:
  a thread that runs client code under the mutex, or is in \<open>Wait\<close> before its \<open>unlock\<close>, is the
  owner, and a thread asleep in \<open>Wait\<close> is not.\<close>

theorem ConditionVariable_mutex_discipline:
  assumes r: "run cv_step ls (cv_init n) = Some s" and b: "length ls < 2 ^ 32"
    and "i < length (cv_pcs s)"
  shows "(cv_owns (cv_pcs s ! i) \<longleftrightarrow> cv_owner s = Some i) \<and>
    (cv_pcs s ! i = CvLock \<and> cv_owner s = None \<longrightarrow>
       (\<exists>s'. cv_step (CvGo i w) s = Some s' \<and> cv_pcs s' ! i = CvHolding \<and> cv_owner s' = Some i))"
  using cv_inv_thread [OF cv.binv_run [OF r b] assms(3)] assms(3)
  by (auto simp: ConditionVariable_Wait_def cv_mutex_lock_def cv_goto_def)

theorem ConditionVariable_mutex_discipline_witness:
  "\<exists>s. run cv_step [CvCallLock 0, CvCallWait 0, CvGo 0 None, CvGo 0 None, CvGo 0 None,
          CvCallNotifyOne 1, CvGo 1 (Some 0), CvGo 0 None] (cv_init 2) = Some s \<and>
      cv_pcs s ! 0 = CvLock \<and>
      (\<exists>s'. cv_step (CvGo 0 None) s = Some s' \<and> cv_pcs s' ! 0 = CvHolding \<and> cv_owner s' = Some 0)"
proof -
  let ?ls = "[CvCallLock 0, CvCallWait 0, CvGo 0 None, CvGo 0 None, CvGo 0 None,
          CvCallNotifyOne 1, CvGo 1 (Some 0), CvGo 0 None]"
  obtain s where s: "run cv_step ?ls (cv_init 2) = Some s"
    and p: "0 < length (cv_pcs s)" "cv_pcs s ! 0 = CvLock" "cv_owner s = None"
    by (simp add: cv_init_def cv_defs replicate_two)
  have "length ?ls < 2 ^ 32" by simp
  from ConditionVariable_mutex_discipline [OF s this p(1), of None] s p show ?thesis by blast
qed

end
