(* ===== verification/Task_Queue.thy ===== *)
theory Task_Queue
  imports Prelude
begin

text \<open>
  The two monitors the thread pools are built from: the closable queue of
  \<^verbatim>\<open>blocking_queue.hpp\<close> and the counter of outstanding tasks \<open>WorkersHandler\<close> of
  \<^verbatim>\<open>helpers.cpp\<close>. Each operation is its critical section under the monitor's mutex;
  an operation that has to wait says so, and the caller parks.
\<close>

section \<open>UnboundedBlockingQueue\<close>

record 'a ubq =
  buffer :: "'a list"
  closed :: bool

definition ubq_init :: "'a ubq" where
  "ubq_init = \<lparr>buffer = [], closed = False\<rparr>"

definition UnboundedBlockingQueue_Put :: "'a \<Rightarrow> 'a ubq \<Rightarrow> bool \<times> 'a ubq" where
  "UnboundedBlockingQueue_Put v q =
     (if closed q then (False, q) else (True, q\<lparr>buffer := buffer q @ [v]\<rparr>))"

datatype 'a take_result = TakeWaits | TakeReturns "'a option"

definition UnboundedBlockingQueue_Take :: "'a ubq \<Rightarrow> 'a take_result \<times> 'a ubq" where
  "UnboundedBlockingQueue_Take q =
     (if \<not> (closed q \<or> buffer q \<noteq> []) then (TakeWaits, q)
      else if closed q \<and> buffer q = [] then (TakeReturns None, q)
      else (TakeReturns (Some (hd (buffer q))), q\<lparr>buffer := tl (buffer q)\<rparr>))"

definition UnboundedBlockingQueue_CloseImpl :: "bool \<Rightarrow> 'a ubq \<Rightarrow> 'a ubq" where
  "UnboundedBlockingQueue_CloseImpl clear q =
     (let q1 = q\<lparr>closed := True\<rparr> in if \<not> clear then q1 else q1\<lparr>buffer := []\<rparr>)"

definition UnboundedBlockingQueue_Close :: "'a ubq \<Rightarrow> 'a ubq" where
  "UnboundedBlockingQueue_Close q = UnboundedBlockingQueue_CloseImpl False q"

definition UnboundedBlockingQueue_Cancel :: "'a ubq \<Rightarrow> 'a ubq" where
  "UnboundedBlockingQueue_Cancel q = UnboundedBlockingQueue_CloseImpl True q"

definition UnboundedBlockingQueue_IsClosed :: "'a ubq \<Rightarrow> bool" where
  "UnboundedBlockingQueue_IsClosed q = closed q"

lemmas ubq_defs = UnboundedBlockingQueue_Put_def UnboundedBlockingQueue_Take_def
  UnboundedBlockingQueue_CloseImpl_def UnboundedBlockingQueue_Close_def
  UnboundedBlockingQueue_Cancel_def UnboundedBlockingQueue_IsClosed_def

text \<open>
  The contract of a closable FIFO queue, over the abstraction \<open>content\<close>: what a client that
  only calls the operations can rely on.
\<close>

locale closable_fifo =
  fixes put :: "'a \<Rightarrow> 'q \<Rightarrow> bool \<times> 'q"
    and take_one :: "'q \<Rightarrow> 'a take_result \<times> 'q"
    and close :: "'q \<Rightarrow> 'q"
    and content :: "'q \<Rightarrow> 'a list"
    and is_closed :: "'q \<Rightarrow> bool"
  assumes put_open: "\<not> is_closed q \<Longrightarrow> put v q = (True, q') \<Longrightarrow> content q' = content q @ [v]"
    and put_accepts: "fst (put v q) \<longleftrightarrow> \<not> is_closed q"
    and put_closed: "is_closed q \<Longrightarrow> snd (put v q) = q"
    and put_state: "is_closed (snd (put v q)) \<longleftrightarrow> is_closed q"
    and take_waits: "take_one q = (TakeWaits, q') \<longleftrightarrow> q' = q \<and> content q = [] \<and> \<not> is_closed q"
    and take_some: "take_one q = (TakeReturns (Some v), q') \<Longrightarrow>
          content q = v # content q' \<and> is_closed q' = is_closed q"
    and take_none: "take_one q = (TakeReturns None, q') \<Longrightarrow> q' = q \<and> content q = [] \<and> is_closed q"
    and close_closes: "is_closed (close q)"
    and close_keeps: "content (close q) = content q"
begin

text \<open>Putting a batch: all of it is accepted in order, or all of it rejected.\<close>

fun put_all :: "'a list \<Rightarrow> 'q \<Rightarrow> 'q" where
  "put_all [] q = q"
| "put_all (v # vs) q = put_all vs (snd (put v q))"

lemma put_all_content:
  "content (put_all vs q) = (if is_closed q then content q else content q @ vs)"
  by (induction vs arbitrary: q) (use put_open put_accepts put_closed put_state in
    \<open>auto, (metis (full_types) append.assoc append_Cons append_Nil prod.collapse)+\<close>)

lemma put_all_closed: "is_closed (put_all vs q) = is_closed q"
  by (induction vs arbitrary: q) (auto simp: put_state)

text \<open>Draining: taking until the queue says that it waits or is exhausted.\<close>

fun drain :: "nat \<Rightarrow> 'q \<Rightarrow> 'a list" where
  "drain 0 q = []"
| "drain (Suc n) q =
     (case take_one q of (TakeReturns (Some v), q') \<Rightarrow> v # drain n q' | _ \<Rightarrow> [])"

lemma drain_content: "length (content q) \<le> n \<Longrightarrow> drain n q = content q"
proof (induction n arbitrary: q)
  case (Suc n)
  obtain r q' where t: "take_one q = (r, q')" by (cases "take_one q")
  show ?case
  proof (cases r)
    case TakeWaits
    with t take_waits [of q q'] show ?thesis by simp
  next
    case (TakeReturns r0)
    with t take_some [of q _ q'] take_none [of q q'] Suc show ?thesis
      by (cases r0) auto
  qed
qed simp

end

interpretation ubq: closable_fifo UnboundedBlockingQueue_Put UnboundedBlockingQueue_Take
    UnboundedBlockingQueue_Close buffer UnboundedBlockingQueue_IsClosed
  by unfold_locales (auto simp: ubq_defs split: if_splits)

section \<open>WorkersHandler\<close>

record workers_handler =
  wh_number :: size_t

definition wh_init :: workers_handler where
  "wh_init = \<lparr>wh_number = 0\<rparr>"

definition WorkersHandler_AcquireWorker :: "workers_handler \<Rightarrow> workers_handler" where
  "WorkersHandler_AcquireWorker h = h\<lparr>wh_number := wh_number h + 1\<rparr>"

definition WorkersHandler_ReleaseWorker :: "workers_handler \<Rightarrow> workers_handler" where
  "WorkersHandler_ReleaseWorker h = h\<lparr>wh_number := wh_number h - 1\<rparr>"

text \<open>The predicate of the wait in \<open>EverybodyHome\<close>: \<open>True\<close> when the call returns.\<close>

definition WorkersHandler_EverybodyHome :: "workers_handler \<Rightarrow> bool" where
  "WorkersHandler_EverybodyHome h \<longleftrightarrow> wh_number h = 0"

lemmas wh_defs = WorkersHandler_AcquireWorker_def WorkersHandler_ReleaseWorker_def
  WorkersHandler_EverybodyHome_def

section \<open>Properties\<close>

text \<open>What is put into an open queue comes out in the same order and nothing else does:
  after putting \<open>vs\<close>, taking until nothing is left returns the old content followed by \<open>vs\<close>,
  also when the queue is closed in between; after \<open>Cancel\<close> nothing comes out, a later \<open>Put\<close>
  is refused without an effect and a later \<open>Take\<close> returns \<open>nullopt\<close> at once.\<close>

theorem UnboundedBlockingQueue_fifo:
  assumes "\<not> UnboundedBlockingQueue_IsClosed q" and "length (buffer q) + length vs \<le> n"
  shows "ubq.drain n (UnboundedBlockingQueue_Close (ubq.put_all vs q)) = buffer q @ vs \<and>
    ubq.drain n (ubq.put_all vs q) = buffer q @ vs \<and>
    UnboundedBlockingQueue_Take (UnboundedBlockingQueue_Cancel q)
      = (TakeReturns None, UnboundedBlockingQueue_Cancel q) \<and>
    UnboundedBlockingQueue_Put v (UnboundedBlockingQueue_Cancel q)
      = (False, UnboundedBlockingQueue_Cancel q)"
proof (intro conjI)
  have c: "buffer (ubq.put_all vs q) = buffer q @ vs"
    using assms(1) by (simp add: ubq.put_all_content)
  with assms(2) show "ubq.drain n (UnboundedBlockingQueue_Close (ubq.put_all vs q)) = buffer q @ vs"
    by (simp add: ubq.drain_content ubq.close_keeps)
  from c assms(2) show "ubq.drain n (ubq.put_all vs q) = buffer q @ vs"
    by (simp add: ubq.drain_content)
qed (simp_all add: ubq_defs Let_def)

theorem UnboundedBlockingQueue_fifo_witness:
  "\<not> UnboundedBlockingQueue_IsClosed (ubq_init :: nat ubq) \<and>
   ubq.drain 2 (UnboundedBlockingQueue_Close (ubq.put_all [7, 8 :: nat] ubq_init)) = [7, 8]"
proof -
  have o: "\<not> UnboundedBlockingQueue_IsClosed (ubq_init :: nat ubq)"
    by (simp add: ubq_init_def ubq_defs)
  have "length (buffer (ubq_init :: nat ubq)) + length [7, 8 :: nat] \<le> 2"
    by (simp add: ubq_init_def)
  from UnboundedBlockingQueue_fifo [OF o this] o show ?thesis by (simp add: ubq_init_def)
qed

end
