(* ===== verification/Thread_Pool.thy ===== *)
theory Thread_Pool
  imports Task_Queue
begin

text \<open>
  \<open>StaticThreadPool\<close> of \<^verbatim>\<open>futures/executors/await/executors/static_thread_pool.cpp\<close> (the pool of
  \<^verbatim>\<open>condvar/thread-pool/tp\<close> is the same program without the counter of executed tasks, with
  \<open>Execute\<close> named \<open>Submit\<close>). Worker threads run the loop of \<open>TurnOnBrains\<close>; any number of client
  threads, and the running tasks themselves, call \<open>Execute\<close>; one thread at most calls
  \<open>Join\<close>, \<open>Shutdown\<close> or the destructor (each of them joins the workers, which is legal once).
  What a task does is the environment's choice: it may submit tasks any number of times and
  ends by returning or by throwing.
\<close>

section \<open>State\<close>

text \<open>Where a thread is inside \<open>Execute\<close>.\<close>

datatype 'a exec_pc =
    NotInExecute
  | BeforePut 'a            \<comment> \<open>after \<open>AcquireWorker\<close>, before \<open>task_queue_.Put\<close>\<close>
  | PutRefused              \<comment> \<open>before the compensating \<open>ReleaseWorker\<close>\<close>

datatype 'a worker_pc =
    AtTake                  \<comment> \<open>before the critical section of \<open>Take\<close>\<close>
  | TakeParked
  | TakeWoken
  | Running 'a "'a exec_pc" \<comment> \<open>inside \<open>ExecuteHere\<close>\<close>
  | AfterExecute            \<comment> \<open>before \<open>++executed_counter_\<close>\<close>
  | BeforeRelease           \<comment> \<open>before \<open>workers_manager_.ReleaseWorker()\<close>\<close>
  | WorkerExited

text \<open>The thread that shuts the pool down; the flag says whether by \<open>Cancel\<close>.\<close>

datatype closer_pc =
    NotClosing
  | HomeEntry               \<comment> \<open>in \<open>Join\<close>, before evaluating the predicate of \<open>EverybodyHome\<close>\<close>
  | HomeParked
  | BeforeClose             \<comment> \<open>before \<open>task_queue_.Close()\<close>\<close>
  | BeforeCancel            \<comment> \<open>in \<open>Shutdown\<close> or the destructor, before \<open>task_queue_.Cancel()\<close>\<close>
  | JoiningWorkers bool nat \<comment> \<open>before joining the worker of that index\<close>
  | PoolClosed bool         \<comment> \<open>returned\<close>

text \<open>History: tasks whose \<open>Put\<close> succeeded, tasks taken by workers, tasks that ended, all
  in order of these events, and the tasks \<open>Cancel\<close> removed.\<close>

record 'a pool =
  task_queue :: "'a ubq"
  workers_manager :: workers_handler
  executed_counter :: size_t
  pool_workers :: "'a worker_pc list"
  pool_clients :: "'a exec_pc list"
  pool_closer :: closer_pc
  accepted :: "'a list"
  taken :: "'a list"
  ended :: "'a list"
  dropped :: "'a list"

definition StaticThreadPool_ctor :: "nat \<Rightarrow> nat \<Rightarrow> 'a pool" where
  "StaticThreadPool_ctor threads clients =
     \<lparr>task_queue = ubq_init, workers_manager = wh_init, executed_counter = 0,
      pool_workers = replicate threads AtTake, pool_clients = replicate clients NotInExecute,
      pool_closer = NotClosing, accepted = [], taken = [], ended = [], dropped = []\<rparr>"

section \<open>Operations\<close>

fun take_wake :: "'a worker_pc \<Rightarrow> 'a worker_pc option" where
  "take_wake TakeParked = Some TakeWoken"
| "take_wake _ = None"

text \<open>\<open>enough_tokens_.notify_one()\<close>: only the closing thread ever waits there. A woken closer
  evaluates the predicate again.\<close>

definition home_notify :: "closer_pc \<Rightarrow> closer_pc" where
  "home_notify c = (if c = HomeParked then HomeEntry else c)"

definition pool_acquire :: "'a pool \<Rightarrow> 'a pool" where
  "pool_acquire s =
     s\<lparr>workers_manager := WorkersHandler_AcquireWorker (workers_manager s),
       pool_closer := home_notify (pool_closer s)\<rparr>"

definition pool_release :: "'a pool \<Rightarrow> 'a pool" where
  "pool_release s =
     s\<lparr>workers_manager := WorkersHandler_ReleaseWorker (workers_manager s),
       pool_closer := home_notify (pool_closer s)\<rparr>"

text \<open>The rest of \<open>Execute\<close> after \<open>AcquireWorker\<close>; \<open>w\<close> is the worker a successful \<open>Put\<close> wakes.\<close>

definition StaticThreadPool_Execute ::
    "'a exec_pc \<Rightarrow> tid option \<Rightarrow> 'a pool \<Rightarrow> ('a exec_pc \<times> 'a pool) option" where
  "StaticThreadPool_Execute e w s =
     (case e of
        NotInExecute \<Rightarrow> None
      | BeforePut task \<Rightarrow>
          (let (result, q) = UnboundedBlockingQueue_Put task (task_queue s)
           in if \<not> result then Some (PutRefused, s\<lparr>task_queue := q\<rparr>)
              else map_option
                     (\<lambda>ws. (NotInExecute, s\<lparr>task_queue := q, pool_workers := ws,
                                            accepted := accepted s @ [task]\<rparr>))
                     (notify_one take_wake w (pool_workers s)))
      | PutRefused \<Rightarrow> Some (NotInExecute, pool_release s))"

definition worker_goto :: "tid \<Rightarrow> 'a worker_pc \<Rightarrow> 'a pool \<Rightarrow> 'a pool" where
  "worker_goto i p s = s\<lparr>pool_workers := (pool_workers s)[i := p]\<rparr>"

definition client_goto :: "tid \<Rightarrow> 'a exec_pc \<Rightarrow> 'a pool \<Rightarrow> 'a pool" where
  "client_goto c e s = s\<lparr>pool_clients := (pool_clients s)[c := e]\<rparr>"

definition worker_take :: "tid \<Rightarrow> 'a pool \<Rightarrow> 'a pool" where
  "worker_take i s =
     (case UnboundedBlockingQueue_Take (task_queue s) of
        (TakeWaits, q) \<Rightarrow> worker_goto i TakeParked s
      | (TakeReturns None, q) \<Rightarrow> worker_goto i WorkerExited (s\<lparr>task_queue := q\<rparr>)
      | (TakeReturns (Some task), q) \<Rightarrow>
          worker_goto i (Running task NotInExecute)
            (s\<lparr>task_queue := q, taken := taken s @ [task]\<rparr>))"

text \<open>\<open>ExecuteHere\<close> leaves the worker in the same state whether the task returns or throws.\<close>

datatype task_outcome = TaskReturned | TaskThrew

definition ExecuteHere :: "task_outcome \<Rightarrow> 'a worker_pc" where
  "ExecuteHere outcome = (case outcome of TaskReturned \<Rightarrow> AfterExecute | TaskThrew \<Rightarrow> AfterExecute)"

text \<open>One step of the loop of a worker.\<close>

definition StaticThreadPool_TurnOnBrains :: "tid \<Rightarrow> tid option \<Rightarrow> 'a pool \<Rightarrow> 'a pool option" where
  "StaticThreadPool_TurnOnBrains i w s =
     (case pool_workers s ! i of
        AtTake \<Rightarrow> Some (worker_take i s)
      | TakeWoken \<Rightarrow> Some (worker_take i s)
      | Running task e \<Rightarrow>
          map_option (\<lambda>(e', s'). worker_goto i (Running task e') s')
            (StaticThreadPool_Execute e w s)
      | AfterExecute \<Rightarrow>
          Some (worker_goto i BeforeRelease (s\<lparr>executed_counter := executed_counter s + 1\<rparr>))
      | BeforeRelease \<Rightarrow> Some (worker_goto i AtTake (pool_release s))
      | _ \<Rightarrow> None)"

definition pool_close :: "bool \<Rightarrow> 'a pool \<Rightarrow> 'a pool" where
  "pool_close clear s =
     s\<lparr>task_queue := (if clear then UnboundedBlockingQueue_Cancel (task_queue s)
                      else UnboundedBlockingQueue_Close (task_queue s)),
       dropped := dropped s @ (if clear then buffer (task_queue s) else []),
       pool_workers := notify_all take_wake (pool_workers s),
       pool_closer := JoiningWorkers clear 0\<rparr>"

text \<open>\<open>worker.join()\<close> for one worker after the other; \<open>None\<close> while that worker still runs.\<close>

definition pool_join_workers :: "bool \<Rightarrow> nat \<Rightarrow> 'a pool \<Rightarrow> 'a pool option" where
  "pool_join_workers clear k s =
     (if k < length (pool_workers s) then
        (if pool_workers s ! k = WorkerExited
         then Some (s\<lparr>pool_closer := JoiningWorkers clear (Suc k)\<rparr>) else None)
      else Some (s\<lparr>pool_closer := PoolClosed clear\<rparr>))"

definition StaticThreadPool_Join :: "'a pool \<Rightarrow> 'a pool option" where
  "StaticThreadPool_Join s =
     (case pool_closer s of
        HomeEntry \<Rightarrow>
          Some (s\<lparr>pool_closer := (if WorkersHandler_EverybodyHome (workers_manager s)
                                  then BeforeClose else HomeParked)\<rparr>)
      | BeforeClose \<Rightarrow> Some (pool_close False s)
      | JoiningWorkers False k \<Rightarrow> pool_join_workers False k s
      | _ \<Rightarrow> None)"

definition StaticThreadPool_Shutdown :: "'a pool \<Rightarrow> 'a pool option" where
  "StaticThreadPool_Shutdown s =
     (case pool_closer s of
        BeforeCancel \<Rightarrow> Some (pool_close True s)
      | JoiningWorkers True k \<Rightarrow> pool_join_workers True k s
      | _ \<Rightarrow> None)"

text \<open>The destructor shuts the pool down unless somebody has closed the queue before.\<close>

definition StaticThreadPool_dtor :: "'a pool \<Rightarrow> 'a pool" where
  "StaticThreadPool_dtor s =
     (if \<not> UnboundedBlockingQueue_IsClosed (task_queue s)
      then s\<lparr>pool_closer := BeforeCancel\<rparr> else s)"

section \<open>The system\<close>

datatype 'a pool_label =
    ClientExecutes tid 'a
  | ClientGo tid "tid option"
  | TaskExecutes tid 'a             \<comment> \<open>the task that worker runs calls \<open>Execute\<close>\<close>
  | TaskEnds tid "task_outcome"
  | WorkerGo tid "tid option"
  | WorkerSpurious tid
  | CallJoin
  | CallShutdown
  | CallDtor
  | CloserGo
  | CloserSpurious

fun pool_step :: "'a pool_label \<Rightarrow> 'a pool \<Rightarrow> 'a pool option" where
  "pool_step (ClientExecutes c task) s =
     (if c < length (pool_clients s) \<and> pool_clients s ! c = NotInExecute
      then Some (client_goto c (BeforePut task) (pool_acquire s)) else None)"
| "pool_step (ClientGo c w) s =
     (if c < length (pool_clients s) then
        map_option (\<lambda>(e', s'). client_goto c e' s')
          (StaticThreadPool_Execute (pool_clients s ! c) w s)
      else None)"
| "pool_step (TaskExecutes i task) s =
     (if i < length (pool_workers s) then
        (case pool_workers s ! i of
           Running t NotInExecute \<Rightarrow>
             Some (worker_goto i (Running t (BeforePut task)) (pool_acquire s))
         | _ \<Rightarrow> None)
      else None)"
| "pool_step (TaskEnds i outcome) s =
     (if i < length (pool_workers s) then
        (case pool_workers s ! i of
           Running t NotInExecute \<Rightarrow>
             Some (worker_goto i (ExecuteHere outcome) (s\<lparr>ended := ended s @ [t]\<rparr>))
         | _ \<Rightarrow> None)
      else None)"
| "pool_step (WorkerGo i w) s =
     (if i < length (pool_workers s) then StaticThreadPool_TurnOnBrains i w s else None)"
| "pool_step (WorkerSpurious i) s =
     (if i < length (pool_workers s) \<and> pool_workers s ! i = TakeParked
      then Some (worker_goto i TakeWoken s) else None)"
| "pool_step CallJoin s =
     (if pool_closer s = NotClosing then Some (s\<lparr>pool_closer := HomeEntry\<rparr>) else None)"
| "pool_step CallShutdown s =
     (if pool_closer s = NotClosing then Some (s\<lparr>pool_closer := BeforeCancel\<rparr>) else None)"
| "pool_step CallDtor s =
     (case pool_closer s of
        NotClosing \<Rightarrow> Some (StaticThreadPool_dtor s)
      | PoolClosed clear \<Rightarrow> Some (StaticThreadPool_dtor s)
      | _ \<Rightarrow> None)"
| "pool_step CloserGo s =
     (case StaticThreadPool_Join s of
        Some s' \<Rightarrow> Some s'
      | None \<Rightarrow> StaticThreadPool_Shutdown s)"
| "pool_step CloserSpurious s =
     (if pool_closer s = HomeParked then Some (s\<lparr>pool_closer := HomeEntry\<rparr>) else None)"

section \<open>Invariant\<close>

fun exec_weight :: "'a exec_pc \<Rightarrow> nat" where
  "exec_weight NotInExecute = 0"
| "exec_weight _ = 1"

fun worker_weight :: "'a worker_pc \<Rightarrow> nat" where
  "worker_weight (Running t e) = Suc (exec_weight e)"
| "worker_weight AfterExecute = 1"
| "worker_weight BeforeRelease = 1"
| "worker_weight _ = 0"

text \<open>Outstanding work: tasks between \<open>AcquireWorker\<close> and \<open>ReleaseWorker\<close>.\<close>

definition outstanding :: "'a pool \<Rightarrow> nat" where
  "outstanding s = wsum exec_weight (pool_clients s) + wsum worker_weight (pool_workers s)
     + length (buffer (task_queue s)) + length (dropped s)"

definition count_inv :: "'a pool \<Rightarrow> bool" where
  "count_inv s \<longleftrightarrow> wh_number (workers_manager s) = of_nat (outstanding s)"

fun runs_task :: "'a \<Rightarrow> 'a worker_pc \<Rightarrow> bool" where
  "runs_task x (Running t e) \<longleftrightarrow> t = x"
| "runs_task x _ \<longleftrightarrow> False"

definition history_inv :: "'a pool \<Rightarrow> bool" where
  "history_inv s \<longleftrightarrow>
     accepted s = taken s @ buffer (task_queue s) @ dropped s \<and>
     (dropped s \<noteq> [] \<longrightarrow> closed (task_queue s) \<and> buffer (task_queue s) = []) \<and>
     (\<forall>x. count_list (taken s) x = count_list (ended s) x + cnt (runs_task x) (pool_workers s)) \<and>
     executed_counter s + of_nat (cnt (\<lambda>p. p = AfterExecute) (pool_workers s))
       = of_nat (length (ended s))"

definition wakeup_inv :: "'a pool \<Rightarrow> bool" where
  "wakeup_inv s \<longleftrightarrow>
     (if closed (task_queue s) then cnt (\<lambda>p. p = TakeParked) (pool_workers s) = 0
      else cnt (\<lambda>p. p = WorkerExited) (pool_workers s) = 0 \<and>
        (0 < cnt (\<lambda>p. p = TakeParked) (pool_workers s) \<longrightarrow>
           length (buffer (task_queue s)) \<le> cnt (\<lambda>p. p = TakeWoken) (pool_workers s))) \<and>
     (0 < cnt (\<lambda>p. p = WorkerExited) (pool_workers s) \<longrightarrow> buffer (task_queue s) = [])"

fun closer_local :: "'a pool \<Rightarrow> closer_pc \<Rightarrow> bool" where
  "closer_local s (JoiningWorkers clear k) \<longleftrightarrow>
     closed (task_queue s) \<and> (\<forall>i < k. i < length (pool_workers s) \<longrightarrow> pool_workers s ! i = WorkerExited)
     \<and> (\<not> clear \<longrightarrow> dropped s = [])"
| "closer_local s (PoolClosed clear) \<longleftrightarrow>
     closed (task_queue s) \<and> (\<forall>i < length (pool_workers s). pool_workers s ! i = WorkerExited)
     \<and> (\<not> clear \<longrightarrow> dropped s = [])"
| "closer_local s HomeParked \<longleftrightarrow> \<not> closed (task_queue s) \<and> dropped s = []
     \<and> wh_number (workers_manager s) \<noteq> 0"
| "closer_local s _ \<longleftrightarrow> \<not> closed (task_queue s) \<and> dropped s = []"

definition closer_inv :: "'a pool \<Rightarrow> bool" where
  "closer_inv s \<longleftrightarrow> closer_local s (pool_closer s)"

text \<open>Waking a worker changes nothing but who is parked and who is woken.\<close>

lemma take_wake_Some: "take_wake p = Some q \<longleftrightarrow> p = TakeParked \<and> q = TakeWoken"
  by (cases p) auto

lemma take_wake_None: "take_wake p = None \<longleftrightarrow> p \<noteq> TakeParked"
  by (cases p) auto

lemma take_notify_one:
  assumes "notify_one take_wake w ws = Some ws'"
  shows "length ws' = length ws"
    and "wsum worker_weight ws' = wsum worker_weight ws"
    and "\<not> P TakeParked \<Longrightarrow> \<not> P TakeWoken \<Longrightarrow> cnt P ws' = cnt P ws"
    and "i < length ws \<Longrightarrow> ws ! i \<noteq> TakeParked \<Longrightarrow> ws' ! i = ws ! i"
    and "ws' = ws \<and> cnt (\<lambda>p. p = TakeParked) ws = 0 \<or>
      Suc (cnt (\<lambda>p. p = TakeParked) ws') = cnt (\<lambda>p. p = TakeParked) ws \<and>
      cnt (\<lambda>p. p = TakeWoken) ws' = Suc (cnt (\<lambda>p. p = TakeWoken) ws)"
proof -
  show "length ws' = length ws" using assms by (rule notify_one_length)
  from assms have c: "ws' = ws \<and> cnt (\<lambda>p. p = TakeParked) ws = 0 \<or>
      (\<exists>j < length ws. ws ! j = TakeParked \<and> ws' = ws[j := TakeWoken])"
    by (rule notify_one_cases) (auto simp: take_wake_Some take_wake_None)
  then show "wsum worker_weight ws' = wsum worker_weight ws"
    by (auto simp: wsum_update_same)
  from c show "cnt P ws' = cnt P ws" if "\<not> P TakeParked" "\<not> P TakeWoken"
    using that by (auto simp: cnt_update_eq)
  from c show "ws' ! i = ws ! i" if "i < length ws" "ws ! i \<noteq> TakeParked"
    using that by (auto simp: nth_list_update)
  have pos: "0 < cnt (\<lambda>p. p = TakeParked) ws" if "j < length ws" "ws ! j = TakeParked" for j
    using that by (intro cnt_posI [of j]) auto
  with c show "ws' = ws \<and> cnt (\<lambda>p. p = TakeParked) ws = 0 \<or>
      Suc (cnt (\<lambda>p. p = TakeParked) ws') = cnt (\<lambda>p. p = TakeParked) ws \<and>
      cnt (\<lambda>p. p = TakeWoken) ws' = Suc (cnt (\<lambda>p. p = TakeWoken) ws)"
    by (auto simp: cnt_update_eq)
qed

lemma take_notify_all:
  shows "wsum worker_weight (notify_all take_wake ws) = wsum worker_weight ws"
    and "\<not> P TakeParked \<Longrightarrow> \<not> P TakeWoken \<Longrightarrow>
      cnt P (notify_all take_wake ws) = cnt P ws"
    and "cnt (\<lambda>p. p = TakeParked) (notify_all take_wake ws) = 0"
proof -
  have c: "(case take_wake p of None \<Rightarrow> p | Some q \<Rightarrow> q) = (if p = TakeParked then TakeWoken else p)"
    for p :: "'a worker_pc" by (cases p) auto
  show "wsum worker_weight (notify_all take_wake ws) = wsum worker_weight ws"
    unfolding notify_all_def by (rule wsum_map_same) (simp add: c)
  show "cnt P (notify_all take_wake ws) = cnt P ws"
    if "\<not> P TakeParked" "\<not> P TakeWoken"
    unfolding cnt_notify_all c using that by (induction ws) auto
  show "cnt (\<lambda>p. p = TakeParked) (notify_all take_wake ws) = 0"
    unfolding cnt_notify_all c by (induction ws) auto
qed

section \<open>The invariant is kept\<close>

text \<open>
  The step relation with every composite operation taken apart: one case per effect. The
  invariants are proved over these cases.
\<close>

inductive pool_effect :: "'a pool \<Rightarrow> 'a pool \<Rightarrow> bool" where
  client_acquire: "c < length (pool_clients s) \<Longrightarrow> pool_clients s ! c = NotInExecute \<Longrightarrow>
    pool_effect s (client_goto c (BeforePut task) (pool_acquire s))"
| client_refused: "c < length (pool_clients s) \<Longrightarrow> pool_clients s ! c = BeforePut task \<Longrightarrow>
    closed (task_queue s) \<Longrightarrow> pool_effect s (client_goto c PutRefused s)"
| client_put: "c < length (pool_clients s) \<Longrightarrow> pool_clients s ! c = BeforePut task \<Longrightarrow>
    \<not> closed (task_queue s) \<Longrightarrow> notify_one take_wake w (pool_workers s) = Some ws \<Longrightarrow>
    pool_effect s (client_goto c NotInExecute
      (s\<lparr>task_queue := (task_queue s)\<lparr>buffer := buffer (task_queue s) @ [task]\<rparr>,
         pool_workers := ws, accepted := accepted s @ [task]\<rparr>))"
| client_release: "c < length (pool_clients s) \<Longrightarrow> pool_clients s ! c = PutRefused \<Longrightarrow>
    pool_effect s (client_goto c NotInExecute (pool_release s))"
| task_acquire: "i < length (pool_workers s) \<Longrightarrow> pool_workers s ! i = Running t NotInExecute \<Longrightarrow>
    pool_effect s (worker_goto i (Running t (BeforePut task)) (pool_acquire s))"
| task_refused: "i < length (pool_workers s) \<Longrightarrow> pool_workers s ! i = Running t (BeforePut task) \<Longrightarrow>
    closed (task_queue s) \<Longrightarrow> pool_effect s (worker_goto i (Running t PutRefused) s)"
| task_put: "i < length (pool_workers s) \<Longrightarrow> pool_workers s ! i = Running t (BeforePut task) \<Longrightarrow>
    \<not> closed (task_queue s) \<Longrightarrow> notify_one take_wake w (pool_workers s) = Some ws \<Longrightarrow>
    pool_effect s (worker_goto i (Running t NotInExecute)
      (s\<lparr>task_queue := (task_queue s)\<lparr>buffer := buffer (task_queue s) @ [task]\<rparr>,
         pool_workers := ws, accepted := accepted s @ [task]\<rparr>))"
| task_release: "i < length (pool_workers s) \<Longrightarrow> pool_workers s ! i = Running t PutRefused \<Longrightarrow>
    pool_effect s (worker_goto i (Running t NotInExecute) (pool_release s))"
| task_end: "i < length (pool_workers s) \<Longrightarrow> pool_workers s ! i = Running t NotInExecute \<Longrightarrow>
    pool_effect s (worker_goto i AfterExecute (s\<lparr>ended := ended s @ [t]\<rparr>))"
| park: "i < length (pool_workers s) \<Longrightarrow> pool_workers s ! i \<in> {AtTake, TakeWoken} \<Longrightarrow>
    \<not> closed (task_queue s) \<Longrightarrow> buffer (task_queue s) = [] \<Longrightarrow>
    pool_effect s (worker_goto i TakeParked s)"
| exit: "i < length (pool_workers s) \<Longrightarrow> pool_workers s ! i \<in> {AtTake, TakeWoken} \<Longrightarrow>
    closed (task_queue s) \<Longrightarrow> buffer (task_queue s) = [] \<Longrightarrow>
    pool_effect s (worker_goto i WorkerExited s)"
| take: "i < length (pool_workers s) \<Longrightarrow> pool_workers s ! i \<in> {AtTake, TakeWoken} \<Longrightarrow>
    buffer (task_queue s) = t # b \<Longrightarrow>
    pool_effect s (worker_goto i (Running t NotInExecute)
      (s\<lparr>task_queue := (task_queue s)\<lparr>buffer := b\<rparr>, taken := taken s @ [t]\<rparr>))"
| executed: "i < length (pool_workers s) \<Longrightarrow> pool_workers s ! i = AfterExecute \<Longrightarrow>
    pool_effect s (worker_goto i BeforeRelease (s\<lparr>executed_counter := executed_counter s + 1\<rparr>))"
| released: "i < length (pool_workers s) \<Longrightarrow> pool_workers s ! i = BeforeRelease \<Longrightarrow>
    pool_effect s (worker_goto i AtTake (pool_release s))"
| spurious: "i < length (pool_workers s) \<Longrightarrow> pool_workers s ! i = TakeParked \<Longrightarrow>
    pool_effect s (worker_goto i TakeWoken s)"
| close_queue: "\<not> closed (task_queue s) \<Longrightarrow> dropped s = [] \<Longrightarrow> pool_effect s (pool_close clear s)"
| closer_moves: "closer_local s c \<Longrightarrow> pool_effect s (s\<lparr>pool_closer := c\<rparr>)"

lemmas pool_defs = worker_goto_def client_goto_def pool_acquire_def pool_release_def
  pool_close_def ubq_defs wh_defs

lemma pool_effect_execute:
  assumes "StaticThreadPool_Execute e w s = Some (e', s')"
  obtains (refused) task where "e = BeforePut task" "closed (task_queue s)" "e' = PutRefused" "s' = s"
  | (put) task ws where "e = BeforePut task" "\<not> closed (task_queue s)" "e' = NotInExecute"
      "notify_one take_wake w (pool_workers s) = Some ws"
      "s' = s\<lparr>task_queue := (task_queue s)\<lparr>buffer := buffer (task_queue s) @ [task]\<rparr>,
         pool_workers := ws, accepted := accepted s @ [task]\<rparr>"
  | (release) "e = PutRefused" "e' = NotInExecute" "s' = pool_release s"
  using assms
  by (cases e) (auto simp: StaticThreadPool_Execute_def UnboundedBlockingQueue_Put_def split: if_splits)

lemma pool_effect_take:
  assumes "i < length (pool_workers s)" "pool_workers s ! i \<in> {AtTake, TakeWoken}"
  shows "pool_effect s (worker_take i s)"
proof (cases "buffer (task_queue s)")
  case Nil
  then show ?thesis using assms
    by (auto simp: worker_take_def UnboundedBlockingQueue_Take_def intro: pool_effect.park pool_effect.exit)
next
  case (Cons t b)
  then show ?thesis using pool_effect.take [OF assms Cons]
    by (simp add: worker_take_def UnboundedBlockingQueue_Take_def)
qed

lemma pool_effect_worker:
  assumes i: "i < length (pool_workers s)" and step: "StaticThreadPool_TurnOnBrains i w s = Some s'"
  shows "pool_effect s s'"
proof (cases "pool_workers s ! i")
  case (Running t e)
  then obtain e' s1 where x: "StaticThreadPool_Execute e w s = Some (e', s1)"
    and s': "s' = worker_goto i (Running t e') s1"
    using step by (auto simp: StaticThreadPool_TurnOnBrains_def)
  from x show ?thesis
  proof (cases rule: pool_effect_execute)
    case (refused task)
    then show ?thesis using s' pool_effect.task_refused [OF i, of t task] Running by simp
  next
    case (put task ws)
    from put(1) Running have r: "pool_workers s ! i = Running t (BeforePut task)" by simp
    show ?thesis unfolding s' put(3,5) by (rule pool_effect.task_put [OF i r put(2,4)])
  next
    case release
    then show ?thesis using s' pool_effect.task_release [OF i, of t] Running by simp
  qed
qed (use step i pool_effect_take [OF i] pool_effect.executed [OF i] pool_effect.released [OF i]
     in \<open>auto simp: StaticThreadPool_TurnOnBrains_def\<close>)

lemma pool_effect_client:
  assumes c: "c < length (pool_clients s)"
    and x: "StaticThreadPool_Execute (pool_clients s ! c) w s = Some (e', s1)"
  shows "pool_effect s (client_goto c e' s1)"
  using x
proof (cases rule: pool_effect_execute)
  case (refused task)
  then show ?thesis using pool_effect.client_refused [OF c, of task] by simp
next
  case (put task ws)
  show ?thesis unfolding put(3,5) by (rule pool_effect.client_put [OF c put(1,2,4)])
next
  case release
  then show ?thesis using pool_effect.client_release [OF c] by simp
qed

lemma pool_effect_closer:
  assumes inv: "closer_inv s" and step: "pool_step CloserGo s = Some s'"
  shows "pool_effect s s'"
proof (cases "pool_closer s")
  case (JoiningWorkers clear k)
  then have "pool_join_workers clear k s = Some s'" using step
    by (cases clear) (auto simp: StaticThreadPool_Join_def StaticThreadPool_Shutdown_def split: option.splits)
  then show ?thesis using inv JoiningWorkers
    by (auto simp: pool_join_workers_def closer_inv_def less_Suc_eq split: if_splits
        intro!: pool_effect.closer_moves)
qed (use step inv in \<open>auto simp: StaticThreadPool_Join_def StaticThreadPool_Shutdown_def closer_inv_def
      wh_defs intro!: pool_effect.closer_moves intro: pool_effect.close_queue\<close>)

lemma pool_step_effect:
  assumes inv: "closer_inv s" and step: "pool_step l s = Some s'"
  shows "pool_effect s s' \<or> s' = s"
proof (cases l)
  case (ClientGo c w)
  with step show ?thesis using pool_effect_client [of c s w] by (auto split: if_splits)
next
  case (WorkerGo i w)
  with step show ?thesis using pool_effect_worker [of i s w] by (auto split: if_splits)
next
  case CloserGo
  with inv step show ?thesis using pool_effect_closer by blast
next
  case CallDtor
  with inv step show ?thesis
    by (auto simp: StaticThreadPool_dtor_def ubq_defs closer_inv_def split: closer_pc.splits if_splits
        intro!: pool_effect.closer_moves)
next
  case (TaskEnds i outcome)
  with step show ?thesis by (auto simp: ExecuteHere_def split: if_splits worker_pc.splits exec_pc.splits
        task_outcome.splits intro: pool_effect.intros)
qed (use step inv in \<open>auto simp: closer_inv_def split: if_splits worker_pc.splits exec_pc.splits
      intro: pool_effect.intros\<close>)

text \<open>The counter follows the outstanding work: both stay, or both go up or down by one.\<close>

lemma count_inv_same:
  "count_inv s \<Longrightarrow> outstanding s' = outstanding s \<Longrightarrow> workers_manager s' = workers_manager s \<Longrightarrow>
   count_inv s'"
  by (simp add: count_inv_def)

lemma count_inv_up:
  "count_inv s \<Longrightarrow> outstanding s' = Suc (outstanding s) \<Longrightarrow>
   workers_manager s' = WorkersHandler_AcquireWorker (workers_manager s) \<Longrightarrow> count_inv s'"
  by (simp add: count_inv_def wh_defs)

lemma count_inv_down:
  "count_inv s \<Longrightarrow> outstanding s = Suc (outstanding s') \<Longrightarrow>
   workers_manager s' = WorkersHandler_ReleaseWorker (workers_manager s) \<Longrightarrow> count_inv s'"
  by (simp add: count_inv_def wh_defs)

lemma outstanding_client:
  "c < length (pool_clients s) \<Longrightarrow>
   outstanding (client_goto c e s) + exec_weight (pool_clients s ! c) = outstanding s + exec_weight e"
  using wsum_update [of c "pool_clients s" exec_weight e] by (simp add: outstanding_def client_goto_def)

lemma outstanding_worker:
  "i < length (pool_workers s) \<Longrightarrow>
   outstanding (worker_goto i p s) + worker_weight (pool_workers s ! i) = outstanding s + worker_weight p"
  using wsum_update [of i "pool_workers s" worker_weight p] by (simp add: outstanding_def worker_goto_def)

lemma outstanding_handler [simp]:
  "outstanding (pool_acquire s) = outstanding s"
  "outstanding (pool_release s) = outstanding s"
  by (simp_all add: outstanding_def pool_acquire_def pool_release_def)

lemma outstanding_put:
  assumes "notify_one take_wake w (pool_workers s) = Some ws"
  shows "outstanding (s\<lparr>task_queue := (task_queue s)\<lparr>buffer := buffer (task_queue s) @ [task]\<rparr>,
         pool_workers := ws, accepted := accepted s @ [task]\<rparr>) = Suc (outstanding s)"
  using assms by (simp add: outstanding_def take_notify_one)

lemma pool_handler_simps [simp]:
  "pool_clients (pool_acquire s) = pool_clients s" "pool_clients (pool_release s) = pool_clients s"
  "pool_workers (pool_acquire s) = pool_workers s" "pool_workers (pool_release s) = pool_workers s"
  "task_queue (pool_acquire s) = task_queue s" "task_queue (pool_release s) = task_queue s"
  "dropped (pool_acquire s) = dropped s" "dropped (pool_release s) = dropped s"
  "workers_manager (pool_acquire s) = WorkersHandler_AcquireWorker (workers_manager s)"
  "workers_manager (pool_release s) = WorkersHandler_ReleaseWorker (workers_manager s)"
  "pool_closer (pool_acquire s) = home_notify (pool_closer s)"
  "pool_closer (pool_release s) = home_notify (pool_closer s)"
  by (simp_all add: pool_acquire_def pool_release_def)

lemma pool_goto_simps [simp]:
  "workers_manager (client_goto c e s) = workers_manager s"
  "workers_manager (worker_goto i p s) = workers_manager s"
  "pool_workers (client_goto c e s) = pool_workers s"
  "pool_workers (worker_goto i p s) = (pool_workers s)[i := p]"
  "task_queue (client_goto c e s) = task_queue s" "task_queue (worker_goto i p s) = task_queue s"
  "dropped (client_goto c e s) = dropped s" "dropped (worker_goto i p s) = dropped s"
  "pool_closer (client_goto c e s) = pool_closer s" "pool_closer (worker_goto i p s) = pool_closer s"
  by (simp_all add: client_goto_def worker_goto_def)

lemma count_inv_effect:
  assumes "pool_effect s s'" and "count_inv s"
  shows "count_inv s'"
  using assms
proof (induction rule: pool_effect.induct)
  case (client_acquire c s task)
  then show ?case using outstanding_client [of c "pool_acquire s" "BeforePut task"]
    by (auto intro: count_inv_up)
next
  case (client_put c s task w ws)
  let ?s = "s\<lparr>task_queue := (task_queue s)\<lparr>buffer := buffer (task_queue s) @ [task]\<rparr>,
         pool_workers := ws, accepted := accepted s @ [task]\<rparr>"
  from client_put show ?case
    using outstanding_client [of c ?s NotInExecute] outstanding_put [OF client_put(4), of task]
    by (auto intro: count_inv_same)
next
  case (client_release c s)
  then show ?case using outstanding_client [of c "pool_release s" NotInExecute]
    by (auto intro: count_inv_down)
next
  case (task_acquire i s t task)
  then show ?case using outstanding_worker [of i "pool_acquire s" "Running t (BeforePut task)"]
    by (auto intro: count_inv_up)
next
  case (task_put i s t task w ws)
  let ?s = "s\<lparr>task_queue := (task_queue s)\<lparr>buffer := buffer (task_queue s) @ [task]\<rparr>,
         pool_workers := ws, accepted := accepted s @ [task]\<rparr>"
  have "ws ! i = pool_workers s ! i" "length ws = length (pool_workers s)"
    using take_notify_one [OF task_put(4)] task_put(1,2) by auto
  with task_put show ?case
    using outstanding_worker [of i ?s "Running t NotInExecute"] outstanding_put [OF task_put(4), of task]
    by (auto intro: count_inv_same)
next
  case (task_release i s t)
  then show ?case using outstanding_worker [of i "pool_release s" "Running t NotInExecute"]
    by (auto intro: count_inv_down)
next
  case (released i s)
  then show ?case using outstanding_worker [of i "pool_release s" AtTake]
    by (auto intro: count_inv_down)
next
  case (take i s t b)
  have "Suc (outstanding (s\<lparr>task_queue := (task_queue s)\<lparr>buffer := b\<rparr>, taken := taken s @ [t]\<rparr>))
      = outstanding s" using take by (simp add: outstanding_def)
  with take show ?case using outstanding_worker [of i
      "s\<lparr>task_queue := (task_queue s)\<lparr>buffer := b\<rparr>, taken := taken s @ [t]\<rparr>" "Running t NotInExecute"]
    by (auto intro!: count_inv_same [of s])
next
  case (close_queue s clear)
  then show ?case by (auto simp: count_inv_def outstanding_def pool_defs Let_def take_notify_all)
qed (auto simp: count_inv_def outstanding_def pool_defs wsum_update_same)

lemma history_inv_effect:
  assumes "pool_effect s s'" and "history_inv s"
  shows "history_inv s'"
  using assms
proof (induction rule: pool_effect.induct)
  case (close_queue s clear)
  then show ?case by (auto simp: history_inv_def pool_defs Let_def take_notify_all)
next
  case (executed i s)
  then have "0 < cnt (\<lambda>p. p = AfterExecute) (pool_workers s)" by (intro cnt_posI [of i]) auto
  then obtain m where "cnt (\<lambda>p. p = AfterExecute) (pool_workers s) = Suc m" using gr0_implies_Suc by blast
  with executed show ?case by (simp add: history_inv_def pool_defs cnt_update_eq ac_simps)
next
  case (task_end i s t)
  then have "0 < cnt (runs_task t) (pool_workers s)" by (intro cnt_posI [of i]) auto
  with task_end show ?case by (auto simp: history_inv_def pool_defs cnt_update_eq)
qed (auto simp: history_inv_def pool_defs cnt_update_eq take_notify_one)

lemma wakeup_inv_effect:
  assumes "pool_effect s s'" and "wakeup_inv s"
  shows "wakeup_inv s'"
  using assms
proof (induction rule: pool_effect.induct)
  case (client_put c s task w ws)
  then show ?case using take_notify_one(5) [OF client_put(4)] take_notify_one(3) [OF client_put(4), of "\<lambda>p. p = WorkerExited"]
    by (auto simp: wakeup_inv_def pool_defs)
next
  case (task_put i s t task w ws)
  then show ?case using take_notify_one(5) [OF task_put(4)] take_notify_one(3) [OF task_put(4), of "\<lambda>p. p = WorkerExited"]
    take_notify_one(4) [OF task_put(4), of i] take_notify_one(1) [OF task_put(4)]
    by (auto simp: wakeup_inv_def pool_defs cnt_update_eq)
next
  case (close_queue s clear)
  then show ?case by (auto simp: wakeup_inv_def pool_defs Let_def take_notify_all)
next
  case (take i s t b)
  then show ?case by (auto simp: wakeup_inv_def pool_defs cnt_update_eq split: if_splits)
next
  case (spurious i s)
  then show ?case by (auto simp: wakeup_inv_def pool_defs cnt_update_eq dest: cnt_zeroD split: if_splits)
qed (auto simp: wakeup_inv_def pool_defs cnt_update_eq split: if_splits)

lemma closer_inv_move:
  assumes "closer_inv s" "closed (task_queue s') = closed (task_queue s)" "dropped s' = dropped s"
    "length (pool_workers s') = length (pool_workers s)"
    "\<And>i. i < length (pool_workers s) \<Longrightarrow> pool_workers s ! i = WorkerExited \<Longrightarrow>
      pool_workers s' ! i = WorkerExited"
    "pool_closer s' = pool_closer s \<and> workers_manager s' = workers_manager s
      \<or> pool_closer s' = home_notify (pool_closer s)"
  shows "closer_inv s'"
  using assms by (cases "pool_closer s") (auto simp: closer_inv_def home_notify_def)

lemma closer_inv_client [intro]: "closer_inv s \<Longrightarrow> closer_inv (client_goto c e s)"
  by (rule closer_inv_move [of s]) auto

lemma closer_inv_worker [intro]:
  "closer_inv s \<Longrightarrow> pool_workers s ! i \<noteq> WorkerExited \<Longrightarrow> closer_inv (worker_goto i p s)"
  by (rule closer_inv_move [of s]) (simp_all, metis nth_list_update_neq)

lemma closer_inv_handler [intro]:
  "closer_inv s \<Longrightarrow> closer_inv (pool_acquire s)" "closer_inv s \<Longrightarrow> closer_inv (pool_release s)"
  by (auto intro: closer_inv_move [of s])

lemma closer_inv_put:
  assumes "notify_one take_wake w (pool_workers s) = Some ws" "closer_inv s"
  shows "closer_inv (s\<lparr>task_queue := (task_queue s)\<lparr>buffer := b\<rparr>, pool_workers := ws, accepted := a\<rparr>)"
  using assms(2) by (rule closer_inv_move) (use take_notify_one(1,4) [OF assms(1)] in simp_all)

lemma closer_inv_ghost:
  "closer_inv s \<Longrightarrow> closer_inv (s\<lparr>task_queue := (task_queue s)\<lparr>buffer := b\<rparr>, taken := ts\<rparr>)"
  "closer_inv s \<Longrightarrow> closer_inv (s\<lparr>ended := es\<rparr>)"
  "closer_inv s \<Longrightarrow> closer_inv (s\<lparr>executed_counter := n\<rparr>)"
  by (erule closer_inv_move; simp)+

lemma closer_inv_effect:
  assumes "pool_effect s s'" and "closer_inv s"
  shows "closer_inv s'"
  using assms
proof (induction rule: pool_effect.induct)
  case (closer_moves s c)
  then show ?case by (cases c) (auto simp: closer_inv_def)
next
  case (close_queue s clear)
  then show ?case by (auto simp: closer_inv_def pool_defs Let_def)
next
  case (client_put c s task w ws)
  from closer_inv_put [OF client_put(4) client_put.prems] show ?case by (rule closer_inv_client)
next
  case (task_put i s t task w ws)
  from closer_inv_put [OF task_put(4) task_put.prems] show ?case
    by (rule closer_inv_worker) (use take_notify_one(4) [OF task_put(4)] task_put(1,2) in simp)
next
  case (take i s t b)
  then show ?case by (auto intro!: closer_inv_worker simp: closer_inv_ghost)
next
  case (task_end i s t)
  then show ?case by (auto intro!: closer_inv_worker simp: closer_inv_ghost)
next
  case (executed i s)
  then show ?case by (auto intro!: closer_inv_worker simp: closer_inv_ghost)
qed (auto intro!: closer_inv_client closer_inv_worker closer_inv_handler)

definition pool_inv :: "'a pool \<Rightarrow> bool" where
  "pool_inv s \<longleftrightarrow> count_inv s \<and> history_inv s \<and> wakeup_inv s \<and> closer_inv s"

lemma pool_inv_ctor: "pool_inv (StaticThreadPool_ctor n m)"
  by (simp add: pool_inv_def count_inv_def history_inv_def wakeup_inv_def closer_inv_def
      StaticThreadPool_ctor_def outstanding_def ubq_init_def wh_init_def)

lemma pool_inv_step: "pool_inv s \<Longrightarrow> pool_step l s = Some s' \<Longrightarrow> pool_inv s'"
  using pool_step_effect count_inv_effect history_inv_effect wakeup_inv_effect closer_inv_effect
  unfolding pool_inv_def by metis

interpretation pool: invariant_system pool_step "StaticThreadPool_ctor n m" pool_inv for n m
  by unfold_locales (fact pool_inv_ctor, fact pool_inv_step)

text \<open>Steps that are neither new calls nor spurious wakeups.\<close>

fun progress_label :: "'a pool_label \<Rightarrow> bool" where
  "progress_label (ClientGo c w) = True"
| "progress_label (TaskEnds i r) = True"
| "progress_label (WorkerGo i w) = True"
| "progress_label CloserGo = True"
| "progress_label _ = False"

section \<open>Properties\<close>

text \<open>A closed pool, by the invariant.\<close>

lemma pool_closed_executed_all:
  assumes "reachable pool_step (StaticThreadPool_ctor n m) s"
    and "pool_closer s = PoolClosed clear" and "pool_workers s \<noteq> []"
  shows "(\<forall>x. count_list (accepted s) x = count_list (ended s) x + count_list (dropped s) x) \<and>
    executed_counter s = of_nat (length (ended s)) \<and> (\<not> clear \<longrightarrow> dropped s = [])"
proof -
  have inv: "pool_inv s" using assms(1) by (rule pool.inv_reachable)
  have closed: "closed (task_queue s)" "\<not> clear \<longrightarrow> dropped s = []"
    and exited: "i < length (pool_workers s) \<Longrightarrow> pool_workers s ! i = WorkerExited" for i
    using inv assms(2) by (auto simp: pool_inv_def closer_inv_def)
  have "0 < cnt (\<lambda>p. p = WorkerExited) (pool_workers s)"
    using exited [of 0] assms(3) by (intro cnt_posI [of 0]) auto
  then have empty: "buffer (task_queue s) = []" using inv by (simp add: pool_inv_def wakeup_inv_def)
  have none: "cnt P (pool_workers s) = 0" if "\<not> P WorkerExited" for P
  proof (rule ccontr)
    assume "cnt P (pool_workers s) \<noteq> 0"
    then have "\<exists>i < length (pool_workers s). P (pool_workers s ! i)" by (simp flip: cnt_pos_iff)
    with exited that show False by auto
  qed
  have "history_inv s" using inv by (simp add: pool_inv_def)
  with empty closed show ?thesis by (auto simp: history_inv_def none)
qed

text \<open>C1: \<open>Join\<close> and \<open>Shutdown\<close> do what they promise. When \<open>Join\<close> has returned on a pool with at
  least one worker, every task whose \<open>Execute\<close> was accepted has been executed exactly as often
  as it was accepted (also when tasks threw, or were submitted by other tasks), the executed
  counter says how many these are (modulo the width of \<open>size_t\<close>), and nothing was dropped.
  When \<open>Shutdown\<close> or the destructor has returned, every accepted task was executed or dropped.\<close>

theorem StaticThreadPool_Join_executes_all:
  assumes "reachable pool_step (StaticThreadPool_ctor n m) s"
    and "pool_closer s = PoolClosed clear" and "pool_workers s \<noteq> []"
  shows "(\<forall>x. count_list (accepted s) x = count_list (ended s) x + count_list (dropped s) x) \<and>
    executed_counter s = of_nat (length (ended s)) \<and> (\<not> clear \<longrightarrow> dropped s = [])"
  using assms by (rule pool_closed_executed_all)

text \<open>A pool of one worker and one client: the client submits one task, which throws; the owner
  joins the pool.\<close>

definition one_task_labels :: "nat pool_label list" where
  "one_task_labels = [ClientExecutes 0 7, ClientGo 0 None, WorkerGo 0 None, TaskEnds 0 TaskThrew,
     WorkerGo 0 None, WorkerGo 0 None, CallJoin, CloserGo, CloserGo, WorkerGo 0 None, CloserGo, CloserGo]"

lemmas pool_eval = StaticThreadPool_ctor_def StaticThreadPool_Execute_def StaticThreadPool_TurnOnBrains_def
  StaticThreadPool_Join_def StaticThreadPool_Shutdown_def pool_join_workers_def worker_take_def
  ExecuteHere_def home_notify_def notify_all_def ubq_init_def wh_init_def pool_defs Let_def

lemma one_task_run:
  "\<exists>s. run pool_step one_task_labels (StaticThreadPool_ctor 1 1) = Some s \<and>
     pool_closer s = PoolClosed False \<and> pool_workers s \<noteq> [] \<and> accepted s = [7]"
  by (simp add: one_task_labels_def pool_eval)

theorem StaticThreadPool_Join_executes_all_witness:
  "\<exists>s :: nat pool. reachable pool_step (StaticThreadPool_ctor 1 1) s \<and>
     pool_closer s = PoolClosed False \<and> accepted s = [7] \<and>
     (\<forall>x. count_list (accepted s) x = count_list (ended s) x + count_list (dropped s) x) \<and>
     executed_counter s = of_nat (length (ended s)) \<and> (\<not> False \<longrightarrow> dropped s = [])"
proof -
  obtain s where s: "run pool_step one_task_labels (StaticThreadPool_ctor 1 1) = Some s"
    and p: "pool_closer s = PoolClosed False" "pool_workers s \<noteq> []" "accepted s = [7]"
    using one_task_run by blast
  have r: "reachable pool_step (StaticThreadPool_ctor 1 1) s" using s by (rule run_reachable)
  from StaticThreadPool_Join_executes_all [OF r p(1,2)] r p show ?thesis by blast
qed

text \<open>Tasks are taken in the order in which they were accepted, whatever the number of
  workers and however the wakeups fall; no task is executed that was not accepted, and none
  more often than it was accepted.\<close>

theorem StaticThreadPool_takes_in_order:
  assumes "reachable pool_step (StaticThreadPool_ctor n m) s"
  shows "accepted s = taken s @ buffer (task_queue s) @ dropped s \<and>
    count_list (ended s) x \<le> count_list (accepted s) x"
  using pool.inv_reachable [OF assms] by (auto simp: pool_inv_def history_inv_def)

theorem StaticThreadPool_takes_in_order_witness:
  "\<exists>s :: nat pool. reachable pool_step (StaticThreadPool_ctor 1 1) s \<and> accepted s = [7] \<and>
     accepted s = taken s @ buffer (task_queue s) @ dropped s \<and>
     count_list (ended s) 7 \<le> count_list (accepted s) 7"
proof -
  obtain s where s: "run pool_step one_task_labels (StaticThreadPool_ctor 1 1) = Some s"
    and p: "accepted s = [7]"
    using one_task_run by blast
  have r: "reachable pool_step (StaticThreadPool_ctor 1 1) s" using s by (rule run_reachable)
  from StaticThreadPool_takes_in_order [OF r, of 7] r p show ?thesis by blast
qed

text \<open>The counter of \<open>WorkersHandler\<close> is the amount of outstanding work: calls of \<open>Execute\<close>
  that have not been refused for good, queued tasks, and tasks being executed or not yet
  released (and, after \<open>Cancel\<close>, the tasks it dropped, which nobody releases). Hence
  \<open>EverybodyHome\<close> lets \<open>Join\<close> through only when no work is outstanding.\<close>

theorem StaticThreadPool_counts_outstanding:
  assumes "reachable pool_step (StaticThreadPool_ctor n m) s" and "outstanding s < 2 ^ 64"
  shows "unat (wh_number (workers_manager s)) = outstanding s \<and>
    (pool_closer s = HomeEntry \<longrightarrow>
       (\<exists>s'. pool_step CloserGo s = Some s' \<and>
          (pool_closer s' = BeforeClose \<longleftrightarrow> outstanding s = 0)))"
proof -
  have w: "wh_number (workers_manager s) = of_nat (outstanding s)"
    using pool.inv_reachable [OF assms(1)] by (simp add: pool_inv_def count_inv_def)
  with assms(2) have n: "unat (wh_number (workers_manager s)) = outstanding s"
    by (simp add: unat_of_nat take_bit_nat_eq_self)
  then have "wh_number (workers_manager s) = 0 \<longleftrightarrow> outstanding s = 0" by (metis unat_eq_zero)
  with n show ?thesis by (simp add: StaticThreadPool_Join_def wh_defs)
qed

theorem StaticThreadPool_counts_outstanding_witness:
  "\<exists>s :: nat pool. reachable pool_step (StaticThreadPool_ctor 1 1) s \<and> pool_closer s = HomeEntry \<and>
     outstanding s = 1 \<and> unat (wh_number (workers_manager s)) = outstanding s \<and>
     (\<exists>s'. pool_step CloserGo s = Some s' \<and> (pool_closer s' = BeforeClose \<longleftrightarrow> outstanding s = 0))"
proof -
  obtain s where s: "run pool_step [ClientExecutes 0 7, ClientGo 0 None, CallJoin]
      (StaticThreadPool_ctor 1 1) = Some (s :: nat pool)"
    and p: "pool_closer s = HomeEntry" "outstanding s = 1"
    by (simp add: pool_eval outstanding_def)
  have r: "reachable pool_step (StaticThreadPool_ctor 1 1) s" using s by (rule run_reachable)
  have "outstanding s < 2 ^ 64" using p(2) by simp
  from StaticThreadPool_counts_outstanding [OF r this] r p show ?thesis
    by (intro exI [of _ s]) (simp del: pool_step.simps)
qed

lemma notify_one_possible: "\<exists>w ws. notify_one wake w pcs = Some ws"
proof (cases "\<exists>i < length pcs. wake (pcs ! i) \<noteq> None")
  case True
  then obtain i q where "i < length pcs" "wake (pcs ! i) = Some q" by auto
  then have "notify_one wake (Some i) pcs = Some (pcs[i := q])" by simp
  then show ?thesis by blast
next
  case False
  then have "notify_one wake None pcs = Some pcs" by (auto simp: list_all_length)
  then show ?thesis by blast
qed

lemma execute_possible: "e \<noteq> NotInExecute \<Longrightarrow> \<exists>w r. StaticThreadPool_Execute e w s = Some r"
  using notify_one_possible [of take_wake "pool_workers s"]
  by (cases e) (auto simp: StaticThreadPool_Execute_def ubq_defs split: if_splits)

lemma worker_progress:
  assumes i: "i < length (pool_workers s)" and p: "pool_workers s ! i \<notin> {TakeParked, WorkerExited}"
  shows "\<exists>l. progress_label l \<and> pool_step l s \<noteq> None"
proof (cases "\<exists>t. pool_workers s ! i = Running t NotInExecute")
  case True
  then have "pool_step (TaskEnds i TaskReturned) s \<noteq> None" using i by auto
  then show ?thesis by (intro exI [of _ "TaskEnds i TaskReturned"]) simp
next
  case False
  then have "\<exists>w. StaticThreadPool_TurnOnBrains i w s \<noteq> None" using p
    by (cases "pool_workers s ! i") (auto simp: StaticThreadPool_TurnOnBrains_def dest!: execute_possible)
  then obtain w where "pool_step (WorkerGo i w) s \<noteq> None" using i by auto
  then show ?thesis by (intro exI [of _ "WorkerGo i w"]) simp
qed

lemma closer_progress:
  assumes "pool_closer s \<in> {HomeEntry, BeforeClose} \<or>
    (\<exists>k. pool_closer s = JoiningWorkers False k \<and>
       (\<forall>i < length (pool_workers s). pool_workers s ! i = WorkerExited))"
  shows "\<exists>l. progress_label l \<and> pool_step l s \<noteq> None"
  using assms
  by (intro exI [of _ CloserGo])
    (auto simp: StaticThreadPool_Join_def pool_join_workers_def split: option.splits if_splits)

lemma client_progress:
  assumes "c < length (pool_clients s)" "pool_clients s ! c \<noteq> NotInExecute"
  shows "\<exists>l. progress_label l \<and> pool_step l s \<noteq> None"
proof -
  obtain w r where "StaticThreadPool_Execute (pool_clients s ! c) w s = Some r"
    using execute_possible assms(2) by blast
  with assms(1) show ?thesis by (intro exI [of _ "ClientGo c w"]) simp
qed

text \<open>With the joining thread parked, every worker parked and no client inside \<open>Execute\<close>, the
  counter would be zero, so the joining thread would not be parked.\<close>

lemma parked_closer_progress:
  assumes inv: "pool_inv s" and home: "pool_closer s = HomeParked" and ws: "pool_workers s \<noteq> []"
  shows "\<exists>l. progress_label l \<and> pool_step l s \<noteq> None"
proof (rule ccontr)
  assume stuck: "\<nexists>l. progress_label l \<and> pool_step l s \<noteq> None"
  have c: "\<not> closed (task_queue s)" "dropped s = []" "wh_number (workers_manager s) \<noteq> 0"
    using inv home by (auto simp: pool_inv_def closer_inv_def)
  have zero: "cnt (\<lambda>p. p = WorkerExited) (pool_workers s) = 0"
    using inv c(1) by (simp add: pool_inv_def wakeup_inv_def)
  have parked: "pool_workers s ! i = TakeParked" if "i < length (pool_workers s)" for i
    by (rule ccontr) (use worker_progress [OF that] stuck cnt_zeroD [OF zero that] in blast)
  then have "0 < cnt (\<lambda>p. p = TakeParked) (pool_workers s)"
    using ws by (intro cnt_posI [of 0]) auto
  moreover have "cnt (\<lambda>p. p = TakeWoken) (pool_workers s) = 0"
    using parked cnt_pos_iff [of "\<lambda>p. p = TakeWoken" "pool_workers s"] by auto
  ultimately have "buffer (task_queue s) = []"
    using inv c(1) by (simp add: pool_inv_def wakeup_inv_def)
  moreover have "wsum worker_weight (pool_workers s) = 0"
    using wsum_pos [of worker_weight "pool_workers s"] parked by fastforce
  moreover have "wsum exec_weight (pool_clients s) = 0"
    using wsum_pos [of exec_weight "pool_clients s"] client_progress [of _ s] stuck by fastforce
  ultimately have "outstanding s = 0" using c(2) by (simp add: outstanding_def)
  with inv c(3) show False by (simp add: pool_inv_def count_inv_def)
qed

lemma pool_join_progress:
  assumes "reachable pool_step (StaticThreadPool_ctor n m) s" and "pool_workers s \<noteq> []"
    and "pool_closer s \<in> {HomeEntry, HomeParked, BeforeClose} \<or>
      (\<exists>k. pool_closer s = JoiningWorkers False k)"
  shows "\<exists>l. progress_label l \<and> pool_step l s \<noteq> None"
proof -
  have inv: "pool_inv s" using assms(1) by (rule pool.inv_reachable)
  show ?thesis
  proof (cases "\<exists>k. pool_closer s = JoiningWorkers False k")
    case True
    then have "cnt (\<lambda>p. p = TakeParked) (pool_workers s) = 0"
      using inv by (auto simp: pool_inv_def closer_inv_def wakeup_inv_def)
    then show ?thesis
      using worker_progress closer_progress True cnt_zeroD [of "\<lambda>p. p = TakeParked"] by blast
  next
    case False
    then show ?thesis
      using assms(2,3) closer_progress [of s] parked_closer_progress [OF inv] by blast
  qed
qed

text \<open>C20: \<open>Join\<close> does not deadlock. In every reachable state of a pool with workers in which \<open>Join\<close>
  has been called and has not returned, some thread of the system has an enabled step that is
  neither a new call nor a spurious wakeup: the joining thread, a client inside \<open>Execute\<close>, a
  worker, or a running task that can end.\<close>

theorem StaticThreadPool_Join_no_deadlock:
  assumes "reachable pool_step (StaticThreadPool_ctor n m) s" and "pool_workers s \<noteq> []"
    and "pool_closer s \<in> {HomeEntry, HomeParked, BeforeClose} \<or>
      (\<exists>k. pool_closer s = JoiningWorkers False k)"
  shows "\<exists>l. progress_label l \<and> pool_step l s \<noteq> None"
  using assms by (rule pool_join_progress)

theorem StaticThreadPool_Join_no_deadlock_witness:
  "\<exists>s :: nat pool. reachable pool_step (StaticThreadPool_ctor 1 1) s \<and> pool_closer s = HomeParked \<and>
     (\<exists>l. progress_label l \<and> pool_step l s \<noteq> None)"
proof -
  obtain s where s: "run pool_step [ClientExecutes 0 7, CallJoin, CloserGo]
      (StaticThreadPool_ctor 1 1) = Some (s :: nat pool)"
    and p: "pool_closer s = HomeParked" "pool_workers s \<noteq> []"
    by (simp add: pool_eval)
  have r: "reachable pool_step (StaticThreadPool_ctor 1 1) s" using s by (rule run_reachable)
  from StaticThreadPool_Join_no_deadlock [OF r p(2)] r p show ?thesis by blast
qed

end
