(* ===== verification/Tp_Pool.thy ===== *)
theory Tp_Pool
  imports Thread_Pool
begin

text \<open>
  The thread pool \<open>tp::StaticThreadPool\<close> of \<^verbatim>\<open>condvar/thread-pool/tp/static_thread_pool.cpp\<close>, the earlier form of the pool
  of the executors: a worker first stores a pointer to its pool in a thread-local variable, tasks are not counted, and
  there is no destructor. Queue and counter of outstanding tasks are those of \<open>Task_Queue\<close> (\<^verbatim>\<open>tp/blocking_queue.hpp\<close> and
  \<^verbatim>\<open>tp/helpers.cpp\<close> have the same text). The pool is shown to refine the pool of \<open>Thread_Pool\<close>, so that the
  invariants proved there hold here.
\<close>

section \<open>State\<close>

datatype 'a tp_worker_pc =
    TpEntry                   \<comment> \<open>before \<open>*pool = this\<close>\<close>
  | TpAtTake
  | TpTakeParked
  | TpTakeWoken
  | TpRunning 'a "'a exec_pc" \<comment> \<open>inside \<open>ExecuteHere\<close>\<close>
  | TpBeforeRelease           \<comment> \<open>before \<open>workers_manager_.ReleaseWorker()\<close>\<close>
  | TpWorkerExited

text \<open>\<open>tp_current\<close> is the thread-local variable \<open>pool\<close> of every worker, true when it points to this pool and
  false when it is null. History as in \<open>Thread_Pool\<close>.\<close>

record 'a tp_pool =
  tp_task_queue :: "'a ubq"
  tp_workers_manager :: workers_handler
  tp_workers :: "'a tp_worker_pc list"
  tp_current :: "bool list"
  tp_clients :: "'a exec_pc list"
  tp_closer :: closer_pc
  tp_accepted :: "'a list"
  tp_taken :: "'a list"
  tp_ended :: "'a list"
  tp_dropped :: "'a list"

definition TpPool_ctor :: "nat \<Rightarrow> nat \<Rightarrow> 'a tp_pool" where
  "TpPool_ctor workers clients =
     \<lparr>tp_task_queue = ubq_init, tp_workers_manager = wh_init, tp_workers = replicate workers TpEntry,
      tp_current = replicate workers False, tp_clients = replicate clients NotInExecute, tp_closer = NotClosing,
      tp_accepted = [], tp_taken = [], tp_ended = [], tp_dropped = []\<rparr>"

section \<open>Operations\<close>

fun tp_take_wake :: "'a tp_worker_pc \<Rightarrow> 'a tp_worker_pc option" where
  "tp_take_wake TpTakeParked = Some TpTakeWoken"
| "tp_take_wake _ = None"

definition tp_acquire :: "'a tp_pool \<Rightarrow> 'a tp_pool" where
  "tp_acquire s =
     s\<lparr>tp_workers_manager := WorkersHandler_AcquireWorker (tp_workers_manager s),
       tp_closer := home_notify (tp_closer s)\<rparr>"

definition tp_release :: "'a tp_pool \<Rightarrow> 'a tp_pool" where
  "tp_release s =
     s\<lparr>tp_workers_manager := WorkersHandler_ReleaseWorker (tp_workers_manager s),
       tp_closer := home_notify (tp_closer s)\<rparr>"

definition tp_worker_goto :: "tid \<Rightarrow> 'a tp_worker_pc \<Rightarrow> 'a tp_pool \<Rightarrow> 'a tp_pool" where
  "tp_worker_goto i p s = s\<lparr>tp_workers := (tp_workers s)[i := p]\<rparr>"

definition tp_client_goto :: "tid \<Rightarrow> 'a exec_pc \<Rightarrow> 'a tp_pool \<Rightarrow> 'a tp_pool" where
  "tp_client_goto c e s = s\<lparr>tp_clients := (tp_clients s)[c := e]\<rparr>"

text \<open>The rest of \<open>Submit\<close> after \<open>AcquireWorker\<close>; \<open>w\<close> is the worker a successful \<open>Put\<close> wakes.\<close>

definition TpPool_Submit :: "'a exec_pc \<Rightarrow> tid option \<Rightarrow> 'a tp_pool \<Rightarrow> ('a exec_pc \<times> 'a tp_pool) option" where
  "TpPool_Submit e w s =
     (case e of
        NotInExecute \<Rightarrow> None
      | BeforePut task \<Rightarrow>
          (let (result, q) = UnboundedBlockingQueue_Put task (tp_task_queue s)
           in if \<not> result then Some (PutRefused, s\<lparr>tp_task_queue := q\<rparr>)
              else map_option
                     (\<lambda>ws. (NotInExecute, s\<lparr>tp_task_queue := q, tp_workers := ws,
                                            tp_accepted := tp_accepted s @ [task]\<rparr>))
                     (notify_one tp_take_wake w (tp_workers s)))
      | PutRefused \<Rightarrow> Some (NotInExecute, tp_release s))"

definition tp_worker_take :: "tid \<Rightarrow> 'a tp_pool \<Rightarrow> 'a tp_pool" where
  "tp_worker_take i s =
     (case UnboundedBlockingQueue_Take (tp_task_queue s) of
        (TakeWaits, q) \<Rightarrow> tp_worker_goto i TpTakeParked s
      | (TakeReturns None, q) \<Rightarrow> tp_worker_goto i TpWorkerExited (s\<lparr>tp_task_queue := q\<rparr>)
      | (TakeReturns (Some task), q) \<Rightarrow>
          tp_worker_goto i (TpRunning task NotInExecute)
            (s\<lparr>tp_task_queue := q, tp_taken := tp_taken s @ [task]\<rparr>))"

text \<open>One step of the lambda \<open>worker_brain\<close> of the constructor.\<close>

definition TpPool_worker_brain :: "tid \<Rightarrow> tid option \<Rightarrow> 'a tp_pool \<Rightarrow> 'a tp_pool option" where
  "TpPool_worker_brain i w s =
     (case tp_workers s ! i of
        TpEntry \<Rightarrow> Some (tp_worker_goto i TpAtTake (s\<lparr>tp_current := (tp_current s)[i := True]\<rparr>))
      | TpAtTake \<Rightarrow> Some (tp_worker_take i s)
      | TpTakeWoken \<Rightarrow> Some (tp_worker_take i s)
      | TpRunning task e \<Rightarrow>
          map_option (\<lambda>(e', s'). tp_worker_goto i (TpRunning task e') s') (TpPool_Submit e w s)
      | TpBeforeRelease \<Rightarrow> Some (tp_worker_goto i TpAtTake (tp_release s))
      | _ \<Rightarrow> None)"

text \<open>\<open>Current()\<close> called in the thread of a worker.\<close>

definition TpPool_Current :: "tid \<Rightarrow> 'a tp_pool \<Rightarrow> bool" where
  "TpPool_Current i s = tp_current s ! i"

definition tp_close :: "bool \<Rightarrow> 'a tp_pool \<Rightarrow> 'a tp_pool" where
  "tp_close clear s =
     s\<lparr>tp_task_queue := (if clear then UnboundedBlockingQueue_Cancel (tp_task_queue s)
                      else UnboundedBlockingQueue_Close (tp_task_queue s)),
       tp_dropped := tp_dropped s @ (if clear then buffer (tp_task_queue s) else []),
       tp_workers := notify_all tp_take_wake (tp_workers s),
       tp_closer := JoiningWorkers clear 0\<rparr>"

definition tp_join_workers :: "bool \<Rightarrow> nat \<Rightarrow> 'a tp_pool \<Rightarrow> 'a tp_pool option" where
  "tp_join_workers clear k s =
     (if k < length (tp_workers s) then
        (if tp_workers s ! k = TpWorkerExited
         then Some (s\<lparr>tp_closer := JoiningWorkers clear (Suc k)\<rparr>) else None)
      else Some (s\<lparr>tp_closer := PoolClosed clear\<rparr>))"

definition TpPool_Join :: "'a tp_pool \<Rightarrow> 'a tp_pool option" where
  "TpPool_Join s =
     (case tp_closer s of
        HomeEntry \<Rightarrow>
          Some (s\<lparr>tp_closer := (if WorkersHandler_EverybodyHome (tp_workers_manager s)
                                then BeforeClose else HomeParked)\<rparr>)
      | BeforeClose \<Rightarrow> Some (tp_close False s)
      | JoiningWorkers False k \<Rightarrow> tp_join_workers False k s
      | _ \<Rightarrow> None)"

definition TpPool_Shutdown :: "'a tp_pool \<Rightarrow> 'a tp_pool option" where
  "TpPool_Shutdown s =
     (case tp_closer s of
        BeforeCancel \<Rightarrow> Some (tp_close True s)
      | JoiningWorkers True k \<Rightarrow> tp_join_workers True k s
      | _ \<Rightarrow> None)"

section \<open>The system\<close>

datatype 'a tp_label =
    TpClientSubmits tid 'a
  | TpClientGo tid "tid option"
  | TpTaskSubmits tid 'a
  | TpTaskEnds tid "task_outcome"
  | TpWorkerGo tid "tid option"
  | TpWorkerSpurious tid
  | TpCallJoin
  | TpCallShutdown
  | TpCloserGo
  | TpCloserSpurious

fun tp_step :: "'a tp_label \<Rightarrow> 'a tp_pool \<Rightarrow> 'a tp_pool option" where
  "tp_step (TpClientSubmits c task) s =
     (if c < length (tp_clients s) \<and> tp_clients s ! c = NotInExecute
      then Some (tp_client_goto c (BeforePut task) (tp_acquire s)) else None)"
| "tp_step (TpClientGo c w) s =
     (if c < length (tp_clients s) then
        map_option (\<lambda>(e', s'). tp_client_goto c e' s') (TpPool_Submit (tp_clients s ! c) w s)
      else None)"
| "tp_step (TpTaskSubmits i task) s =
     (if i < length (tp_workers s) then
        (case tp_workers s ! i of
           TpRunning t NotInExecute \<Rightarrow> Some (tp_worker_goto i (TpRunning t (BeforePut task)) (tp_acquire s))
         | _ \<Rightarrow> None)
      else None)"
| "tp_step (TpTaskEnds i outcome) s =
     (if i < length (tp_workers s) then
        (case tp_workers s ! i of
           TpRunning t NotInExecute \<Rightarrow>
             Some (tp_worker_goto i (case outcome of TaskReturned \<Rightarrow> TpBeforeRelease | TaskThrew \<Rightarrow> TpBeforeRelease)
                     (s\<lparr>tp_ended := tp_ended s @ [t]\<rparr>))
         | _ \<Rightarrow> None)
      else None)"
| "tp_step (TpWorkerGo i w) s =
     (if i < length (tp_workers s) then TpPool_worker_brain i w s else None)"
| "tp_step (TpWorkerSpurious i) s =
     (if i < length (tp_workers s) \<and> tp_workers s ! i = TpTakeParked
      then Some (tp_worker_goto i TpTakeWoken s) else None)"
| "tp_step TpCallJoin s =
     (if tp_closer s = NotClosing then Some (s\<lparr>tp_closer := HomeEntry\<rparr>) else None)"
| "tp_step TpCallShutdown s =
     (if tp_closer s = NotClosing then Some (s\<lparr>tp_closer := BeforeCancel\<rparr>) else None)"
| "tp_step TpCloserGo s = (case TpPool_Join s of Some s' \<Rightarrow> Some s' | None \<Rightarrow> TpPool_Shutdown s)"
| "tp_step TpCloserSpurious s =
     (if tp_closer s = HomeParked then Some (s\<lparr>tp_closer := HomeEntry\<rparr>) else None)"

section \<open>Refinement\<close>

fun abs_worker :: "'a tp_worker_pc \<Rightarrow> 'a worker_pc" where
  "abs_worker TpEntry = AtTake"
| "abs_worker TpAtTake = AtTake"
| "abs_worker TpTakeParked = TakeParked"
| "abs_worker TpTakeWoken = TakeWoken"
| "abs_worker (TpRunning t e) = Running t e"
| "abs_worker TpBeforeRelease = BeforeRelease"
| "abs_worker TpWorkerExited = WorkerExited"

text \<open>The pool of the executors with the state of this pool and \<open>n\<close> tasks counted.\<close>

definition tp_abs :: "size_t \<Rightarrow> 'a tp_pool \<Rightarrow> 'a pool" where
  "tp_abs n s =
     \<lparr>task_queue = tp_task_queue s, workers_manager = tp_workers_manager s, executed_counter = n,
      pool_workers = map abs_worker (tp_workers s), pool_clients = tp_clients s, pool_closer = tp_closer s,
      accepted = tp_accepted s, taken = tp_taken s, ended = tp_ended s, dropped = tp_dropped s\<rparr>"

text \<open>The steps of the pool of the executors that correspond to a step: none for the store to the thread-local variable,
  two for the end of a task, where the counter is incremented.\<close>

fun tp_schedule :: "'a tp_pool \<Rightarrow> 'a tp_label \<Rightarrow> 'a pool_label list" where
  "tp_schedule s (TpClientSubmits c task) = [ClientExecutes c task]"
| "tp_schedule s (TpClientGo c w) = [ClientGo c w]"
| "tp_schedule s (TpTaskSubmits i task) = [TaskExecutes i task]"
| "tp_schedule s (TpTaskEnds i outcome) = [TaskEnds i outcome, WorkerGo i None]"
| "tp_schedule s (TpWorkerGo i w) = (if tp_workers s ! i = TpEntry then [] else [WorkerGo i w])"
| "tp_schedule s (TpWorkerSpurious i) = [WorkerSpurious i]"
| "tp_schedule s TpCallJoin = [CallJoin]"
| "tp_schedule s TpCallShutdown = [CallShutdown]"
| "tp_schedule s TpCloserGo = [CloserGo]"
| "tp_schedule s TpCloserSpurious = [CloserSpurious]"

lemma tp_abs_simps [simp]:
  "task_queue (tp_abs n s) = tp_task_queue s" "workers_manager (tp_abs n s) = tp_workers_manager s"
  "executed_counter (tp_abs n s) = n" "pool_workers (tp_abs n s) = map abs_worker (tp_workers s)"
  "pool_clients (tp_abs n s) = tp_clients s" "pool_closer (tp_abs n s) = tp_closer s"
  "accepted (tp_abs n s) = tp_accepted s" "taken (tp_abs n s) = tp_taken s"
  "ended (tp_abs n s) = tp_ended s" "dropped (tp_abs n s) = tp_dropped s"
  by (simp_all add: tp_abs_def)

lemma take_wake_abs: "take_wake (abs_worker p) = map_option abs_worker (tp_take_wake p)"
  by (cases p) auto

lemma abs_goto:
  "worker_goto i (abs_worker p) (tp_abs n s) = tp_abs n (tp_worker_goto i p s)"
  "client_goto c e (tp_abs n s) = tp_abs n (tp_client_goto c e s)"
  "pool_acquire (tp_abs n s) = tp_abs n (tp_acquire s)"
  "pool_release (tp_abs n s) = tp_abs n (tp_release s)"
  by (simp_all add: tp_abs_def worker_goto_def tp_worker_goto_def client_goto_def tp_client_goto_def
      pool_acquire_def tp_acquire_def pool_release_def tp_release_def map_update)

lemma abs_updates:
  "(tp_abs n s)\<lparr>task_queue := q\<rparr> = tp_abs n (s\<lparr>tp_task_queue := q\<rparr>)"
  "(tp_abs n s)\<lparr>pool_workers := map abs_worker ws\<rparr> = tp_abs n (s\<lparr>tp_workers := ws\<rparr>)"
  "(tp_abs n s)\<lparr>accepted := xs\<rparr> = tp_abs n (s\<lparr>tp_accepted := xs\<rparr>)"
  "(tp_abs n s)\<lparr>ended := xs\<rparr> = tp_abs n (s\<lparr>tp_ended := xs\<rparr>)"
  "(tp_abs n s)\<lparr>pool_closer := c\<rparr> = tp_abs n (s\<lparr>tp_closer := c\<rparr>)"
  "(tp_abs n s)\<lparr>executed_counter := m\<rparr> = tp_abs m s"
  by (simp_all add: tp_abs_def)

lemma abs_Submit:
  "StaticThreadPool_Execute e w (tp_abs n s) = map_option (\<lambda>(e', s'). (e', tp_abs n s')) (TpPool_Submit e w s)"
  by (cases e) (auto simp: StaticThreadPool_Execute_def TpPool_Submit_def abs_goto Let_def abs_updates
      notify_one_map [of take_wake abs_worker, OF take_wake_abs] option.map_comp comp_def split: prod.splits)

lemma abs_worker_take: "worker_take i (tp_abs n s) = tp_abs n (tp_worker_take i s)"
  by (auto simp: worker_take_def tp_worker_take_def tp_abs_def worker_goto_def tp_worker_goto_def map_update
      split: take_result.splits prod.splits option.splits)

lemma abs_close: "pool_close clear (tp_abs n s) = tp_abs n (tp_close clear s)"
  by (simp add: pool_close_def tp_close_def tp_abs_def notify_all_map [of take_wake abs_worker, OF take_wake_abs])

lemma abs_exited: "abs_worker p = WorkerExited \<longleftrightarrow> p = TpWorkerExited"
  by (cases p) auto

lemma abs_join_workers: "pool_join_workers clear k (tp_abs n s) = map_option (tp_abs n) (tp_join_workers clear k s)"
  by (simp add: pool_join_workers_def tp_join_workers_def abs_exited abs_updates)

lemma abs_Join: "StaticThreadPool_Join (tp_abs n s) = map_option (tp_abs n) (TpPool_Join s)"
  by (simp add: StaticThreadPool_Join_def TpPool_Join_def abs_close abs_join_workers abs_updates
      split: closer_pc.splits bool.splits)

lemma abs_Shutdown: "StaticThreadPool_Shutdown (tp_abs n s) = map_option (tp_abs n) (TpPool_Shutdown s)"
  by (simp add: StaticThreadPool_Shutdown_def TpPool_Shutdown_def abs_close abs_join_workers
      split: closer_pc.splits bool.splits)

lemma abs_worker_brain:
  assumes "i < length (tp_workers s)" and "tp_workers s ! i \<noteq> TpEntry"
  shows "StaticThreadPool_TurnOnBrains i w (tp_abs n s) = map_option (tp_abs n) (TpPool_worker_brain i w s)"
  using assms
  by (cases "tp_workers s ! i") (auto simp: StaticThreadPool_TurnOnBrains_def TpPool_worker_brain_def abs_worker_take abs_Submit
      option.map_comp comp_def abs_goto abs_goto(1) [of _ TpAtTake, simplified] abs_goto(1) [of _ "TpRunning x y" for x y, simplified]
      intro!: option.map_cong split: prod.splits)

definition tp_related :: "'a tp_pool \<Rightarrow> 'a pool \<Rightarrow> bool" where
  "tp_related s p \<longleftrightarrow> p = tp_abs (executed_counter p) s"

lemma tp_relatedI: "run pool_step ls (tp_abs n s) = Some (tp_abs m s') \<Longrightarrow>
    \<exists>p'. run pool_step ls (tp_abs n s) = Some p' \<and> tp_related s' p'"
  by (simp add: tp_related_def)

lemma tp_step_abs:
  assumes step: "tp_step l s = Some s'"
  shows "\<exists>p'. run pool_step (tp_schedule s l) (tp_abs n s) = Some p' \<and> tp_related s' p'"
proof (cases l)
  case (TpClientSubmits c task)
  with step show ?thesis by (intro tp_relatedI [where m = n]) (auto simp: abs_goto split: if_splits)
next
  case (TpClientGo c w)
  with step show ?thesis by (intro tp_relatedI [where m = n]) (auto simp: abs_Submit abs_goto split: if_splits)
next
  case (TpTaskSubmits i task)
  with step show ?thesis
    by (intro tp_relatedI [where m = n])
      (auto simp: abs_goto abs_goto(1) [of _ "TpRunning x y" for x y, simplified]
        split: if_splits tp_worker_pc.splits exec_pc.splits)
next
  case (TpTaskEnds i outcome)
  with step obtain t where t: "i < length (tp_workers s)" "tp_workers s ! i = TpRunning t NotInExecute"
    and s': "s' = tp_worker_goto i TpBeforeRelease (s\<lparr>tp_ended := tp_ended s @ [t]\<rparr>)"
    by (auto split: if_splits tp_worker_pc.splits exec_pc.splits task_outcome.splits)
  have "run pool_step (tp_schedule s l) (tp_abs n s) = Some (tp_abs (n + 1) s')"
    using t by (cases outcome) (simp_all add: TpTaskEnds s' StaticThreadPool_TurnOnBrains_def ExecuteHere_def worker_goto_def
        tp_worker_goto_def tp_abs_def map_update)
  then show ?thesis by (rule tp_relatedI)
next
  case (TpWorkerGo i w)
  show ?thesis
  proof (cases "tp_workers s ! i = TpEntry")
    case True
    with TpWorkerGo step have "tp_abs n s' = tp_abs n s"
      by (auto simp: TpPool_worker_brain_def tp_abs_def tp_worker_goto_def map_update nth_map list_update_same_conv
          split: if_splits)
    with True TpWorkerGo show ?thesis by (simp add: tp_related_def)
  next
    case False
    with TpWorkerGo step show ?thesis
      by (intro tp_relatedI [where m = n]) (auto simp: abs_worker_brain split: if_splits)
  qed
next
  case (TpWorkerSpurious i)
  with step show ?thesis
    by (intro tp_relatedI [where m = n]) (auto simp: abs_goto(1) [of _ TpTakeWoken, simplified] split: if_splits)
next
  case TpCloserGo
  with step show ?thesis
    by (intro tp_relatedI [where m = n]) (auto simp: abs_Join abs_Shutdown split: option.splits)
qed (use step in \<open>auto simp: tp_related_def abs_updates split: if_splits\<close>)

interpretation tp: stuttering_refinement tp_step "TpPool_ctor n m" pool_step "StaticThreadPool_ctor n m" tp_related tp_schedule
proof
  show "tp_related (TpPool_ctor n m) (StaticThreadPool_ctor n m)"
    by (simp add: tp_related_def tp_abs_def TpPool_ctor_def StaticThreadPool_ctor_def)
  fix s :: "'a tp_pool" and a l s'
  assume "tp_related s a" and "tp_step l s = Some s'"
  then show "\<exists>a'. run pool_step (tp_schedule s l) a = Some a' \<and> tp_related s' a'"
    using tp_step_abs [of l s s' "executed_counter a"] by (metis tp_related_def)
qed

section \<open>Properties\<close>

text \<open>The workers of a pool know their pool: every worker past its first statement has stored the pointer.\<close>

definition tp_current_inv :: "'a tp_pool \<Rightarrow> bool" where
  "tp_current_inv s \<longleftrightarrow> length (tp_current s) = length (tp_workers s) \<and>
     (\<forall>i < length (tp_workers s). tp_current s ! i \<longleftrightarrow> tp_workers s ! i \<noteq> TpEntry)"

lemma tp_current_inv_goto:
  assumes "tp_current_inv s" and "tp_workers s' = (tp_workers s)[i := p]" and "tp_current s' = tp_current s"
    and "tp_workers s ! i \<noteq> TpEntry" and "p \<noteq> TpEntry"
  shows "tp_current_inv s'"
  using assms by (cases "i < length (tp_workers s)") (auto simp: tp_current_inv_def nth_list_update)

lemma tp_current_inv_same:
  "tp_current_inv s \<Longrightarrow> tp_workers s' = tp_workers s \<Longrightarrow> tp_current s' = tp_current s \<Longrightarrow> tp_current_inv s'"
  by (simp add: tp_current_inv_def)

lemma tp_wake_keeps: "tp_take_wake p = Some q \<Longrightarrow> p \<noteq> TpEntry \<and> q \<noteq> TpEntry"
  by (cases p) auto

lemma tp_current_inv_notify_one:
  assumes "tp_current_inv s" and "notify_one tp_take_wake w (tp_workers s) = Some ws"
    and "tp_workers s' = ws" and "tp_current s' = tp_current s"
  shows "tp_current_inv s'"
  using assms(2)
proof (cases rule: notify_one_cases)
  case none
  with assms show ?thesis by (simp add: tp_current_inv_def)
next
  case (one j q)
  with assms tp_wake_keeps [OF one(2)] show ?thesis by (intro tp_current_inv_goto [of s s' j q]) auto
qed

lemma tp_current_inv_notify_all:
  assumes "tp_current_inv s" and "tp_workers s' = notify_all tp_take_wake (tp_workers s)" and "tp_current s' = tp_current s"
  shows "tp_current_inv s'"
  using assms by (auto simp: tp_current_inv_def dest: tp_wake_keeps split: option.splits)

lemma tp_current_inv_Submit:
  assumes inv: "tp_current_inv s" and sub: "TpPool_Submit e w s = Some (e', s')"
  shows "tp_current_inv s'" and "tp_workers s ! i = TpRunning t e1 \<Longrightarrow> tp_workers s' ! i = TpRunning t e1"
proof -
  show "tp_current_inv s'"
    using sub by (cases e) (auto simp: TpPool_Submit_def tp_release_def split: prod.splits if_splits
        intro: tp_current_inv_same [OF inv] tp_current_inv_notify_one [OF inv])
  assume run: "tp_workers s ! i = TpRunning t e1"
  have keep: "ws ! i = TpRunning t e1" if "notify_one tp_take_wake w (tp_workers s) = Some ws" for ws
    using that
  proof (cases rule: notify_one_cases)
    case (one j q)
    with run show ?thesis by (cases "i = j") auto
  qed (use run in simp)
  with sub run show "tp_workers s' ! i = TpRunning t e1"
    by (cases e) (auto simp: TpPool_Submit_def tp_release_def split: prod.splits if_splits)
qed

lemma tp_current_inv_worker:
  assumes inv: "tp_current_inv s" and i: "i < length (tp_workers s)" and step: "TpPool_worker_brain i w s = Some s'"
  shows "tp_current_inv s'"
proof (cases "tp_workers s ! i")
  case TpEntry
  with step have "s' = tp_worker_goto i TpAtTake (s\<lparr>tp_current := (tp_current s)[i := True]\<rparr>)"
    by (simp add: TpPool_worker_brain_def)
  with inv i show ?thesis by (auto simp: tp_current_inv_def tp_worker_goto_def nth_list_update)
next
  case (TpRunning t e)
  with step obtain e' s1 where s1: "TpPool_Submit e w s = Some (e', s1)" "s' = tp_worker_goto i (TpRunning t e') s1"
    by (auto simp: TpPool_worker_brain_def)
  from tp_current_inv_Submit [OF inv s1(1)] TpRunning s1(2) show ?thesis
    by (auto simp: tp_worker_goto_def intro: tp_current_inv_goto [of s1])
qed (use step in \<open>auto simp: TpPool_worker_brain_def tp_worker_take_def tp_worker_goto_def tp_release_def
    intro: tp_current_inv_goto [OF inv] split: take_result.splits prod.splits option.splits\<close>)

lemma tp_current_inv_step:
  assumes inv: "tp_current_inv s" and step: "tp_step l s = Some s'"
  shows "tp_current_inv s'"
proof (cases l)
  case (TpClientSubmits c task)
  with step show ?thesis
    by (auto simp: tp_client_goto_def tp_acquire_def intro: tp_current_inv_same [OF inv] split: if_splits)
next
  case (TpClientGo c w)
  with step obtain e' s1 where s1: "TpPool_Submit (tp_clients s ! c) w s = Some (e', s1)" "s' = tp_client_goto c e' s1"
    by (auto split: if_splits)
  from tp_current_inv_Submit(1) [OF inv s1(1)] s1(2) show ?thesis
    by (auto simp: tp_client_goto_def intro: tp_current_inv_same [of s1])
next
  case (TpWorkerGo i w)
  with step tp_current_inv_worker [OF inv] show ?thesis by (auto split: if_splits)
next
  case TpCloserGo
  with step have "TpPool_Join s = Some s' \<or> TpPool_Shutdown s = Some s'" by (auto split: option.splits)
  then show ?thesis
    by (auto simp: TpPool_Join_def TpPool_Shutdown_def tp_close_def tp_join_workers_def
        intro: tp_current_inv_same [OF inv] tp_current_inv_notify_all [OF inv]
        split: closer_pc.splits bool.splits if_splits)
next
  case (TpTaskSubmits i task)
  with step show ?thesis
    by (auto simp: tp_worker_goto_def tp_acquire_def intro: tp_current_inv_goto [OF inv]
        split: if_splits tp_worker_pc.splits exec_pc.splits)
next
  case (TpTaskEnds i r)
  with step show ?thesis
    by (auto simp: tp_worker_goto_def intro: tp_current_inv_goto [OF inv]
        split: if_splits tp_worker_pc.splits exec_pc.splits task_outcome.splits)
next
  case (TpWorkerSpurious i)
  with step show ?thesis
    by (auto simp: tp_worker_goto_def intro: tp_current_inv_goto [OF inv] split: if_splits)
qed (use step in \<open>auto intro: tp_current_inv_same [OF inv] split: if_splits\<close>)

interpretation tpc: invariant_system tp_step "TpPool_ctor n m" tp_current_inv
  by unfold_locales (simp add: tp_current_inv_def TpPool_ctor_def, fact tp_current_inv_step)

text \<open>C38: The pool \<open>tp::StaticThreadPool\<close> implements the pool of the executors: every reachable state of it, the counter of
  executed tasks added, is a reachable state of that pool. So when its \<open>Join\<close> has returned on a pool with at least one
  worker, every accepted task was executed exactly as often as it was submitted and nothing was dropped, and after
  \<open>Shutdown\<close> every accepted task was executed or dropped; and in every task \<open>Current()\<close> is the pool that runs it.\<close>

theorem TpPool_refines_and_Join_executes_all:
  assumes "reachable tp_step (TpPool_ctor n m) s"
  shows "(\<exists>k. reachable pool_step (StaticThreadPool_ctor n m) (tp_abs k s)) \<and>
    (\<forall>clear. tp_closer s = PoolClosed clear \<and> tp_workers s \<noteq> [] \<longrightarrow>
       (\<forall>x. count_list (tp_accepted s) x = count_list (tp_ended s) x + count_list (tp_dropped s) x) \<and>
       (\<not> clear \<longrightarrow> tp_dropped s = [])) \<and>
    (\<forall>i t e. i < length (tp_workers s) \<and> tp_workers s ! i = TpRunning t e \<longrightarrow> TpPool_Current i s)"
proof -
  obtain k where k: "reachable pool_step (StaticThreadPool_ctor n m) (tp_abs k s)"
    using tp.refines [OF assms] by (metis tp_related_def)
  have "tp_current_inv s" using assms by (rule tpc.inv_reachable)
  with k pool_closed_executed_all [OF k] show ?thesis
    by (auto simp: tp_current_inv_def TpPool_Current_def)
qed

definition tp_labels :: "nat tp_label list" where
  "tp_labels = [TpClientSubmits 0 7, TpClientGo 0 None, TpWorkerGo 0 None, TpWorkerGo 0 None, TpTaskEnds 0 TaskThrew,
     TpWorkerGo 0 None, TpCallJoin, TpCloserGo, TpCloserGo, TpWorkerGo 0 None, TpCloserGo, TpCloserGo]"

lemmas tp_eval = TpPool_ctor_def TpPool_Submit_def TpPool_worker_brain_def TpPool_Join_def TpPool_Shutdown_def
  tp_join_workers_def tp_worker_take_def tp_acquire_def tp_release_def tp_worker_goto_def tp_client_goto_def tp_close_def
  home_notify_def notify_all_def ubq_init_def wh_init_def ubq_defs wh_defs Let_def

lemma tp_labels_run:
  "\<exists>s. run tp_step tp_labels (TpPool_ctor 1 1) = Some s \<and>
     tp_closer s = PoolClosed False \<and> tp_workers s \<noteq> [] \<and> tp_accepted s = [7] \<and> tp_ended s = [7]"
  by (simp add: tp_labels_def tp_eval)

theorem TpPool_refines_and_Join_executes_all_witness:
  "\<exists>s :: nat tp_pool. reachable tp_step (TpPool_ctor 1 1) s \<and> tp_closer s = PoolClosed False \<and> tp_accepted s = [7] \<and>
     (\<exists>k. reachable pool_step (StaticThreadPool_ctor 1 1) (tp_abs k s)) \<and>
     (\<forall>x. count_list (tp_accepted s) x = count_list (tp_ended s) x + count_list (tp_dropped s) x) \<and> tp_dropped s = []"
proof -
  obtain s where s: "run tp_step tp_labels (TpPool_ctor 1 1) = Some s"
    and p: "tp_closer s = PoolClosed False" "tp_workers s \<noteq> []" "tp_accepted s = [7]"
    using tp_labels_run by blast
  have r: "reachable tp_step (TpPool_ctor 1 1) s" using s by (rule run_reachable)
  from TpPool_refines_and_Join_executes_all [OF r] r p show ?thesis by blast
qed

end
