(* ===== verification/Strand.thy ===== *)
theory Strand
  imports Prelude "HOL-Library.Monad_Syntax"
begin

text \<open>
  The strand of \<^verbatim>\<open>futures/executors/await/executors/strand.cpp\<close> with its lock-free stack, over
  an explicit heap of stack nodes. Client threads call \<open>Execute\<close> concurrently: each pushes its
  task with a compare-exchange loop on the head of the stack and tries to become the one that
  schedules. The underlying executor is any executor: a thunk handed to it starts at a moment
  the environment chooses. Dereferencing a null or freed pointer is the value \<open>None\<close> of a heap
  operation and sets \<open>st_fault\<close>.
\<close>

section \<open>LockFreeStack\<close>

type_synonym addr = nat

record 'a stack_node =
  node_data :: 'a
  node_next :: "addr option"

type_synonym 'a node_heap = "addr \<Rightarrow> 'a stack_node option"

text \<open>A stack is the head pointer of its list and the head pointer of its pool of recycled nodes.\<close>

definition LockFreeStack_IsEmpty :: "addr option \<Rightarrow> bool" where
  "LockFreeStack_IsEmpty head \<longleftrightarrow> head = None"

text \<open>\<open>Push\<close> and \<open>Pop\<close> of a pool that one thread uses (theory \<open>Node_Pool\<close> has this class with several threads).\<close>

definition node_pool_Push :: "addr \<Rightarrow> addr option \<Rightarrow> 'a node_heap \<Rightarrow> (addr option \<times> 'a node_heap) option" where
  "node_pool_Push a pool h = do { n \<leftarrow> h a; Some (Some a, h(a \<mapsto> n\<lparr>node_next := pool\<rparr>)) }"

definition node_pool_Pop :: "addr option \<Rightarrow> 'a node_heap \<Rightarrow> (addr option \<times> addr option) option" where
  "node_pool_Pop pool h = (case pool of None \<Rightarrow> Some (None, None) | Some a \<Rightarrow> do { n \<leftarrow> h a; Some (Some a, node_next n) })"

text \<open>The first part of \<open>Push\<close>: a node, from the allocator or from the pool, and the write of its data. The
  address \<open>a\<close> is the one an allocator that is asked returns; it is not in use.\<close>

definition LockFreeStack_Push_alloc :: "addr \<Rightarrow> 'a \<Rightarrow> 'a node_heap \<Rightarrow> 'a node_heap option" where
  "LockFreeStack_Push_alloc a elem h =
     (if h a = None then Some (h(a \<mapsto> \<lparr>node_data = elem, node_next = None\<rparr>)) else None)"

definition LockFreeStack_Push_recycle :: "addr option \<Rightarrow> 'a \<Rightarrow> 'a node_heap \<Rightarrow> (addr \<times> addr option \<times> 'a node_heap) option" where
  "LockFreeStack_Push_recycle pool elem h =
     do { (new_node, pool') \<leftarrow> node_pool_Pop pool h; a \<leftarrow> new_node; n \<leftarrow> h a;
          Some (a, pool', h(a \<mapsto> n\<lparr>node_data := elem\<rparr>)) }"

text \<open>\<open>new_node->next = head_\<close>\<close>

definition LockFreeStack_Push_load :: "addr \<Rightarrow> addr option \<Rightarrow> 'a node_heap \<Rightarrow> 'a node_heap option" where
  "LockFreeStack_Push_load a head h =
     do { n \<leftarrow> h a; Some (h(a \<mapsto> n\<lparr>node_next := head\<rparr>)) }"

text \<open>\<open>head_.compare_exchange_strong(new_node->next, new_node)\<close>; a failure stores the current
  head in \<open>new_node->next\<close>.\<close>

definition LockFreeStack_Push_cas ::
    "addr \<Rightarrow> addr option \<Rightarrow> 'a node_heap \<Rightarrow> (bool \<times> addr option \<times> 'a node_heap) option" where
  "LockFreeStack_Push_cas a head h =
     do { n \<leftarrow> h a;
          if node_next n = head then Some (True, Some a, h)
          else Some (False, head, h(a \<mapsto> n\<lparr>node_next := head\<rparr>)) }"

text \<open>\<open>Pop\<close> on the local stack \<open>tasks_to_run\<close>: nobody else knows it, so the compare-exchange
  succeeds at once. The node goes to the pool of the local stack.\<close>

definition LockFreeStack_Pop ::
    "addr option \<Rightarrow> addr option \<Rightarrow> 'a node_heap \<Rightarrow> ('a option \<times> addr option \<times> addr option \<times> 'a node_heap) option" where
  "LockFreeStack_Pop head pool h =
     (case head of
        None \<Rightarrow> Some (None, head, pool, h)
      | Some a \<Rightarrow> do { n \<leftarrow> h a; (pool', h') \<leftarrow> node_pool_Push a pool h;
                       Some (Some (node_data n), node_next n, pool', h') })"

text \<open>\<open>tasks_to_run.ExchangeWithAnother(stack_)\<close>: the new heads of the local stack and of \<open>stack_\<close>.\<close>

definition LockFreeStack_ExchangeWithAnother :: "addr option \<Rightarrow> addr option \<Rightarrow> addr option \<times> addr option" where
  "LockFreeStack_ExchangeWithAnother head another = (another, head)"

text \<open>The loop of \<open>ExecuteFirstStack\<close> that empties the local stack into the vector \<open>tasks\<close>.\<close>

partial_function (option) drain_tasks ::
    "addr option \<Rightarrow> addr option \<Rightarrow> 'a node_heap \<Rightarrow> 'a list \<Rightarrow> ('a list \<times> addr option \<times> addr option \<times> 'a node_heap) option" where
  [code]: "drain_tasks head pool h tasks =
     (if LockFreeStack_IsEmpty head then Some (tasks, head, pool, h)
      else case LockFreeStack_Pop head pool h of
             Some (Some t, head', pool', h') \<Rightarrow> drain_tasks head' pool' h' (tasks @ [t])
           | _ \<Rightarrow> None)"

text \<open>The destructors of a stack and of a pool of nodes (same loop): every node of the list is deleted.\<close>

partial_function (option) LockFreeStack_dtor :: "addr option \<Rightarrow> 'a node_heap \<Rightarrow> 'a node_heap option" where
  [code]: "LockFreeStack_dtor head h =
     (case head of
        None \<Rightarrow> Some h
      | Some a \<Rightarrow> do { n \<leftarrow> h a; LockFreeStack_dtor (node_next n) (h(a := None)) })"

section \<open>StrandExecutor\<close>

text \<open>A client thread inside \<open>Execute\<close>. The local stack \<open>tasks_to_run\<close> of \<open>ExecuteFirstStack\<close> is the pair of its
  head and the head of its pool; it lives until the function returns, after \<open>executor_->Execute\<close> has returned.\<close>

type_synonym local_stack = "addr option \<times> addr option"

datatype 'a push_pc =
    PushOutside
  | PushLoad addr              \<comment> \<open>before \<open>new_node->next = head_\<close>\<close>
  | PushCas addr               \<comment> \<open>before the compare-exchange on the head\<close>
  | PushSchedule               \<comment> \<open>before the compare-exchange on \<open>is_scheduled_\<close>\<close>
  | PushFirst                  \<comment> \<open>in \<open>ExecuteFirstStack\<close>, before the exchange of the stacks\<close>
  | PushSubmit "'a list" local_stack   \<comment> \<open>before \<open>executor_->Execute\<close> of a thunk with these tasks\<close>
  | PushReturn local_stack     \<comment> \<open>after it, before the destructors of the local stack\<close>

text \<open>A thunk handed to the underlying executor; \<open>tasks.back()\<close> is the last element.\<close>

datatype 'a thunk_pc =
    ThunkTasks "'a list"       \<comment> \<open>waiting to start, or at the head of the loop over \<open>tasks\<close>\<close>
  | ThunkIn 'a "'a list"       \<comment> \<open>running a task (\<open>ExecuteHere\<close>)\<close>
  | ThunkEmptied               \<comment> \<open>after \<open>stack_.IsEmpty()\<close> returned true\<close>
  | ThunkFirst                 \<comment> \<open>in \<open>ExecuteFirstStack\<close>, before the exchange of the stacks\<close>
  | ThunkSubmit "'a list" local_stack  \<comment> \<open>before \<open>executor_->Execute\<close>\<close>
  | ThunkReturn local_stack    \<comment> \<open>after it, before the destructors of the local stack\<close>
  | ThunkFinished

text \<open>History: \<open>st_pushed\<close> are the tasks in the order in which they entered the stack,
  \<open>st_ran\<close> the tasks in the order in which they were started.\<close>

record 'a strand =
  st_heap :: "'a node_heap"
  st_head :: "addr option"
  st_pool :: "addr option"
  is_scheduled :: bool
  st_clients :: "'a push_pc list"
  st_thunks :: "'a thunk_pc list"
  st_fault :: bool
  st_pushed :: "'a list"
  st_ran :: "'a list"

definition MakeStrand :: "nat \<Rightarrow> 'a strand" where
  "MakeStrand n =
     \<lparr>st_heap = (\<lambda>_. None), st_head = None, st_pool = None, is_scheduled = False,
      st_clients = replicate n PushOutside, st_thunks = [], st_fault = False,
      st_pushed = [], st_ran = []\<rparr>"

definition st_client :: "tid \<Rightarrow> 'a push_pc \<Rightarrow> 'a strand \<Rightarrow> 'a strand" where
  "st_client c p s = s\<lparr>st_clients := (st_clients s)[c := p]\<rparr>"

definition st_thunk :: "nat \<Rightarrow> 'a thunk_pc \<Rightarrow> 'a strand \<Rightarrow> 'a strand" where
  "st_thunk k p s = s\<lparr>st_thunks := (st_thunks s)[k := p]\<rparr>"

text \<open>\<open>ExecuteFirstStack\<close> before its call of \<open>executor_->Execute\<close>: exchange the stacks and empty the local one into
  \<open>tasks\<close>. Nobody else knows the nodes of the local stack.\<close>

definition StrandExecutor_ExecuteFirstStack :: "'a strand \<Rightarrow> ('a list \<times> local_stack \<times> 'a strand) option" where
  "StrandExecutor_ExecuteFirstStack s =
     (let (local, head) = LockFreeStack_ExchangeWithAnother None (st_head s)
      in do { (tasks, local', pool, h) \<leftarrow> drain_tasks local None (st_heap s) [];
              Some (tasks, (local', pool), s\<lparr>st_head := head, st_heap := h\<rparr>) })"

text \<open>The end of \<open>ExecuteFirstStack\<close>: the destructor of the local stack, then that of its pool.\<close>

definition StrandExecutor_ExecuteFirstStack_return :: "local_stack \<Rightarrow> 'a strand \<Rightarrow> 'a strand option" where
  "StrandExecutor_ExecuteFirstStack_return tasks_to_run s =
     do { h \<leftarrow> LockFreeStack_dtor (fst tasks_to_run) (st_heap s);
          h' \<leftarrow> LockFreeStack_dtor (snd tasks_to_run) h;
          Some (s\<lparr>st_heap := h'\<rparr>) }"

definition StrandExecutor_Execute :: "tid \<Rightarrow> 'a strand \<Rightarrow> 'a strand option" where
  "StrandExecutor_Execute c s =
     (case st_clients s ! c of
        PushOutside \<Rightarrow> None
      | PushLoad a \<Rightarrow>
          (case LockFreeStack_Push_load a (st_head s) (st_heap s) of
             None \<Rightarrow> Some (s\<lparr>st_fault := True\<rparr>)
           | Some h \<Rightarrow> Some (st_client c (PushCas a) (s\<lparr>st_heap := h\<rparr>)))
      | PushCas a \<Rightarrow>
          (case LockFreeStack_Push_cas a (st_head s) (st_heap s) of
             None \<Rightarrow> Some (s\<lparr>st_fault := True\<rparr>)
           | Some (ok, head, h) \<Rightarrow>
               Some (st_client c (if ok then PushSchedule else PushLoad a)
                 (s\<lparr>st_head := head, st_heap := h,
                    st_pushed := st_pushed s @
                      (if ok then [node_data (the (h a))] else [])\<rparr>)))
      | PushSchedule \<Rightarrow>
          (if \<not> is_scheduled s then Some (st_client c PushFirst (s\<lparr>is_scheduled := True\<rparr>))
           else Some (st_client c PushOutside s))
      | PushFirst \<Rightarrow>
          (case StrandExecutor_ExecuteFirstStack s of
             None \<Rightarrow> Some (s\<lparr>st_fault := True\<rparr>)
           | Some (tasks, tasks_to_run, s') \<Rightarrow> Some (st_client c (PushSubmit tasks tasks_to_run) s'))
      | PushSubmit tasks tasks_to_run \<Rightarrow>
          Some (st_client c (PushReturn tasks_to_run) (s\<lparr>st_thunks := st_thunks s @ [ThunkTasks tasks]\<rparr>))
      | PushReturn tasks_to_run \<Rightarrow>
          (case StrandExecutor_ExecuteFirstStack_return tasks_to_run s of
             None \<Rightarrow> Some (s\<lparr>st_fault := True\<rparr>)
           | Some s' \<Rightarrow> Some (st_client c PushOutside s')))"

text \<open>The thunk of \<open>ExecuteFirstStack\<close>, run by the underlying executor.\<close>

definition StrandExecutor_thunk :: "nat \<Rightarrow> 'a strand \<Rightarrow> 'a strand option" where
  "StrandExecutor_thunk k s =
     (case st_thunks s ! k of
        ThunkTasks tasks \<Rightarrow>
          (if tasks \<noteq> []
           then Some (st_thunk k (ThunkIn (last tasks) (butlast tasks))
                  (s\<lparr>st_ran := st_ran s @ [last tasks]\<rparr>))
           else Some (st_thunk k
                  (if LockFreeStack_IsEmpty (st_head s) then ThunkEmptied else ThunkFirst) s))
      | ThunkIn t tasks \<Rightarrow> Some (st_thunk k (ThunkTasks tasks) s)
      | ThunkEmptied \<Rightarrow> Some (st_thunk k ThunkFinished (s\<lparr>is_scheduled := False\<rparr>))
      | ThunkFirst \<Rightarrow>
          (case StrandExecutor_ExecuteFirstStack s of
             None \<Rightarrow> Some (s\<lparr>st_fault := True\<rparr>)
           | Some (tasks, tasks_to_run, s') \<Rightarrow> Some (st_thunk k (ThunkSubmit tasks tasks_to_run) s'))
      | ThunkSubmit tasks tasks_to_run \<Rightarrow>
          Some (st_thunk k (ThunkReturn tasks_to_run) (s\<lparr>st_thunks := st_thunks s @ [ThunkTasks tasks]\<rparr>))
      | ThunkReturn tasks_to_run \<Rightarrow>
          (case StrandExecutor_ExecuteFirstStack_return tasks_to_run s of
             None \<Rightarrow> Some (s\<lparr>st_fault := True\<rparr>)
           | Some s' \<Rightarrow> Some (st_thunk k ThunkFinished s'))
      | ThunkFinished \<Rightarrow> None)"

datatype 'a strand_label =
    CallExecute tid 'a addr        \<comment> \<open>with the address the allocator returns if it is asked\<close>
  | StClient tid
  | StThunk nat

fun strand_step :: "'a strand_label \<Rightarrow> 'a strand \<Rightarrow> 'a strand option" where
  "strand_step (CallExecute c t a) s =
     (if c < length (st_clients s) \<and> st_clients s ! c = PushOutside then
        (if LockFreeStack_IsEmpty (st_pool s) then
           do { h \<leftarrow> LockFreeStack_Push_alloc a t (st_heap s);
                Some (st_client c (PushLoad a) (s\<lparr>st_heap := h\<rparr>)) }
         else
           (case LockFreeStack_Push_recycle (st_pool s) t (st_heap s) of
              None \<Rightarrow> Some (s\<lparr>st_fault := True\<rparr>)
            | Some (b, pool, h) \<Rightarrow> Some (st_client c (PushLoad b) (s\<lparr>st_pool := pool, st_heap := h\<rparr>))))
      else None)"
| "strand_step (StClient c) s =
     (if c < length (st_clients s) then StrandExecutor_Execute c s else None)"
| "strand_step (StThunk k) s =
     (if k < length (st_thunks s) then StrandExecutor_thunk k s else None)"

section \<open>The linked list in the heap\<close>

text \<open>\<open>chain h p as ts\<close>: from \<open>p\<close> the heap holds a list of the nodes \<open>as\<close> with the data \<open>ts\<close>.\<close>

fun chain :: "'a node_heap \<Rightarrow> addr option \<Rightarrow> addr list \<Rightarrow> 'a list \<Rightarrow> bool" where
  "chain h p [] [] \<longleftrightarrow> p = None"
| "chain h p (a # as) (t # ts) \<longleftrightarrow>
     p = Some a \<and> a \<notin> set as \<and> (\<exists>nx. h a = Some \<lparr>node_data = t, node_next = nx\<rparr> \<and> chain h nx as ts)"
| "chain h p _ _ \<longleftrightarrow> False"

lemma chain_cong: "(\<And>a. a \<in> set as \<Longrightarrow> h' a = h a) \<Longrightarrow> chain h' p as ts = chain h p as ts"
  by (induction h p as ts rule: chain.induct) auto

lemma chain_dom: "chain h p as ts \<Longrightarrow> a \<in> set as \<Longrightarrow> h a \<noteq> None"
  by (induction h p as ts rule: chain.induct) auto

lemma chain_upd_other: "a \<notin> set as \<Longrightarrow> chain (h(a := x)) p as ts = chain h p as ts"
  by (rule chain_cong) auto

text \<open>Draining a list returns its data, moves exactly its nodes to the pool, and terminates.\<close>

lemma drain_tasks_chain:
  "chain h p as ts \<Longrightarrow> chain h q bs us \<Longrightarrow> set as \<inter> set bs = {} \<Longrightarrow>
   \<exists>q' h'. drain_tasks p q h acc = Some (acc @ ts, None, q', h') \<and> chain h' q' (rev as @ bs) (rev ts @ us) \<and>
     (\<forall>a. a \<notin> set as \<longrightarrow> h' a = h a)"
proof (induction as arbitrary: h p q ts bs us acc)
  case Nil
  then show ?case by (cases ts) (simp_all add: drain_tasks.simps LockFreeStack_IsEmpty_def)
next
  case (Cons a as)
  from Cons.prems(1) obtain t ts' nx where ts: "ts = t # ts'" "p = Some a" "a \<notin> set as"
      "h a = Some \<lparr>node_data = t, node_next = nx\<rparr>" "chain h nx as ts'"
    by (cases ts) auto
  define h' where "h' = h(a \<mapsto> \<lparr>node_data = t, node_next = q\<rparr>)"
  have a: "a \<notin> set bs" using Cons.prems(3) by simp
  have "chain h' nx as ts'" using ts by (simp add: chain_upd_other h'_def)
  moreover have "chain h' (Some a) (a # bs) (t # us)" using Cons.prems(2) a by (simp add: chain_upd_other h'_def)
  moreover have "set as \<inter> set (a # bs) = {}" using Cons.prems(3) ts(3) by auto
  ultimately obtain q'' h'' where r: "drain_tasks nx (Some a) h' (acc @ [t]) = Some ((acc @ [t]) @ ts', None, q'', h'')"
    "chain h'' q'' (rev as @ a # bs) (rev ts' @ t # us)" "\<forall>x. x \<notin> set as \<longrightarrow> h'' x = h' x"
    using Cons.IH by blast
  have "drain_tasks p q h acc = drain_tasks nx (Some a) h' (acc @ [t])"
    using ts by (subst drain_tasks.simps) (simp add: LockFreeStack_IsEmpty_def LockFreeStack_Pop_def node_pool_Push_def h'_def)
  moreover have "h'' x = h x" if "x \<notin> set (a # as)" for x using r(3) that by (simp add: h'_def)
  ultimately show ?case using r ts(1) by auto
qed

lemma LockFreeStack_dtor_null [simp]: "LockFreeStack_dtor None h = Some h"
  by (simp add: LockFreeStack_dtor.simps)

lemma LockFreeStack_dtor_chain:
  "chain h p as ts \<Longrightarrow> LockFreeStack_dtor p h = Some (\<lambda>a. if a \<in> set as then None else h a)"
proof (induction as arbitrary: h p ts)
  case Nil
  then show ?case by (cases ts) (simp_all add: LockFreeStack_dtor.simps)
next
  case (Cons a as)
  from Cons.prems obtain t ts' nx where ts: "p = Some a" "a \<notin> set as"
      "h a = Some \<lparr>node_data = t, node_next = nx\<rparr>" "chain h nx as ts'"
    by (cases ts) auto
  define h' where "h' = h(a := None)"
  have c: "chain h' nx as ts'" using ts by (simp add: chain_upd_other h'_def)
  have "(\<lambda>x. if x \<in> set as then None else h' x) = (\<lambda>x. if x \<in> set (a # as) then None else h x)"
    by (auto simp: h'_def)
  moreover have "LockFreeStack_dtor p h = LockFreeStack_dtor nx h'"
    using ts by (subst LockFreeStack_dtor.simps) (simp add: h'_def)
  ultimately show ?case using Cons.IH [OF c] by simp
qed

section \<open>Invariant\<close>

text \<open>Who is responsible for the strand while \<open>is_scheduled_\<close> is set.\<close>

fun client_active :: "'a push_pc \<Rightarrow> bool" where
  "client_active PushFirst = True"
| "client_active (PushSubmit tasks ls) = True"
| "client_active _ = False"

fun thunk_active :: "'a thunk_pc \<Rightarrow> bool" where
  "thunk_active ThunkFinished = False"
| "thunk_active (ThunkReturn ls) = False"
| "thunk_active _ = True"

text \<open>\<open>b\<close> is the batch of tasks taken from the stack and not started, oldest first.\<close>

fun client_ok :: "'a list \<Rightarrow> 'a push_pc \<Rightarrow> bool" where
  "client_ok b PushFirst \<longleftrightarrow> b = []"
| "client_ok b (PushSubmit tasks ls) \<longleftrightarrow> b = rev tasks"
| "client_ok b _ \<longleftrightarrow> True"

fun thunk_ok :: "'a list \<Rightarrow> 'a thunk_pc \<Rightarrow> bool" where
  "thunk_ok b (ThunkTasks tasks) \<longleftrightarrow> b = rev tasks"
| "thunk_ok b (ThunkIn t tasks) \<longleftrightarrow> b = rev tasks"
| "thunk_ok b ThunkEmptied \<longleftrightarrow> b = []"
| "thunk_ok b ThunkFirst \<longleftrightarrow> b = []"
| "thunk_ok b (ThunkSubmit tasks ls) \<longleftrightarrow> b = rev tasks"
| "thunk_ok b _ \<longleftrightarrow> True"

text \<open>Every node has one owner: the stack, the client that is about to push it, or the client or thunk in whose local
  stack it is. The nodes \<open>us\<close> that a client or thunk owns are known from its program counter.\<close>

definition local_nodes :: "'a node_heap \<Rightarrow> local_stack \<Rightarrow> addr list \<Rightarrow> bool" where
  "local_nodes h ls us \<longleftrightarrow> fst ls = None \<and> (\<exists>vs. chain h (snd ls) us vs)"

fun client_owns :: "'a node_heap \<Rightarrow> 'a push_pc \<Rightarrow> addr list \<Rightarrow> bool" where
  "client_owns h (PushLoad a) us \<longleftrightarrow> us = [a]"
| "client_owns h (PushCas a) us \<longleftrightarrow> us = [a]"
| "client_owns h (PushSubmit tasks ls) us \<longleftrightarrow> local_nodes h ls us"
| "client_owns h (PushReturn ls) us \<longleftrightarrow> local_nodes h ls us"
| "client_owns h _ us \<longleftrightarrow> us = []"

fun thunk_owns :: "'a node_heap \<Rightarrow> 'a thunk_pc \<Rightarrow> addr list \<Rightarrow> bool" where
  "thunk_owns h (ThunkSubmit tasks ls) us \<longleftrightarrow> local_nodes h ls us"
| "thunk_owns h (ThunkReturn ls) us \<longleftrightarrow> local_nodes h ls us"
| "thunk_owns h _ us \<longleftrightarrow> us = []"

text \<open>\<open>Inl c\<close> is the client \<open>c\<close>, \<open>Inr k\<close> the thunk \<open>k\<close>.\<close>

fun party_owns :: "'a node_heap \<Rightarrow> 'a push_pc list \<Rightarrow> 'a thunk_pc list \<Rightarrow> nat + nat \<Rightarrow> addr list \<Rightarrow> bool" where
  "party_owns h cl th (Inl c) us \<longleftrightarrow> (if c < length cl then client_owns h (cl ! c) us else us = [])"
| "party_owns h cl th (Inr k) us \<longleftrightarrow> (if k < length th then thunk_owns h (th ! k) us else us = [])"

definition owned :: "addr list \<Rightarrow> 'a node_heap \<Rightarrow> 'a push_pc list \<Rightarrow> 'a thunk_pc list \<Rightarrow> (nat + nat \<Rightarrow> addr list) \<Rightarrow> bool" where
  "owned as h cl th own \<longleftrightarrow>
     (\<forall>x. party_owns h cl th x (own x)) \<and>
     (\<forall>a. h a \<noteq> None \<longleftrightarrow> a \<in> set as \<or> (\<exists>x. a \<in> set (own x))) \<and>
     (\<forall>x. \<forall>a \<in> set (own x). a \<notin> set as \<and> (\<forall>y. a \<in> set (own y) \<longrightarrow> y = x))"

definition strand_at :: "addr list \<Rightarrow> 'a list \<Rightarrow> 'a list \<Rightarrow> (nat + nat \<Rightarrow> addr list) \<Rightarrow> 'a strand \<Rightarrow> bool" where
  "strand_at as ts b own s \<longleftrightarrow>
     \<not> st_fault s \<and> st_pool s = None \<and> chain (st_heap s) (st_head s) as ts \<and>
     owned as (st_heap s) (st_clients s) (st_thunks s) own \<and>
     cnt client_active (st_clients s) + cnt thunk_active (st_thunks s) = of_bool (is_scheduled s) \<and>
     (\<forall>c < length (st_clients s). client_ok b (st_clients s ! c)) \<and>
     (\<forall>k < length (st_thunks s). thunk_ok b (st_thunks s ! k)) \<and>
     (\<not> is_scheduled s \<longrightarrow> b = []) \<and>
     st_pushed s = st_ran s @ b @ rev ts"

definition strand_inv :: "'a strand \<Rightarrow> bool" where
  "strand_inv s \<longleftrightarrow> (\<exists>as ts b own. strand_at as ts b own s)"

lemma strand_invI: "strand_at as ts b own s \<Longrightarrow> strand_inv s"
  by (auto simp: strand_inv_def)

lemma strand_at_init: "strand_at [] [] [] (\<lambda>_. []) (MakeStrand n)"
proof -
  have "party_owns h (replicate n PushOutside) [] x []" for h :: "'a node_heap" and x by (cases x) auto
  then show ?thesis by (simp add: strand_at_def MakeStrand_def owned_def)
qed

lemma client_ok_inactive: "\<not> client_active p \<Longrightarrow> client_ok b p"
  by (cases p) auto

lemma thunk_ok_inactive: "\<not> thunk_active p \<Longrightarrow> thunk_ok b p"
  by (cases p) auto

subsection \<open>Ownership\<close>

lemma local_nodes_cong:
  assumes "\<And>a. a \<in> set us \<Longrightarrow> h' a = h a"
  shows "local_nodes h' ls us = local_nodes h ls us"
  using chain_cong [of us h' h, OF assms] by (simp add: local_nodes_def)

lemma party_owns_cong:
  assumes "\<And>a. a \<in> set us \<Longrightarrow> h' a = h a"
  shows "party_owns h' cl th x us = party_owns h cl th x us"
proof -
  note eq = local_nodes_cong [of us h' h, OF assms]
  have "client_owns h' p us = client_owns h p us" for p by (cases p) (simp_all add: eq)
  moreover have "thunk_owns h' p us = thunk_owns h p us" for p by (cases p) (simp_all add: eq)
  ultimately show ?thesis by (cases x) auto
qed

lemma local_nodes_null: "local_nodes h (None, None) us \<longleftrightarrow> us = []"
  by (cases us; auto simp: local_nodes_def intro: exI [of _ "[]"] elim: chain.elims)

lemma ownedD:
  assumes "owned as h cl th own"
  shows "party_owns h cl th x (own x)" "h a \<noteq> None \<longleftrightarrow> a \<in> set as \<or> (\<exists>x. a \<in> set (own x))"
    "a \<in> set (own x) \<Longrightarrow> a \<notin> set as" "a \<in> set (own x) \<Longrightarrow> a \<in> set (own y) \<Longrightarrow> y = x"
  using assms unfolding owned_def by blast+

lemma owned_live: "owned as h cl th own \<Longrightarrow> a \<in> set as \<or> a \<in> set (own x) \<Longrightarrow> \<exists>n. h a = Some n"
  using ownedD(2) by fast

lemma owned_apart: "owned as h cl th own \<Longrightarrow> a \<in> set as \<Longrightarrow> a \<notin> set (own x)"
  using ownedD(3) by fast

text \<open>A step of one party \<open>x\<close>: it changes the heap only at its own nodes, those of the stack and fresh ones \<open>N\<close>, and
  divides them between the stack, itself and the allocator.\<close>

lemma owned_step:
  assumes ow: "owned as h cl th own"
    and same: "\<And>y us. y \<noteq> x \<Longrightarrow> party_owns h cl' th' y us = party_owns h cl th y us"
    and mine: "party_owns h' cl' th' x us'"
    and outside: "\<And>a. a \<notin> set (own x) \<union> set as \<union> N \<Longrightarrow> h' a = h a"
    and fresh: "\<And>a. a \<in> N \<Longrightarrow> h a = None"
    and live: "\<And>a. a \<in> set (own x) \<union> set as \<union> N \<Longrightarrow> h' a \<noteq> None \<longleftrightarrow> a \<in> set us' \<union> set as'"
    and sub: "set us' \<union> set as' \<subseteq> set (own x) \<union> set as \<union> N"
    and disj: "set us' \<inter> set as' = {}"
  shows "owned as' h' cl' th' (own(x := us'))"
proof -
  have apart: "a \<notin> set (own x) \<union> set as \<union> N" if "y \<noteq> x" "a \<in> set (own y)" for y a
  proof -
    have "a \<notin> N" using owned_live [OF ow, of a y] fresh [of a] that(2) by auto
    moreover have "a \<notin> set (own x)" using ownedD(4) [OF ow that(2), of x] that(1) by auto
    moreover have "a \<notin> set as" using ownedD(3) [OF ow that(2)] .
    ultimately show ?thesis by simp
  qed
  show ?thesis unfolding owned_def
  proof (intro conjI allI ballI impI)
    fix y
    show "party_owns h' cl' th' y ((own(x := us')) y)"
    proof (cases "y = x")
      case False
      then have "\<And>a. a \<in> set (own y) \<Longrightarrow> h' a = h a" using apart outside by blast
      from party_owns_cong [of "own y" h' h, OF this] same [OF False] ownedD(1) [OF ow, of y] False show ?thesis by simp
    qed (use mine in simp)
  next
    fix a
    show "h' a \<noteq> None \<longleftrightarrow> a \<in> set as' \<or> (\<exists>y. a \<in> set ((own(x := us')) y))"
    proof (cases "a \<in> set (own x) \<union> set as \<union> N")
      case True
      then have "y \<noteq> x \<Longrightarrow> a \<notin> set (own y)" for y using apart by blast
      with live [OF True] show ?thesis by (auto split: if_splits)
    next
      case False
      with sub have "a \<notin> set us'" "a \<notin> set as'" by blast+
      with False outside [OF False] ownedD(2) [OF ow, of a] show ?thesis by auto
    qed
  next
    fix y a assume "a \<in> set ((own(x := us')) y)"
    with sub disj apart show "a \<notin> set as'" by (cases "y = x") auto
  next
    fix y a z assume "a \<in> set ((own(x := us')) y)" "a \<in> set ((own(x := us')) z)"
    with sub apart [of y a] apart [of z a] ownedD(4) [OF ow, of a y z] show "z = y"
      by (cases "y = x"; cases "z = x") auto
  qed
qed

lemma same_client:
  "y \<noteq> Inl c \<Longrightarrow> party_owns h (cl[c := p]) th y us = party_owns h cl th y us"
  "y \<noteq> Inl c \<Longrightarrow> party_owns h (cl[c := p]) (th @ [ThunkTasks tasks]) y us = party_owns h cl th y us"
  by (cases y; auto simp: nth_append less_Suc_eq)+

lemma same_thunk:
  "y \<noteq> Inr k \<Longrightarrow> k < length th \<Longrightarrow> party_owns h cl (th[k := p]) y us = party_owns h cl th y us"
  "y \<noteq> Inr k \<Longrightarrow> k < length th \<Longrightarrow>
     party_owns h cl ((th @ [ThunkTasks tasks])[k := p]) y us = party_owns h cl th y us"
  by (cases y; auto simp: nth_append less_Suc_eq nth_list_update)+

text \<open>Nothing changes hands.\<close>

lemma owned_kept:
  assumes ow: "owned as h cl th own"
    and same: "\<And>y us. y \<noteq> x \<Longrightarrow> party_owns h cl' th' y us = party_owns h cl th y us"
    and mine: "party_owns h cl' th' x (own x)"
  shows "owned as h cl' th' own"
proof -
  have "owned as h cl' th' (own(x := own x))"
  proof (rule owned_step [OF ow same mine, where N = "{}"])
    fix a assume "a \<in> set (own x) \<union> set as \<union> {}"
    with owned_live [OF ow, of a x] show "h a \<noteq> None \<longleftrightarrow> a \<in> set (own x) \<union> set as" by auto
  next
    show "set (own x) \<inter> set as = {}" using owned_apart [OF ow] by blast
  qed simp_all
  then show ?thesis by simp
qed

text \<open>What a client or thunk owns.\<close>

lemma client_own:
  assumes "strand_at as ts b own s" "c < length (st_clients s)"
  shows "client_owns (st_heap s) (st_clients s ! c) (own (Inl c))"
proof -
  have "party_owns (st_heap s) (st_clients s) (st_thunks s) (Inl c) (own (Inl c))"
    using assms(1) ownedD(1) unfolding strand_at_def by blast
  with assms(2) show ?thesis by simp
qed

lemma thunk_own:
  assumes "strand_at as ts b own s" "k < length (st_thunks s)"
  shows "thunk_owns (st_heap s) (st_thunks s ! k) (own (Inr k))"
proof -
  have "party_owns (st_heap s) (st_clients s) (st_thunks s) (Inr k) (own (Inr k))"
    using assms(1) ownedD(1) unfolding strand_at_def by blast
  with assms(2) show ?thesis by simp
qed

text \<open>The active party is the only one.\<close>

lemma strand_client_alone:
  assumes at: "strand_at as ts b own s" and c: "c < length (st_clients s)"
    and act: "client_active (st_clients s ! c)"
  shows "is_scheduled s"
    and "c' < length (st_clients s) \<Longrightarrow> c' \<noteq> c \<Longrightarrow> \<not> client_active (st_clients s ! c')"
    and "k < length (st_thunks s) \<Longrightarrow> \<not> thunk_active (st_thunks s ! k)"
proof -
  have pos: "0 < cnt client_active (st_clients s)" using c act by (rule cnt_posI)
  with at show sched: "is_scheduled s" by (cases "is_scheduled s") (auto simp: strand_at_def)
  with at pos have le: "cnt client_active (st_clients s) \<le> 1" "cnt thunk_active (st_thunks s) = 0"
    by (auto simp: strand_at_def)
  then show "\<not> client_active (st_clients s ! c')" if "c' < length (st_clients s)" "c' \<noteq> c"
    using cnt_le_one_unique [of client_active "st_clients s" c' c] that c act by blast
  show "\<not> thunk_active (st_thunks s ! k)" if "k < length (st_thunks s)"
    using cnt_zeroD [OF le(2) that] .
qed

lemma strand_thunk_alone:
  assumes at: "strand_at as ts b own s" and k: "k < length (st_thunks s)"
    and act: "thunk_active (st_thunks s ! k)"
  shows "is_scheduled s"
    and "k' < length (st_thunks s) \<Longrightarrow> k' \<noteq> k \<Longrightarrow> \<not> thunk_active (st_thunks s ! k')"
    and "c < length (st_clients s) \<Longrightarrow> \<not> client_active (st_clients s ! c)"
proof -
  have pos: "0 < cnt thunk_active (st_thunks s)" using k act by (rule cnt_posI)
  with at show sched: "is_scheduled s" by (cases "is_scheduled s") (auto simp: strand_at_def)
  with at pos have le: "cnt thunk_active (st_thunks s) \<le> 1" "cnt client_active (st_clients s) = 0"
    by (auto simp: strand_at_def)
  then show "\<not> thunk_active (st_thunks s ! k')" if "k' < length (st_thunks s)" "k' \<noteq> k"
    using cnt_le_one_unique [of thunk_active "st_thunks s" k' k] that k act by blast
  show "\<not> client_active (st_clients s ! c)" if "c < length (st_clients s)"
    using cnt_zeroD [OF le(2) that] .
qed

subsection \<open>Steps of a client\<close>

lemma strand_at_alloc:
  assumes at: "strand_at as ts b own s" and c: "c < length (st_clients s)"
    and p: "st_clients s ! c = PushOutside" and h: "st_heap s a = None"
  shows "strand_at as ts b (own(Inl c := [a])) (st_client c (PushLoad a) (s\<lparr>st_heap := (st_heap s)(a \<mapsto> n)\<rparr>))"
proof -
  have ow: "owned as (st_heap s) (st_clients s) (st_thunks s) own" using at by (simp add: strand_at_def)
  have none: "own (Inl c) = []" using client_own [OF at c] p by simp
  have fresh: "a \<notin> set as" using ownedD(2) [OF ow, of a] h by blast
  have "owned as ((st_heap s)(a \<mapsto> n)) ((st_clients s)[c := PushLoad a]) (st_thunks s) (own(Inl c := [a]))"
  proof (rule owned_step [OF ow same_client(1), where N = "{a}"])
    show "party_owns ((st_heap s)(a \<mapsto> n)) ((st_clients s)[c := PushLoad a]) (st_thunks s) (Inl c) [a]" using c by simp
  qed (use fresh h none owned_live [OF ow] in auto)
  then show ?thesis using at fresh c p
    by (auto simp: strand_at_def st_client_def chain_upd_other cnt_update_eq nth_list_update)
qed

text \<open>Both the load and a failed compare-exchange rewrite the \<open>next\<close> field of the own node.\<close>

lemma strand_at_next:
  assumes at: "strand_at as ts b own s" and c: "c < length (st_clients s)"
    and p: "st_clients s ! c \<in> {PushLoad a, PushCas a}" and q: "q \<in> {PushLoad a, PushCas a}"
  shows "strand_at as ts b own (st_client c q (s\<lparr>st_heap := (st_heap s)(a \<mapsto> n)\<rparr>))"
proof -
  have ow: "owned as (st_heap s) (st_clients s) (st_thunks s) own" using at by (simp add: strand_at_def)
  have mine: "own (Inl c) = [a]" using client_own [OF at c] p by auto
  then have a: "a \<notin> set as" using ownedD(3) [OF ow, of a "Inl c"] by simp
  have "owned as ((st_heap s)(a \<mapsto> n)) ((st_clients s)[c := q]) (st_thunks s) (own(Inl c := [a]))"
  proof (rule owned_step [OF ow same_client(1), where N = "{}"])
    show "party_owns ((st_heap s)(a \<mapsto> n)) ((st_clients s)[c := q]) (st_thunks s) (Inl c) [a]" using c q by auto
  qed (use a mine owned_live [OF ow] in auto)
  moreover have "own(Inl c := [a]) = own" using mine by auto
  moreover have "\<not> client_active (st_clients s ! c)" "\<not> client_active q" using p q by auto
  ultimately show ?thesis using at a c
    by (auto simp: strand_at_def st_client_def chain_upd_other cnt_update_eq nth_list_update client_ok_inactive)
qed

lemma strand_at_push:
  assumes at: "strand_at as ts b own s" and c: "c < length (st_clients s)"
    and p: "st_clients s ! c = PushCas a" and n: "st_heap s a = Some n" "node_next n = st_head s"
  shows "strand_at (a # as) (node_data n # ts) b (own(Inl c := [])) (st_client c PushSchedule
    (s\<lparr>st_head := Some a, st_pushed := st_pushed s @ [node_data n]\<rparr>))"
proof -
  have ow: "owned as (st_heap s) (st_clients s) (st_thunks s) own" using at by (simp add: strand_at_def)
  have mine: "own (Inl c) = [a]" using client_own [OF at c] p by auto
  then have a: "a \<notin> set as" using ownedD(3) [OF ow, of a "Inl c"] by simp
  have "owned (a # as) (st_heap s) ((st_clients s)[c := PushSchedule]) (st_thunks s) (own(Inl c := []))"
  proof (rule owned_step [OF ow same_client(1), where N = "{}"])
    show "party_owns (st_heap s) ((st_clients s)[c := PushSchedule]) (st_thunks s) (Inl c) []" using c by simp
  qed (use mine n owned_live [OF ow] in auto)
  moreover have "st_heap s a = Some \<lparr>node_data = node_data n, node_next = st_head s\<rparr>"
    using n by (cases n) simp
  ultimately show ?thesis using at a c p
    by (auto simp: strand_at_def st_client_def cnt_update_eq nth_list_update)
qed

text \<open>Taking the whole stack. The new heap \<open>h\<close> is changed at the nodes of the stack only; some of them, \<open>us\<close>, are now in the
  local stack of whoever took them, the others are deleted.\<close>

definition stack_taken :: "addr list \<Rightarrow> addr list \<Rightarrow> local_stack \<Rightarrow> 'a node_heap \<Rightarrow> 'a node_heap \<Rightarrow> bool" where
  "stack_taken as us ls h h' \<longleftrightarrow> local_nodes h' ls us \<and> set us \<subseteq> set as \<and>
     (\<forall>a. a \<notin> set as \<longrightarrow> h' a = h a) \<and> (\<forall>a \<in> set as. h' a \<noteq> None \<longleftrightarrow> a \<in> set us)"

lemma strand_first_stack:
  assumes at: "strand_at as ts b own s"
  shows "\<exists>us ls h. StrandExecutor_ExecuteFirstStack s = Some (ts, ls, s\<lparr>st_head := None, st_heap := h\<rparr>) \<and>
    stack_taken as us ls (st_heap s) h"
proof -
  have "chain (st_heap s) (st_head s) as ts" using at by (simp add: strand_at_def)
  from drain_tasks_chain [OF this, of None "[]" "[]" "[]"] obtain q h where d:
    "drain_tasks (st_head s) None (st_heap s) [] = Some (ts, None, q, h)" "chain h q (rev as) (rev ts)"
    "\<forall>a. a \<notin> set as \<longrightarrow> h a = st_heap s a" by auto
  have "stack_taken as (rev as) (None, q) (st_heap s) h"
    using d(2,3) chain_dom [OF d(2)] by (auto simp: stack_taken_def local_nodes_def)
  with d(1) show ?thesis
    by (auto simp: StrandExecutor_ExecuteFirstStack_def LockFreeStack_ExchangeWithAnother_def)
qed

lemma strand_at_client_first:
  assumes at: "strand_at as ts b own s" and c: "c < length (st_clients s)"
    and p: "st_clients s ! c = PushFirst" and h: "stack_taken as us ls (st_heap s) h"
  shows "strand_at [] [] (rev ts) (own(Inl c := us)) (st_client c (PushSubmit ts ls) (s\<lparr>st_head := None, st_heap := h\<rparr>))"
proof -
  from p have act: "client_active (st_clients s ! c)" by simp
  note alone = strand_client_alone [OF at c act]
  have ow: "owned as (st_heap s) (st_clients s) (st_thunks s) own" using at by (simp add: strand_at_def)
  have none: "own (Inl c) = []" using client_own [OF at c] p by simp
  have "b = []" using at c p by (auto simp: strand_at_def)
  moreover have "owned [] h ((st_clients s)[c := PushSubmit ts ls]) (st_thunks s) (own(Inl c := us))"
    by (rule owned_step [OF ow same_client(1), where N = "{}"]) (use h none c in \<open>auto simp: stack_taken_def\<close>)
  moreover have "client_ok (rev ts) ((st_clients s)[c := PushSubmit ts ls] ! c')"
    if "c' < length (st_clients s)" for c'
    using that alone(2) [OF that] by (cases "c' = c") (auto simp: client_ok_inactive)
  moreover have "thunk_ok (rev ts) (st_thunks s ! k)" if "k < length (st_thunks s)" for k
    using alone(3) [OF that] by (rule thunk_ok_inactive)
  ultimately show ?thesis using at c p alone(1)
    by (simp add: strand_at_def st_client_def cnt_update_eq)
qed

lemma strand_at_thunk_first:
  assumes at: "strand_at as ts b own s" and k: "k < length (st_thunks s)"
    and p: "st_thunks s ! k = ThunkFirst" and h: "stack_taken as us ls (st_heap s) h"
  shows "strand_at [] [] (rev ts) (own(Inr k := us)) (st_thunk k (ThunkSubmit ts ls) (s\<lparr>st_head := None, st_heap := h\<rparr>))"
proof -
  from p have act: "thunk_active (st_thunks s ! k)" by simp
  note alone = strand_thunk_alone [OF at k act]
  have ow: "owned as (st_heap s) (st_clients s) (st_thunks s) own" using at by (simp add: strand_at_def)
  have none: "own (Inr k) = []" using thunk_own [OF at k] p by simp
  have "b = []" using at k p by (auto simp: strand_at_def)
  moreover have "owned [] h (st_clients s) ((st_thunks s)[k := ThunkSubmit ts ls]) (own(Inr k := us))"
    by (rule owned_step [OF ow same_thunk(1), where N = "{}"]) (use h none k in \<open>auto simp: stack_taken_def\<close>)
  moreover have "client_ok (rev ts) (st_clients s ! c)" if "c < length (st_clients s)" for c
    using alone(3) [OF that] by (rule client_ok_inactive)
  moreover have "thunk_ok (rev ts) ((st_thunks s)[k := ThunkSubmit ts ls] ! k')"
    if "k' < length (st_thunks s)" for k'
    using that alone(2) [OF that] by (cases "k' = k") (auto simp: thunk_ok_inactive)
  ultimately show ?thesis using at k p alone(1)
    by (simp add: strand_at_def st_thunk_def cnt_update_eq)
qed

lemma owned_client_kept:
  assumes at: "strand_at as ts b own s" and c: "c < length (st_clients s)"
    and same: "\<And>us. client_owns (st_heap s) p us = client_owns (st_heap s) (st_clients s ! c) us"
  shows "owned as (st_heap s) ((st_clients s)[c := p]) (st_thunks s) own"
    and "owned as (st_heap s) ((st_clients s)[c := p]) (st_thunks s @ [ThunkTasks tasks]) own"
proof -
  have ow: "owned as (st_heap s) (st_clients s) (st_thunks s) own" using at by (simp add: strand_at_def)
  show "owned as (st_heap s) ((st_clients s)[c := p]) (st_thunks s) own"
    by (rule owned_kept [OF ow same_client(1)]) (use client_own [OF at c] c same in auto)
  show "owned as (st_heap s) ((st_clients s)[c := p]) (st_thunks s @ [ThunkTasks tasks]) own"
    by (rule owned_kept [OF ow same_client(2)]) (use client_own [OF at c] c same in auto)
qed

lemma owned_thunk_kept:
  assumes at: "strand_at as ts b own s" and k: "k < length (st_thunks s)"
    and same: "\<And>us. thunk_owns (st_heap s) p us = thunk_owns (st_heap s) (st_thunks s ! k) us"
  shows "owned as (st_heap s) (st_clients s) ((st_thunks s)[k := p]) own"
    and "owned as (st_heap s) (st_clients s) ((st_thunks s @ [ThunkTasks tasks])[k := p]) own"
proof -
  have ow: "owned as (st_heap s) (st_clients s) (st_thunks s) own" using at by (simp add: strand_at_def)
  show "owned as (st_heap s) (st_clients s) ((st_thunks s)[k := p]) own"
    by (rule owned_kept [OF ow same_thunk(1) [OF _ k]]) (use thunk_own [OF at k] k same in auto)
  show "owned as (st_heap s) (st_clients s) ((st_thunks s @ [ThunkTasks tasks])[k := p]) own"
    by (rule owned_kept [OF ow same_thunk(2) [OF _ k]]) (use thunk_own [OF at k] k same in auto)
qed

lemma strand_at_schedule:
  assumes at: "strand_at as ts b own s" and c: "c < length (st_clients s)"
    and p: "st_clients s ! c = PushSchedule"
  shows "\<not> is_scheduled s \<Longrightarrow> strand_at as ts b own (st_client c PushFirst (s\<lparr>is_scheduled := True\<rparr>))"
    and "strand_at as ts b own (st_client c PushOutside s)"
proof -
  have ok: "owned as (st_heap s) ((st_clients s)[c := q]) (st_thunks s) own" if "q \<in> {PushFirst, PushOutside}" for q
    using that p by (intro owned_client_kept(1) [OF at c]) auto
  show "strand_at as ts b own (st_client c PushFirst (s\<lparr>is_scheduled := True\<rparr>))" if "\<not> is_scheduled s"
    using at c p that ok [of PushFirst]
    by (auto simp: strand_at_def st_client_def cnt_update_eq nth_list_update)
  show "strand_at as ts b own (st_client c PushOutside s)"
    using at c p ok [of PushOutside]
    by (auto simp: strand_at_def st_client_def cnt_update_eq nth_list_update)
qed

lemma strand_at_client_submit:
  assumes at: "strand_at as ts b own s" and c: "c < length (st_clients s)"
    and p: "st_clients s ! c = PushSubmit tasks ls"
  shows "strand_at as ts b own (st_client c (PushReturn ls) (s\<lparr>st_thunks := st_thunks s @ [ThunkTasks tasks]\<rparr>))"
proof -
  have act: "client_active (st_clients s ! c)" using p by simp
  have "0 < cnt client_active (st_clients s)" using c act by (rule cnt_posI)
  moreover have "b = rev tasks" using at c p by (auto simp: strand_at_def)
  moreover have "owned as (st_heap s) ((st_clients s)[c := PushReturn ls]) (st_thunks s @ [ThunkTasks tasks]) own"
    using p by (intro owned_client_kept(2) [OF at c]) simp
  ultimately show ?thesis using at c p strand_client_alone(1) [OF at c act]
    by (auto simp: strand_at_def st_client_def cnt_update_eq nth_list_update nth_append less_Suc_eq)
qed

text \<open>The destructors delete exactly the nodes of the local stack.\<close>

lemma first_stack_return:
  assumes "local_nodes (st_heap s) ls us"
  shows "StrandExecutor_ExecuteFirstStack_return ls s =
    Some (s\<lparr>st_heap := (\<lambda>a. if a \<in> set us then None else st_heap s a)\<rparr>)"
  using assms LockFreeStack_dtor_chain [of "st_heap s" "snd ls" us]
  by (auto simp: StrandExecutor_ExecuteFirstStack_return_def local_nodes_def)

lemma strand_at_client_return:
  assumes at: "strand_at as ts b own s" and c: "c < length (st_clients s)"
    and p: "st_clients s ! c = PushReturn ls"
  shows "strand_at as ts b (own(Inl c := []))
    (st_client c PushOutside (s\<lparr>st_heap := (\<lambda>a. if a \<in> set (own (Inl c)) then None else st_heap s a)\<rparr>))"
proof -
  let ?h = "\<lambda>a. if a \<in> set (own (Inl c)) then None else st_heap s a"
  have ow: "owned as (st_heap s) (st_clients s) (st_thunks s) own" using at by (simp add: strand_at_def)
  have apart: "a \<in> set as \<Longrightarrow> a \<notin> set (own (Inl c))" for a using owned_apart [OF ow] by blast
  then have "chain ?h (st_head s) as ts = chain (st_heap s) (st_head s) as ts" by (intro chain_cong) simp
  moreover have "owned as ?h ((st_clients s)[c := PushOutside]) (st_thunks s) (own(Inl c := []))"
    by (rule owned_step [OF ow same_client(1), where N = "{}"]) (use c apart owned_live [OF ow] in auto)
  ultimately show ?thesis using at c p
    by (auto simp: strand_at_def st_client_def cnt_update_eq nth_list_update)
qed

subsection \<open>Steps of a thunk\<close>

lemma strand_at_thunk:
  assumes at: "strand_at as ts b own s" and k: "k < length (st_thunks s)"
    and act: "thunk_active (st_thunks s ! k)" "thunk_active q" and q: "thunk_ok b' q"
    and same: "\<And>us. thunk_owns (st_heap s) q us = thunk_owns (st_heap s) (st_thunks s ! k) us"
    and b: "b = started @ b'"
  shows "strand_at as ts b' own (st_thunk k q (s\<lparr>st_ran := st_ran s @ started\<rparr>))"
proof -
  note alone = strand_thunk_alone [OF at k act(1)]
  have "client_ok b' (st_clients s ! c)" if "c < length (st_clients s)" for c
    using alone(3) [OF that] by (rule client_ok_inactive)
  moreover have "thunk_ok b' ((st_thunks s)[k := q] ! k')" if "k' < length (st_thunks s)" for k'
    using that alone(2) [OF that] q by (cases "k' = k") (auto simp: thunk_ok_inactive)
  ultimately show ?thesis using at k act alone(1) b owned_thunk_kept(1) [OF at k same]
    by (simp add: strand_at_def st_thunk_def cnt_update_eq)
qed

lemma strand_at_thunk_submit:
  assumes at: "strand_at as ts b own s" and k: "k < length (st_thunks s)"
    and p: "st_thunks s ! k = ThunkSubmit tasks ls"
  shows "strand_at as ts b own (st_thunk k (ThunkReturn ls) (s\<lparr>st_thunks := st_thunks s @ [ThunkTasks tasks]\<rparr>))"
proof -
  have act: "thunk_active (st_thunks s ! k)" using p by simp
  have "0 < cnt thunk_active (st_thunks s)" using k act by (rule cnt_posI)
  moreover have "b = rev tasks" using at k p by (auto simp: strand_at_def)
  moreover have "owned as (st_heap s) (st_clients s) ((st_thunks s @ [ThunkTasks tasks])[k := ThunkReturn ls]) own"
    using p by (intro owned_thunk_kept(2) [OF at k]) simp
  ultimately show ?thesis using at k p
    by (auto simp: strand_at_def st_thunk_def cnt_update_eq nth_list_update nth_append less_Suc_eq)
qed

lemma strand_at_thunk_return:
  assumes at: "strand_at as ts b own s" and k: "k < length (st_thunks s)"
    and p: "st_thunks s ! k = ThunkReturn ls"
  shows "strand_at as ts b (own(Inr k := []))
    (st_thunk k ThunkFinished (s\<lparr>st_heap := (\<lambda>a. if a \<in> set (own (Inr k)) then None else st_heap s a)\<rparr>))"
proof -
  let ?h = "\<lambda>a. if a \<in> set (own (Inr k)) then None else st_heap s a"
  have ow: "owned as (st_heap s) (st_clients s) (st_thunks s) own" using at by (simp add: strand_at_def)
  have apart: "a \<in> set as \<Longrightarrow> a \<notin> set (own (Inr k))" for a using owned_apart [OF ow] by blast
  then have "chain ?h (st_head s) as ts = chain (st_heap s) (st_head s) as ts" by (intro chain_cong) simp
  moreover have "owned as ?h (st_clients s) ((st_thunks s)[k := ThunkFinished]) (own(Inr k := []))"
    by (rule owned_step [OF ow same_thunk(1), where N = "{}"]) (use k apart owned_live [OF ow] in auto)
  ultimately show ?thesis using at k p
    by (auto simp: strand_at_def st_thunk_def cnt_update_eq nth_list_update)
qed

lemma strand_at_thunk_finish:
  assumes at: "strand_at as ts b own s" and k: "k < length (st_thunks s)"
    and p: "st_thunks s ! k = ThunkEmptied"
  shows "strand_at as ts b own (st_thunk k ThunkFinished (s\<lparr>is_scheduled := False\<rparr>))"
proof -
  have act: "thunk_active (st_thunks s ! k)" using p by simp
  have "0 < cnt thunk_active (st_thunks s)" using k act by (rule cnt_posI)
  moreover have "b = []" using at k p by (auto simp: strand_at_def)
  moreover have "owned as (st_heap s) (st_clients s) ((st_thunks s)[k := ThunkFinished]) own"
    using p by (intro owned_thunk_kept(1) [OF at k]) simp
  ultimately show ?thesis using at k p strand_thunk_alone(1) [OF at k act]
    by (auto simp: strand_at_def st_thunk_def cnt_update_eq nth_list_update)
qed

subsection \<open>Every step\<close>

lemma pushing_node:
  assumes at: "strand_at as ts b own s" and c: "c < length (st_clients s)" and p: "st_clients s ! c \<in> {PushLoad a, PushCas a}"
  obtains n where "st_heap s a = Some n"
proof -
  have ow: "owned as (st_heap s) (st_clients s) (st_thunks s) own" using at by (simp add: strand_at_def)
  have "a \<in> set (own (Inl c))" using client_own [OF at c] p by auto
  with owned_live [OF ow] that show thesis by blast
qed

lemma strand_inv_client:
  assumes at: "strand_at as ts b own s" and c: "c < length (st_clients s)"
    and step: "StrandExecutor_Execute c s = Some s'"
  shows "strand_inv s'"
proof (cases "st_clients s ! c")
  case (PushLoad a)
  then obtain n where n: "st_heap s a = Some n" using pushing_node [OF at c, of a] by auto
  with PushLoad step strand_at_next [OF at c, of a "PushCas a"] show ?thesis
    by (auto simp: StrandExecutor_Execute_def LockFreeStack_Push_load_def intro: strand_invI)
next
  case (PushCas a)
  then obtain n where n: "st_heap s a = Some n" using pushing_node [OF at c, of a] by auto
  show ?thesis
  proof (cases "node_next n = st_head s")
    case True
    with PushCas n step strand_at_push [OF at c PushCas n] show ?thesis
      by (auto simp: StrandExecutor_Execute_def LockFreeStack_Push_cas_def intro: strand_invI)
  next
    case False
    have "s' = st_client c (PushLoad a) (s\<lparr>st_heap := (st_heap s)(a \<mapsto> n\<lparr>node_next := st_head s\<rparr>)\<rparr>)"
      using False PushCas n step
      by (simp add: StrandExecutor_Execute_def LockFreeStack_Push_cas_def st_client_def)
    with strand_at_next [OF at c, of a "PushLoad a"] PushCas show ?thesis
      by (auto intro: strand_invI)
  qed
next
  case PushSchedule
  then show ?thesis using step strand_at_schedule [OF at c PushSchedule]
    by (auto simp: StrandExecutor_Execute_def intro: strand_invI split: if_splits)
next
  case PushFirst
  obtain us ls h where first: "StrandExecutor_ExecuteFirstStack s = Some (ts, ls, s\<lparr>st_head := None, st_heap := h\<rparr>)"
    "stack_taken as us ls (st_heap s) h" using strand_first_stack [OF at] by blast
  have "s' = st_client c (PushSubmit ts ls) (s\<lparr>st_head := None, st_heap := h\<rparr>)"
    using step PushFirst first(1) by (simp add: StrandExecutor_Execute_def)
  with strand_at_client_first [OF at c PushFirst first(2)] show ?thesis by (auto intro: strand_invI)
next
  case (PushSubmit tasks ls)
  then show ?thesis using step strand_at_client_submit [OF at c PushSubmit]
    by (auto simp: StrandExecutor_Execute_def intro: strand_invI)
next
  case (PushReturn ls)
  then have "local_nodes (st_heap s) ls (own (Inl c))" using client_own [OF at c] by simp
  from first_stack_return [OF this] PushReturn step strand_at_client_return [OF at c PushReturn] show ?thesis
    by (auto simp: StrandExecutor_Execute_def intro: strand_invI)
qed (use step in \<open>simp add: StrandExecutor_Execute_def\<close>)

text \<open>A step of the loop over the tasks, or of the test after it.\<close>

lemma strand_at_thunk_tasks:
  assumes at: "strand_at as ts b own s" and k: "k < length (st_thunks s)" and p: "st_thunks s ! k = ThunkTasks tasks"
  shows "tasks = [] \<Longrightarrow> q \<in> {ThunkEmptied, ThunkFirst} \<Longrightarrow> strand_at as ts b own (st_thunk k q s)"
    and "tasks \<noteq> [] \<Longrightarrow> strand_at as ts (rev (butlast tasks)) own
      (st_thunk k (ThunkIn (last tasks) (butlast tasks)) (s\<lparr>st_ran := st_ran s @ [last tasks]\<rparr>))"
proof -
  have b: "b = rev tasks" using at k p by (auto simp: strand_at_def)
  show "strand_at as ts b own (st_thunk k q s)" if "tasks = []" "q \<in> {ThunkEmptied, ThunkFirst}"
    using strand_at_thunk [OF at k, of q b "[]"] that b p by auto
  assume "tasks \<noteq> []"
  then have "rev tasks = [last tasks] @ rev (butlast tasks)"
    by (metis append_butlast_last_id rev.simps(2) rev_append rev_rev_ident rev_singleton_conv)
  then show "strand_at as ts (rev (butlast tasks)) own
      (st_thunk k (ThunkIn (last tasks) (butlast tasks)) (s\<lparr>st_ran := st_ran s @ [last tasks]\<rparr>))"
    using b p by (intro strand_at_thunk [OF at k]) auto
qed

lemma strand_at_thunk_in:
  assumes at: "strand_at as ts b own s" and k: "k < length (st_thunks s)" and p: "st_thunks s ! k = ThunkIn t tasks"
  shows "strand_at as ts b own (st_thunk k (ThunkTasks tasks) s)"
proof -
  have "thunk_ok b (ThunkTasks tasks)" using at k p by (auto simp: strand_at_def)
  then show ?thesis using p strand_at_thunk [OF at k, of "ThunkTasks tasks" b "[]"] by simp
qed

lemma strand_inv_thunk:
  assumes at: "strand_at as ts b own s" and k: "k < length (st_thunks s)"
    and step: "StrandExecutor_thunk k s = Some s'"
  shows "strand_inv s'"
proof (cases "st_thunks s ! k")
  case (ThunkTasks tasks)
  then show ?thesis using step strand_at_thunk_tasks [OF at k ThunkTasks]
    by (auto simp: StrandExecutor_thunk_def intro: strand_invI split: if_splits)
next
  case (ThunkIn t tasks)
  then show ?thesis using step strand_at_thunk_in [OF at k ThunkIn]
    by (auto simp: StrandExecutor_thunk_def intro: strand_invI)
next
  case ThunkEmptied
  then show ?thesis using step strand_at_thunk_finish [OF at k ThunkEmptied]
    by (auto simp: StrandExecutor_thunk_def intro: strand_invI)
next
  case ThunkFirst
  obtain us ls h where first: "StrandExecutor_ExecuteFirstStack s = Some (ts, ls, s\<lparr>st_head := None, st_heap := h\<rparr>)"
    "stack_taken as us ls (st_heap s) h" using strand_first_stack [OF at] by blast
  have "s' = st_thunk k (ThunkSubmit ts ls) (s\<lparr>st_head := None, st_heap := h\<rparr>)"
    using step ThunkFirst first(1) by (simp add: StrandExecutor_thunk_def)
  with strand_at_thunk_first [OF at k ThunkFirst first(2)] show ?thesis by (auto intro: strand_invI)
next
  case (ThunkSubmit tasks ls)
  then show ?thesis using step strand_at_thunk_submit [OF at k ThunkSubmit]
    by (auto simp: StrandExecutor_thunk_def intro: strand_invI)
next
  case (ThunkReturn ls)
  then have "local_nodes (st_heap s) ls (own (Inr k))" using thunk_own [OF at k] by simp
  from first_stack_return [OF this] ThunkReturn step strand_at_thunk_return [OF at k ThunkReturn] show ?thesis
    by (auto simp: StrandExecutor_thunk_def intro: strand_invI)
qed (use step in \<open>simp add: StrandExecutor_thunk_def\<close>)

lemma strand_inv_step:
  assumes inv: "strand_inv s" and step: "strand_step l s = Some s'"
  shows "strand_inv s'"
proof -
  obtain as ts b own where at: "strand_at as ts b own s" using inv by (auto simp: strand_inv_def)
  show ?thesis
  proof (cases l)
    case (CallExecute c t a)
    moreover have "LockFreeStack_IsEmpty (st_pool s)" using at by (simp add: strand_at_def LockFreeStack_IsEmpty_def)
    ultimately show ?thesis using step strand_at_alloc [OF at, of c a]
      by (auto simp: LockFreeStack_Push_alloc_def intro: strand_invI split: if_splits)
  next
    case (StClient c)
    with step strand_inv_client [OF at] show ?thesis by (auto split: if_splits)
  next
    case (StThunk k)
    with step strand_inv_thunk [OF at] show ?thesis by (auto split: if_splits)
  qed
qed

interpretation strand: invariant_system strand_step "MakeStrand n" strand_inv for n
  by unfold_locales (fact strand_invI [OF strand_at_init], fact strand_inv_step)

section \<open>What the invariant gives\<close>

fun in_task :: "'a thunk_pc \<Rightarrow> bool" where
  "in_task (ThunkIn t tasks) = True"
| "in_task _ = False"

lemma strand_in_task_unique:
  assumes "strand_inv x" and "k < length (st_thunks x)" "in_task (st_thunks x ! k)"
    and "m < length (st_thunks x)" "in_task (st_thunks x ! m)"
  shows "k = m"
proof -
  obtain as ts b own where at: "strand_at as ts b own x" using assms(1) by (auto simp: strand_inv_def)
  have act: "thunk_active p" if "in_task p" for p :: "'a thunk_pc" using that by (cases p) auto
  show ?thesis using strand_thunk_alone(2) [OF at assms(2) act [OF assms(3)], of m] assms(4,5) act by blast
qed

lemma strand_ran_prefix: "strand_inv s \<Longrightarrow> \<exists>rest. st_pushed s = st_ran s @ rest"
  by (auto simp: strand_inv_def strand_at_def)

lemma chain_distinct: "chain h p as ts \<Longrightarrow> distinct as"
  by (induction h p as ts rule: chain.induct) auto

text \<open>The memory: no fault, a well-formed list in the stack, and no other node is left when nobody is inside.\<close>

lemma strand_memory:
  assumes "strand_inv s"
  shows "\<not> st_fault s \<and> LockFreeStack_IsEmpty (st_pool s) \<and>
    (\<exists>as ts. chain (st_heap s) (st_head s) as ts \<and> distinct as \<and> (\<exists>older. st_pushed s = older @ rev ts) \<and>
       LockFreeStack_dtor (st_head s) (st_heap s) = Some (\<lambda>a. if a \<in> set as then None else st_heap s a) \<and>
       ((\<forall>c < length (st_clients s). st_clients s ! c = PushOutside) \<and>
        (\<forall>k < length (st_thunks s). st_thunks s ! k = ThunkFinished) \<longrightarrow> dom (st_heap s) = set as))"
proof -
  obtain as ts b own where at: "strand_at as ts b own s" using assms by (auto simp: strand_inv_def)
  then have c: "chain (st_heap s) (st_head s) as ts" by (simp add: strand_at_def)
  have "dom (st_heap s) = set as"
    if out: "\<forall>c < length (st_clients s). st_clients s ! c = PushOutside"
      "\<forall>k < length (st_thunks s). st_thunks s ! k = ThunkFinished"
  proof -
    have ow: "owned as (st_heap s) (st_clients s) (st_thunks s) own" using at by (simp add: strand_at_def)
    have "own x = []" for x using ownedD(1) [OF ow, of x] out by (cases x) (auto split: if_splits)
    with ownedD(2) [OF ow] show ?thesis by auto
  qed
  moreover have "st_pushed s = (st_ran s @ b) @ rev ts" using at by (simp add: strand_at_def)
  moreover have "\<not> st_fault s \<and> LockFreeStack_IsEmpty (st_pool s)" using at by (simp add: strand_at_def LockFreeStack_IsEmpty_def)
  ultimately show ?thesis using c LockFreeStack_dtor_chain [OF c] chain_distinct [OF c] by blast
qed

section \<open>Properties\<close>

text \<open>C2: The strand runs its tasks non-concurrently and in the order they were added, whatever
  the underlying executor does: two thunks that are inside a task are the same thunk, and the
  started tasks are a prefix of the tasks in the order in which they entered the stack.\<close>

theorem Strand_serial_and_fifo:
  assumes "reachable strand_step (MakeStrand n) s"
    and "i < length (st_thunks s)" "in_task (st_thunks s ! i)"
    and "j < length (st_thunks s)" "in_task (st_thunks s ! j)"
  shows "i = j \<and> (\<exists>rest. st_pushed s = st_ran s @ rest)"
  using strand_in_task_unique [OF strand.inv_reachable [OF assms(1)]] strand_ran_prefix [OF strand.inv_reachable [OF assms(1)]]
    assms(2-5) by blast

lemmas strand_eval = MakeStrand_def StrandExecutor_Execute_def StrandExecutor_thunk_def
  StrandExecutor_ExecuteFirstStack_def StrandExecutor_ExecuteFirstStack_return_def LockFreeStack_Push_alloc_def LockFreeStack_Push_load_def
  LockFreeStack_Push_cas_def LockFreeStack_ExchangeWithAnother_def LockFreeStack_IsEmpty_def
  LockFreeStack_Pop_def LockFreeStack_dtor.simps node_pool_Push_def drain_tasks.simps st_client_def st_thunk_def

text \<open>One client pushes one task and schedules; the executor starts the thunk before \<open>ExecuteFirstStack\<close> has returned.\<close>

definition one_push :: "nat strand_label list" where
  "one_push = [CallExecute 0 7 100, StClient 0, StClient 0, StClient 0, StClient 0, StClient 0, StThunk 0, StClient 0]"

theorem Strand_serial_and_fifo_witness:
  "\<exists>s :: nat strand. reachable strand_step (MakeStrand 2) s \<and> st_ran s = [7] \<and>
     in_task (st_thunks s ! 0) \<and> (\<exists>rest. st_pushed s = st_ran s @ rest)"
proof -
  obtain s where s: "run strand_step one_push (MakeStrand 2) = Some (s :: nat strand)"
    and p: "st_ran s = [7]" "0 < length (st_thunks s)" "in_task (st_thunks s ! 0)"
    by (simp add: one_push_def strand_eval replicate_two)
  have r: "reachable strand_step (MakeStrand 2) s" using s by (rule run_reachable)
  from Strand_serial_and_fifo [OF r p(2,3,2,3)] r p show ?thesis by blast
qed

text \<open>C22: The lock-free stack is memory safe in the strand, for every interleaving and every reuse
  of freed addresses by the allocator: no step dereferences a null or freed node, and in every
  reachable state the head is the start of a well-formed, duplicate-free list of live nodes
  whose data are the tasks that entered the stack last, and the destructor of the stack would end and delete
  exactly these nodes. The pool of the stack that the clients share stays empty, so every \<open>Push\<close> asks the allocator: nodes
  are recycled into the pools of the local stacks, which are deleted with them. When every call of \<open>Execute\<close> has
  returned and every thunk has finished, no node is left outside of the stack.\<close>

theorem Strand_memory_safe:
  assumes "reachable strand_step (MakeStrand n) s"
  shows "\<not> st_fault s \<and> LockFreeStack_IsEmpty (st_pool s) \<and>
    (\<exists>as ts. chain (st_heap s) (st_head s) as ts \<and> distinct as \<and> (\<exists>older. st_pushed s = older @ rev ts) \<and>
       LockFreeStack_dtor (st_head s) (st_heap s) = Some (\<lambda>a. if a \<in> set as then None else st_heap s a) \<and>
       ((\<forall>c < length (st_clients s). st_clients s ! c = PushOutside) \<and>
        (\<forall>k < length (st_thunks s). st_thunks s ! k = ThunkFinished) \<longrightarrow> dom (st_heap s) = set as))"
  by (rule strand_memory [OF strand.inv_reachable [OF assms]])

theorem Strand_memory_safe_witness:
  "\<exists>s :: nat strand. reachable strand_step (MakeStrand 2) s \<and> st_pushed s = [7] \<and> \<not> st_fault s \<and>
    (\<exists>as ts. chain (st_heap s) (st_head s) as ts \<and> distinct as \<and> (\<exists>older. st_pushed s = older @ rev ts) \<and>
       LockFreeStack_dtor (st_head s) (st_heap s) = Some (\<lambda>a. if a \<in> set as then None else st_heap s a))"
proof -
  obtain s where s: "run strand_step one_push (MakeStrand 2) = Some (s :: nat strand)"
    and p: "st_pushed s = [7]"
    by (simp add: one_push_def strand_eval replicate_two)
  have r: "reachable strand_step (MakeStrand 2) s" using s by (rule run_reachable)
  from Strand_memory_safe [OF r] r p show ?thesis by blast
qed

text \<open>The window of the race: the thunk has seen an empty stack and is about to clear \<open>is_scheduled_\<close>, while a task
  has been pushed. A client that has not made its compare-exchange on \<open>is_scheduled_\<close> yet is on its way to it.\<close>

fun before_schedule :: "'a push_pc \<Rightarrow> bool" where
  "before_schedule (PushLoad a) = True"
| "before_schedule (PushCas a) = True"
| "before_schedule PushSchedule = True"
| "before_schedule _ = False"

fun is_call :: "'a strand_label \<Rightarrow> bool" where
  "is_call (CallExecute c t a) = True"
| "is_call _ = False"

text \<open>Nothing is scheduled and nobody is about to schedule.\<close>

definition abandoned :: "'a strand \<Rightarrow> bool" where
  "abandoned s \<longleftrightarrow> \<not> is_scheduled s \<and> (\<forall>c < length (st_clients s). \<not> before_schedule (st_clients s ! c))"

lemma abandoned_step:
  assumes at: "strand_at as ts b own s" and a: "abandoned s" and step: "strand_step l s = Some s'" and l: "\<not> is_call l"
  shows "abandoned s' \<and> st_head s' = st_head s \<and> st_ran s' = st_ran s \<and> st_pushed s' = st_pushed s \<and>
    length (st_thunks s') = length (st_thunks s)"
proof -
  have none: "cnt client_active (st_clients s) = 0" "cnt thunk_active (st_thunks s) = 0"
    using at a by (auto simp: strand_at_def abandoned_def)
  show ?thesis
  proof (cases l)
    case (StClient c)
    with step have c: "c < length (st_clients s)" "StrandExecutor_Execute c s = Some s'" by (auto split: if_splits)
    have "\<not> client_active (st_clients s ! c)" "\<not> before_schedule (st_clients s ! c)"
      using cnt_zeroD [OF none(1) c(1)] a c(1) by (auto simp: abandoned_def)
    with c(2) obtain ls where ls: "st_clients s ! c = PushReturn ls"
      by (cases "st_clients s ! c") (auto simp: StrandExecutor_Execute_def)
    then have "local_nodes (st_heap s) ls (own (Inl c))" using client_own [OF at c(1)] by simp
    from first_stack_return [OF this] ls c a show ?thesis
      by (auto simp: StrandExecutor_Execute_def st_client_def abandoned_def nth_list_update split: if_splits)
  next
    case (StThunk k)
    with step have k: "k < length (st_thunks s)" "StrandExecutor_thunk k s = Some s'" by (auto split: if_splits)
    with cnt_zeroD [OF none(2) k(1)] obtain ls where ls: "st_thunks s ! k = ThunkReturn ls"
      by (cases "st_thunks s ! k") (auto simp: StrandExecutor_thunk_def)
    then have "local_nodes (st_heap s) ls (own (Inr k))" using thunk_own [OF at k(1)] by simp
    from first_stack_return [OF this] ls k a show ?thesis
      by (auto simp: StrandExecutor_thunk_def st_thunk_def abandoned_def)
  qed (use l in simp)
qed

lemma abandoned_run:
  assumes "run strand_step ls s = Some s'" "strand_inv s" "abandoned s" "\<forall>l \<in> set ls. \<not> is_call l"
  shows "abandoned s' \<and> st_head s' = st_head s \<and> st_ran s' = st_ran s \<and> st_pushed s' = st_pushed s \<and>
    length (st_thunks s') = length (st_thunks s)"
  using assms
proof (induction ls arbitrary: s)
  case (Cons l ls)
  then obtain t where t: "strand_step l s = Some t" "run strand_step ls t = Some s'" by (auto split: option.splits)
  obtain as ts b own where at: "strand_at as ts b own s" using Cons.prems(2) by (auto simp: strand_inv_def)
  have "\<not> is_call l" using Cons.prems(4) by simp
  from abandoned_step [OF at Cons.prems(3) t(1) this] Cons.IH [OF t(2) strand_inv_step [OF Cons.prems(2) t(1)]] Cons.prems(4)
  show ?case by auto
qed simp

text \<open>C23: A task can be left behind. Suppose a thunk has found the stack empty and is about to clear \<open>is_scheduled_\<close>, but
  meanwhile a task was pushed. If the client that pushed it, and every other one, has already made its compare-exchange on
  \<open>is_scheduled_\<close>, then after the store nothing is scheduled, the stack still holds tasks that were never started, and this stays so
  whatever the strand, its clients and its executor do, until somebody calls \<open>Execute\<close> again. If a client makes its
  compare-exchange after the store, it schedules the strand and nothing is lost.\<close>

theorem Strand_can_strand_a_task:
  assumes r: "reachable strand_step (MakeStrand n) s" and k: "k < length (st_thunks s)" "st_thunks s ! k = ThunkEmptied"
    and pushed: "\<not> LockFreeStack_IsEmpty (st_head s)" and store: "strand_step (StThunk k) s = Some s0"
  shows "((\<forall>c < length (st_clients s). \<not> before_schedule (st_clients s ! c)) \<longrightarrow>
      (\<forall>ls s'. run strand_step ls s0 = Some s' \<and> (\<forall>l \<in> set ls. \<not> is_call l) \<longrightarrow>
         \<not> is_scheduled s' \<and> \<not> LockFreeStack_IsEmpty (st_head s') \<and> length (st_thunks s') = length (st_thunks s) \<and>
         (\<exists>ts. ts \<noteq> [] \<and> st_pushed s' = st_ran s' @ ts))) \<and>
    (\<forall>c < length (st_clients s). st_clients s ! c = PushSchedule \<longrightarrow>
       (\<exists>s'. strand_step (StClient c) s0 = Some s' \<and> is_scheduled s' \<and> st_clients s' ! c = PushFirst))"
proof -
  have inv: "strand_inv s" using r by (rule strand.inv_reachable)
  then obtain as ts b own where at: "strand_at as ts b own s" by (auto simp: strand_inv_def)
  have s0: "s0 = st_thunk k ThunkFinished (s\<lparr>is_scheduled := False\<rparr>)"
    using store k by (simp add: StrandExecutor_thunk_def)
  have at0: "strand_at as ts b own s0" unfolding s0 using at k by (rule strand_at_thunk_finish)
  then have b: "b = []" "chain (st_heap s0) (st_head s0) as ts" "st_pushed s0 = st_ran s0 @ rev ts"
    by (auto simp: strand_at_def s0 st_thunk_def)
  have "ts \<noteq> []" using b(2) pushed by (cases as) (auto simp: s0 st_thunk_def LockFreeStack_IsEmpty_def)
  then have ts: "rev ts \<noteq> []" by simp
  have "\<not> is_scheduled s' \<and> \<not> LockFreeStack_IsEmpty (st_head s') \<and> length (st_thunks s') = length (st_thunks s) \<and>
         (\<exists>ts. ts \<noteq> [] \<and> st_pushed s' = st_ran s' @ ts)"
    if "\<forall>c < length (st_clients s). \<not> before_schedule (st_clients s ! c)" "run strand_step ls s0 = Some s'"
      "\<forall>l \<in> set ls. \<not> is_call l" for ls s'
  proof -
    have "abandoned s0" using that(1) by (simp add: s0 st_thunk_def abandoned_def)
    from abandoned_run [OF that(2) strand_invI [OF at0] this that(3)] b(3) ts pushed show ?thesis
      by (auto simp: abandoned_def s0 st_thunk_def)
  qed
  moreover have "\<exists>s'. strand_step (StClient c) s0 = Some s' \<and> is_scheduled s' \<and> st_clients s' ! c = PushFirst"
    if "c < length (st_clients s)" "st_clients s ! c = PushSchedule" for c
    using that by (simp add: s0 st_thunk_def StrandExecutor_Execute_def st_client_def)
  ultimately show ?thesis by blast
qed

definition race_schedule :: "nat strand_label list" where
  "race_schedule = one_push @ [StThunk 0, StThunk 0, CallExecute 1 8 200, StClient 1, StClient 1, StClient 1]"

lemma race_schedule_run:
  "\<exists>s s0. run strand_step race_schedule (MakeStrand 2) = Some s \<and> st_thunks s = [ThunkEmptied] \<and>
     st_clients s = [PushOutside, PushOutside] \<and> \<not> LockFreeStack_IsEmpty (st_head s) \<and>
     strand_step (StThunk 0) s = Some s0 \<and> st_pushed s0 = [7, 8] \<and> st_ran s0 = [7]"
  by (simp add: race_schedule_def one_push_def strand_eval replicate_two)

theorem Strand_can_strand_a_task_witness:
  "\<exists>s s0. reachable strand_step (MakeStrand 2) s \<and> strand_step (StThunk 0) s = Some s0 \<and>
     st_pushed s0 = [7, 8] \<and> st_ran s0 = [7 :: nat] \<and>
     (\<forall>ls s'. run strand_step ls s0 = Some s' \<and> (\<forall>l \<in> set ls. \<not> is_call l) \<longrightarrow>
        \<not> is_scheduled s' \<and> \<not> LockFreeStack_IsEmpty (st_head s'))"
proof -
  obtain s s0 where s: "run strand_step race_schedule (MakeStrand 2) = Some (s :: nat strand)"
    and p: "st_thunks s = [ThunkEmptied]" "st_clients s = [PushOutside, PushOutside]" "\<not> LockFreeStack_IsEmpty (st_head s)"
      "strand_step (StThunk 0) s = Some s0" "st_pushed s0 = [7, 8]" "st_ran s0 = [7]"
    using race_schedule_run by blast
  have r: "reachable strand_step (MakeStrand 2) s" using s by (rule run_reachable)
  have k: "0 < length (st_thunks s)" "st_thunks s ! 0 = ThunkEmptied" using p(1) by simp_all
  have "\<forall>c < length (st_clients s). \<not> before_schedule (st_clients s ! c)"
    using p(2) by (simp add: less_Suc_eq)
  with Strand_can_strand_a_task [OF r k p(3,4)] r p(4-6) show ?thesis by blast
qed

end
