(* ===== verification/Node_Pool.thy ===== *)
theory Node_Pool
  imports Prelude
begin

text \<open>
  The pool of recycled nodes \<open>LFPointersPool\<close> of \<^verbatim>\<open>futures/executors/await/executors/strand.cpp\<close>, a lock-free stack of
  nodes without deletion. The stack \<open>stack_\<close> of a strand never puts a node into its pool (nodes are popped from
  local stacks only), so this class is verified by itself: threads that own nodes push and pop them
  concurrently, one step per access of shared memory.
\<close>

type_synonym node = nat

datatype pool_pc =
    LpOutside
  | LpPushLoad node                   \<comment> \<open>before \<open>new_node->next = head_\<close>\<close>
  | LpPushCas node                    \<comment> \<open>before the compare-exchange of \<open>Push\<close>\<close>
  | LpPopLoad                         \<comment> \<open>before the load of \<open>head_\<close> in \<open>Pop\<close>\<close>
  | LpPopNext node                    \<comment> \<open>before the load of \<open>node_to_delete->next\<close>\<close>
  | LpPopCas node "node option"       \<comment> \<open>before the compare-exchange of \<open>Pop\<close>\<close>

text \<open>\<open>lp_owned\<close> are the nodes that clients own: they may push them, and \<open>Pop\<close> gives them nodes.\<close>

record node_pool =
  lp_head :: "node option"
  lp_next :: "node \<Rightarrow> node option"
  lp_owned :: "node set"
  lp_pcs :: "pool_pc list"

definition lp_goto :: "tid \<Rightarrow> pool_pc \<Rightarrow> node_pool \<Rightarrow> node_pool" where
  "lp_goto t p s = s\<lparr>lp_pcs := (lp_pcs s)[t := p]\<rparr>"

definition LFPointersPool_IsEmpty :: "node_pool \<Rightarrow> bool" where
  "LFPointersPool_IsEmpty s \<longleftrightarrow> lp_head s = None"

definition LFPointersPool_Push :: "tid \<Rightarrow> node_pool \<Rightarrow> node_pool option" where
  "LFPointersPool_Push t s =
     (case lp_pcs s ! t of
        LpPushLoad a \<Rightarrow> Some (lp_goto t (LpPushCas a) (s\<lparr>lp_next := (lp_next s)(a := lp_head s)\<rparr>))
      | LpPushCas a \<Rightarrow>
          Some (if lp_head s = lp_next s a then lp_goto t LpOutside (s\<lparr>lp_head := Some a\<rparr>)
                else lp_goto t (LpPushLoad a) (s\<lparr>lp_next := (lp_next s)(a := lp_head s)\<rparr>))
      | _ \<Rightarrow> None)"

definition LFPointersPool_Pop :: "tid \<Rightarrow> node_pool \<Rightarrow> node_pool option" where
  "LFPointersPool_Pop t s =
     (case lp_pcs s ! t of
        LpPopLoad \<Rightarrow>
          Some (case lp_head s of None \<Rightarrow> lp_goto t LpOutside s | Some x \<Rightarrow> lp_goto t (LpPopNext x) s)
      | LpPopNext x \<Rightarrow> Some (lp_goto t (LpPopCas x (lp_next s x)) s)
      | LpPopCas x nx \<Rightarrow>
          Some (if lp_head s = Some x
                then lp_goto t LpOutside (s\<lparr>lp_head := nx, lp_owned := insert x (lp_owned s)\<rparr>)
                else lp_goto t LpPopLoad s)
      | _ \<Rightarrow> None)"

datatype lp_label = CallPush tid node | CallPop tid | LpGo tid

fun lp_step :: "lp_label \<Rightarrow> node_pool \<Rightarrow> node_pool option" where
  "lp_step (CallPush t a) s =
     (if t < length (lp_pcs s) \<and> lp_pcs s ! t = LpOutside \<and> a \<in> lp_owned s
      then Some (lp_goto t (LpPushLoad a) (s\<lparr>lp_owned := lp_owned s - {a}\<rparr>)) else None)"
| "lp_step (CallPop t) s =
     (if t < length (lp_pcs s) \<and> lp_pcs s ! t = LpOutside then Some (lp_goto t LpPopLoad s) else None)"
| "lp_step (LpGo t) s =
     (if t < length (lp_pcs s)
      then case lp_pcs s ! t of
             LpOutside \<Rightarrow> None
           | LpPushLoad a \<Rightarrow> LFPointersPool_Push t s
           | LpPushCas a \<Rightarrow> LFPointersPool_Push t s
           | _ \<Rightarrow> LFPointersPool_Pop t s
      else None)"

definition lp_start :: "nat \<Rightarrow> node set \<Rightarrow> node_pool" where
  "lp_start n nodes = \<lparr>lp_head = None, lp_next = (\<lambda>_. None), lp_owned = nodes, lp_pcs = replicate n LpOutside\<rparr>"

text \<open>Only thread 0 pops.\<close>

definition lp_single_step :: "lp_label \<Rightarrow> node_pool \<Rightarrow> node_pool option" where
  "lp_single_step l s = (case l of CallPop t \<Rightarrow> (if t = 0 then lp_step l s else None) | _ \<Rightarrow> lp_step l s)"

section \<open>One popper\<close>

text \<open>\<open>linked nx p xs\<close>: from \<open>p\<close> the pointers lead through the nodes \<open>xs\<close> to the end.\<close>

primrec linked :: "(node \<Rightarrow> node option) \<Rightarrow> node option \<Rightarrow> node list \<Rightarrow> bool" where
  "linked nx p [] \<longleftrightarrow> p = None"
| "linked nx p (x # xs) \<longleftrightarrow> p = Some x \<and> linked nx (nx x) xs"

lemma linked_upd: "a \<notin> set xs \<Longrightarrow> linked (nx(a := v)) p xs = linked nx p xs"
  by (induction xs arbitrary: p) auto

fun pushing :: "pool_pc \<Rightarrow> node option" where
  "pushing (LpPushLoad a) = Some a"
| "pushing (LpPushCas a) = Some a"
| "pushing _ = None"

text \<open>What the popper relies on: the node it has read is in the list, and its successor has not changed.\<close>

fun pop_ok :: "(node \<Rightarrow> node option) \<Rightarrow> node list \<Rightarrow> pool_pc \<Rightarrow> bool" where
  "pop_ok nx xs (LpPopNext x) \<longleftrightarrow> x \<in> set xs"
| "pop_ok nx xs (LpPopCas x y) \<longleftrightarrow> x \<in> set xs \<and> nx x = y"
| "pop_ok nx xs _ \<longleftrightarrow> True"

fun popping :: "pool_pc \<Rightarrow> bool" where
  "popping LpPopLoad \<longleftrightarrow> True"
| "popping (LpPopNext x) \<longleftrightarrow> True"
| "popping (LpPopCas x y) \<longleftrightarrow> True"
| "popping _ \<longleftrightarrow> False"

definition pushed_except :: "tid \<Rightarrow> pool_pc list \<Rightarrow> node set" where
  "pushed_except t pcs = {a. \<exists>u < length pcs. u \<noteq> t \<and> pushing (pcs ! u) = Some a}"

definition pushed :: "pool_pc list \<Rightarrow> node set" where
  "pushed pcs = {a. \<exists>u < length pcs. pushing (pcs ! u) = Some a}"

definition push_exclusive :: "pool_pc list \<Rightarrow> bool" where
  "push_exclusive pcs \<longleftrightarrow>
     (\<forall>t < length pcs. \<forall>u < length pcs. \<forall>a. pushing (pcs ! t) = Some a \<longrightarrow> pushing (pcs ! u) = Some a \<longrightarrow> t = u)"

lemma pushed_split: "t < length pcs \<Longrightarrow> pushed pcs = set_option (pushing (pcs ! t)) \<union> pushed_except t pcs"
  by (auto simp: pushed_def pushed_except_def)

lemma pushed_except_update [simp]: "pushed_except t (pcs[t := p]) = pushed_except t pcs"
  by (auto simp: pushed_except_def)

lemma push_exclusive_split:
  assumes "push_exclusive pcs" and "t < length pcs"
  shows "set_option (pushing (pcs ! t)) \<inter> pushed_except t pcs = {}"
  using assms by (auto simp: push_exclusive_def pushed_except_def)

lemma push_exclusive_update:
  assumes "push_exclusive pcs" and "t < length pcs" and "set_option (pushing p) \<inter> pushed_except t pcs = {}"
  shows "push_exclusive (pcs[t := p])"
  using assms unfolding push_exclusive_def pushed_except_def by (simp add: nth_list_update) fastforce

text \<open>Every node is in exactly one place: in the list, owned by a client, or being pushed by one thread.\<close>

definition lp_at :: "node set \<Rightarrow> node list \<Rightarrow> node_pool \<Rightarrow> bool" where
  "lp_at nodes xs s \<longleftrightarrow>
     linked (lp_next s) (lp_head s) xs \<and> distinct xs \<and>
     set xs \<union> lp_owned s \<union> pushed (lp_pcs s) = nodes \<and>
     set xs \<inter> lp_owned s = {} \<and> (set xs \<union> lp_owned s) \<inter> pushed (lp_pcs s) = {} \<and> push_exclusive (lp_pcs s) \<and>
     (\<forall>t < length (lp_pcs s). pop_ok (lp_next s) xs (lp_pcs s ! t) \<and> (popping (lp_pcs s ! t) \<longrightarrow> t = 0))"

text \<open>
  The rule by which every step is proved: thread \<open>t\<close> goes to \<open>p\<close>; the list, the owned nodes and the links become
  \<open>xs'\<close>, \<open>ow'\<close> and \<open>nx'\<close>. \<open>Q\<close> are the nodes the other threads push.
\<close>

lemma lp_at_goto:
  assumes at: "lp_at nodes xs s" and t: "t < length (lp_pcs s)"
    and pcs: "lp_pcs s' = (lp_pcs s)[t := p]"
    and link: "linked (lp_next s') (lp_head s') xs'" "distinct xs'"
    and here: "set xs' \<union> lp_owned s' \<union> set_option (pushing p) =
               set xs \<union> lp_owned s \<union> set_option (pushing (lp_pcs s ! t))"
    and disj: "set xs' \<inter> lp_owned s' = {}" "(set xs' \<union> lp_owned s') \<inter> set_option (pushing p) = {}"
    and self: "pop_ok (lp_next s') xs' p" "popping p \<longrightarrow> t = 0"
    and others: "\<And>u. u < length (lp_pcs s) \<Longrightarrow> u \<noteq> t \<Longrightarrow> pop_ok (lp_next s) xs (lp_pcs s ! u) \<Longrightarrow>
                   popping (lp_pcs s ! u) \<longrightarrow> u = 0 \<Longrightarrow> pop_ok (lp_next s') xs' (lp_pcs s ! u)"
  shows "lp_at nodes xs' s'"
proof -
  let ?Q = "pushed_except t (lp_pcs s)"
  have old: "set xs \<union> lp_owned s \<union> (set_option (pushing (lp_pcs s ! t)) \<union> ?Q) = nodes"
    "(set xs \<union> lp_owned s) \<inter> (set_option (pushing (lp_pcs s ! t)) \<union> ?Q) = {}"
    and ex: "push_exclusive (lp_pcs s)"
    using at t by (auto simp: lp_at_def pushed_split)
  note sep = push_exclusive_split [OF ex t]
  have new: "pushed (lp_pcs s') = set_option (pushing p) \<union> ?Q"
    using t by (simp add: pcs pushed_split [of t])
  have away: "(set xs' \<union> lp_owned s' \<union> set_option (pushing p)) \<inter> ?Q = {}"
    unfolding here using old(2) sep by blast
  have "set xs' \<union> lp_owned s' \<union> pushed (lp_pcs s') = nodes"
    unfolding new using here old(1) by blast
  moreover have "(set xs' \<union> lp_owned s') \<inter> pushed (lp_pcs s') = {}"
    unfolding new using disj(2) away by blast
  moreover have "push_exclusive (lp_pcs s')"
    unfolding pcs by (rule push_exclusive_update [OF ex t]) (use away in blast)
  moreover have "pop_ok (lp_next s') xs' (lp_pcs s' ! u) \<and> (popping (lp_pcs s' ! u) \<longrightarrow> u = 0)"
    if u: "u < length (lp_pcs s')" for u
  proof (cases "u = t")
    case True
    with self t show ?thesis by (simp add: pcs)
  next
    case False
    from u have "u < length (lp_pcs s)" by (simp add: pcs)
    with at have "pop_ok (lp_next s) xs (lp_pcs s ! u) \<and> (popping (lp_pcs s ! u) \<longrightarrow> u = 0)"
      by (simp add: lp_at_def)
    with others [of u] False \<open>u < length (lp_pcs s)\<close> show ?thesis by (simp add: pcs)
  qed
  ultimately show ?thesis using link disj(1) by (simp add: lp_at_def)
qed

lemma pop_ok_upd: "a \<notin> set xs \<Longrightarrow> pop_ok nx xs p \<Longrightarrow> pop_ok (nx(a := v)) xs p"
  by (cases p) auto

lemma pop_ok_Cons: "pop_ok nx xs p \<Longrightarrow> pop_ok nx (x # xs) p"
  by (cases p) auto

lemma pop_ok_not_popping: "\<not> popping p \<Longrightarrow> pop_ok nx xs p"
  by (cases p) auto

lemma lp_at_pushing:
  assumes "lp_at nodes xs s" and "t < length (lp_pcs s)" and "pushing (lp_pcs s ! t) = Some a"
  shows "a \<notin> set xs" and "a \<notin> lp_owned s"
  using assms by (auto simp: lp_at_def pushed_def)

lemma linked_head: "linked nx p xs \<Longrightarrow> p = Some x \<Longrightarrow> \<exists>ys. xs = x # ys \<and> linked nx (nx x) ys"
  by (cases xs) auto

lemmas lp_at_linked = lp_at_def [THEN iffD1, THEN conjunct1]
  and lp_at_distinct = lp_at_def [THEN iffD1, THEN conjunct2, THEN conjunct1]
  and lp_at_apart = lp_at_def [THEN iffD1, THEN conjunct2, THEN conjunct2, THEN conjunct2, THEN conjunct1]

lemma lp_at_pop_ok:
  assumes "lp_at nodes xs s" and "t < length (lp_pcs s)"
  shows "pop_ok (lp_next s) xs (lp_pcs s ! t)" and "popping (lp_pcs s ! t) \<Longrightarrow> t = 0"
  using assms by (auto simp: lp_at_def)

lemma lp_at_Push:
  assumes at: "lp_at nodes xs s" and t: "t < length (lp_pcs s)" and P: "LFPointersPool_Push t s = Some s'"
  shows "\<exists>xs'. lp_at nodes xs' s'"
proof -
  note base = lp_at_linked [OF at] lp_at_distinct [OF at] lp_at_apart [OF at]
  consider (load) a where "lp_pcs s ! t = LpPushLoad a" | (cas) a where "lp_pcs s ! t = LpPushCas a"
    using P by (auto simp: LFPointersPool_Push_def split: pool_pc.splits)
  then show ?thesis
  proof cases
    case load
    note a = lp_at_pushing [OF at t, of a, unfolded load, simplified]
    have s': "s' = lp_goto t (LpPushCas a) (s\<lparr>lp_next := (lp_next s)(a := lp_head s)\<rparr>)"
      using P by (simp add: LFPointersPool_Push_def load)
    have "lp_at nodes xs s'"
      by (rule lp_at_goto [OF at t, where p = "LpPushCas a"])
        (use base a load in \<open>simp_all add: s' lp_goto_def linked_upd pop_ok_upd\<close>)
    then show ?thesis ..
  next
    case cas
    note a = lp_at_pushing [OF at t, of a, unfolded cas, simplified]
    show ?thesis
    proof (cases "lp_head s = lp_next s a")
      case True
      have s': "s' = lp_goto t LpOutside (s\<lparr>lp_head := Some a\<rparr>)"
        using P True by (simp add: LFPointersPool_Push_def cas)
      have "lp_at nodes (a # xs) s'"
        by (rule lp_at_goto [OF at t, where p = LpOutside])
          (use base a cas True in \<open>auto simp: s' lp_goto_def intro: pop_ok_Cons\<close>)
      then show ?thesis ..
    next
      case False
      have s': "s' = lp_goto t (LpPushLoad a) (s\<lparr>lp_next := (lp_next s)(a := lp_head s)\<rparr>)"
        using P False by (simp add: LFPointersPool_Push_def cas)
      have "lp_at nodes xs s'"
        by (rule lp_at_goto [OF at t, where p = "LpPushLoad a"])
          (use base a cas in \<open>simp_all add: s' lp_goto_def linked_upd pop_ok_upd\<close>)
      then show ?thesis ..
    qed
  qed
qed

lemma lp_at_Pop:
  assumes at: "lp_at nodes xs s" and t: "t < length (lp_pcs s)" and P: "LFPointersPool_Pop t s = Some s'"
  shows "\<exists>xs'. lp_at nodes xs' s'"
proof -
  note base = lp_at_linked [OF at] lp_at_distinct [OF at] lp_at_apart [OF at]
  note here = lp_at_pop_ok [OF at t]
  consider (load) "lp_pcs s ! t = LpPopLoad" | (nxt) x where "lp_pcs s ! t = LpPopNext x"
    | (cas) x y where "lp_pcs s ! t = LpPopCas x y"
    using P by (auto simp: LFPointersPool_Pop_def split: pool_pc.splits)
  then show ?thesis
  proof cases
    case load
    show ?thesis
    proof (cases "lp_head s")
      case None
      have "lp_at nodes xs s'"
        by (rule lp_at_goto [OF at t, where p = LpOutside])
          (use base None P load in \<open>auto simp: LFPointersPool_Pop_def lp_goto_def\<close>)
      then show ?thesis ..
    next
      case (Some x)
      with base(1) have "x \<in> set xs" by (auto dest: linked_head)
      then have "lp_at nodes xs s'"
        by (intro lp_at_goto [OF at t, where p = "LpPopNext x"])
          (use base Some P load here in \<open>auto simp: LFPointersPool_Pop_def lp_goto_def\<close>)
      then show ?thesis ..
    qed
  next
    case nxt
    have "lp_at nodes xs s'"
      by (rule lp_at_goto [OF at t, where p = "LpPopCas x (lp_next s x)"])
        (use base P nxt here in \<open>auto simp: LFPointersPool_Pop_def lp_goto_def\<close>)
    then show ?thesis ..
  next
    case cas
    show ?thesis
    proof (cases "lp_head s = Some x")
      case True
      with base(1) obtain ys where ys: "xs = x # ys" "linked (lp_next s) (lp_next s x) ys"
        by (auto dest: linked_head)
      have s': "s' = lp_goto t LpOutside (s\<lparr>lp_head := y, lp_owned := insert x (lp_owned s)\<rparr>)"
        using P True by (simp add: LFPointersPool_Pop_def cas)
      have y: "y = lp_next s x" and t0: "t = 0" using here by (auto simp: cas)
      have "lp_at nodes ys s'"
        by (rule lp_at_goto [OF at t, where p = LpOutside])
          (use base ys y t0 cas in \<open>auto simp: s' lp_goto_def intro: pop_ok_not_popping\<close>)
      then show ?thesis ..
    next
      case False
      have "lp_at nodes xs s'"
        by (rule lp_at_goto [OF at t, where p = LpPopLoad])
          (use base P cas False here in \<open>auto simp: LFPointersPool_Pop_def lp_goto_def\<close>)
      then show ?thesis ..
    qed
  qed
qed

lemma lp_at_step:
  assumes at: "lp_at nodes xs s" and step: "lp_single_step l s = Some s'"
  shows "\<exists>xs'. lp_at nodes xs' s'"
proof (cases l)
  case (CallPush t a)
  with step have c: "t < length (lp_pcs s)" "lp_pcs s ! t = LpOutside" "a \<in> lp_owned s"
    and s': "s' = lp_goto t (LpPushLoad a) (s\<lparr>lp_owned := lp_owned s - {a}\<rparr>)"
    by (auto simp: lp_single_step_def split: if_splits)
  note base = lp_at_linked [OF at] lp_at_distinct [OF at] lp_at_apart [OF at]
  have "lp_at nodes xs s'"
    by (rule lp_at_goto [OF at c(1), where p = "LpPushLoad a"]) (use base c in \<open>auto simp: s' lp_goto_def\<close>)
  then show ?thesis ..
next
  case (CallPop t)
  with step have c: "t < length (lp_pcs s)" "lp_pcs s ! t = LpOutside" "t = 0" and s': "s' = lp_goto t LpPopLoad s"
    by (auto simp: lp_single_step_def split: if_splits)
  note base = lp_at_linked [OF at] lp_at_distinct [OF at] lp_at_apart [OF at]
  have "lp_at nodes xs s'"
    by (rule lp_at_goto [OF at c(1), where p = LpPopLoad]) (use base c in \<open>auto simp: s' lp_goto_def\<close>)
  then show ?thesis ..
next
  case (LpGo t)
  with step have "t < length (lp_pcs s)" "LFPointersPool_Push t s = Some s' \<or> LFPointersPool_Pop t s = Some s'"
    by (auto simp: lp_single_step_def split: if_splits pool_pc.splits)
  with at show ?thesis by (blast intro: lp_at_Push lp_at_Pop)
qed

definition lp_inv :: "node set \<Rightarrow> node_pool \<Rightarrow> bool" where
  "lp_inv nodes s \<longleftrightarrow> (\<exists>xs. lp_at nodes xs s)"

interpretation lfpool: invariant_system lp_single_step "lp_start n nodes" "lp_inv nodes"
proof
  have "lp_at nodes [] (lp_start n nodes)"
    by (auto simp: lp_at_def lp_start_def pushed_def push_exclusive_def)
  then show "lp_inv nodes (lp_start n nodes)" unfolding lp_inv_def ..
  fix s s' l
  assume "lp_inv nodes s" and "lp_single_step l s = Some s'"
  then show "lp_inv nodes s'" unfolding lp_inv_def by (blast dest: lp_at_step)
qed

text \<open>With one popping thread and any number of pushing threads the pool \<open>LFPointersPool\<close> neither loses nor duplicates a
  node: in every reachable state the pointers from \<open>head_\<close> lead through a finite list of distinct nodes, and every
  node is in exactly one place, in that list, with a client, or in the hands of the one thread that pushes it.\<close>

theorem LFPointersPool_single_popper_keeps_nodes:
  assumes "reachable lp_single_step (lp_start n nodes) s"
  shows "\<exists>xs. linked (lp_next s) (lp_head s) xs \<and> distinct xs \<and>
           set xs \<union> lp_owned s \<union> pushed (lp_pcs s) = nodes \<and> set xs \<inter> lp_owned s = {} \<and>
           (set xs \<union> lp_owned s) \<inter> pushed (lp_pcs s) = {} \<and> push_exclusive (lp_pcs s)"
  using lfpool.inv_reachable [OF assms] by (auto simp: lp_inv_def lp_at_def)

section \<open>Several poppers\<close>

definition aba_schedule :: "lp_label list" where
  "aba_schedule =
     [CallPush 0 2, LpGo 0, LpGo 0, CallPush 0 1, LpGo 0, LpGo 0, CallPush 0 0, LpGo 0, LpGo 0,
      CallPop 1, LpGo 1, LpGo 1,
      CallPop 0, LpGo 0, LpGo 0, LpGo 0, CallPop 0, LpGo 0, LpGo 0, LpGo 0, CallPush 0 0, LpGo 0, LpGo 0, LpGo 1]"

text \<open>
  The compare-exchange of \<open>Pop\<close> is open to the ABA problem: two threads that both pop reach a state in which the head of
  the pool is a node that a client owns, so that the next \<open>Pop\<close> hands it out a second time.
\<close>

theorem LFPointersPool_Pop_is_open_to_ABA:
  "\<exists>s. run lp_step aba_schedule (lp_start 2 {0, 1, 2}) = Some s \<and>
       lp_head s = Some 1 \<and> 1 \<in> lp_owned s"
  by (simp add: aba_schedule_def lp_start_def replicate_two LFPointersPool_Push_def LFPointersPool_Pop_def lp_goto_def)

theorem LFPointersPool_single_popper_keeps_nodes_witness:
  "\<exists>s. run lp_single_step [CallPush 1 5, LpGo 1, CallPop 0, LpGo 1, LpGo 0] (lp_start 2 {5}) = Some s \<and>
       (\<exists>xs. linked (lp_next s) (lp_head s) xs \<and> distinct xs \<and>
           set xs \<union> lp_owned s \<union> pushed (lp_pcs s) = {5} \<and> set xs \<inter> lp_owned s = {} \<and>
           (set xs \<union> lp_owned s) \<inter> pushed (lp_pcs s) = {} \<and> push_exclusive (lp_pcs s))"
proof -
  have "\<exists>s. run lp_single_step [CallPush 1 5, LpGo 1, CallPop 0, LpGo 1, LpGo 0] (lp_start 2 {5}) = Some s"
    by (simp add: lp_single_step_def lp_start_def replicate_two LFPointersPool_Push_def LFPointersPool_Pop_def lp_goto_def)
  then obtain s where s: "run lp_single_step [CallPush 1 5, LpGo 1, CallPop 0, LpGo 1, LpGo 0] (lp_start 2 {5}) = Some s"
    by blast
  show ?thesis using LFPointersPool_single_popper_keeps_nodes [OF run_reachable [OF s]] s by blast
qed

end
