(* ===== verification/Tagged_Stack.thy ===== *)
theory Tagged_Stack
  imports Strand Node_Pool
begin

text \<open>
  The copy of the strand that the futures use, \<^verbatim>\<open>futures/futures/await/executors/strand.cpp\<close>. Its stack has no pool of nodes: \<open>Pop\<close> deletes the
  node, and pointers are wrapped in a struct with a tag counter in mind. The first part proves for this strand what \<open>Strand\<close> proves for
  the other one: it is serial, in order and memory safe. The second part verifies the class \<open>LockFreeStack\<close> by itself, with threads that push and pop
  concurrently: with one popping thread it is memory safe and a stack, with two it is not.
\<close>

section \<open>Tagged pointers\<close>

text \<open>A \<open>StackNodePtr\<close> is a struct with one pointer, here the pointer. Read through the union \<open>StackNodePtrHood\<close> its lower half is the tag.\<close>

definition StackNodePtrHood :: "addr option \<Rightarrow> u64" where
  "StackNodePtrHood p = (case p of None \<Rightarrow> 0 | Some a \<Rightarrow> of_nat a)"

definition hood_tag :: "u64 \<Rightarrow> u32" where
  "hood_tag hood = ucast hood"

definition hood_set_tag :: "u32 \<Rightarrow> u64 \<Rightarrow> u64" where
  "hood_set_tag tag hood = push_bit 32 (drop_bit 32 hood) + ucast tag"

text \<open>\<open>AddToTag\<close> increments the tag in a local union that holds a copy of the pointer; the result is the pointer of the caller and that union.\<close>

definition AddToTag :: "addr option \<Rightarrow> addr option \<times> u64" where
  "AddToTag ptr =
     (let hood = StackNodePtrHood ptr; hood' = hood_set_tag (hood_tag hood + 1) hood
      in (ptr, hood'))"

lemma AddToTag_keeps [simp]: "fst (AddToTag p) = p"
  by (simp add: AddToTag_def Let_def)

section \<open>The strand of the futures\<close>

definition TgStack_IsEmpty :: "addr option \<Rightarrow> bool" where
  "TgStack_IsEmpty head \<longleftrightarrow> head = None"

text \<open>\<open>new StackNode\<close> at an address that is not in use, and the write of its data.\<close>

definition TgStack_Push_alloc :: "addr \<Rightarrow> 'a \<Rightarrow> 'a node_heap \<Rightarrow> 'a node_heap option" where
  "TgStack_Push_alloc a elem h =
     (if h a = None then Some (h(a \<mapsto> \<lparr>node_data = elem, node_next = None\<rparr>)) else None)"

text \<open>\<open>AddToTag(new_node)\<close> and \<open>new_node.ptr->next = head_\<close>\<close>

definition TgStack_Push_load :: "addr option \<Rightarrow> addr option \<Rightarrow> 'a node_heap \<Rightarrow> 'a node_heap option" where
  "TgStack_Push_load new_node head h =
     (let new_node = fst (AddToTag new_node)
      in do { a \<leftarrow> new_node; n \<leftarrow> h a; Some (h(a \<mapsto> n\<lparr>node_next := head\<rparr>)) })"

definition TgStack_Push_cas ::
    "addr option \<Rightarrow> addr option \<Rightarrow> 'a node_heap \<Rightarrow> (bool \<times> addr option \<times> 'a node_heap) option" where
  "TgStack_Push_cas new_node head h =
     do { a \<leftarrow> new_node; n \<leftarrow> h a;
          if node_next n = head then Some (True, new_node, h)
          else Some (False, head, h(a \<mapsto> n\<lparr>node_next := head\<rparr>)) }"

text \<open>\<open>Pop\<close> on the local stack, which nobody else knows: the compare-exchange succeeds, the node is deleted.\<close>

definition TgStack_Pop :: "addr option \<Rightarrow> 'a node_heap \<Rightarrow> ('a option \<times> addr option \<times> 'a node_heap) option" where
  "TgStack_Pop head h =
     (case head of
        None \<Rightarrow> Some (None, head, h)
      | Some a \<Rightarrow> do { n \<leftarrow> h a; Some (Some (node_data n), node_next n, h(a := None)) })"

definition TgStack_ExchangeWithAnother :: "addr option \<Rightarrow> addr option \<Rightarrow> addr option \<times> addr option" where
  "TgStack_ExchangeWithAnother head another = (another, head)"

partial_function (option) tg_drain_tasks ::
    "addr option \<Rightarrow> 'a node_heap \<Rightarrow> 'a list \<Rightarrow> ('a list \<times> addr option \<times> 'a node_heap) option" where
  [code]: "tg_drain_tasks head h tasks =
     (if TgStack_IsEmpty head then Some (tasks, head, h)
      else case TgStack_Pop head h of
             Some (Some t, head', h') \<Rightarrow> tg_drain_tasks head' h' (tasks @ [t])
           | _ \<Rightarrow> None)"

text \<open>The strand has the state of \<open>Strand\<close>, where no stack has a pool. The class has no destructor, so the end of
  \<open>ExecuteFirstStack\<close> leaves the heap as it is.\<close>

definition TgStrand_ExecuteFirstStack :: "'a strand \<Rightarrow> ('a list \<times> local_stack \<times> 'a strand) option" where
  "TgStrand_ExecuteFirstStack s =
     (let (local, head) = TgStack_ExchangeWithAnother None (st_head s)
      in do { (tasks, local', h) \<leftarrow> tg_drain_tasks local (st_heap s) [];
              Some (tasks, (local', None), s\<lparr>st_head := head, st_heap := h\<rparr>) })"

definition TgStrand_Execute :: "tid \<Rightarrow> 'a strand \<Rightarrow> 'a strand option" where
  "TgStrand_Execute c s =
     (case st_clients s ! c of
        PushOutside \<Rightarrow> None
      | PushLoad a \<Rightarrow>
          (case TgStack_Push_load (Some a) (st_head s) (st_heap s) of
             None \<Rightarrow> Some (s\<lparr>st_fault := True\<rparr>)
           | Some h \<Rightarrow> Some (st_client c (PushCas a) (s\<lparr>st_heap := h\<rparr>)))
      | PushCas a \<Rightarrow>
          (case TgStack_Push_cas (Some a) (st_head s) (st_heap s) of
             None \<Rightarrow> Some (s\<lparr>st_fault := True\<rparr>)
           | Some (ok, head, h) \<Rightarrow>
               Some (st_client c (if ok then PushSchedule else PushLoad a)
                 (s\<lparr>st_head := head, st_heap := h,
                    st_pushed := st_pushed s @ (if ok then [node_data (the (h a))] else [])\<rparr>)))
      | PushSchedule \<Rightarrow>
          (if \<not> is_scheduled s then Some (st_client c PushFirst (s\<lparr>is_scheduled := True\<rparr>))
           else Some (st_client c PushOutside s))
      | PushFirst \<Rightarrow>
          (case TgStrand_ExecuteFirstStack s of
             None \<Rightarrow> Some (s\<lparr>st_fault := True\<rparr>)
           | Some (tasks, tasks_to_run, s') \<Rightarrow> Some (st_client c (PushSubmit tasks tasks_to_run) s'))
      | PushSubmit tasks tasks_to_run \<Rightarrow>
          Some (st_client c (PushReturn tasks_to_run) (s\<lparr>st_thunks := st_thunks s @ [ThunkTasks tasks]\<rparr>))
      | PushReturn tasks_to_run \<Rightarrow> Some (st_client c PushOutside s))"

definition TgStrand_thunk :: "nat \<Rightarrow> 'a strand \<Rightarrow> 'a strand option" where
  "TgStrand_thunk k s =
     (case st_thunks s ! k of
        ThunkTasks tasks \<Rightarrow>
          (if tasks \<noteq> []
           then Some (st_thunk k (ThunkIn (last tasks) (butlast tasks)) (s\<lparr>st_ran := st_ran s @ [last tasks]\<rparr>))
           else Some (st_thunk k (if TgStack_IsEmpty (st_head s) then ThunkEmptied else ThunkFirst) s))
      | ThunkIn t tasks \<Rightarrow> Some (st_thunk k (ThunkTasks tasks) s)
      | ThunkEmptied \<Rightarrow> Some (st_thunk k ThunkFinished (s\<lparr>is_scheduled := False\<rparr>))
      | ThunkFirst \<Rightarrow>
          (case TgStrand_ExecuteFirstStack s of
             None \<Rightarrow> Some (s\<lparr>st_fault := True\<rparr>)
           | Some (tasks, tasks_to_run, s') \<Rightarrow> Some (st_thunk k (ThunkSubmit tasks tasks_to_run) s'))
      | ThunkSubmit tasks tasks_to_run \<Rightarrow>
          Some (st_thunk k (ThunkReturn tasks_to_run) (s\<lparr>st_thunks := st_thunks s @ [ThunkTasks tasks]\<rparr>))
      | ThunkReturn tasks_to_run \<Rightarrow> Some (st_thunk k ThunkFinished s)
      | ThunkFinished \<Rightarrow> None)"

fun tg_strand_step :: "'a strand_label \<Rightarrow> 'a strand \<Rightarrow> 'a strand option" where
  "tg_strand_step (CallExecute c t a) s =
     (if c < length (st_clients s) \<and> st_clients s ! c = PushOutside then
        do { h \<leftarrow> TgStack_Push_alloc a t (st_heap s);
             Some (st_client c (PushLoad a) (s\<lparr>st_heap := h\<rparr>)) }
      else None)"
| "tg_strand_step (StClient c) s =
     (if c < length (st_clients s) then TgStrand_Execute c s else None)"
| "tg_strand_step (StThunk k) s =
     (if k < length (st_thunks s) then TgStrand_thunk k s else None)"

definition TgMakeStrand :: "nat \<Rightarrow> 'a strand" where
  "TgMakeStrand n =
     \<lparr>st_heap = (\<lambda>_. None), st_head = None, st_pool = None, is_scheduled = False,
      st_clients = replicate n PushOutside, st_thunks = [], st_fault = False,
      st_pushed = [], st_ran = []\<rparr>"

subsection \<open>The invariant of the strand\<close>

lemma tg_drain_chain:
  "chain h p as ts \<Longrightarrow> tg_drain_tasks p h acc = Some (acc @ ts, None, \<lambda>a. if a \<in> set as then None else h a)"
proof (induction as arbitrary: h p ts acc)
  case Nil
  then show ?case by (cases ts) (simp_all add: tg_drain_tasks.simps TgStack_IsEmpty_def)
next
  case (Cons a as)
  from Cons.prems obtain t ts' nx where ts: "ts = t # ts'" "p = Some a" "a \<notin> set as"
      "h a = Some \<lparr>node_data = t, node_next = nx\<rparr>" "chain h nx as ts'"
    by (cases ts) auto
  define h' where "h' = h(a := None)"
  have c: "chain h' nx as ts'" using ts by (simp add: chain_upd_other h'_def)
  have "(\<lambda>x. if x \<in> set as then None else h' x) = (\<lambda>x. if x \<in> set (a # as) then None else h x)"
    by (auto simp: h'_def)
  moreover have "tg_drain_tasks p h acc = tg_drain_tasks nx h' (acc @ [t])"
    using ts by (subst tg_drain_tasks.simps) (simp add: TgStack_IsEmpty_def TgStack_Pop_def h'_def)
  ultimately show ?case using Cons.IH [OF c, of "acc @ [t]"] ts by simp
qed

text \<open>Here taking the stack deletes all its nodes at once.\<close>

lemma tg_first_stack:
  assumes "strand_at as ts b own s"
  shows "\<exists>h. TgStrand_ExecuteFirstStack s = Some (ts, (None, None), s\<lparr>st_head := None, st_heap := h\<rparr>) \<and>
    stack_taken as [] (None, None) (st_heap s) h"
proof -
  have "chain (st_heap s) (st_head s) as ts" using assms by (simp add: strand_at_def)
  from tg_drain_chain [OF this, of "[]"] show ?thesis
    by (intro exI [of _ "\<lambda>a. if a \<in> set as then None else st_heap s a"])
      (simp add: TgStrand_ExecuteFirstStack_def TgStack_ExchangeWithAnother_def stack_taken_def local_nodes_null)
qed

lemmas tg_same = TgStack_IsEmpty_def LockFreeStack_IsEmpty_def TgStack_Push_alloc_def LockFreeStack_Push_alloc_def
  TgStack_Push_load_def LockFreeStack_Push_load_def TgStack_Push_cas_def LockFreeStack_Push_cas_def

text \<open>Local stacks are empty once the tasks are taken out, and the invariant of the other strand holds.\<close>

fun client_local :: "'a push_pc \<Rightarrow> bool" where
  "client_local (PushSubmit tasks ls) \<longleftrightarrow> ls = (None, None)"
| "client_local (PushReturn ls) \<longleftrightarrow> ls = (None, None)"
| "client_local _ \<longleftrightarrow> True"

fun thunk_local :: "'a thunk_pc \<Rightarrow> bool" where
  "thunk_local (ThunkSubmit tasks ls) \<longleftrightarrow> ls = (None, None)"
| "thunk_local (ThunkReturn ls) \<longleftrightarrow> ls = (None, None)"
| "thunk_local _ \<longleftrightarrow> True"

definition locals_empty :: "'a strand \<Rightarrow> bool" where
  "locals_empty s \<longleftrightarrow> list_all client_local (st_clients s) \<and> list_all thunk_local (st_thunks s)"

definition tg_inv :: "'a strand \<Rightarrow> bool" where
  "tg_inv s \<longleftrightarrow> strand_inv s \<and> locals_empty s"

lemma list_all_update: "list_all P xs \<Longrightarrow> P x \<Longrightarrow> list_all P (xs[i := x])"
  by (cases "i < length xs") (auto simp: list_all_length nth_list_update)

lemma locals_client: "locals_empty s \<Longrightarrow> client_local p \<Longrightarrow> locals_empty (st_client c p s)"
  by (simp add: locals_empty_def st_client_def list_all_update)

lemma locals_thunk: "locals_empty s \<Longrightarrow> thunk_local p \<Longrightarrow> locals_empty (st_thunk k p s)"
  by (simp add: locals_empty_def st_thunk_def list_all_update)

lemma locals_frame [simp]:
  "locals_empty (s\<lparr>st_heap := h\<rparr>) = locals_empty s" "locals_empty (s\<lparr>st_head := p\<rparr>) = locals_empty s"
  "locals_empty (s\<lparr>st_pushed := xs\<rparr>) = locals_empty s" "locals_empty (s\<lparr>st_ran := xs\<rparr>) = locals_empty s"
  "locals_empty (s\<lparr>is_scheduled := f\<rparr>) = locals_empty s" "locals_empty (s\<lparr>st_fault := f\<rparr>) = locals_empty s"
  "locals_empty (s\<lparr>st_thunks := st_thunks s @ [ThunkTasks ts]\<rparr>) = locals_empty s"
  by (simp_all add: locals_empty_def)

lemma tg_locals_step:
  assumes inv: "strand_inv s" and loc: "locals_empty s" and step: "tg_strand_step l s = Some s'"
  shows "locals_empty s'"
proof -
  obtain as ts b own where at: "strand_at as ts b own s" using inv by (auto simp: strand_inv_def)
  obtain h where first: "TgStrand_ExecuteFirstStack s = Some (ts, (None, None), s\<lparr>st_head := None, st_heap := h\<rparr>)"
    using tg_first_stack [OF at] by blast
  show ?thesis
  proof (cases l)
    case (CallExecute c t a)
    with step loc show ?thesis by (auto intro!: locals_client split: if_splits Option.bind_splits)
  next
    case (StClient c)
    with step have c: "c < length (st_clients s)" "TgStrand_Execute c s = Some s'" by (auto split: if_splits)
    then have "client_local (st_clients s ! c)" using loc by (simp add: locals_empty_def list_all_length)
    with c loc show ?thesis
      by (cases "st_clients s ! c")
        (auto simp: TgStrand_Execute_def first intro!: locals_client split: option.splits prod.splits if_splits)
  next
    case (StThunk k)
    with step have k: "k < length (st_thunks s)" "TgStrand_thunk k s = Some s'" by (auto split: if_splits)
    then have "thunk_local (st_thunks s ! k)" using loc by (simp add: locals_empty_def list_all_length)
    with k loc show ?thesis
      by (cases "st_thunks s ! k")
        (auto simp: TgStrand_thunk_def first intro!: locals_thunk split: option.splits prod.splits if_splits)
  qed
qed

lemma tg_inv_client:
  assumes at: "strand_at as ts b own s" and loc: "locals_empty s" and c: "c < length (st_clients s)"
    and step: "TgStrand_Execute c s = Some s'"
  shows "strand_inv s'"
proof (cases "st_clients s ! c")
  case PushFirst
  obtain h where first: "TgStrand_ExecuteFirstStack s = Some (ts, (None, None), s\<lparr>st_head := None, st_heap := h\<rparr>)"
    "stack_taken as [] (None, None) (st_heap s) h" using tg_first_stack [OF at] by blast
  have "s' = st_client c (PushSubmit ts (None, None)) (s\<lparr>st_head := None, st_heap := h\<rparr>)"
    using step PushFirst first(1) by (simp add: TgStrand_Execute_def)
  with strand_at_client_first [OF at c PushFirst first(2)] show ?thesis by (auto intro: strand_invI)
next
  case (PushReturn ls)
  have "client_local (st_clients s ! c)" using loc c by (simp add: locals_empty_def list_all_length)
  with client_own [OF at c] PushReturn have "own (Inl c) = []" by (simp add: local_nodes_null)
  with strand_at_client_return [OF at c PushReturn] have "strand_inv (st_client c PushOutside s)"
    by (auto intro: strand_invI)
  with step PushReturn show ?thesis by (simp add: TgStrand_Execute_def)
qed (use strand_inv_client [OF at c] step in
  \<open>auto simp: TgStrand_Execute_def StrandExecutor_Execute_def tg_same split: if_splits\<close>)

lemma tg_inv_thunk:
  assumes at: "strand_at as ts b own s" and loc: "locals_empty s" and k: "k < length (st_thunks s)"
    and step: "TgStrand_thunk k s = Some s'"
  shows "strand_inv s'"
proof (cases "st_thunks s ! k")
  case ThunkFirst
  obtain h where first: "TgStrand_ExecuteFirstStack s = Some (ts, (None, None), s\<lparr>st_head := None, st_heap := h\<rparr>)"
    "stack_taken as [] (None, None) (st_heap s) h" using tg_first_stack [OF at] by blast
  have "s' = st_thunk k (ThunkSubmit ts (None, None)) (s\<lparr>st_head := None, st_heap := h\<rparr>)"
    using step ThunkFirst first(1) by (simp add: TgStrand_thunk_def)
  with strand_at_thunk_first [OF at k ThunkFirst first(2)] show ?thesis by (auto intro: strand_invI)
next
  case (ThunkReturn ls)
  have "thunk_local (st_thunks s ! k)" using loc k by (simp add: locals_empty_def list_all_length)
  with thunk_own [OF at k] ThunkReturn have "own (Inr k) = []" by (simp add: local_nodes_null)
  with strand_at_thunk_return [OF at k ThunkReturn] have "strand_inv (st_thunk k ThunkFinished s)"
    by (auto intro: strand_invI)
  with step ThunkReturn show ?thesis by (simp add: TgStrand_thunk_def)
qed (use strand_inv_thunk [OF at k] step in
  \<open>auto simp: TgStrand_thunk_def StrandExecutor_thunk_def tg_same split: if_splits\<close>)

lemma tg_inv_step:
  assumes inv: "tg_inv s" and step: "tg_strand_step l s = Some s'"
  shows "tg_inv s'"
proof -
  have loc: "locals_empty s" and sinv: "strand_inv s" using inv by (simp_all add: tg_inv_def)
  obtain as ts b own where at: "strand_at as ts b own s" using sinv by (auto simp: strand_inv_def)
  have "strand_inv s'"
  proof (cases l)
    case (CallExecute c t a)
    have "st_pool s = None" using at by (simp add: strand_at_def)
    then have "tg_strand_step l s = strand_step l s" using CallExecute by (simp add: tg_same)
    with strand_inv_step [OF sinv] step show ?thesis by simp
  next
    case (StClient c)
    with step tg_inv_client [OF at loc] show ?thesis by (auto split: if_splits)
  next
    case (StThunk k)
    with step tg_inv_thunk [OF at loc] show ?thesis by (auto split: if_splits)
  qed
  with tg_locals_step [OF sinv loc step] show ?thesis by (simp add: tg_inv_def)
qed

lemma tg_inv_start: "tg_inv (TgMakeStrand n)"
  using strand_invI [OF strand_at_init [of n]]
  by (simp add: tg_inv_def TgMakeStrand_def MakeStrand_def locals_empty_def list_all_length)

interpretation tgs: invariant_system tg_strand_step "TgMakeStrand n" tg_inv for n
  by unfold_locales (fact tg_inv_start, fact tg_inv_step)

text \<open>C40: The strand of the futures, whose stack deletes its nodes in \<open>Pop\<close> and has neither pool nor destructor, whatever the underlying executor
  does: it runs its tasks one at a time and in the order in which they entered the stack. No step dereferences a null or freed node,
  the head always starts a well-formed list of live nodes, and when every call of \<open>Execute\<close> has returned and every thunk has
  finished no node is left outside of the stack: all the others have been deleted.\<close>

theorem TgStrand_serial_and_memory_safe:
  assumes "reachable tg_strand_step (TgMakeStrand n) s"
  shows "(\<forall>i < length (st_thunks s). \<forall>j < length (st_thunks s). in_task (st_thunks s ! i) \<and> in_task (st_thunks s ! j) \<longrightarrow> i = j) \<and>
    (\<exists>rest. st_pushed s = st_ran s @ rest) \<and> \<not> st_fault s \<and>
    (\<exists>as ts. chain (st_heap s) (st_head s) as ts \<and> distinct as \<and> (\<exists>older. st_pushed s = older @ rev ts) \<and>
       ((\<forall>c < length (st_clients s). st_clients s ! c = PushOutside) \<and>
        (\<forall>k < length (st_thunks s). st_thunks s ! k = ThunkFinished) \<longrightarrow> dom (st_heap s) = set as))"
proof -
  have "strand_inv s" using tgs.inv_reachable [OF assms] by (simp add: tg_inv_def)
  from strand_in_task_unique [OF this] strand_ran_prefix [OF this] strand_memory [OF this] show ?thesis by blast
qed

definition tg_one_push :: "nat strand_label list" where
  "tg_one_push = [CallExecute 0 7 100, StClient 0, StClient 0, StClient 0, StClient 0, StClient 0, StClient 0, StThunk 0]"

lemmas tg_strand_eval = TgMakeStrand_def TgStrand_Execute_def TgStrand_thunk_def TgStrand_ExecuteFirstStack_def
  TgStack_Push_alloc_def TgStack_Push_load_def TgStack_Push_cas_def TgStack_ExchangeWithAnother_def TgStack_IsEmpty_def
  TgStack_Pop_def tg_drain_tasks.simps st_client_def st_thunk_def

theorem TgStrand_serial_and_memory_safe_witness:
  "\<exists>s :: nat strand. reachable tg_strand_step (TgMakeStrand 1) s \<and> st_ran s = [7] \<and> in_task (st_thunks s ! 0) \<and>
     (\<exists>rest. st_pushed s = 7 # rest) \<and> \<not> st_fault s"
proof -
  obtain s where s: "run tg_strand_step tg_one_push (TgMakeStrand 1) = Some (s :: nat strand)"
    and p: "st_ran s = [7]" "in_task (st_thunks s ! 0)"
    by (simp add: tg_one_push_def tg_strand_eval)
  have r: "reachable tg_strand_step (TgMakeStrand 1) s" using s by (rule run_reachable)
  from TgStrand_serial_and_memory_safe [OF r] r p show ?thesis by auto
qed

section \<open>The stack with several threads\<close>

text \<open>A thread in \<open>Push\<close> or \<open>Pop\<close>. The last point of \<open>Pop\<close> carries, for the proof only, the value that was at the head when the
  compare-exchange succeeded.\<close>

datatype 'a tg_pc =
    TgOutside
  | TgPushLoad addr
  | TgPushCas addr
  | TgPopLoad                         \<comment> \<open>before \<open>node_to_delete = head_\<close>\<close>
  | TgPopNext addr                    \<comment> \<open>before the load of \<open>node_to_delete.ptr->next\<close>\<close>
  | TgPopCas addr "addr option"       \<comment> \<open>before the compare-exchange\<close>
  | TgPopDelete addr 'a               \<comment> \<open>before the move of the data and \<open>delete\<close>\<close>

datatype 'a stack_op = OpPush 'a | OpPop 'a | OpPopEmpty

text \<open>\<open>tg_log\<close> is the history of successful compare-exchanges (and of loads of a null head by \<open>Pop\<close>), \<open>tg_results\<close>
  the values that calls of \<open>Pop\<close> have returned.\<close>

record 'a tagged_stack =
  tg_heap :: "'a node_heap"
  tg_head :: "addr option"
  tg_pcs :: "'a tg_pc list"
  tg_fault :: bool
  tg_log :: "'a stack_op list"
  tg_results :: "'a option list"

definition tg_goto :: "tid \<Rightarrow> 'a tg_pc \<Rightarrow> 'a tagged_stack \<Rightarrow> 'a tagged_stack" where
  "tg_goto t p s = s\<lparr>tg_pcs := (tg_pcs s)[t := p]\<rparr>"

definition TgStack_Push :: "tid \<Rightarrow> 'a tagged_stack \<Rightarrow> 'a tagged_stack option" where
  "TgStack_Push t s =
     (case tg_pcs s ! t of
        TgPushLoad a \<Rightarrow>
          (case TgStack_Push_load (Some a) (tg_head s) (tg_heap s) of
             None \<Rightarrow> Some (s\<lparr>tg_fault := True\<rparr>)
           | Some h \<Rightarrow> Some (tg_goto t (TgPushCas a) (s\<lparr>tg_heap := h\<rparr>)))
      | TgPushCas a \<Rightarrow>
          (case TgStack_Push_cas (Some a) (tg_head s) (tg_heap s) of
             None \<Rightarrow> Some (s\<lparr>tg_fault := True\<rparr>)
           | Some (True, head, h) \<Rightarrow>
               Some (tg_goto t TgOutside (s\<lparr>tg_head := head, tg_heap := h, tg_log := tg_log s @ [OpPush (node_data (the (h a)))]\<rparr>))
           | Some (False, head, h) \<Rightarrow> Some (tg_goto t (TgPushLoad a) (s\<lparr>tg_heap := h\<rparr>)))
      | _ \<Rightarrow> None)"

text \<open>A failed compare-exchange is followed by \<open>AddToTag(node_to_delete)\<close> and another load of the head.\<close>

definition TgStack_Pop_shared :: "tid \<Rightarrow> 'a tagged_stack \<Rightarrow> 'a tagged_stack option" where
  "TgStack_Pop_shared t s =
     (case tg_pcs s ! t of
        TgPopLoad \<Rightarrow>
          Some (case tg_head s of
                  None \<Rightarrow> tg_goto t TgOutside (s\<lparr>tg_log := tg_log s @ [OpPopEmpty], tg_results := tg_results s @ [None]\<rparr>)
                | Some x \<Rightarrow> tg_goto t (TgPopNext x) s)
      | TgPopNext x \<Rightarrow>
          Some (case tg_heap s x of
                  None \<Rightarrow> s\<lparr>tg_fault := True\<rparr>
                | Some n \<Rightarrow> tg_goto t (TgPopCas x (node_next n)) s)
      | TgPopCas x nx \<Rightarrow>
          Some (if tg_head s = Some x
                then tg_goto t (TgPopDelete x (node_data (the (tg_heap s x))))
                       (s\<lparr>tg_head := nx, tg_log := tg_log s @ [OpPop (node_data (the (tg_heap s x)))]\<rparr>)
                else tg_goto t TgPopLoad s)
      | TgPopDelete x _ \<Rightarrow>
          Some (case tg_heap s x of
                  None \<Rightarrow> s\<lparr>tg_fault := True\<rparr>
                | Some n \<Rightarrow>
                    tg_goto t TgOutside (s\<lparr>tg_heap := (tg_heap s)(x := None), tg_results := tg_results s @ [Some (node_data n)]\<rparr>))
      | _ \<Rightarrow> None)"

datatype 'a tg_label =
    TgCallPush tid 'a addr     \<comment> \<open>with the address the allocator returns\<close>
  | TgCallPop tid
  | TgGo tid

fun tg_step :: "'a tg_label \<Rightarrow> 'a tagged_stack \<Rightarrow> 'a tagged_stack option" where
  "tg_step (TgCallPush t x a) s =
     (if t < length (tg_pcs s) \<and> tg_pcs s ! t = TgOutside then
        do { h \<leftarrow> TgStack_Push_alloc a x (tg_heap s); Some (tg_goto t (TgPushLoad a) (s\<lparr>tg_heap := h\<rparr>)) }
      else None)"
| "tg_step (TgCallPop t) s =
     (if t < length (tg_pcs s) \<and> tg_pcs s ! t = TgOutside then Some (tg_goto t TgPopLoad s) else None)"
| "tg_step (TgGo t) s =
     (if t < length (tg_pcs s)
      then case tg_pcs s ! t of
             TgOutside \<Rightarrow> None
           | TgPushLoad a \<Rightarrow> TgStack_Push t s
           | TgPushCas a \<Rightarrow> TgStack_Push t s
           | _ \<Rightarrow> TgStack_Pop_shared t s
      else None)"

definition tg_start :: "nat \<Rightarrow> 'a tagged_stack" where
  "tg_start n = \<lparr>tg_heap = (\<lambda>_. None), tg_head = None, tg_pcs = replicate n TgOutside, tg_fault = False, tg_log = [], tg_results = []\<rparr>"

text \<open>Only thread 0 pops.\<close>

definition tg_single_step :: "'a tg_label \<Rightarrow> 'a tagged_stack \<Rightarrow> 'a tagged_stack option" where
  "tg_single_step l s = (case l of TgCallPop t \<Rightarrow> (if t = 0 then tg_step l s else None) | _ \<Rightarrow> tg_step l s)"

subsection \<open>One popper: the stack refines the pool of nodes\<close>

text \<open>The free addresses, and the node that the popper is about to delete, are the nodes that the clients of
  theory \<open>Node_Pool\<close> own.\<close>

fun tg_abs_pc :: "'a tg_pc \<Rightarrow> pool_pc" where
  "tg_abs_pc TgOutside = LpOutside"
| "tg_abs_pc (TgPushLoad a) = LpPushLoad a"
| "tg_abs_pc (TgPushCas a) = LpPushCas a"
| "tg_abs_pc TgPopLoad = LpPopLoad"
| "tg_abs_pc (TgPopNext x) = LpPopNext x"
| "tg_abs_pc (TgPopCas x nx) = LpPopCas x nx"
| "tg_abs_pc (TgPopDelete x v) = LpOutside"

fun own_node :: "'a tg_pc \<Rightarrow> addr option" where
  "own_node (TgPushLoad a) = Some a"
| "own_node (TgPushCas a) = Some a"
| "own_node (TgPopDelete x v) = Some x"
| "own_node _ = None"

fun del_node :: "'a tg_pc \<Rightarrow> addr set" where
  "del_node (TgPopDelete x v) = {x}"
| "del_node _ = {}"

fun deleting :: "'a tg_pc list \<Rightarrow> addr set" where
  "deleting [] = {}"
| "deleting (p # ps) = del_node p"

lemma deleting_update:
  "t < length ps \<Longrightarrow> deleting (ps[t := p]) = (if t = 0 then del_node p else deleting ps)"
  by (cases ps; cases t) simp_all

lemma deleting_first: "ps \<noteq> [] \<Longrightarrow> deleting ps = del_node (ps ! 0)"
  by (cases ps) simp_all

fun tg_local :: "'a node_heap \<Rightarrow> (node \<Rightarrow> node option) \<Rightarrow> tid \<Rightarrow> 'a tg_pc \<Rightarrow> bool" where
  "tg_local h nx t (TgPushLoad a) \<longleftrightarrow> h a \<noteq> None"
| "tg_local h nx t (TgPushCas a) \<longleftrightarrow> (\<exists>n. h a = Some n \<and> nx a = node_next n)"
| "tg_local h nx t (TgPopDelete x v) \<longleftrightarrow> t = 0 \<and> (\<exists>n. h x = Some n \<and> node_data n = v)"
| "tg_local h nx t _ \<longleftrightarrow> True"

text \<open>The specification: a list of operations replayed on a stack.\<close>

fun replay :: "'a stack_op list \<Rightarrow> 'a list \<Rightarrow> 'a list option" where
  "replay [] ts = Some ts"
| "replay (OpPush x # ops) ts = replay ops (x # ts)"
| "replay (OpPop x # ops) ts = (if ts \<noteq> [] \<and> hd ts = x then replay ops (tl ts) else None)"
| "replay (OpPopEmpty # ops) ts = (if ts = [] then replay ops ts else None)"

lemma replay_append:
  "replay (xs @ ys) ts = (case replay xs ts of None \<Rightarrow> None | Some us \<Rightarrow> replay ys us)"
  by (induction xs ts rule: replay.induct) auto

fun op_results :: "'a stack_op list \<Rightarrow> 'a option list" where
  "op_results [] = []"
| "op_results (OpPush x # ops) = op_results ops"
| "op_results (OpPop x # ops) = Some x # op_results ops"
| "op_results (OpPopEmpty # ops) = None # op_results ops"

lemma op_results_append: "op_results (xs @ ys) = op_results xs @ op_results ys"
  by (induction xs rule: op_results.induct) auto

fun pending_pc :: "'a tg_pc \<Rightarrow> 'a option list" where
  "pending_pc (TgPopDelete x v) = [Some v]"
| "pending_pc _ = []"

fun pending :: "'a tg_pc list \<Rightarrow> 'a option list" where
  "pending [] = []"
| "pending (p # ps) = pending_pc p"

lemma pending_update:
  "t < length ps \<Longrightarrow> pending (ps[t := p]) = (if t = 0 then pending_pc p else pending ps)"
  by (cases ps; cases t) simp_all

lemma pending_first: "ps \<noteq> [] \<Longrightarrow> pending ps = pending_pc (ps ! 0)"
  by (cases ps) simp_all

definition tg_rel :: "node list \<Rightarrow> 'a tagged_stack \<Rightarrow> node_pool \<Rightarrow> bool" where
  "tg_rel xs s a \<longleftrightarrow>
     \<not> tg_fault s \<and> lp_pcs a = map tg_abs_pc (tg_pcs s) \<and> lp_head a = tg_head s \<and>
     lp_owned a = {x. tg_heap s x = None} \<union> deleting (tg_pcs s) \<and> lp_at UNIV xs a \<and>
     (\<forall>t < length (tg_pcs s). tg_local (tg_heap s) (lp_next a) t (tg_pcs s ! t)) \<and>
     (\<forall>x \<in> set xs. \<exists>n. tg_heap s x = Some n \<and> lp_next a x = node_next n) \<and>
     replay (tg_log s) [] = Some (map (\<lambda>x. node_data (the (tg_heap s x))) xs) \<and>
     op_results (tg_log s) = tg_results s @ pending (tg_pcs s)"

definition tg_related :: "'a tagged_stack \<Rightarrow> node_pool \<Rightarrow> bool" where
  "tg_related s a \<longleftrightarrow> (\<exists>xs. tg_rel xs s a)"

fun tg_schedule :: "'a tagged_stack \<Rightarrow> 'a tg_label \<Rightarrow> lp_label list" where
  "tg_schedule s (TgCallPush t x a) = [CallPush t a]"
| "tg_schedule s (TgCallPop t) = [CallPop t]"
| "tg_schedule s (TgGo t) = (case tg_pcs s ! t of TgPopDelete x v \<Rightarrow> [] | _ \<Rightarrow> [LpGo t])"

lemma tg_rel_facts:
  assumes "tg_rel xs s a"
  shows "\<not> tg_fault s" and "lp_pcs a = map tg_abs_pc (tg_pcs s)" and "lp_head a = tg_head s"
    and "lp_owned a = {x. tg_heap s x = None} \<union> deleting (tg_pcs s)" and "lp_at UNIV xs a"
    and "t < length (tg_pcs s) \<Longrightarrow> tg_local (tg_heap s) (lp_next a) t (tg_pcs s ! t)"
    and "x \<in> set xs \<Longrightarrow> \<exists>n. tg_heap s x = Some n \<and> lp_next a x = node_next n"
    and "replay (tg_log s) [] = Some (map (\<lambda>x. node_data (the (tg_heap s x))) xs)"
    and "op_results (tg_log s) = tg_results s @ pending (tg_pcs s)"
  using assms by (simp_all add: tg_rel_def)

text \<open>The node a thread works on belongs to it alone and is not in the list.\<close>

lemma tg_own_node:
  assumes rel: "tg_rel xs s a" and u: "u < length (tg_pcs s)" and x: "own_node (tg_pcs s ! u) = Some x"
  shows "tg_heap s x \<noteq> None" and "x \<notin> set xs"
    and "t < length (tg_pcs s) \<Longrightarrow> t \<noteq> u \<Longrightarrow> own_node (tg_pcs s ! t) \<noteq> Some x"
proof -
  note f = tg_rel_facts [OF rel]
  have up: "u < length (lp_pcs a)" "lp_pcs a ! u = tg_abs_pc (tg_pcs s ! u)" using u f(2) by simp_all
  have mine: "pushing (lp_pcs a ! i) = Some y \<or> i = 0 \<and> y \<in> lp_owned a"
    if "i < length (tg_pcs s)" "own_node (tg_pcs s ! i) = Some y" for i y
    using that f(2,4) f(6) [OF that(1)] deleting_first [of "tg_pcs s"]
    by (cases "tg_pcs s ! i") (auto simp del: deleting.simps)
  show "tg_heap s x \<noteq> None" using f(6) [OF u] x by (cases "tg_pcs s ! u") auto
  show "x \<notin> set xs"
    using mine [OF u x] lp_at_pushing(1) [OF f(5) up(1)] lp_at_apart [OF f(5)] by auto
  show "own_node (tg_pcs s ! t) \<noteq> Some x" if t: "t < length (tg_pcs s)" "t \<noteq> u"
  proof
    assume x': "own_node (tg_pcs s ! t) = Some x"
    have tp: "t < length (lp_pcs a)" using t(1) f(2) by simp
    from mine [OF u x] mine [OF t(1) x'] show False
    proof (elim disjE conjE)
      assume "pushing (lp_pcs a ! u) = Some x" "pushing (lp_pcs a ! t) = Some x"
      then show False using f(5) up(1) tp t(2) unfolding lp_at_def push_exclusive_def by blast
    qed (use lp_at_pushing(2) [OF f(5) up(1)] lp_at_pushing(2) [OF f(5) tp] t(2) in auto)
  qed
qed

lemma tg_local_cong:
  "(\<And>x. own_node p = Some x \<Longrightarrow> h' x = h x \<and> nx' x = nx x) \<Longrightarrow> tg_local h nx t p \<Longrightarrow> tg_local h' nx' t p"
  by (cases p) auto

text \<open>The rule by which every step is proved: thread \<open>t\<close> goes to \<open>p\<close> and leaves the nodes of the other threads alone.\<close>

lemma tg_rel_goto:
  assumes rel: "tg_rel xs s a" and t: "t < length (tg_pcs s)"
    and s': "tg_pcs s' = (tg_pcs s)[t := p]" "\<not> tg_fault s'"
    and a': "lp_pcs a' = (lp_pcs a)[t := tg_abs_pc p]" "lp_head a' = tg_head s'" "lp_at UNIV xs' a'"
    and owned: "lp_owned a' = {x. tg_heap s' x = None} \<union> (if t = 0 then del_node p else deleting (tg_pcs s))"
    and self: "tg_local (tg_heap s') (lp_next a') t p"
    and others: "\<And>u x. u < length (tg_pcs s) \<Longrightarrow> u \<noteq> t \<Longrightarrow> own_node (tg_pcs s ! u) = Some x \<Longrightarrow>
      tg_heap s' x = tg_heap s x \<and> lp_next a' x = lp_next a x"
    and nodes: "\<And>x. x \<in> set xs' \<Longrightarrow> \<exists>n. tg_heap s' x = Some n \<and> lp_next a' x = node_next n"
    and hist: "replay (tg_log s') [] = Some (map (\<lambda>x. node_data (the (tg_heap s' x))) xs')"
      "op_results (tg_log s') = tg_results s' @ (if t = 0 then pending_pc p else pending (tg_pcs s))"
  shows "tg_rel xs' s' a'"
proof -
  note f = tg_rel_facts [OF rel]
  have "tg_local (tg_heap s') (lp_next a') u (tg_pcs s' ! u)" if u: "u < length (tg_pcs s')" for u
  proof (cases "u = t")
    case True
    with self t s' show ?thesis by simp
  next
    case False
    with u s' have "tg_pcs s' ! u = tg_pcs s ! u" "u < length (tg_pcs s)" by simp_all
    with tg_local_cong [OF others f(6)] False show ?thesis by simp
  qed
  with f(2) s' a' owned nodes hist t show ?thesis
    by (simp add: tg_rel_def map_update deleting_update pending_update)
qed

text \<open>The same for a step into and out of points at which no node is being deleted.\<close>

lemma tg_quiet:
  assumes "t < length ps" and "del_node (ps ! t) = {}"
  shows "(if t = 0 then {} else deleting ps) = deleting ps" and "(if t = 0 then [] else pending ps) = pending ps"
proof -
  have "ps \<noteq> []" and "t = 0 \<Longrightarrow> pending_pc (ps ! t) = []" using assms by (auto, cases "ps ! t") auto
  with assms show "(if t = 0 then {} else deleting ps) = deleting ps" and "(if t = 0 then [] else pending ps) = pending ps"
    by (auto simp: deleting_first pending_first)
qed

lemma tg_rel_quiet:
  assumes rel: "tg_rel xs s a" and t: "t < length (tg_pcs s)"
    and s': "tg_pcs s' = (tg_pcs s)[t := p]" "\<not> tg_fault s'"
    and a': "lp_pcs a' = (lp_pcs a)[t := tg_abs_pc p]" "lp_head a' = tg_head s'" "lp_at UNIV xs' a'"
    and quiet: "del_node (tg_pcs s ! t) = {}" "del_node p = {}"
    and owned: "lp_owned a' = {x. tg_heap s' x = None} \<union> deleting (tg_pcs s)"
    and self: "tg_local (tg_heap s') (lp_next a') t p"
    and others: "\<And>u x. u < length (tg_pcs s) \<Longrightarrow> u \<noteq> t \<Longrightarrow> own_node (tg_pcs s ! u) = Some x \<Longrightarrow>
      tg_heap s' x = tg_heap s x \<and> lp_next a' x = lp_next a x"
    and nodes: "\<And>x. x \<in> set xs' \<Longrightarrow> \<exists>n. tg_heap s' x = Some n \<and> lp_next a' x = node_next n"
    and hist: "replay (tg_log s') [] = Some (map (\<lambda>x. node_data (the (tg_heap s' x))) xs')"
      "op_results (tg_log s') = tg_results s' @ pending (tg_pcs s)"
  shows "tg_rel xs' s' a'"
proof -
  have "pending_pc p = []" using quiet(2) by (cases p) auto
  then show ?thesis
    by (intro tg_rel_goto [OF rel t s' a' _ self others nodes hist(1)])
      (use owned hist(2) quiet(2) tg_quiet [OF t quiet(1)] in \<open>auto split: if_splits\<close>)
qed

lemma linked_unique: "linked nx p xs \<Longrightarrow> linked nx p ys \<Longrightarrow> xs = ys"
proof (induction xs arbitrary: p ys)
  case Nil
  then show ?case by (cases ys) auto
next
  case (Cons x xs)
  then show ?case by (cases ys) auto
qed

lemma lp_step_at:
  assumes "lp_at nodes xs a" and "lp_single_step l a = Some a'" and "linked (lp_next a') (lp_head a') ys"
  shows "lp_at nodes ys a'"
  using lp_at_step [OF assms(1,2)] linked_unique [OF assms(3)] lp_at_linked by blast

lemma tg_deleting:
  assumes rel: "tg_rel xs s a" and x: "x \<in> deleting (tg_pcs s)"
  shows "tg_pcs s \<noteq> []" and "own_node (tg_pcs s ! 0) = Some x" and "tg_heap s x \<noteq> None"
proof -
  show ne: "tg_pcs s \<noteq> []" using x by auto
  with x have "x \<in> del_node (tg_pcs s ! 0)" by (simp add: deleting_first)
  then show o: "own_node (tg_pcs s ! 0) = Some x" by (cases "tg_pcs s ! 0") auto
  show "tg_heap s x \<noteq> None" using tg_own_node(1) [OF rel _ o] ne by simp
qed

definition tg_sim :: "'a tagged_stack \<Rightarrow> node_pool \<Rightarrow> lp_label \<Rightarrow> 'a tagged_stack \<Rightarrow> bool" where
  "tg_sim s a l s' \<longleftrightarrow> (\<exists>a'. lp_single_step l a = Some a' \<and> tg_related s' a')"

lemma tg_simI: "lp_single_step l a = Some a' \<Longrightarrow> tg_rel xs s' a' \<Longrightarrow> tg_sim s a l s'"
  by (auto simp: tg_sim_def tg_related_def)

lemma tg_sim_CallPush:
  assumes rel: "tg_rel xs s a" and step: "tg_step (TgCallPush t v b) s = Some s'"
  shows "tg_sim s a (CallPush t b) s'"
proof -
  note f = tg_rel_facts [OF rel]
  from step have t: "t < length (tg_pcs s)" "tg_pcs s ! t = TgOutside" and b: "tg_heap s b = None"
    and s': "s' = tg_goto t (TgPushLoad b) (s\<lparr>tg_heap := (tg_heap s)(b \<mapsto> \<lparr>node_data = v, node_next = None\<rparr>)\<rparr>)"
    by (auto simp: TgStack_Push_alloc_def split: if_splits)
  define a' where "a' = lp_goto t (LpPushLoad b) (a\<lparr>lp_owned := lp_owned a - {b}\<rparr>)"
  have lp: "lp_single_step (CallPush t b) a = Some a'"
    using t b f(2,4) by (simp add: lp_single_step_def a'_def)
  have bd: "b \<notin> deleting (tg_pcs s)" using tg_deleting(3) [OF rel, of b] b by blast
  have bx: "b \<notin> set xs" using f(7) b by force
  have at: "lp_at UNIV xs a'"
    by (rule lp_step_at [OF f(5) lp]) (use lp_at_linked [OF f(5)] in \<open>simp add: a'_def lp_goto_def\<close>)
  have "tg_rel xs s' a'"
  proof (rule tg_rel_quiet [OF rel t(1), where p = "TgPushLoad b"])
    show "tg_heap s' x = tg_heap s x \<and> lp_next a' x = lp_next a x"
      if "u < length (tg_pcs s)" "u \<noteq> t" "own_node (tg_pcs s ! u) = Some x" for u x
      using tg_own_node(1) [OF rel that(1,3)] b by (auto simp: s' tg_goto_def a'_def lp_goto_def)
    show "\<exists>n. tg_heap s' x = Some n \<and> lp_next a' x = node_next n" if "x \<in> set xs" for x
      using f(7) [OF that] that bx by (auto simp: s' tg_goto_def a'_def lp_goto_def)
    show "replay (tg_log s') [] = Some (map (\<lambda>x. node_data (the (tg_heap s' x))) xs)"
      using f(8) bx by (auto simp: s' tg_goto_def)
    show "lp_owned a' = {x. tg_heap s' x = None} \<union> deleting (tg_pcs s)"
      using f(4) bd by (auto simp: a'_def lp_goto_def s' tg_goto_def)
  qed (use f t at in \<open>simp_all add: s' tg_goto_def a'_def lp_goto_def\<close>)
  with lp show ?thesis by (rule tg_simI)
qed

text \<open>A step that changes no node and not the head.\<close>

lemma tg_sim_move:
  assumes rel: "tg_rel xs s a" and t: "t < length (tg_pcs s)" and s': "s' = tg_goto t p s"
    and quiet: "del_node (tg_pcs s ! t) = {}" "del_node p = {}" "own_node p = None"
    and lp: "lp_single_step l a = Some (lp_goto t (tg_abs_pc p) a)"
  shows "tg_sim s a l s'"
proof -
  note f = tg_rel_facts [OF rel]
  have at: "lp_at UNIV xs (lp_goto t (tg_abs_pc p) a)"
    by (rule lp_step_at [OF f(5) lp]) (use lp_at_linked [OF f(5)] in \<open>simp add: lp_goto_def\<close>)
  have "tg_rel xs s' (lp_goto t (tg_abs_pc p) a)"
    by (rule tg_rel_quiet [OF rel t, where p = p])
      (use f at quiet in \<open>cases p; simp_all add: s' tg_goto_def lp_goto_def\<close>)+
  with lp show ?thesis by (rule tg_simI)
qed

text \<open>Both the load and a failed compare-exchange of \<open>Push\<close> write the \<open>next\<close> field of the thread's own node.\<close>

lemma tg_sim_next:
  assumes rel: "tg_rel xs s a" and t: "t < length (tg_pcs s)"
    and own: "own_node (tg_pcs s ! t) = Some b" "del_node (tg_pcs s ! t) = {}" and n: "tg_heap s b = Some n"
    and p: "p = TgPushLoad b \<or> p = TgPushCas b"
    and s': "s' = tg_goto t p (s\<lparr>tg_heap := (tg_heap s)(b \<mapsto> n\<lparr>node_next := tg_head s\<rparr>)\<rparr>)"
    and lp: "lp_single_step l a = Some (lp_goto t (tg_abs_pc p) (a\<lparr>lp_next := (lp_next a)(b := lp_head a)\<rparr>))"
  shows "tg_sim s a l s'"
proof -
  note f = tg_rel_facts [OF rel] and b = tg_own_node [OF rel t own(1)]
  define a' where "a' = lp_goto t (tg_abs_pc p) (a\<lparr>lp_next := (lp_next a)(b := lp_head a)\<rparr>)"
  have at: "lp_at UNIV xs a'"
    by (rule lp_step_at [OF f(5) lp [folded a'_def]]) (use lp_at_linked [OF f(5)] b(2) in \<open>simp add: a'_def lp_goto_def linked_upd\<close>)
  have "tg_rel xs s' a'"
  proof (rule tg_rel_quiet [OF rel t, where p = p])
    show "tg_heap s' x = tg_heap s x \<and> lp_next a' x = lp_next a x"
      if "u < length (tg_pcs s)" "u \<noteq> t" "own_node (tg_pcs s ! u) = Some x" for u x
      using b(3) [OF that(1,2)] that(3) by (auto simp: s' tg_goto_def a'_def lp_goto_def)
    show "\<exists>n. tg_heap s' x = Some n \<and> lp_next a' x = node_next n" if "x \<in> set xs" for x
      using f(7) [OF that] that b(2) by (auto simp: s' tg_goto_def a'_def lp_goto_def)
    show "replay (tg_log s') [] = Some (map (\<lambda>x. node_data (the (tg_heap s' x))) xs)"
      using f(8) b(2) by (auto simp: s' tg_goto_def)
    show "lp_owned a' = {x. tg_heap s' x = None} \<union> deleting (tg_pcs s)"
      using f(4) n by (auto simp: a'_def lp_goto_def s' tg_goto_def)
    show "tg_local (tg_heap s') (lp_next a') t p"
      using p f(3) by (auto simp: s' tg_goto_def a'_def lp_goto_def)
  qed (use f p own at in \<open>auto simp: s' tg_goto_def a'_def lp_goto_def\<close>)
  with lp show ?thesis by (auto simp: a'_def intro: tg_simI)
qed

lemma tg_sim_Push:
  assumes rel: "tg_rel xs s a" and t: "t < length (tg_pcs s)" and step: "TgStack_Push t s = Some s'"
  shows "tg_sim s a (LpGo t) s'"
proof -
  note f = tg_rel_facts [OF rel]
  have tp: "t < length (lp_pcs a)" "lp_pcs a ! t = tg_abs_pc (tg_pcs s ! t)" using t f(2) by simp_all
  consider (load) b where "tg_pcs s ! t = TgPushLoad b" | (cas) b where "tg_pcs s ! t = TgPushCas b"
    using step by (auto simp: TgStack_Push_def split: tg_pc.splits)
  then show ?thesis
  proof cases
    case load
    have own: "own_node (tg_pcs s ! t) = Some b" by (simp add: load)
    note b = tg_own_node [OF rel t own]
    from b(1) obtain n where n: "tg_heap s b = Some n" by auto
    have s': "s' = tg_goto t (TgPushCas b) (s\<lparr>tg_heap := (tg_heap s)(b \<mapsto> n\<lparr>node_next := tg_head s\<rparr>)\<rparr>)"
      using step n by (simp add: TgStack_Push_def load TgStack_Push_load_def)
    show ?thesis
      by (rule tg_sim_next [OF rel t own _ n _ s'])
        (use tp load in \<open>simp_all add: lp_single_step_def LFPointersPool_Push_def\<close>)
  next
    case cas
    have own: "own_node (tg_pcs s ! t) = Some b" by (simp add: cas)
    note b = tg_own_node [OF rel t own]
    from f(6) [OF t] cas obtain n where n: "tg_heap s b = Some n" "lp_next a b = node_next n" by auto
    show ?thesis
    proof (cases "node_next n = tg_head s")
      case True
      have s': "s' = tg_goto t TgOutside (s\<lparr>tg_head := Some b, tg_log := tg_log s @ [OpPush (node_data n)]\<rparr>)"
        using step n True by (simp add: TgStack_Push_def cas TgStack_Push_cas_def)
      define a' where "a' = lp_goto t LpOutside (a\<lparr>lp_head := Some b\<rparr>)"
      have lp: "lp_single_step (LpGo t) a = Some a'"
        using tp cas True n(2) f(3) by (simp add: lp_single_step_def LFPointersPool_Push_def a'_def)
      have at: "lp_at UNIV (b # xs) a'"
        by (rule lp_step_at [OF f(5) lp]) (use lp_at_linked [OF f(5)] n True f(3) in \<open>simp add: a'_def lp_goto_def\<close>)
      have "tg_rel (b # xs) s' a'"
      proof (rule tg_rel_quiet [OF rel t, where p = TgOutside])
        show "\<exists>n. tg_heap s' x = Some n \<and> lp_next a' x = node_next n" if "x \<in> set (b # xs)" for x
          using f(7) [of x] that n by (auto simp: s' tg_goto_def a'_def lp_goto_def)
        show "replay (tg_log s') [] = Some (map (\<lambda>x. node_data (the (tg_heap s' x))) (b # xs))"
          using f(8) n by (simp add: s' tg_goto_def replay_append)
      qed (use f cas at in \<open>simp_all add: s' tg_goto_def a'_def lp_goto_def op_results_append\<close>)
      with lp show ?thesis by (rule tg_simI)
    next
      case False
      have s': "s' = tg_goto t (TgPushLoad b) (s\<lparr>tg_heap := (tg_heap s)(b \<mapsto> n\<lparr>node_next := tg_head s\<rparr>)\<rparr>)"
        using step n False by (simp add: TgStack_Push_def cas TgStack_Push_cas_def)
      show ?thesis
        by (rule tg_sim_next [OF rel t own _ n(1) _ s'])
          (use tp cas False n(2) f(3) in \<open>auto simp: lp_single_step_def LFPointersPool_Push_def\<close>)
    qed
  qed
qed

lemma tg_sim_Pop:
  assumes rel: "tg_rel xs s a" and t: "t < length (tg_pcs s)" and step: "TgStack_Pop_shared t s = Some s'"
    and go: "\<And>x v. tg_pcs s ! t \<noteq> TgPopDelete x v"
  shows "tg_sim s a (LpGo t) s'"
proof -
  note f = tg_rel_facts [OF rel] and base = lp_at_linked [OF tg_rel_facts(5) [OF rel]]
  have tp: "t < length (lp_pcs a)" "lp_pcs a ! t = tg_abs_pc (tg_pcs s ! t)" using t f(2) by simp_all
  note here = lp_at_pop_ok [OF f(5) tp(1)]
  consider (load) "tg_pcs s ! t = TgPopLoad" | (nxt) x where "tg_pcs s ! t = TgPopNext x"
    | (cas) x y where "tg_pcs s ! t = TgPopCas x y"
    using step go by (cases "tg_pcs s ! t") (auto simp: TgStack_Pop_shared_def)
  then show ?thesis
  proof cases
    case load
    show ?thesis
    proof (cases "tg_head s")
      case (Some x)
      then show ?thesis
        by (intro tg_sim_move [OF rel t, where p = "TgPopNext x"])
          (use step tp load f(3) in \<open>simp_all add: TgStack_Pop_shared_def lp_single_step_def LFPointersPool_Pop_def\<close>)
    next
      case None
      have s': "s' = tg_goto t TgOutside (s\<lparr>tg_log := tg_log s @ [OpPopEmpty], tg_results := tg_results s @ [None]\<rparr>)"
        using step None load by (simp add: TgStack_Pop_shared_def)
      have lp: "lp_single_step (LpGo t) a = Some (lp_goto t LpOutside a)"
        using tp load None f(3) by (simp add: lp_single_step_def LFPointersPool_Pop_def)
      have at: "lp_at UNIV xs (lp_goto t LpOutside a)"
        by (rule lp_step_at [OF f(5) lp]) (use base in \<open>simp add: lp_goto_def\<close>)
      have "xs = []" using base None f(3) by (cases xs) auto
      moreover have "t = 0" using here(2) tp(2) load by simp
      then have "pending (tg_pcs s) = []" using t load pending_first [of "tg_pcs s"] by auto
      ultimately have "tg_rel xs s' (lp_goto t LpOutside a)"
        by (intro tg_rel_quiet [OF rel t, where p = TgOutside])
          (use f load at in \<open>simp_all add: s' tg_goto_def lp_goto_def replay_append op_results_append\<close>)
      with lp show ?thesis by (rule tg_simI)
    qed
  next
    case nxt
    have "x \<in> set xs" using here(1) tp(2) nxt by simp
    with f(7) obtain n where n: "tg_heap s x = Some n" "lp_next a x = node_next n" by blast
    then show ?thesis
      by (intro tg_sim_move [OF rel t, where p = "TgPopCas x (node_next n)"])
        (use step tp nxt in \<open>simp_all add: TgStack_Pop_shared_def lp_single_step_def LFPointersPool_Pop_def\<close>)
  next
    case cas
    have x: "x \<in> set xs" "lp_next a x = y" "t = 0" using here tp(2) cas by simp_all
    show ?thesis
    proof (cases "tg_head s = Some x")
      case False
      then show ?thesis
        by (intro tg_sim_move [OF rel t, where p = TgPopLoad])
          (use step tp cas f(3) in \<open>simp_all add: TgStack_Pop_shared_def lp_single_step_def LFPointersPool_Pop_def\<close>)
    next
      case True
      from f(7) [OF x(1)] obtain n where n: "tg_heap s x = Some n" by blast
      have s': "s' = tg_goto t (TgPopDelete x (node_data n)) (s\<lparr>tg_head := y, tg_log := tg_log s @ [OpPop (node_data n)]\<rparr>)"
        using step True cas n by (simp add: TgStack_Pop_shared_def)
      define a' where "a' = lp_goto t LpOutside (a\<lparr>lp_head := y, lp_owned := insert x (lp_owned a)\<rparr>)"
      have lp: "lp_single_step (LpGo t) a = Some a'"
        using tp cas True f(3) by (simp add: lp_single_step_def LFPointersPool_Pop_def a'_def)
      from base True f(3) obtain ys where ys: "xs = x # ys" "linked (lp_next a) (lp_next a x) ys"
        by (auto dest: linked_head)
      have at: "lp_at UNIV ys a'"
        by (rule lp_step_at [OF f(5) lp]) (use ys x(2) in \<open>simp add: a'_def lp_goto_def\<close>)
      have quiet: "deleting (tg_pcs s) = {}" "pending (tg_pcs s) = []"
        using t cas x(3) deleting_first [of "tg_pcs s"] pending_first [of "tg_pcs s"] by auto
      have "tg_rel ys s' a'"
      proof (rule tg_rel_goto [OF rel t, where p = "TgPopDelete x (node_data n)"])
        show "\<exists>n. tg_heap s' z = Some n \<and> lp_next a' z = node_next n" if "z \<in> set ys" for z
          using f(7) [of z] that ys(1) by (auto simp: s' tg_goto_def a'_def lp_goto_def)
        show "replay (tg_log s') [] = Some (map (\<lambda>x. node_data (the (tg_heap s' x))) ys)"
          using f(8) n ys(1) by (simp add: s' tg_goto_def replay_append)
        show "lp_owned a' = {z. tg_heap s' z = None} \<union> (if t = 0 then del_node (TgPopDelete x (node_data n)) else deleting (tg_pcs s))"
          using f(4) quiet x(3) by (auto simp: s' tg_goto_def a'_def lp_goto_def)
      qed (use f cas at x n quiet in \<open>simp_all add: s' tg_goto_def a'_def lp_goto_def op_results_append\<close>)
      with lp show ?thesis by (rule tg_simI)
    qed
  qed
qed

text \<open>The deletion of a node is no step of the abstraction: the popper owns the node since its compare-exchange.\<close>

lemma tg_sim_delete:
  assumes rel: "tg_rel xs s a" and t: "t < length (tg_pcs s)" and p: "tg_pcs s ! t = TgPopDelete x v"
    and step: "TgStack_Pop_shared t s = Some s'"
  shows "tg_rel xs s' a"
proof -
  note f = tg_rel_facts [OF rel]
  have own: "own_node (tg_pcs s ! t) = Some x" by (simp add: p)
  note b = tg_own_node [OF rel t own]
  from f(6) [OF t] p obtain n where n: "tg_heap s x = Some n" "node_data n = v" "t = 0" by auto
  have s': "s' = tg_goto t TgOutside (s\<lparr>tg_heap := (tg_heap s)(x := None), tg_results := tg_results s @ [Some v]\<rparr>)"
    using step p n by (simp add: TgStack_Pop_shared_def)
  have here: "deleting (tg_pcs s) = {x}" "pending (tg_pcs s) = [Some v]"
    using t p n(3) deleting_first [of "tg_pcs s"] pending_first [of "tg_pcs s"] by auto
  have "lp_pcs a ! t = LpOutside" using f(2) t p by simp
  then have same: "lp_pcs a = (lp_pcs a)[t := tg_abs_pc TgOutside]" by (metis list_update_id tg_abs_pc.simps(1))
  show ?thesis
  proof (rule tg_rel_goto [OF rel t, where p = TgOutside])
    show "tg_heap s' z = tg_heap s z \<and> lp_next a z = lp_next a z"
      if "u < length (tg_pcs s)" "u \<noteq> t" "own_node (tg_pcs s ! u) = Some z" for u z
      using b(3) [OF that(1,2)] that(3) by (auto simp: s' tg_goto_def)
    show "\<exists>n. tg_heap s' z = Some n \<and> lp_next a z = node_next n" if "z \<in> set xs" for z
      using f(7) [OF that] that b(2) by (auto simp: s' tg_goto_def)
    show "replay (tg_log s') [] = Some (map (\<lambda>x. node_data (the (tg_heap s' x))) xs)"
      using f(8) b(2) by (auto simp: s' tg_goto_def)
    show "lp_owned a = {z. tg_heap s' z = None} \<union> (if t = 0 then del_node TgOutside else deleting (tg_pcs s))"
      using f(4) here n(3) by (auto simp: s' tg_goto_def)
    show "lp_pcs a = (lp_pcs a)[t := tg_abs_pc TgOutside]" by (rule same)
  qed (use f here n(3) in \<open>simp_all add: s' tg_goto_def\<close>)
qed

lemma tg_related_step:
  assumes rel: "tg_related s a" and step: "tg_single_step l s = Some s'"
  shows "\<exists>a'. run lp_single_step (tg_schedule s l) a = Some a' \<and> tg_related s' a'"
proof -
  from rel obtain xs where rel: "tg_rel xs s a" by (auto simp: tg_related_def)
  have go: "\<exists>a'. run lp_single_step [m] a = Some a' \<and> tg_related s' a'" if "tg_sim s a m s'" for m
    using that by (auto simp: tg_sim_def)
  show ?thesis
  proof (cases l)
    case (TgCallPush t v b)
    with step have "tg_step (TgCallPush t v b) s = Some s'" by (simp add: tg_single_step_def)
    with go tg_sim_CallPush [OF rel] TgCallPush show ?thesis by simp
  next
    case (TgCallPop t)
    with step have t: "t < length (tg_pcs s)" "tg_pcs s ! t = TgOutside" "t = 0" and s': "s' = tg_goto t TgPopLoad s"
      by (auto simp: tg_single_step_def split: if_splits)
    have "tg_sim s a (CallPop t) s'"
      by (rule tg_sim_move [OF rel t(1) s']) (use t tg_rel_facts(2) [OF rel] in \<open>simp_all add: lp_single_step_def\<close>)
    with go TgCallPop show ?thesis by simp
  next
    case (TgGo t)
    with step have t: "t < length (tg_pcs s)" by (auto simp: tg_single_step_def split: if_splits)
    show ?thesis
    proof (cases "\<exists>x v. tg_pcs s ! t = TgPopDelete x v")
      case True
      then obtain x v where p: "tg_pcs s ! t = TgPopDelete x v" by blast
      with step TgGo t have "TgStack_Pop_shared t s = Some s'" by (simp add: tg_single_step_def)
      from tg_sim_delete [OF rel t p this] show ?thesis using TgGo p by (auto simp: tg_related_def)
    next
      case False
      then have "tg_schedule s l = [LpGo t]" using TgGo by (cases "tg_pcs s ! t") auto
      moreover have "TgStack_Push t s = Some s' \<or> TgStack_Pop_shared t s = Some s'"
        using step TgGo t by (cases "tg_pcs s ! t") (simp_all add: tg_single_step_def)
      then have "tg_sim s a (LpGo t) s'" using tg_sim_Push [OF rel t] tg_sim_Pop [OF rel t] False by blast
      ultimately show ?thesis using go by simp
    qed
  qed
qed

lemma quiet_start [simp]: "deleting (replicate n TgOutside) = {}" "pending (replicate n TgOutside) = []"
  by (cases n; simp)+

lemma tg_related_start: "tg_related (tg_start n) (lp_start n UNIV)"
proof -
  have "lp_at UNIV [] (lp_start n UNIV)" by (auto simp: lp_at_def lp_start_def pushed_def push_exclusive_def)
  then have "tg_rel [] (tg_start n) (lp_start n UNIV)" by (simp add: tg_rel_def tg_start_def lp_start_def)
  then show ?thesis by (auto simp: tg_related_def)
qed

interpretation tgs: stuttering_refinement tg_single_step "tg_start n" lp_single_step "lp_start n UNIV" tg_related tg_schedule
  by unfold_locales (fact tg_related_start, fact tg_related_step)

lemma linked_chain:
  "linked nx p xs \<Longrightarrow> distinct xs \<Longrightarrow> (\<And>x. x \<in> set xs \<Longrightarrow> \<exists>n. h x = Some n \<and> nx x = node_next n) \<Longrightarrow>
   chain h p xs (map (\<lambda>x. node_data (the (h x))) xs)"
proof (induction xs arbitrary: p)
  case (Cons x xs)
  from Cons.prems(3) [of x] obtain n where n: "h x = Some n" "nx x = node_next n" by auto
  with Cons show ?case by (cases n) auto
qed simp

text \<open>C39: With one popping thread and any number of pushing threads the lock-free stack of the futures is memory safe and linearizable: no
  step dereferences a null or deleted node, although \<open>Pop\<close> deletes nodes and the allocator may return their addresses again; the
  successful compare-exchanges, in their order, are a run of a sequential stack, whose contents the heap holds as a well-formed list
  that starts at the head; and the calls of \<open>Pop\<close> have returned the results of that run, up to the one that is about to delete its
  node.\<close>

theorem LockFreeStack_single_popper:
  assumes "reachable tg_single_step (tg_start n) s"
  shows "\<not> tg_fault s \<and>
    (\<exists>xs ts. replay (tg_log s) [] = Some ts \<and> chain (tg_heap s) (tg_head s) xs ts \<and> distinct xs) \<and>
    op_results (tg_log s) = tg_results s @ pending (tg_pcs s)"
proof -
  from tgs.refines [OF assms] obtain a xs where rel: "tg_rel xs s a" by (auto simp: tg_related_def)
  note f = tg_rel_facts [OF rel]
  have "linked (lp_next a) (tg_head s) xs" "distinct xs" using lp_at_linked [OF f(5)] lp_at_distinct [OF f(5)] f(3) by simp_all
  with linked_chain [OF this] f(1,7,8,9) show ?thesis by blast
qed

definition tg_one_popper :: "nat tg_label list" where
  "tg_one_popper = [TgCallPush 1 7 100, TgGo 1, TgGo 1, TgCallPop 0, TgGo 0, TgGo 0, TgGo 0, TgGo 0, TgCallPush 1 8 100, TgGo 1, TgGo 1]"

lemmas tg_eval = tg_start_def replicate_two TgStack_Push_alloc_def TgStack_Push_def TgStack_Push_load_def
  TgStack_Push_cas_def TgStack_Pop_shared_def tg_goto_def

theorem LockFreeStack_single_popper_witness:
  "\<exists>s. run tg_single_step tg_one_popper (tg_start 2) = Some s \<and> tg_results s = [Some 7] \<and> \<not> tg_fault s \<and>
    (\<exists>xs. chain (tg_heap s) (tg_head s) xs [8])"
proof -
  obtain s where s: "run tg_single_step tg_one_popper (tg_start 2) = Some s"
    and p: "tg_results s = [Some 7]" "replay (tg_log s) [] = Some [8]"
    by (simp add: tg_one_popper_def tg_single_step_def tg_eval)
  from LockFreeStack_single_popper [OF run_reachable [OF s]] s p show ?thesis by auto
qed

subsection \<open>Two poppers\<close>

definition tg_race :: "nat tg_label list" where
  "tg_race = [TgCallPush 0 7 100, TgGo 0, TgGo 0, TgCallPop 1, TgGo 1, TgCallPop 0, TgGo 0, TgGo 0, TgGo 0, TgGo 0, TgGo 1]"

text \<open>
  With two popping threads \<open>Pop\<close> reads freed memory: one thread has loaded the head and is about to load its \<open>next\<close>, the other pops
  and deletes the node.
\<close>

theorem TgStack_Pop_use_after_free:
  "\<exists>s. run tg_step tg_race (tg_start 2) = Some s \<and> tg_fault s \<and> tg_results s = [Some 7]"
  by (simp add: tg_race_def tg_eval)

end
