(* ===== verification/Pool_Handover.thy ===== *)
theory Pool_Handover
  imports Thread_Pool
begin

text \<open>
  Tasks that another component hands to the thread pool: how often the pool has been given a task, and that the pool itself never
  hands one over. Shared by the compositions of the pool with a strand and with futures, whose tasks are named by numbers.
\<close>

text \<open>Steps of the pool that are not caused by what is composed with the pool.\<close>

fun pool_own :: "nat pool_label \<Rightarrow> bool" where
  "pool_own (ClientExecutes c k) = False"
| "pool_own (TaskExecutes i k) = False"
| "pool_own (TaskEnds i r) = False"
| "pool_own _ = True"

fun pends :: "nat \<Rightarrow> nat worker_pc \<Rightarrow> bool" where
  "pends k (Running t e) \<longleftrightarrow> e = BeforePut k"
| "pends k _ \<longleftrightarrow> False"

text \<open>How often the pool was given a task: it was accepted, or a thread is about to put it into the queue.\<close>

definition handed :: "nat \<Rightarrow> nat pool \<Rightarrow> nat" where
  "handed k p = count_list (accepted p) k + cnt (\<lambda>e. e = BeforePut k) (pool_clients p) + cnt (pends k) (pool_workers p)"

lemma handed_client:
  "c < length (pool_clients p) \<Longrightarrow>
   handed k (client_goto c e p) + of_bool (pool_clients p ! c = BeforePut k) = handed k p + of_bool (e = BeforePut k)"
  using cnt_update [of c "pool_clients p" "\<lambda>e. e = BeforePut k" e] by (simp add: handed_def client_goto_def)

lemma handed_worker:
  "i < length (pool_workers p) \<Longrightarrow>
   handed k (worker_goto i q p) + of_bool (pends k (pool_workers p ! i)) = handed k p + of_bool (pends k q)"
  using cnt_update [of i "pool_workers p" "pends k" q] by (simp add: handed_def worker_goto_def)

lemma handed_same [simp]:
  "handed k (pool_acquire p) = handed k p" "handed k (pool_release p) = handed k p"
  "handed k (p\<lparr>task_queue := q\<rparr>) = handed k p" "handed k (p\<lparr>pool_closer := c\<rparr>) = handed k p"
  "handed k (p\<lparr>taken := xs\<rparr>) = handed k p" "handed k (p\<lparr>ended := xs\<rparr>) = handed k p"
  "handed k (p\<lparr>executed_counter := m\<rparr>) = handed k p"
  by (simp_all add: handed_def pool_acquire_def pool_release_def)

lemma handed_put:
  assumes "notify_one take_wake w (pool_workers p) = Some ws"
  shows "handed k (p\<lparr>task_queue := q, pool_workers := ws, accepted := accepted p @ [t]\<rparr>) = handed k p + of_bool (t = k)"
  using take_notify_one(3) [OF assms, of "pends k"] by (simp add: handed_def)

lemma handed_close: "handed k (pool_close clear p) = handed k p"
proof -
  have "cnt (pends k) (notify_all take_wake ws) = cnt (pends k) ws" for ws
  proof (induction ws)
    case (Cons q ws)
    then show ?case by (cases q) (simp_all add: notify_all_def)
  qed (simp add: notify_all_def)
  then show ?thesis by (simp add: handed_def pool_close_def)
qed

lemma handed_execute_client:
  assumes c: "c < length (pool_clients p)" and x: "StaticThreadPool_Execute (pool_clients p ! c) w p = Some (e', p')"
  shows "handed k (client_goto c e' p') \<le> handed k p"
  using x
proof (cases rule: pool_effect_execute)
  case (refused task)
  with handed_client [OF c, of k e'] show ?thesis by simp
next
  case (put task ws)
  let ?p = "p\<lparr>task_queue := (task_queue p)\<lparr>buffer := buffer (task_queue p) @ [task]\<rparr>, pool_workers := ws,
    accepted := accepted p @ [task]\<rparr>"
  have "handed k (client_goto c NotInExecute ?p) + of_bool (task = k) = handed k ?p"
    using handed_client [of c ?p k NotInExecute] c put(1) by simp
  with handed_put [OF put(4)] put show ?thesis by simp
next
  case release
  with handed_client [of c "pool_release p" k e'] c show ?thesis by simp
qed

lemma handed_execute_worker:
  assumes i: "i < length (pool_workers p)" and r: "pool_workers p ! i = Running t e"
    and x: "StaticThreadPool_Execute e w p = Some (e', p')"
  shows "handed k (worker_goto i (Running t e') p') \<le> handed k p"
  using x
proof (cases rule: pool_effect_execute)
  case (refused task)
  with handed_worker [OF i, of k "Running t e'"] r show ?thesis by simp
next
  case (put task ws)
  let ?p = "p\<lparr>task_queue := (task_queue p)\<lparr>buffer := buffer (task_queue p) @ [task]\<rparr>, pool_workers := ws,
    accepted := accepted p @ [task]\<rparr>"
  have "ws ! i = Running t (BeforePut task)" "i < length ws"
    using take_notify_one(1,4) [OF put(4)] i r put(1) by auto
  then have "handed k (worker_goto i (Running t NotInExecute) ?p) + of_bool (task = k) = handed k ?p"
    using handed_worker [of i ?p k "Running t NotInExecute"] by simp
  with handed_put [OF put(4)] put show ?thesis by simp
next
  case release
  with handed_worker [of i "pool_release p" k "Running t e'"] i r show ?thesis by simp
qed

lemma handed_take: "i < length (pool_workers p) \<Longrightarrow> handed k (worker_take i p) \<le> handed k p"
  using handed_worker [of i "p\<lparr>task_queue := q\<rparr>" k WorkerExited for q]
    handed_worker [of i "p\<lparr>task_queue := q, taken := xs\<rparr>" k "Running t NotInExecute" for q xs t]
    handed_worker [of i p k TakeParked]
  by (auto simp: worker_take_def split: take_result.splits prod.splits option.splits) (metis le_add1)+

lemma handed_own:
  assumes own: "pool_own l" and step: "pool_step l p = Some p'"
  shows "handed k p' \<le> handed k p"
proof (cases l)
  case (ClientGo c w)
  with step show ?thesis by (auto split: if_splits intro: handed_execute_client)
next
  case (WorkerGo i w)
  with step have i: "i < length (pool_workers p)" and t: "StaticThreadPool_TurnOnBrains i w p = Some p'"
    by (auto split: if_splits)
  show ?thesis
  proof (cases "pool_workers p ! i")
    case (Running t e)
    with t show ?thesis
      by (auto simp: StaticThreadPool_TurnOnBrains_def intro: handed_execute_worker [OF i Running])
  next
    case AfterExecute
    with t handed_worker [of i "p\<lparr>executed_counter := executed_counter p + 1\<rparr>" k BeforeRelease] i show ?thesis
      by (auto simp: StaticThreadPool_TurnOnBrains_def)
  next
    case BeforeRelease
    with t handed_worker [of i "pool_release p" k AtTake] i show ?thesis
      by (auto simp: StaticThreadPool_TurnOnBrains_def)
  qed (use t handed_take [OF i] in \<open>auto simp: StaticThreadPool_TurnOnBrains_def\<close>)
next
  case (WorkerSpurious i)
  with step handed_worker [of i p k TakeWoken] show ?thesis by (auto split: if_splits)
next
  case CloserGo
  with step have "StaticThreadPool_Join p = Some p' \<or> StaticThreadPool_Shutdown p = Some p'" by (auto split: option.splits)
  then show ?thesis
    by (auto simp: StaticThreadPool_Join_def StaticThreadPool_Shutdown_def pool_join_workers_def handed_close
        split: closer_pc.splits bool.splits if_splits)
qed (use own step in \<open>auto simp: StaticThreadPool_dtor_def split: if_splits closer_pc.splits\<close>)

lemma ended_execute: "StaticThreadPool_Execute e w p = Some (e', p') \<Longrightarrow> ended p' = ended p"
  by (erule pool_effect_execute) (auto simp: pool_release_def)

lemma ended_kept:
  assumes "pool_step l p = Some p'" and "\<And>i r. l \<noteq> TaskEnds i r"
  shows "ended p' = ended p"
proof (cases l)
  case (WorkerGo i w)
  with assms(1) show ?thesis
    by (auto simp: StaticThreadPool_TurnOnBrains_def worker_take_def worker_goto_def pool_release_def ended_execute
        split: if_splits worker_pc.splits take_result.splits prod.splits option.splits)
next
  case CloserGo
  with assms(1) have "StaticThreadPool_Join p = Some p' \<or> StaticThreadPool_Shutdown p = Some p'" by (auto split: option.splits)
  then show ?thesis
    by (auto simp: StaticThreadPool_Join_def StaticThreadPool_Shutdown_def pool_join_workers_def pool_close_def
        split: closer_pc.splits bool.splits if_splits)
qed (use assms in \<open>auto simp: StaticThreadPool_dtor_def client_goto_def worker_goto_def pool_acquire_def ended_execute
      split: if_splits closer_pc.splits worker_pc.splits exec_pc.splits\<close>)

lemma client_submit_handed:
  assumes "pool_step (ClientExecutes c n) p = Some p'"
  shows "handed k p' = handed k p + of_bool (n = k) \<and> ended p' = ended p"
  using assms handed_client [of c "pool_acquire p" k "BeforePut n"] ended_kept [OF assms] by (auto split: if_splits)

lemma task_submit_handed:
  assumes "pool_step (TaskExecutes i n) p = Some p'"
  shows "handed k p' = handed k p + of_bool (n = k) \<and> ended p' = ended p"
proof -
  from assms obtain t where t: "i < length (pool_workers p)" "pool_workers p ! i = Running t NotInExecute"
    "p' = worker_goto i (Running t (BeforePut n)) (pool_acquire p)"
    by (auto split: if_splits worker_pc.splits exec_pc.splits)
  with handed_worker [of i "pool_acquire p" k "Running t (BeforePut n)"] ended_kept [OF assms] show ?thesis by auto
qed

lemma handed_accepted: "count_list (accepted p) k \<le> handed k p"
  by (simp add: handed_def)

text \<open>When the first \<open>n\<close> numbers are handed over at most once, and no others, no task is accepted twice or run by two workers.\<close>

lemma handed_once_accepted:
  assumes once: "\<And>k. handed k p \<le> of_bool (k < n)"
  shows "distinct (accepted p)" and "set (accepted p) \<subseteq> {..< n}"
proof -
  have c: "count_list (accepted p) k \<le> of_bool (k < n)" for k
    using once [of k] handed_accepted [of p k] by (rule order_trans [rotated])
  have "k < n" if "k \<in> set (accepted p)" for k
  proof (rule ccontr)
    assume "\<not> k < n"
    with c [of k] have "count_list (accepted p) k = 0" by simp
    with that show False by (simp add: count_list_0_iff)
  qed
  then show "set (accepted p) \<subseteq> {..< n}" by auto
  show "distinct (accepted p)"
  proof (rule distinct_count_atmost_1 [THEN iffD2], intro allI)
    fix k
    show "count (mset (accepted p)) k = (if k \<in> set (accepted p) then 1 else 0)"
      using c [of k] count_list_0_iff [of "accepted p" k] by (cases "k < n") (auto simp: count_mset le_Suc_eq)
  qed
qed

lemma handed_once_worker:
  assumes once: "handed k p \<le> of_bool (k < n)" and pool: "pool_inv p"
    and i: "i < length (pool_workers p)" "runs_task k (pool_workers p ! i)"
    and j: "j < length (pool_workers p)" "runs_task k (pool_workers p ! j)"
  shows "i = j" and "k < n"
proof -
  have h: "accepted p = taken p @ buffer (task_queue p) @ dropped p"
      "count_list (taken p) k = count_list (ended p) k + cnt (runs_task k) (pool_workers p)"
    using pool by (simp_all add: pool_inv_def history_inv_def)
  have "count_list (accepted p) k \<le> of_bool (k < n)"
    using once handed_accepted [of p k] by (rule order_trans [rotated])
  with h have le: "cnt (runs_task k) (pool_workers p) \<le> of_bool (k < n)" by simp
  then have "cnt (runs_task k) (pool_workers p) \<le> 1" by (rule order_trans) simp
  then show "i = j" by (rule cnt_le_one_unique [OF _ i(1) j(1) i(2) j(2)])
  have "0 < cnt (runs_task k) (pool_workers p)" using i by (rule cnt_posI)
  with le show "k < n" by (cases "k < n") simp_all
qed

text \<open>With the pool joined and every task accepted, all of them have ended.\<close>

lemma handed_once_joined:
  assumes once: "\<And>k. handed k p \<le> of_bool (k < n)" and r: "reachable pool_step (StaticThreadPool_ctor w m) p"
    and closed: "pool_closer p = PoolClosed False" "pool_workers p \<noteq> []"
    and all: "length (accepted p) = n" and k: "k < n"
  shows "k \<in> set (ended p)"
proof -
  note acc = handed_once_accepted [of p n, OF once]
  have "card (set (accepted p)) = card {..< n}" using all distinct_card [OF acc(1)] by simp
  with acc(2) have "set (accepted p) = {..< n}" by (simp add: card_subset_eq)
  with k have "k \<in> set (accepted p)" by simp
  then have "count_list (accepted p) k \<noteq> 0" by (simp add: count_list_0_iff)
  moreover have "count_list (accepted p) k = count_list (ended p) k" using pool_closed_executed_all [OF r closed] by auto
  ultimately show ?thesis by (simp add: count_list_0_iff)
qed

end
