(* ===== verification/Strand_On_Pool.thy ===== *)
theory Strand_On_Pool
  imports Strand Pool_Handover
begin

text \<open>
  The composition \<^verbatim>\<open>MakeStrand(MakeStaticThreadPool(...))\<close>: the strand of \<open>Strand\<close> whose underlying executor is the
  thread pool of \<open>Thread_Pool\<close>. A task of the pool is a thunk of the strand, named by its index. Handing a thunk to
  \<open>executor_->Execute\<close> is the start of the \<open>Execute\<close> of the pool by the same thread; a thunk makes steps
  only while a worker runs it, and the task of that worker ends when the thunk has finished. While a thread is in the
  \<open>Execute\<close> of the pool it makes no step of the strand: the local stack of \<open>ExecuteFirstStack\<close> is destroyed after \<open>Execute\<close> has returned.
\<close>

section \<open>The system\<close>

record 'a strand_on_pool =
  sp_strand :: "'a strand"
  sp_pool :: "nat pool"

datatype 'a sp_label =
    SpCall tid 'a addr          \<comment> \<open>a client calls \<open>Execute\<close> of the strand\<close>
  | SpClient tid                \<comment> \<open>a client makes a step in \<open>Execute\<close> of the strand\<close>
  | SpThunk tid                 \<comment> \<open>a worker makes a step in the thunk it runs\<close>
  | SpThunkEnd tid              \<comment> \<open>the thunk of a worker returns to \<open>ExecuteHere\<close>\<close>
  | SpPool "nat pool_label"     \<comment> \<open>any other step of the pool\<close>

definition StrandOnPool :: "nat \<Rightarrow> nat \<Rightarrow> 'a strand_on_pool" where
  "StrandOnPool clients workers = \<lparr>sp_strand = MakeStrand clients, sp_pool = StaticThreadPool_ctor workers clients\<rparr>"

fun is_PushSubmit :: "'a push_pc \<Rightarrow> bool" where
  "is_PushSubmit (PushSubmit tasks ls) = True"
| "is_PushSubmit _ = False"

fun is_ThunkSubmit :: "'a thunk_pc \<Rightarrow> bool" where
  "is_ThunkSubmit (ThunkSubmit tasks ls) = True"
| "is_ThunkSubmit _ = False"

text \<open>A step of the strand, in which a thunk is handed to the pool by the step \<open>submit\<close> if \<open>hands\<close> holds.\<close>

definition sp_move :: "'a strand_label \<Rightarrow> bool \<Rightarrow> (nat \<Rightarrow> nat pool_label) \<Rightarrow> 'a strand_on_pool \<Rightarrow> 'a strand_on_pool option" where
  "sp_move l hands submit s =
     do { x \<leftarrow> strand_step l (sp_strand s);
          p \<leftarrow> (if hands then pool_step (submit (length (st_thunks (sp_strand s)))) (sp_pool s) else Some (sp_pool s));
          Some \<lparr>sp_strand = x, sp_pool = p\<rparr> }"

definition worker_thunk :: "tid \<Rightarrow> 'a strand_on_pool \<Rightarrow> nat option" where
  "worker_thunk i s =
     (if i < length (pool_workers (sp_pool s))
      then case pool_workers (sp_pool s) ! i of Running k NotInExecute \<Rightarrow> Some k | _ \<Rightarrow> None
      else None)"

fun sp_step :: "'a sp_label \<Rightarrow> 'a strand_on_pool \<Rightarrow> 'a strand_on_pool option" where
  "sp_step (SpCall c t a) s =
     (if c < length (pool_clients (sp_pool s)) \<and> pool_clients (sp_pool s) ! c = NotInExecute
      then sp_move (CallExecute c t a) False (ClientExecutes c) s else None)"
| "sp_step (SpClient c) s =
     (if c < length (pool_clients (sp_pool s)) \<and> pool_clients (sp_pool s) ! c = NotInExecute
      then sp_move (StClient c) (is_PushSubmit (st_clients (sp_strand s) ! c)) (ClientExecutes c) s else None)"
| "sp_step (SpThunk i) s =
     do { k \<leftarrow> worker_thunk i s;
          sp_move (StThunk k) (is_ThunkSubmit (st_thunks (sp_strand s) ! k)) (TaskExecutes i) s }"
| "sp_step (SpThunkEnd i) s =
     do { k \<leftarrow> worker_thunk i s;
          if k < length (st_thunks (sp_strand s)) \<and> st_thunks (sp_strand s) ! k = ThunkFinished
          then do { p \<leftarrow> pool_step (TaskEnds i TaskReturned) (sp_pool s); Some (s\<lparr>sp_pool := p\<rparr>) }
          else None }"
| "sp_step (SpPool l) s =
     (if pool_own l then do { p \<leftarrow> pool_step l (sp_pool s); Some (s\<lparr>sp_pool := p\<rparr>) } else None)"

section \<open>Both components at work\<close>

fun sp_strand_schedule :: "'a strand_on_pool \<Rightarrow> 'a sp_label \<Rightarrow> 'a strand_label list" where
  "sp_strand_schedule s (SpCall c t a) = [CallExecute c t a]"
| "sp_strand_schedule s (SpClient c) = [StClient c]"
| "sp_strand_schedule s (SpThunk i) = (case worker_thunk i s of None \<Rightarrow> [] | Some k \<Rightarrow> [StThunk k])"
| "sp_strand_schedule s _ = []"

fun sp_pool_schedule :: "'a strand_on_pool \<Rightarrow> 'a sp_label \<Rightarrow> nat pool_label list" where
  "sp_pool_schedule s (SpCall c t a) = []"
| "sp_pool_schedule s (SpClient c) =
     (if is_PushSubmit (st_clients (sp_strand s) ! c) then [ClientExecutes c (length (st_thunks (sp_strand s)))] else [])"
| "sp_pool_schedule s (SpThunk i) =
     (case worker_thunk i s of
        None \<Rightarrow> []
      | Some k \<Rightarrow> (if is_ThunkSubmit (st_thunks (sp_strand s) ! k) then [TaskExecutes i (length (st_thunks (sp_strand s)))] else []))"
| "sp_pool_schedule s (SpThunkEnd i) = [TaskEnds i TaskReturned]"
| "sp_pool_schedule s (SpPool l) = [l]"

lemma sp_move_Some:
  assumes "sp_move l hands submit s = Some s'"
  shows "strand_step l (sp_strand s) = Some (sp_strand s')"
    and "hands \<Longrightarrow> pool_step (submit (length (st_thunks (sp_strand s)))) (sp_pool s) = Some (sp_pool s')"
    and "\<not> hands \<Longrightarrow> sp_pool s' = sp_pool s"
  using assms by (auto simp: sp_move_def split: Option.bind_splits if_splits)

interpretation sps: stuttering_refinement sp_step "StrandOnPool n w" strand_step "MakeStrand n"
    "\<lambda>s a. a = sp_strand s" sp_strand_schedule
proof
  show "MakeStrand n = sp_strand (StrandOnPool n w)" by (simp add: StrandOnPool_def)
  fix s :: "'a strand_on_pool" and a l s'
  assume "a = sp_strand s" and "sp_step l s = Some s'"
  then show "\<exists>a'. run strand_step (sp_strand_schedule s l) a = Some a' \<and> a' = sp_strand s'"
    by (cases l) (auto dest: sp_move_Some split: if_splits Option.bind_splits)
qed

interpretation spp: stuttering_refinement sp_step "StrandOnPool n w" pool_step "StaticThreadPool_ctor w n"
    "\<lambda>s a. a = sp_pool s" sp_pool_schedule
proof
  show "StaticThreadPool_ctor w n = sp_pool (StrandOnPool n w)" by (simp add: StrandOnPool_def)
  fix s :: "'a strand_on_pool" and a l s'
  assume "a = sp_pool s" and "sp_step l s = Some s'"
  then show "\<exists>a'. run pool_step (sp_pool_schedule s l) a = Some a' \<and> a' = sp_pool s'"
    by (cases l) (auto dest: sp_move_Some split: if_splits Option.bind_splits)
qed

section \<open>Every thunk is handed over once\<close>

lemma first_stack_thunks: "StrandExecutor_ExecuteFirstStack x = Some (tasks, ls, x') \<Longrightarrow> st_thunks x' = st_thunks x"
  "StrandExecutor_ExecuteFirstStack_return ls x = Some x' \<Longrightarrow> st_thunks x' = st_thunks x"
  by (auto simp: StrandExecutor_ExecuteFirstStack_def StrandExecutor_ExecuteFirstStack_return_def split: Option.bind_splits prod.splits)

lemma client_thunks:
  assumes "StrandExecutor_Execute c x = Some x'"
  shows "if is_PushSubmit (st_clients x ! c) then \<exists>t. st_thunks x' = st_thunks x @ [t] else st_thunks x' = st_thunks x"
  using assms by (cases "st_clients x ! c")
    (auto simp: StrandExecutor_Execute_def st_client_def first_stack_thunks split: option.splits prod.splits if_splits)

lemma thunk_thunks:
  assumes "StrandExecutor_thunk k x = Some x'"
  shows "st_thunks x ! k \<noteq> ThunkFinished"
    and "is_ThunkSubmit (st_thunks x ! k) \<Longrightarrow> \<exists>p t. st_thunks x' = (st_thunks x @ [t])[k := p]"
    and "\<not> is_ThunkSubmit (st_thunks x ! k) \<Longrightarrow> \<exists>p. st_thunks x' = (st_thunks x)[k := p]"
proof -
  show "st_thunks x ! k \<noteq> ThunkFinished" using assms by (auto simp: StrandExecutor_thunk_def)
  show "\<exists>p t. st_thunks x' = (st_thunks x @ [t])[k := p]" if "is_ThunkSubmit (st_thunks x ! k)"
  proof -
    from that obtain tasks ls where "st_thunks x ! k = ThunkSubmit tasks ls" by (cases "st_thunks x ! k") auto
    with assms have "st_thunks x' = (st_thunks x @ [ThunkTasks tasks])[k := ThunkReturn ls]"
      by (auto simp: StrandExecutor_thunk_def st_thunk_def)
    then show ?thesis by blast
  qed
  have "st_thunks x' = st_thunks x \<or> (\<exists>p. st_thunks x' = (st_thunks x)[k := p])"
    if "\<not> is_ThunkSubmit (st_thunks x ! k)"
    using assms that by (cases "st_thunks x ! k")
      (auto simp: StrandExecutor_thunk_def st_thunk_def first_stack_thunks split: option.splits prod.splits if_splits)
  then show "\<exists>p. st_thunks x' = (st_thunks x)[k := p]" if "\<not> is_ThunkSubmit (st_thunks x ! k)"
    using that by (metis list_update_id)
qed

text \<open>Thunks are added at the end, exactly when one is handed over, and a finished thunk stays finished.\<close>

fun hands_over :: "'a strand_label \<Rightarrow> 'a strand \<Rightarrow> bool" where
  "hands_over (CallExecute c t a) x = False"
| "hands_over (StClient c) x = is_PushSubmit (st_clients x ! c)"
| "hands_over (StThunk k) x = is_ThunkSubmit (st_thunks x ! k)"

lemma strand_step_thunks:
  assumes "strand_step l x = Some x'"
  shows "length (st_thunks x') = length (st_thunks x) + of_bool (hands_over l x)"
    and "k < length (st_thunks x) \<Longrightarrow> st_thunks x ! k = ThunkFinished \<Longrightarrow> st_thunks x' ! k = ThunkFinished"
proof -
  have "length (st_thunks x') = length (st_thunks x) + of_bool (hands_over l x) \<and>
    (k < length (st_thunks x) \<longrightarrow> st_thunks x ! k = ThunkFinished \<longrightarrow> st_thunks x' ! k = ThunkFinished)"
  proof (cases l)
    case (CallExecute c t a)
    with assms show ?thesis by (auto simp: st_client_def split: if_splits Option.bind_splits option.splits prod.splits)
  next
    case (StClient c)
    with assms client_thunks [of c x x'] show ?thesis by (auto split: if_splits simp: nth_append)
  next
    case (StThunk j)
    with assms have j: "StrandExecutor_thunk j x = Some x'" "j < length (st_thunks x)" by (auto split: if_splits)
    show ?thesis
      using thunk_thunks [OF j(1)] j(2) StThunk
      by (cases "is_ThunkSubmit (st_thunks x ! j)") (auto simp: nth_append nth_list_update)
  qed
  then show "length (st_thunks x') = length (st_thunks x) + of_bool (hands_over l x)"
    and "k < length (st_thunks x) \<Longrightarrow> st_thunks x ! k = ThunkFinished \<Longrightarrow> st_thunks x' ! k = ThunkFinished"
    by blast+
qed

definition sp_inv :: "'a strand_on_pool \<Rightarrow> bool" where
  "sp_inv s \<longleftrightarrow>
     (\<forall>k. handed k (sp_pool s) \<le> of_bool (k < length (st_thunks (sp_strand s)))) \<and>
     (\<forall>k \<in> set (ended (sp_pool s)). k < length (st_thunks (sp_strand s)) \<and> st_thunks (sp_strand s) ! k = ThunkFinished)"

lemma sp_inv_move:
  assumes inv: "sp_inv s" and move: "sp_move l (hands_over l (sp_strand s)) submit s = Some s'"
    and sub: "\<And>n p p' k. pool_step (submit n) p = Some p' \<Longrightarrow> handed k p' = handed k p + of_bool (n = k) \<and> ended p' = ended p"
  shows "sp_inv s'"
proof -
  let ?n = "length (st_thunks (sp_strand s))"
  note st = sp_move_Some(1) [OF move] and y = sp_move_Some(2) [OF move] and n = sp_move_Some(3) [OF move]
  note len = strand_step_thunks(1) [OF st] and fin = strand_step_thunks(2) [OF st]
  have h: "handed k (sp_pool s') = handed k (sp_pool s) + of_bool (hands_over l (sp_strand s) \<and> ?n = k)" for k
    using sub [OF y] n by (cases "hands_over l (sp_strand s)") simp_all
  have e: "ended (sp_pool s') = ended (sp_pool s)"
    using sub [OF y] n by (cases "hands_over l (sp_strand s)") simp_all
  have "handed k (sp_pool s') \<le> of_bool (k < length (st_thunks (sp_strand s')))" for k
  proof -
    have "handed k (sp_pool s) \<le> of_bool (k < ?n)" using inv by (simp add: sp_inv_def)
    then show ?thesis unfolding h len by (auto split: if_splits)
  qed
  with inv e len fin show ?thesis unfolding sp_inv_def by (metis trans_less_add1)
qed

lemma sp_inv_pool:
  assumes inv: "sp_inv s" and h: "\<And>k. handed k p \<le> handed k (sp_pool s)"
    and e: "\<And>k. k \<in> set (ended p) \<Longrightarrow> k \<in> set (ended (sp_pool s)) \<or>
      k < length (st_thunks (sp_strand s)) \<and> st_thunks (sp_strand s) ! k = ThunkFinished"
  shows "sp_inv (s\<lparr>sp_pool := p\<rparr>)"
  using inv e order_trans [OF h] unfolding sp_inv_def by (simp) blast

lemma sp_inv_step:
  assumes inv: "sp_inv s" and step: "sp_step l s = Some s'"
  shows "sp_inv s'"
proof (cases l)
  case (SpCall c t a)
  with step have "sp_move (CallExecute c t a) (hands_over (CallExecute c t a) (sp_strand s)) (ClientExecutes c) s = Some s'"
    by (auto split: if_splits)
  from sp_inv_move [OF inv this client_submit_handed] show ?thesis .
next
  case (SpClient c)
  with step have "sp_move (StClient c) (hands_over (StClient c) (sp_strand s)) (ClientExecutes c) s = Some s'"
    by (simp split: if_splits)
  from sp_inv_move [OF inv this client_submit_handed] show ?thesis .
next
  case (SpThunk i)
  with step obtain k where "sp_move (StThunk k) (hands_over (StThunk k) (sp_strand s)) (TaskExecutes i) s = Some s'"
    by (auto split: Option.bind_splits)
  from sp_inv_move [OF inv this task_submit_handed] show ?thesis .
next
  case (SpThunkEnd i)
  with step obtain k p where k: "worker_thunk i s = Some k" "k < length (st_thunks (sp_strand s))"
      "st_thunks (sp_strand s) ! k = ThunkFinished"
    and p: "pool_step (TaskEnds i TaskReturned) (sp_pool s) = Some p" "s' = s\<lparr>sp_pool := p\<rparr>"
    by (auto split: Option.bind_splits if_splits)
  from k(1) have i: "i < length (pool_workers (sp_pool s))" "pool_workers (sp_pool s) ! i = Running k NotInExecute"
    by (auto simp: worker_thunk_def split: if_splits worker_pc.splits exec_pc.splits)
  with p(1) have p': "p = worker_goto i AfterExecute ((sp_pool s)\<lparr>ended := ended (sp_pool s) @ [k]\<rparr>)"
    by (simp add: ExecuteHere_def)
  show ?thesis unfolding p(2)
  proof (rule sp_inv_pool [OF inv])
    show "handed j p \<le> handed j (sp_pool s)" for j
      using handed_worker [of i "(sp_pool s)\<lparr>ended := ended (sp_pool s) @ [k]\<rparr>" j AfterExecute] i by (simp add: p')
    show "j \<in> set (ended (sp_pool s)) \<or> j < length (st_thunks (sp_strand s)) \<and> st_thunks (sp_strand s) ! j = ThunkFinished"
      if "j \<in> set (ended p)" for j
      using that k by (auto simp: p' worker_goto_def)
  qed
next
  case (SpPool m)
  with step obtain p where p: "pool_own m" "pool_step m (sp_pool s) = Some p" "s' = s\<lparr>sp_pool := p\<rparr>"
    by (auto split: if_splits Option.bind_splits)
  from p(1) have "ended p = ended (sp_pool s)" by (intro ended_kept [OF p(2)]) auto
  then show ?thesis unfolding p(3) by (intro sp_inv_pool [OF inv] handed_own [OF p(1,2)]) simp
qed

interpretation sp: invariant_system sp_step "StrandOnPool n w" sp_inv
  by unfold_locales (simp add: sp_inv_def StrandOnPool_def MakeStrand_def StaticThreadPool_ctor_def handed_def,
      fact sp_inv_step)

section \<open>What the composition gives\<close>

lemma sp_inv_once: "sp_inv s \<Longrightarrow> handed k (sp_pool s) \<le> of_bool (k < length (st_thunks (sp_strand s)))"
  by (simp add: sp_inv_def)

lemma sp_joined_finished:
  assumes inv: "sp_inv s" and r: "reachable pool_step (StaticThreadPool_ctor w n) (sp_pool s)"
    and closed: "pool_closer (sp_pool s) = PoolClosed False" "pool_workers (sp_pool s) \<noteq> []"
    and all: "length (accepted (sp_pool s)) = length (st_thunks (sp_strand s))"
    and k: "k < length (st_thunks (sp_strand s))"
  shows "st_thunks (sp_strand s) ! k = ThunkFinished"
  using handed_once_joined [OF sp_inv_once [OF inv] r closed all k] inv by (simp add: sp_inv_def)

text \<open>A strand without active thunk or client holds what it has not run in its stack.\<close>

lemma strand_quiet:
  assumes at: "strand_at as ts b own x" and th: "\<And>k. k < length (st_thunks x) \<Longrightarrow> st_thunks x ! k = ThunkFinished"
    and cl: "\<And>c. c < length (st_clients x) \<Longrightarrow> st_clients x ! c = PushOutside"
  shows "\<not> is_scheduled x \<and> chain (st_heap x) (st_head x) as ts \<and> st_pushed x = st_ran x @ rev ts"
proof -
  have "cnt thunk_active (st_thunks x) = 0"
    using th cnt_pos_iff [of thunk_active "st_thunks x"] by fastforce
  moreover have "cnt client_active (st_clients x) = 0"
    using cl cnt_pos_iff [of client_active "st_clients x"] by fastforce
  ultimately have "\<not> is_scheduled x" using at by (auto simp: strand_at_def split: if_splits)
  with at show ?thesis by (auto simp: strand_at_def)
qed

text \<open>Worker \<open>i\<close> is inside a task of the strand.\<close>

definition worker_in_task :: "tid \<Rightarrow> 'a strand_on_pool \<Rightarrow> bool" where
  "worker_in_task i s \<longleftrightarrow> i < length (pool_workers (sp_pool s)) \<and>
     (case pool_workers (sp_pool s) ! i of Running k e \<Rightarrow> in_task (st_thunks (sp_strand s) ! k) | _ \<Rightarrow> False)"

definition sp_labels :: "nat sp_label list" where
  "sp_labels = [SpCall 0 7 100, SpClient 0, SpClient 0, SpClient 0, SpClient 0, SpClient 0, SpPool (ClientGo 0 None), SpClient 0,
     SpPool (WorkerGo 0 None), SpThunk 0, SpThunk 0, SpThunk 0, SpThunk 0, SpThunkEnd 0, SpPool (WorkerGo 0 None),
     SpPool (WorkerGo 0 None), SpPool CallJoin, SpPool CloserGo, SpPool CloserGo, SpPool (WorkerGo 0 None), SpPool CloserGo,
     SpPool CloserGo]"

lemma sp_labels_run:
  "\<exists>s. run sp_step sp_labels (StrandOnPool 1 1) = Some s \<and> st_clients (sp_strand s) = [PushOutside] \<and>
     pool_closer (sp_pool s) = PoolClosed False \<and> pool_workers (sp_pool s) \<noteq> [] \<and>
     length (accepted (sp_pool s)) = length (st_thunks (sp_strand s)) \<and> st_ran (sp_strand s) = [7]"
  by (simp add: sp_labels_def StrandOnPool_def sp_move_def worker_thunk_def strand_eval pool_eval)

lemma workers_in_task_unique:
  assumes inv: "sp_inv s" and pool: "pool_inv (sp_pool s)" and strand: "strand_inv (sp_strand s)"
    and i: "worker_in_task i s" and j: "worker_in_task j s"
  shows "i = j"
proof -
  have "\<exists>k. i < length (pool_workers (sp_pool s)) \<and> runs_task k (pool_workers (sp_pool s) ! i) \<and>
      in_task (st_thunks (sp_strand s) ! k)" if "worker_in_task i s" for i
    using that by (cases "pool_workers (sp_pool s) ! i") (auto simp: worker_in_task_def)
  with i j obtain k m where k: "i < length (pool_workers (sp_pool s))" "runs_task k (pool_workers (sp_pool s) ! i)"
      "in_task (st_thunks (sp_strand s) ! k)"
    and m: "j < length (pool_workers (sp_pool s))" "runs_task m (pool_workers (sp_pool s) ! j)"
      "in_task (st_thunks (sp_strand s) ! m)" by metis
  from handed_once_worker(2) [OF sp_inv_once [OF inv] pool k(1,2,1,2)] handed_once_worker(2) [OF sp_inv_once [OF inv] pool m(1,2,1,2)]
  have "k = m" by (intro strand_in_task_unique [OF strand _ k(3) _ m(3)])
  with k m show ?thesis by (intro handed_once_worker(1) [OF sp_inv_once [OF inv] pool]) auto
qed

end
