(* ===== verification/Shared_State.thy ===== *)
theory Shared_State
  imports Prelude
begin

text \<open>
  \<open>SharedState\<close> of \<^verbatim>\<open>futures/core/state.hpp\<close>, the meeting point of a \<open>Promise\<close> and its
  \<open>Future\<close>, as the race between the thread that fulfils the promise (\<open>SetResult\<close>) and the
  thread that consumes the future (\<open>Subscribe\<close>, \<open>GetResult\<close>, or polling with \<open>IsReady\<close> and
  \<open>GetReadyResult\<close>). Both handles are one-shot, so there is at most one of each. Every access
  to \<open>state_\<close>, \<open>result_\<close> and \<open>callback_\<close> is a step. A failing \<open>WHEELS_VERIFY\<close> and the access
  of an empty \<open>optional\<close> set \<open>ss_abort\<close>.
\<close>

section \<open>State\<close>

datatype subscription_state = SubStart | SubOnlyResult | SubOnlyCallback | SubDone

datatype ('r, 'c) producer_pc =
    PrNone
  | PrEmplace 'r               \<comment> \<open>in \<open>SetResult\<close>, before \<open>result_.emplace\<close>\<close>
  | PrCas                      \<comment> \<open>before the compare-exchange\<close>
  | PrNotify                   \<comment> \<open>before \<open>state_.notify_one()\<close>\<close>
  | PrVerify subscription_state \<comment> \<open>before \<open>WHEELS_VERIFY(expected == OnlyCallback)\<close>\<close>
  | PrStoreDone                \<comment> \<open>in \<open>GetReadyResult\<close>, before the store\<close>
  | PrMove                     \<comment> \<open>before moving \<open>callback_\<close> and \<open>result_\<close> into \<open>Execute\<close>\<close>
  | PrReturned

datatype ('r, 'c) consumer_pc =
    CoNone
  | CoHasResult 'c             \<comment> \<open>in \<open>Subscribe\<close>, before \<open>HasResult\<close>\<close>
  | CoReadyStore 'c            \<comment> \<open>in \<open>GetReadyResult\<close> called by \<open>Subscribe\<close>, before the store\<close>
  | CoReadyMove 'c             \<comment> \<open>before moving \<open>result_\<close> into \<open>Execute\<close>\<close>
  | CoPass 'c                  \<comment> \<open>in \<open>PassCallback\<close>, before storing \<open>callback_\<close>\<close>
  | CoPassCas                  \<comment> \<open>before its compare-exchange\<close>
  | CoVerify subscription_state \<comment> \<open>before \<open>WHEELS_VERIFY(expected == OnlyResult)\<close>\<close>
  | CoPassStore                \<comment> \<open>in \<open>GetReadyResult\<close> called by \<open>PassCallback\<close>\<close>
  | CoPassMove
  | CoBlock                    \<comment> \<open>in \<open>BlockForResult\<close>, before \<open>state_.wait(Start)\<close>\<close>
  | CoParked
  | CoPoll                     \<comment> \<open>in \<open>IsReady\<close>\<close>
  | CoGetStore                 \<comment> \<open>in \<open>GetReadyResult\<close> called by \<open>GetResult\<close> or after \<open>IsReady\<close>\<close>
  | CoGetMove
  | CoReturned

text \<open>\<open>ss_ran\<close> lists the executed callbacks with their results and whether they went through an
  executor; \<open>ss_got\<close> is what the consumer received synchronously; \<open>ss_set\<close> and
  \<open>ss_subscribed\<close> are the arguments of the two calls (history).\<close>

record ('r, 'c) shared_state =
  ss_state :: subscription_state
  ss_callback :: "'c option"
  ss_result :: "'r option"
  ss_executor :: bool
  ss_producer :: "('r, 'c) producer_pc"
  ss_consumer :: "('r, 'c) consumer_pc"
  ss_abort :: bool
  ss_ran :: "(bool \<times> 'c \<times> 'r) list"
  ss_got :: "'r list"
  ss_set :: "'r option"
  ss_subscribed :: "'c option"

definition SharedState_ctor :: "bool \<Rightarrow> ('r, 'c) shared_state" where
  "SharedState_ctor executor =
     \<lparr>ss_state = SubStart, ss_callback = None, ss_result = None, ss_executor = executor,
      ss_producer = PrNone, ss_consumer = CoNone, ss_abort = False, ss_ran = [], ss_got = [],
      ss_set = None, ss_subscribed = None\<rparr>"

section \<open>Operations\<close>

text \<open>\<open>Execute\<close>: through the executor if there is one, on the spot otherwise.\<close>

definition SharedState_Execute :: "'c \<Rightarrow> 'r \<Rightarrow> ('r, 'c) shared_state \<Rightarrow> ('r, 'c) shared_state" where
  "SharedState_Execute callback result s =
     s\<lparr>ss_ran := ss_ran s @ [(if ss_executor s then True else False, callback, result)]\<rparr>"

definition SharedState_HasResult :: "('r, 'c) shared_state \<Rightarrow> bool" where
  "SharedState_HasResult s \<longleftrightarrow> ss_state s = SubOnlyResult"

text \<open>The two accesses of \<open>GetReadyResult\<close>.\<close>

definition GetReadyResult_store :: "('r, 'c) shared_state \<Rightarrow> ('r, 'c) shared_state" where
  "GetReadyResult_store s = s\<lparr>ss_state := SubDone\<rparr>"

definition GetReadyResult_move ::
    "('r \<Rightarrow> ('r, 'c) shared_state \<Rightarrow> ('r, 'c) shared_state) \<Rightarrow> ('r, 'c) shared_state \<Rightarrow> ('r, 'c) shared_state" where
  "GetReadyResult_move k s =
     (case ss_result s of None \<Rightarrow> s\<lparr>ss_abort := True\<rparr> | Some r \<Rightarrow> k r s)"

text \<open>\<open>Execute(std::move(callback_.value()), std::move(GetReadyResult()))\<close> after the store.\<close>

definition execute_stored :: "('r, 'c) shared_state \<Rightarrow> ('r, 'c) shared_state" where
  "execute_stored s =
     (case ss_callback s of
        None \<Rightarrow> s\<lparr>ss_abort := True\<rparr>
      | Some c \<Rightarrow> GetReadyResult_move (SharedState_Execute c) s)"

definition SharedState_SetResult :: "('r, 'c) shared_state \<Rightarrow> ('r, 'c) shared_state option" where
  "SharedState_SetResult s =
     (case ss_producer s of
        PrEmplace r \<Rightarrow> Some (s\<lparr>ss_result := Some r, ss_producer := PrCas\<rparr>)
      | PrCas \<Rightarrow>
          Some (if ss_state s = SubStart
                then s\<lparr>ss_state := SubOnlyResult, ss_producer := PrNotify\<rparr>
                else s\<lparr>ss_producer := PrVerify (ss_state s)\<rparr>)
      | PrNotify \<Rightarrow>
          Some (s\<lparr>ss_producer := PrReturned,
                  ss_consumer := (if ss_consumer s = CoParked then CoBlock else ss_consumer s)\<rparr>)
      | PrVerify expected \<Rightarrow>
          Some (if expected = SubOnlyCallback then s\<lparr>ss_producer := PrStoreDone\<rparr>
                else s\<lparr>ss_abort := True, ss_producer := PrReturned\<rparr>)
      | PrStoreDone \<Rightarrow> Some ((GetReadyResult_store s)\<lparr>ss_producer := PrMove\<rparr>)
      | PrMove \<Rightarrow> Some ((execute_stored s)\<lparr>ss_producer := PrReturned\<rparr>)
      | _ \<Rightarrow> None)"

definition SharedState_PassCallback :: "('r, 'c) shared_state \<Rightarrow> ('r, 'c) shared_state option" where
  "SharedState_PassCallback s =
     (case ss_consumer s of
        CoPass c \<Rightarrow> Some (s\<lparr>ss_callback := Some c, ss_consumer := CoPassCas\<rparr>)
      | CoPassCas \<Rightarrow>
          Some (if ss_state s = SubStart
                then s\<lparr>ss_state := SubOnlyCallback, ss_consumer := CoReturned\<rparr>
                else s\<lparr>ss_consumer := CoVerify (ss_state s)\<rparr>)
      | CoVerify expected \<Rightarrow>
          Some (if expected = SubOnlyResult then s\<lparr>ss_consumer := CoPassStore\<rparr>
                else s\<lparr>ss_abort := True, ss_consumer := CoReturned\<rparr>)
      | CoPassStore \<Rightarrow> Some ((GetReadyResult_store s)\<lparr>ss_consumer := CoPassMove\<rparr>)
      | CoPassMove \<Rightarrow> Some ((execute_stored s)\<lparr>ss_consumer := CoReturned\<rparr>)
      | _ \<Rightarrow> None)"

definition Future_Subscribe :: "('r, 'c) shared_state \<Rightarrow> ('r, 'c) shared_state option" where
  "Future_Subscribe s =
     (case ss_consumer s of
        CoHasResult c \<Rightarrow>
          Some (s\<lparr>ss_consumer := (if SharedState_HasResult s then CoReadyStore c else CoPass c)\<rparr>)
      | CoReadyStore c \<Rightarrow> Some ((GetReadyResult_store s)\<lparr>ss_consumer := CoReadyMove c\<rparr>)
      | CoReadyMove c \<Rightarrow>
          Some ((GetReadyResult_move (SharedState_Execute c) s)\<lparr>ss_consumer := CoReturned\<rparr>)
      | _ \<Rightarrow> SharedState_PassCallback s)"

text \<open>\<open>BlockForResult\<close>: the wait returns once the value is not \<open>Start\<close>.\<close>

definition SharedState_BlockForResult :: "('r, 'c) shared_state \<Rightarrow> ('r, 'c) shared_state option" where
  "SharedState_BlockForResult s =
     (case ss_consumer s of
        CoBlock \<Rightarrow> Some (s\<lparr>ss_consumer := (if ss_state s = SubStart then CoParked else CoGetStore)\<rparr>)
      | _ \<Rightarrow> None)"

definition Future_GetResult :: "('r, 'c) shared_state \<Rightarrow> ('r, 'c) shared_state option" where
  "Future_GetResult s =
     (case ss_consumer s of
        CoGetStore \<Rightarrow> Some ((GetReadyResult_store s)\<lparr>ss_consumer := CoGetMove\<rparr>)
      | CoGetMove \<Rightarrow>
          Some ((GetReadyResult_move (\<lambda>r s. s\<lparr>ss_got := ss_got s @ [r]\<rparr>) s)\<lparr>ss_consumer := CoReturned\<rparr>)
      | _ \<Rightarrow> SharedState_BlockForResult s)"

text \<open>\<open>IsReady\<close>, followed by \<open>GetReadyResult\<close> if it says so.\<close>

definition Future_IsReady :: "('r, 'c) shared_state \<Rightarrow> ('r, 'c) shared_state option" where
  "Future_IsReady s =
     (case ss_consumer s of
        CoPoll \<Rightarrow> Some (s\<lparr>ss_consumer := (if SharedState_HasResult s then CoGetStore else CoNone)\<rparr>)
      | _ \<Rightarrow> None)"

section \<open>The race\<close>

datatype ('r, 'c) ss_label =
    CallSetResult 'r
  | CallSubscribe 'c
  | CallGetResult
  | CallIsReady
  | ProducerGo
  | ConsumerGo

fun ss_step :: "('r, 'c) ss_label \<Rightarrow> ('r, 'c) shared_state \<Rightarrow> ('r, 'c) shared_state option" where
  "ss_step (CallSetResult r) s =
     (if ss_producer s = PrNone then Some (s\<lparr>ss_producer := PrEmplace r, ss_set := Some r\<rparr>) else None)"
| "ss_step (CallSubscribe c) s =
     (if ss_consumer s = CoNone
      then Some (s\<lparr>ss_consumer := CoHasResult c, ss_subscribed := Some c\<rparr>) else None)"
| "ss_step CallGetResult s =
     (if ss_consumer s = CoNone then Some (s\<lparr>ss_consumer := CoBlock\<rparr>) else None)"
| "ss_step CallIsReady s =
     (if ss_consumer s = CoNone then Some (s\<lparr>ss_consumer := CoPoll\<rparr>) else None)"
| "ss_step ProducerGo s = SharedState_SetResult s"
| "ss_step ConsumerGo s =
     (case ss_consumer s of
        CoNone \<Rightarrow> None
      | CoParked \<Rightarrow> None
      | CoReturned \<Rightarrow> None
      | CoBlock \<Rightarrow> Future_GetResult s
      | CoGetStore \<Rightarrow> Future_GetResult s
      | CoGetMove \<Rightarrow> Future_GetResult s
      | CoPoll \<Rightarrow> Future_IsReady s
      | _ \<Rightarrow> Future_Subscribe s)"

section \<open>Invariant\<close>

text \<open>The result is stored exactly when the producer is past its first access.\<close>

fun result_stored :: "('r, 'c) producer_pc \<Rightarrow> bool" where
  "result_stored PrNone = False"
| "result_stored (PrEmplace r) = False"
| "result_stored _ = True"

definition result_inv :: "('r, 'c) shared_state \<Rightarrow> bool" where
  "result_inv s \<longleftrightarrow>
     ss_result s = (if result_stored (ss_producer s) then ss_set s else None) \<and>
     (ss_set s = None \<longleftrightarrow> ss_producer s = PrNone) \<and>
     (\<forall>r. ss_producer s = PrEmplace r \<longrightarrow> ss_set s = Some r)"

fun consumer_callback :: "('r, 'c) consumer_pc \<Rightarrow> 'c option" where
  "consumer_callback (CoHasResult c) = Some c"
| "consumer_callback (CoReadyStore c) = Some c"
| "consumer_callback (CoReadyMove c) = Some c"
| "consumer_callback (CoPass c) = Some c"
| "consumer_callback _ = None"

fun callback_stored :: "('r, 'c) consumer_pc \<Rightarrow> bool" where
  "callback_stored CoPassCas = True"
| "callback_stored (CoVerify e) = True"
| "callback_stored CoPassStore = True"
| "callback_stored CoPassMove = True"
| "callback_stored _ = False"

fun synchronous :: "('r, 'c) consumer_pc \<Rightarrow> bool" where
  "synchronous CoNone = True"
| "synchronous CoBlock = True"
| "synchronous CoParked = True"
| "synchronous CoPoll = True"
| "synchronous CoGetStore = True"
| "synchronous CoGetMove = True"
| "synchronous _ = False"

definition callback_inv :: "('r, 'c) shared_state \<Rightarrow> bool" where
  "callback_inv s \<longleftrightarrow>
     (\<forall>c. consumer_callback (ss_consumer s) = Some c \<longrightarrow> ss_subscribed s = Some c) \<and>
     (callback_stored (ss_consumer s) \<longrightarrow> ss_callback s = ss_subscribed s \<and> ss_subscribed s \<noteq> None) \<and>
     (synchronous (ss_consumer s) \<longrightarrow> ss_subscribed s = None)"

text \<open>What is delivered when the race is over: one callback, or one synchronous result.\<close>

definition delivered :: "('r, 'c) shared_state \<Rightarrow> bool" where
  "delivered s \<longleftrightarrow>
     (case (ss_subscribed s, ss_set s) of
        (Some c, Some r) \<Rightarrow> ss_ran s = [(ss_executor s, c, r)] \<and> ss_got s = []
      | (None, Some r) \<Rightarrow> ss_ran s = [] \<and> ss_got s = [r]
      | _ \<Rightarrow> False)"

definition nothing_delivered :: "('r, 'c) shared_state \<Rightarrow> bool" where
  "nothing_delivered s \<longleftrightarrow> ss_ran s = [] \<and> ss_got s = []"

fun race_inv :: "subscription_state \<Rightarrow> ('r, 'c) shared_state \<Rightarrow> bool" where
  "race_inv SubStart s \<longleftrightarrow> nothing_delivered s \<and>
     (ss_producer s = PrNone \<or> (\<exists>r. ss_producer s = PrEmplace r) \<or> ss_producer s = PrCas) \<and>
     (ss_consumer s \<in> {CoNone, CoPassCas, CoBlock, CoParked, CoPoll} \<or>
      (\<exists>c. ss_consumer s = CoHasResult c \<or> ss_consumer s = CoPass c))"
| "race_inv SubOnlyResult s \<longleftrightarrow> nothing_delivered s \<and>
     (ss_producer s = PrNotify \<or> ss_producer s = PrReturned) \<and>
     (ss_consumer s = CoParked \<longrightarrow> ss_producer s = PrNotify) \<and>
     ss_consumer s \<notin> {CoPassMove, CoGetMove, CoReturned} \<and>
     (\<forall>c. ss_consumer s \<noteq> CoReadyMove c) \<and> (\<forall>e. ss_consumer s = CoVerify e \<longrightarrow> e = SubOnlyResult)"
| "race_inv SubOnlyCallback s \<longleftrightarrow> nothing_delivered s \<and> ss_consumer s = CoReturned \<and>
     ss_callback s = ss_subscribed s \<and> ss_subscribed s \<noteq> None \<and>
     (ss_producer s \<in> {PrNone, PrCas, PrStoreDone, PrVerify SubOnlyCallback} \<or>
      (\<exists>r. ss_producer s = PrEmplace r))"
| "race_inv SubDone s \<longleftrightarrow>
     (ss_producer s = PrMove \<and> ss_consumer s = CoReturned \<and> nothing_delivered s \<and>
        ss_callback s = ss_subscribed s \<and> ss_subscribed s \<noteq> None) \<or>
     (ss_producer s \<in> {PrNotify, PrReturned} \<and>
        (ss_consumer s \<in> {CoPassMove, CoGetMove} \<or> (\<exists>c. ss_consumer s = CoReadyMove c)) \<and>
        nothing_delivered s) \<or>
     (ss_producer s \<in> {PrNotify, PrReturned} \<and> ss_consumer s = CoReturned \<and> delivered s)"

definition ss_inv :: "('r, 'c) shared_state \<Rightarrow> bool" where
  "ss_inv s \<longleftrightarrow> \<not> ss_abort s \<and> result_inv s \<and> callback_inv s \<and> race_inv (ss_state s) s"

lemmas ss_op_defs = SharedState_SetResult_def SharedState_PassCallback_def Future_Subscribe_def
  Future_GetResult_def Future_IsReady_def SharedState_BlockForResult_def GetReadyResult_store_def
  GetReadyResult_move_def execute_stored_def SharedState_Execute_def SharedState_HasResult_def

lemmas ss_inv_defs = ss_inv_def result_inv_def callback_inv_def nothing_delivered_def delivered_def

lemma ss_inv_ctor: "ss_inv (SharedState_ctor e)"
  by (simp add: ss_inv_defs SharedState_ctor_def)

text \<open>Updates that the parts of the invariant do not depend on.\<close>

lemma result_inv_frame [simp]:
  "result_inv (s\<lparr>ss_consumer := c\<rparr>) = result_inv s" "result_inv (s\<lparr>ss_state := st\<rparr>) = result_inv s"
  "result_inv (s\<lparr>ss_callback := cb\<rparr>) = result_inv s" "result_inv (s\<lparr>ss_ran := rn\<rparr>) = result_inv s"
  "result_inv (s\<lparr>ss_got := g\<rparr>) = result_inv s" "result_inv (s\<lparr>ss_subscribed := u\<rparr>) = result_inv s"
  by (simp_all add: result_inv_def)

lemma callback_inv_frame [simp]:
  "callback_inv (s\<lparr>ss_producer := p\<rparr>) = callback_inv s" "callback_inv (s\<lparr>ss_state := st\<rparr>) = callback_inv s"
  "callback_inv (s\<lparr>ss_result := r\<rparr>) = callback_inv s" "callback_inv (s\<lparr>ss_ran := rn\<rparr>) = callback_inv s"
  "callback_inv (s\<lparr>ss_got := g\<rparr>) = callback_inv s" "callback_inv (s\<lparr>ss_set := v\<rparr>) = callback_inv s"
  by (simp_all add: callback_inv_def)

lemma nothing_delivered_frame [simp]:
  "nothing_delivered (s\<lparr>ss_consumer := c\<rparr>) = nothing_delivered s"
  "nothing_delivered (s\<lparr>ss_producer := p\<rparr>) = nothing_delivered s"
  "nothing_delivered (s\<lparr>ss_state := st\<rparr>) = nothing_delivered s"
  "nothing_delivered (s\<lparr>ss_callback := cb\<rparr>) = nothing_delivered s"
  "nothing_delivered (s\<lparr>ss_result := r\<rparr>) = nothing_delivered s"
  "nothing_delivered (s\<lparr>ss_set := v\<rparr>) = nothing_delivered s"
  "nothing_delivered (s\<lparr>ss_subscribed := u\<rparr>) = nothing_delivered s"
  by (simp_all add: nothing_delivered_def)

lemma delivered_frame [simp]:
  "delivered (s\<lparr>ss_consumer := c\<rparr>) = delivered s" "delivered (s\<lparr>ss_producer := p\<rparr>) = delivered s"
  by (simp_all add: delivered_def split: option.split)

text \<open>The producer moves on, with the result it has stored.\<close>

lemma result_inv_producer:
  "result_inv s \<Longrightarrow> result_stored (ss_producer s) \<Longrightarrow> result_stored p \<Longrightarrow>
   result_inv (s\<lparr>ss_producer := p\<rparr>)"
  by (cases p) (auto simp: result_inv_def)

lemma result_available:
  "result_inv s \<Longrightarrow> result_stored (ss_producer s) \<Longrightarrow> \<exists>r. ss_result s = Some r \<and> ss_set s = Some r"
  by (cases "ss_set s") (auto simp: result_inv_def)

text \<open>The consumer moves on.\<close>

lemma callback_inv_consumer:
  "callback_inv s \<Longrightarrow>
   consumer_callback c = None \<or> consumer_callback c = consumer_callback (ss_consumer s) \<Longrightarrow>
   (callback_stored c \<Longrightarrow> callback_stored (ss_consumer s)) \<Longrightarrow>
   (synchronous c \<Longrightarrow> synchronous (ss_consumer s)) \<Longrightarrow> callback_inv (s\<lparr>ss_consumer := c\<rparr>)"
  by (auto simp: callback_inv_def)

lemma callback_inv_pass:
  "callback_inv s \<Longrightarrow> ss_consumer s = CoPass c \<Longrightarrow>
   callback_inv (s\<lparr>ss_callback := Some c, ss_consumer := CoPassCas\<rparr>)"
  by (auto simp: callback_inv_def)

lemma execute_stored_delivers:
  assumes "nothing_delivered s" "ss_callback s = ss_subscribed s" "ss_subscribed s \<noteq> None"
    "ss_result s = Some r" "ss_set s = Some r"
  shows "delivered (execute_stored s)" "\<not> ss_abort s \<Longrightarrow> \<not> ss_abort (execute_stored s)"
    "ss_state (execute_stored s) = ss_state s" "ss_producer (execute_stored s) = ss_producer s"
    "ss_consumer (execute_stored s) = ss_consumer s" "result_inv (execute_stored s) = result_inv s"
    "callback_inv (execute_stored s) = callback_inv s"
  using assms
  by (auto simp: delivered_def nothing_delivered_def execute_stored_def GetReadyResult_move_def
      SharedState_Execute_def)

lemma ss_inv_producer:
  assumes inv: "ss_inv s" and step: "SharedState_SetResult s = Some s'"
  shows "ss_inv s'"
proof -
  have res: "result_inv s" and cb: "callback_inv s" and ab: "\<not> ss_abort s" and race: "race_inv (ss_state s) s"
    using inv by (simp_all add: ss_inv_def)
  show ?thesis
  proof (cases "ss_producer s")
    case (PrEmplace r)
    with step have s': "s' = s\<lparr>ss_result := Some r, ss_producer := PrCas\<rparr>"
      by (simp add: SharedState_SetResult_def)
    have "result_inv s'" using res PrEmplace by (simp add: result_inv_def s')
    with race cb ab PrEmplace show ?thesis by (cases "ss_state s") (simp_all add: ss_inv_def s')
  next
    case PrCas
    with race step show ?thesis using res cb ab
      by (cases "ss_state s")
        (auto simp: SharedState_SetResult_def ss_inv_def intro!: result_inv_producer)
  next
    case PrNotify
    show ?thesis
    proof (cases "ss_consumer s = CoParked")
      case True
      with PrNotify step have s': "s' = s\<lparr>ss_producer := PrReturned, ss_consumer := CoBlock\<rparr>"
        by (simp add: SharedState_SetResult_def)
      have "callback_inv s'" using cb True by (simp add: s' callback_inv_def)
      moreover have "result_inv s'" using res PrNotify by (simp add: s' result_inv_producer)
      ultimately show ?thesis using race ab True PrNotify
        by (cases "ss_state s") (auto simp: ss_inv_def s')
    next
      case False
      with PrNotify step have s': "s' = s\<lparr>ss_producer := PrReturned\<rparr>"
        by (cases s) (simp add: SharedState_SetResult_def)
      have "result_inv s'" using res PrNotify by (simp add: s' result_inv_producer)
      with race cb ab False PrNotify show ?thesis
        by (cases "ss_state s") (auto simp: ss_inv_def s')
    qed
  next
    case (PrVerify e)
    with race step show ?thesis using res cb ab
      by (cases "ss_state s") (auto simp: SharedState_SetResult_def ss_inv_def intro!: result_inv_producer)
  next
    case PrStoreDone
    with race step show ?thesis using res cb ab
      by (cases "ss_state s")
        (auto simp: SharedState_SetResult_def GetReadyResult_store_def ss_inv_def intro!: result_inv_producer)
  next
    case PrMove
    then have st: "ss_state s = SubDone" "ss_consumer s = CoReturned" "nothing_delivered s"
        "ss_callback s = ss_subscribed s" "ss_subscribed s \<noteq> None"
      using race by (cases "ss_state s"; auto)+
    from PrMove res obtain r where r: "ss_result s = Some r" "ss_set s = Some r"
      using result_available [of s] by auto
    note ex = execute_stored_delivers [OF st(3-5) r]
    have s': "s' = (execute_stored s)\<lparr>ss_producer := PrReturned\<rparr>"
      using PrMove step by (simp add: SharedState_SetResult_def)
    have "result_inv s'" using ex(4,6) res PrMove by (simp add: s' result_inv_producer)
    then show ?thesis using ex ab cb st by (simp add: ss_inv_def s')
  qed (use step in \<open>simp_all add: SharedState_SetResult_def\<close>)
qed

text \<open>Steps of the consumer that only move it on, and its three ways to take the result.\<close>

lemma ss_inv_consumer_moves:
  assumes inv: "ss_inv s" and cb: "callback_inv (s\<lparr>ss_consumer := c\<rparr>)"
    and race: "race_inv (ss_state s) (s\<lparr>ss_consumer := c\<rparr>)"
  shows "ss_inv (s\<lparr>ss_consumer := c\<rparr>)"
  using assms by (simp add: ss_inv_def)

lemma ss_inv_consumer_store:
  assumes inv: "ss_inv s" and st: "ss_state s = SubOnlyResult"
    and cb: "callback_inv (s\<lparr>ss_consumer := c\<rparr>)"
    and c: "c \<in> {CoPassMove, CoGetMove} \<or> (\<exists>d. c = CoReadyMove d)"
  shows "ss_inv ((GetReadyResult_store s)\<lparr>ss_consumer := c\<rparr>)"
proof -
  have "callback_inv (s\<lparr>ss_state := SubDone, ss_consumer := c\<rparr>)"
    using cb by (simp add: callback_inv_def)
  then show ?thesis using inv st c by (auto simp: ss_inv_def GetReadyResult_store_def)
qed

lemma ss_inv_consumer_takes:
  assumes inv: "ss_inv s" and st: "ss_state s = SubDone" and d: "delivered x"
    and frame: "ss_producer x = ss_producer s" "ss_state x = ss_state s" "\<not> ss_abort x"
      "result_inv x = result_inv s" "callback_inv (x\<lparr>ss_consumer := CoReturned\<rparr>)"
    and p: "ss_producer s \<in> {PrNotify, PrReturned}"
  shows "ss_inv (x\<lparr>ss_consumer := CoReturned\<rparr>)"
  using assms by (auto simp: ss_inv_def)

lemma ss_inv_consumer_done:
  assumes inv: "ss_inv s" and st: "ss_state s = SubDone" and step: "ss_step ConsumerGo s = Some s'"
  shows "ss_inv s'"
proof -
  have res: "result_inv s" and cb: "callback_inv s" and ab: "\<not> ss_abort s"
    and p: "ss_producer s \<in> {PrNotify, PrReturned}"
    and co: "ss_consumer s \<in> {CoPassMove, CoGetMove} \<or> (\<exists>c. ss_consumer s = CoReadyMove c)"
    and nd: "nothing_delivered s"
    using inv st step by (auto simp: ss_inv_def)
  from p have "result_stored (ss_producer s)" by auto
  with res obtain r where r: "ss_result s = Some r" "ss_set s = Some r"
    using result_available [of s] by blast
  from co consider "ss_consumer s = CoPassMove" | "ss_consumer s = CoGetMove"
    | c where "ss_consumer s = CoReadyMove c" by blast
  then show ?thesis
  proof cases
    case 1
    then have c: "ss_callback s = ss_subscribed s" "ss_subscribed s \<noteq> None"
      using cb by (simp_all add: callback_inv_def)
    have s': "s' = (execute_stored s)\<lparr>ss_consumer := CoReturned\<rparr>" using 1 step by (simp add: ss_op_defs)
    show ?thesis unfolding s' using inv st
      by (rule ss_inv_consumer_takes)
        (use execute_stored_delivers [OF nd c r] ab cb p in \<open>simp_all add: callback_inv_def\<close>)
  next
    case 2
    let ?x = "s\<lparr>ss_got := ss_got s @ [r]\<rparr>"
    have "ss_subscribed s = None" using 2 cb by (simp add: callback_inv_def)
    then have d: "delivered ?x" using nd r by (simp add: delivered_def nothing_delivered_def)
    have s': "s' = ?x\<lparr>ss_consumer := CoReturned\<rparr>" using 2 step r by (simp add: ss_op_defs)
    show ?thesis unfolding s' using inv st d
      by (rule ss_inv_consumer_takes) (use ab cb p in \<open>simp_all add: callback_inv_def\<close>)
  next
    case (3 c)
    let ?x = "SharedState_Execute c r s"
    have "ss_subscribed s = Some c" using 3 cb by (simp add: callback_inv_def)
    then have d: "delivered ?x" using nd r
      by (simp add: delivered_def nothing_delivered_def SharedState_Execute_def)
    have s': "s' = ?x\<lparr>ss_consumer := CoReturned\<rparr>" using 3 step r by (simp add: ss_op_defs)
    show ?thesis unfolding s' using inv st d
      by (rule ss_inv_consumer_takes)
        (use ab cb p in \<open>simp_all add: callback_inv_def SharedState_Execute_def\<close>)
  qed
qed

lemma ss_inv_consumer_ready:
  assumes inv: "ss_inv s" and st: "ss_state s = SubOnlyResult" and step: "ss_step ConsumerGo s = Some s'"
  shows "ss_inv s'"
proof -
  have cb: "callback_inv s" and race: "race_inv SubOnlyResult s"
    using inv st by (simp_all add: ss_inv_def)
  note move = ss_inv_consumer_moves [OF inv, unfolded st] and store = ss_inv_consumer_store [OF inv st]
  show ?thesis
  proof (cases "ss_consumer s")
    case (CoPass c)
    with step have s': "s' = s\<lparr>ss_callback := Some c, ss_consumer := CoPassCas\<rparr>" by (simp add: ss_op_defs)
    have "callback_inv s'" unfolding s' using cb CoPass by (rule callback_inv_pass)
    with inv race st s' CoPass show ?thesis by (simp add: ss_inv_def)
  next
    case (CoHasResult c)
    with step st have s': "s' = s\<lparr>ss_consumer := CoReadyStore c\<rparr>" by (simp add: ss_op_defs)
    show ?thesis unfolding s' by (rule move) (use cb race CoHasResult in \<open>simp_all add: callback_inv_def\<close>)
  next
    case CoPassCas
    with step st have s': "s' = s\<lparr>ss_consumer := CoVerify SubOnlyResult\<rparr>" by (simp add: ss_op_defs)
    show ?thesis unfolding s' by (rule move) (use cb race CoPassCas in \<open>simp_all add: callback_inv_def\<close>)
  next
    case (CoVerify e)
    with step race have s': "s' = s\<lparr>ss_consumer := CoPassStore\<rparr>" by (simp add: ss_op_defs)
    show ?thesis unfolding s' by (rule move) (use cb race CoVerify in \<open>simp_all add: callback_inv_def\<close>)
  next
    case CoBlock
    with step st have s': "s' = s\<lparr>ss_consumer := CoGetStore\<rparr>" by (simp add: ss_op_defs)
    show ?thesis unfolding s' by (rule move) (use cb race CoBlock in \<open>simp_all add: callback_inv_def\<close>)
  next
    case CoPoll
    with step st have s': "s' = s\<lparr>ss_consumer := CoGetStore\<rparr>" by (simp add: ss_op_defs)
    show ?thesis unfolding s' by (rule move) (use cb race CoPoll in \<open>simp_all add: callback_inv_def\<close>)
  next
    case (CoReadyStore c)
    with step have s': "s' = (GetReadyResult_store s)\<lparr>ss_consumer := CoReadyMove c\<rparr>"
      by (simp add: Future_Subscribe_def SharedState_PassCallback_def Future_GetResult_def)
    show ?thesis unfolding s' by (rule store) (use cb CoReadyStore in \<open>simp_all add: callback_inv_def\<close>)
  next
    case CoPassStore
    with step have s': "s' = (GetReadyResult_store s)\<lparr>ss_consumer := CoPassMove\<rparr>"
      by (simp add: Future_Subscribe_def SharedState_PassCallback_def Future_GetResult_def)
    show ?thesis unfolding s' by (rule store) (use cb CoPassStore in \<open>simp_all add: callback_inv_def\<close>)
  next
    case CoGetStore
    with step have s': "s' = (GetReadyResult_store s)\<lparr>ss_consumer := CoGetMove\<rparr>"
      by (simp add: Future_Subscribe_def SharedState_PassCallback_def Future_GetResult_def)
    show ?thesis unfolding s' by (rule store) (use cb CoGetStore in \<open>simp_all add: callback_inv_def\<close>)
  qed (use step race in simp_all)
qed

lemma ss_inv_consumer_start:
  assumes inv: "ss_inv s" and st: "ss_state s = SubStart" and step: "ss_step ConsumerGo s = Some s'"
  shows "ss_inv s'"
proof -
  have cb: "callback_inv s" and race: "race_inv SubStart s" using inv st by (simp_all add: ss_inv_def)
  note move = ss_inv_consumer_moves [OF inv, unfolded st]
  show ?thesis
  proof (cases "ss_consumer s")
    case (CoHasResult c)
    with step st have s': "s' = s\<lparr>ss_consumer := CoPass c\<rparr>" by (simp add: ss_op_defs)
    show ?thesis unfolding s' by (rule move) (use cb race CoHasResult in \<open>simp_all add: callback_inv_def\<close>)
  next
    case (CoPass c)
    with step have s': "s' = s\<lparr>ss_callback := Some c, ss_consumer := CoPassCas\<rparr>" by (simp add: ss_op_defs)
    have "callback_inv s'" unfolding s' using cb CoPass by (rule callback_inv_pass)
    with inv race st s' CoPass show ?thesis by (simp add: ss_inv_def)
  next
    case CoPassCas
    with step st have s': "s' = s\<lparr>ss_state := SubOnlyCallback, ss_consumer := CoReturned\<rparr>"
      by (simp add: ss_op_defs)
    have "callback_inv s'" "ss_callback s = ss_subscribed s" "ss_subscribed s \<noteq> None"
      using cb CoPassCas by (simp_all add: s' callback_inv_def)
    with inv race show ?thesis by (auto simp: ss_inv_def s')
  next
    case CoBlock
    with step st have s': "s' = s\<lparr>ss_consumer := CoParked\<rparr>" by (simp add: ss_op_defs)
    show ?thesis unfolding s' by (rule move) (use cb race CoBlock in \<open>simp_all add: callback_inv_def\<close>)
  next
    case CoPoll
    with step st have s': "s' = s\<lparr>ss_consumer := CoNone\<rparr>" by (simp add: ss_op_defs)
    show ?thesis unfolding s' by (rule move) (use cb race CoPoll in \<open>simp_all add: callback_inv_def\<close>)
  qed (use step race in simp_all)
qed

lemma ss_inv_consumer:
  assumes inv: "ss_inv s" and step: "ss_step ConsumerGo s = Some s'"
  shows "ss_inv s'"
proof (cases "ss_state s")
  case SubStart
  show ?thesis by (rule ss_inv_consumer_start [OF inv SubStart step])
next
  case SubOnlyResult
  show ?thesis by (rule ss_inv_consumer_ready [OF inv SubOnlyResult step])
next
  case SubOnlyCallback
  with inv step show ?thesis by (simp add: ss_inv_def)
next
  case SubDone
  show ?thesis by (rule ss_inv_consumer_done [OF inv SubDone step])
qed

lemma ss_inv_step:
  assumes inv: "ss_inv s" and step: "ss_step l s = Some s'"
  shows "ss_inv s'"
proof (cases l)
  case ProducerGo
  with inv step show ?thesis using ss_inv_producer by simp
next
  case ConsumerGo
  with inv step show ?thesis using ss_inv_consumer by simp
next
  case (CallSetResult r)
  with step have c: "ss_producer s = PrNone" "s' = s\<lparr>ss_producer := PrEmplace r, ss_set := Some r\<rparr>"
    by (simp_all split: if_splits)
  have "result_inv s'" using inv c by (simp add: ss_inv_def result_inv_def)
  with inv c show ?thesis by (cases "ss_state s") (simp_all add: ss_inv_def)
next
  case (CallSubscribe c)
  with step have c: "ss_consumer s = CoNone" "s' = s\<lparr>ss_consumer := CoHasResult c, ss_subscribed := Some c\<rparr>"
    by (simp_all split: if_splits)
  have "callback_inv s'" using c by (simp add: callback_inv_def)
  with inv c show ?thesis by (cases "ss_state s") (simp_all add: ss_inv_def)
next
  case CallGetResult
  with step have c: "ss_consumer s = CoNone" "s' = s\<lparr>ss_consumer := CoBlock\<rparr>"
    by (simp_all split: if_splits)
  have "callback_inv s'" using inv c by (simp add: ss_inv_def callback_inv_def)
  with inv c show ?thesis by (cases "ss_state s") (simp_all add: ss_inv_def)
next
  case CallIsReady
  with step have c: "ss_consumer s = CoNone" "s' = s\<lparr>ss_consumer := CoPoll\<rparr>"
    by (simp_all split: if_splits)
  have "callback_inv s'" using inv c by (simp add: ss_inv_def callback_inv_def)
  with inv c show ?thesis by (cases "ss_state s") (simp_all add: ss_inv_def)
qed

interpretation ss: invariant_system ss_step "SharedState_ctor e" ss_inv for e
  by unfold_locales (fact ss_inv_ctor, fact ss_inv_step)

section \<open>Properties\<close>

text \<open>C4: Whatever the interleaving of \<open>SetResult\<close> with \<open>Subscribe\<close>, \<open>GetResult\<close> or polling, no
  \<open>WHEELS_VERIFY\<close> fails and no empty \<open>optional\<close> is accessed; nothing is delivered twice; and once
  both sides have returned, the result of the promise has been delivered exactly once: to the
  subscribed callback (through the executor if there is one), or to the caller of \<open>GetResult\<close>.\<close>

theorem SharedState_delivers_exactly_once:
  assumes "reachable ss_step (SharedState_ctor e) s"
  shows "\<not> ss_abort s \<and> length (ss_ran s) + length (ss_got s) \<le> 1 \<and>
    (ss_producer s = PrReturned \<and> ss_consumer s = CoReturned \<longrightarrow>
       (\<exists>r. ss_set s = Some r \<and>
          (case ss_subscribed s of
             Some c \<Rightarrow> ss_ran s = [(ss_executor s, c, r)] \<and> ss_got s = []
           | None \<Rightarrow> ss_ran s = [] \<and> ss_got s = [r])))"
proof -
  have inv: "ss_inv s" using assms by (rule ss.inv_reachable)
  have one: "nothing_delivered s \<or> delivered s"
    using inv by (cases "ss_state s") (auto simp: ss_inv_def)
  have "length (ss_ran s) + length (ss_got s) \<le> 1"
    using one by (auto simp: nothing_delivered_def delivered_def split: option.splits)
  moreover have "delivered s" if "ss_producer s = PrReturned" "ss_consumer s = CoReturned"
    using inv that by (cases "ss_state s") (auto simp: ss_inv_def)
  ultimately show ?thesis
    using inv by (auto simp: ss_inv_def delivered_def split: option.splits)
qed

theorem SharedState_delivers_exactly_once_witness:
  "\<exists>s :: (nat, string) shared_state. reachable ss_step (SharedState_ctor True) s \<and>
     ss_producer s = PrReturned \<and> ss_consumer s = CoReturned \<and> ss_subscribed s = Some ''cb'' \<and>
     ss_ran s = [(True, ''cb'', 42)]"
proof -
  let ?race = "[CallSubscribe ''cb'', ConsumerGo, CallSetResult 42, ProducerGo, ConsumerGo, ProducerGo,
      ConsumerGo, ProducerGo, ConsumerGo, ConsumerGo, ConsumerGo]"
  obtain s where s: "run ss_step ?race (SharedState_ctor True) = Some (s :: (nat, string) shared_state)"
    and p: "ss_producer s = PrReturned" "ss_consumer s = CoReturned" "ss_subscribed s = Some ''cb''"
      "ss_set s = Some 42" "ss_executor s"
    by (simp add: SharedState_ctor_def ss_op_defs)
  have r: "reachable ss_step (SharedState_ctor True) s" using s by (rule run_reachable)
  from SharedState_delivers_exactly_once [OF r] r p show ?thesis by auto
qed

text \<open>C24: A blocked \<open>GetResult\<close> is not forgotten and no side gets stuck: the consumer is asleep only
  while the promise is unfulfilled or its notification is still to come; and a side that has
  been called and has not returned can make its next step, unless it is that sleeping consumer.\<close>

theorem SharedState_no_lost_wakeup:
  assumes "reachable ss_step (SharedState_ctor e) s"
  shows "(ss_consumer s = CoParked \<longrightarrow> ss_producer s \<noteq> PrReturned) \<and>
    (ss_producer s \<notin> {PrNone, PrReturned} \<longrightarrow> ss_step ProducerGo s \<noteq> None) \<and>
    (ss_consumer s \<notin> {CoNone, CoParked, CoReturned} \<longrightarrow> ss_step ConsumerGo s \<noteq> None)"
proof (intro conjI impI)
  have inv: "ss_inv s" using assms by (rule ss.inv_reachable)
  show "ss_producer s \<noteq> PrReturned" if "ss_consumer s = CoParked"
    using inv that by (cases "ss_state s") (auto simp: ss_inv_def)
  show "ss_step ProducerGo s \<noteq> None" if "ss_producer s \<notin> {PrNone, PrReturned}"
    using that by (cases "ss_producer s") (auto simp: SharedState_SetResult_def)
  show "ss_step ConsumerGo s \<noteq> None" if "ss_consumer s \<notin> {CoNone, CoParked, CoReturned}"
    using that by (cases "ss_consumer s") (auto simp: ss_op_defs)
qed

theorem SharedState_no_lost_wakeup_witness:
  "\<exists>s :: (nat, string) shared_state. reachable ss_step (SharedState_ctor False) s \<and>
     ss_consumer s = CoParked \<and> ss_producer s \<noteq> PrReturned \<and> ss_step ProducerGo s \<noteq> None"
proof -
  obtain s where s: "run ss_step [CallGetResult, ConsumerGo, CallSetResult 42, ProducerGo, ProducerGo]
      (SharedState_ctor False) = Some (s :: (nat, string) shared_state)"
    and p: "ss_consumer s = CoParked" "ss_producer s = PrNotify"
    by (simp add: SharedState_ctor_def ss_op_defs)
  have r: "reachable ss_step (SharedState_ctor False) s" using s by (rule run_reachable)
  from SharedState_no_lost_wakeup [OF r] p have "ss_step ProducerGo s \<noteq> None" by (simp del: ss_step.simps)
  with r p show ?thesis by (intro exI [of _ s]) (simp del: ss_step.simps)
qed

end
