(* ===== verification/Futures.thy ===== *)
theory Futures
  imports Shared_State
begin

text \<open>
  Futures and promises as handles on a store of shared states (\<^verbatim>\<open>futures/core/future.ipp\<close>,
  \<^verbatim>\<open>promise.hpp\<close>, \<^verbatim>\<open>util/async.hpp\<close>), and the combinators built on \<open>Subscribe\<close>. Here the
  accesses of one operation happen in one piece (their interleaving is the subject of
  \<open>Shared_State\<close>); what is modelled is how callbacks run each other: on the spot, nested inside
  the operation that completes the race, or later by an executor.

  \<open>wheels::Result\<close> is a sum: \<open>Inl e\<close> an error, \<open>Inr v\<close> a value. Two functions of the library
  \<^verbatim>\<open>wheels\<close> are parameters: \<open>tv\<close>, the implicit conversion of a \<open>Result\<close> to its value that
  \<open>SetValue(std::move(result))\<close> uses (\<open>Inl e\<close>: it throws \<open>e\<close>), and \<open>invoke\<close>, which is
  \<open>make_result::Invoke\<close>. A function passed by the user returns (\<open>Inr\<close>) or throws (\<open>Inl\<close>).
\<close>

section \<open>The store\<close>

type_synonym state_ref = nat
type_synonym executor_id = nat

datatype ('e, 'v) async_future =
    AsyncReady "'e + 'v"        \<comment> \<open>\<open>Future::Completed\<close> or \<open>Future::Failed\<close>\<close>
  | AsyncRef state_ref          \<comment> \<open>a future of a contract made elsewhere\<close>

text \<open>Callbacks, by the lambda expressions of the source that create them. The first three are those of the user: each is
  known by a number, and it returns, throws, or calls back into the library, fulfilling a promise that it owns.\<close>

datatype ('e, 'v) callback =
    CbUser nat
  | CbUserThrows nat 'e
  | CbUserSets nat "'e + 'v \<Rightarrow> 'e + 'v" state_ref
  | CbTransform "'e + 'v \<Rightarrow> 'e + ('e + 'v)" state_ref
  | CbAsyncTransform "'e + 'v \<Rightarrow> 'e + ('e, 'v) async_future" state_ref
  | CbForward state_ref

datatype ('e, 'v) future_task =
    TaskCallback "('e, 'v) callback" "'e + 'v"
  | TaskTarget "'e + 'v" state_ref        \<comment> \<open>the task of \<open>AsyncVia\<close>, by what \<open>target()\<close> does\<close>

record ('e, 'v) fstate =
  fs_state :: subscription_state
  fs_callback :: "('e, 'v) callback option"
  fs_result :: "('e + 'v) option"
  fs_executor :: "executor_id option"

record ('e, 'v) store =
  fstates :: "('e, 'v) fstate list"
  ftasks :: "(executor_id \<times> ('e, 'v) future_task) list"    \<comment> \<open>handed to executors, oldest first\<close>
  flog :: "(nat \<times> ('e + 'v)) list"                          \<comment> \<open>runs of user callbacks\<close>

datatype ('e, 'v) outcome =
    Returned "('e, 'v) store"
  | Threw 'e "('e, 'v) store"
  | Aborted                     \<comment> \<open>a \<open>WHEELS_VERIFY\<close> failed\<close>
  | NoFuel

definition MakeSharedState :: "('e, 'v) store \<Rightarrow> state_ref \<times> ('e, 'v) store" where
  "MakeSharedState S =
     (length (fstates S),
      S\<lparr>fstates := fstates S @
         [\<lparr>fs_state = SubStart, fs_callback = None, fs_result = None, fs_executor = None\<rparr>]\<rparr>)"

definition upd_state :: "state_ref \<Rightarrow> (('e, 'v) fstate \<Rightarrow> ('e, 'v) fstate) \<Rightarrow> ('e, 'v) store \<Rightarrow> ('e, 'v) store" where
  "upd_state i f S = S\<lparr>fstates := (fstates S)[i := f (fstates S ! i)]\<rparr>"

definition SetExecutor :: "executor_id option \<Rightarrow> state_ref \<Rightarrow> ('e, 'v) store \<Rightarrow> ('e, 'v) store" where
  "SetExecutor x i S = upd_state i (fs_executor_update (\<lambda>_. x)) S"

definition GetExecutor :: "state_ref \<Rightarrow> ('e, 'v) store \<Rightarrow> executor_id option" where
  "GetExecutor i S = fs_executor (fstates S ! i)"

section \<open>Completing a race, and running callbacks\<close>

text \<open>The operations that call each other, each with the others reached through \<open>call\<close>.\<close>

datatype ('e, 'v) future_op =
    OpSetResult state_ref "'e + 'v"
  | OpExecute state_ref "('e, 'v) callback" "'e + 'v"
  | OpSubscribe state_ref "('e, 'v) callback"
  | OpCallback "('e, 'v) callback" "'e + 'v"

type_synonym ('e, 'v) future_call = "('e, 'v) future_op \<Rightarrow> ('e, 'v) store \<Rightarrow> ('e, 'v) outcome"

definition state_SetResult :: "('e, 'v) future_call \<Rightarrow> state_ref \<Rightarrow> 'e + 'v \<Rightarrow> ('e, 'v) store \<Rightarrow> ('e, 'v) outcome" where
  "state_SetResult call i r S =
     (let S1 = upd_state i (fs_result_update (\<lambda>_. Some r)) S
      in case fs_state (fstates S ! i) of
           SubStart \<Rightarrow> Returned (upd_state i (fs_state_update (\<lambda>_. SubOnlyResult)) S1)
         | SubOnlyCallback \<Rightarrow>
             (case fs_callback (fstates S ! i) of
                None \<Rightarrow> Aborted
              | Some cb \<Rightarrow> call (OpExecute i cb r) (upd_state i (fs_state_update (\<lambda>_. SubDone)) S1))
         | _ \<Rightarrow> Aborted)"

definition state_Execute ::
    "('e, 'v) future_call \<Rightarrow> state_ref \<Rightarrow> ('e, 'v) callback \<Rightarrow> 'e + 'v \<Rightarrow> ('e, 'v) store \<Rightarrow> ('e, 'v) outcome" where
  "state_Execute call i cb r S =
     (case fs_executor (fstates S ! i) of
        Some x \<Rightarrow> Returned (S\<lparr>ftasks := ftasks S @ [(x, TaskCallback cb r)]\<rparr>)
      | None \<Rightarrow> call (OpCallback cb r) S)"

definition state_PassCallback ::
    "('e, 'v) future_call \<Rightarrow> state_ref \<Rightarrow> ('e, 'v) callback \<Rightarrow> ('e, 'v) store \<Rightarrow> ('e, 'v) outcome" where
  "state_PassCallback call i cb S =
     (let S1 = upd_state i (fs_callback_update (\<lambda>_. Some cb)) S
      in case fs_state (fstates S ! i) of
           SubStart \<Rightarrow> Returned (upd_state i (fs_state_update (\<lambda>_. SubOnlyCallback)) S1)
         | SubOnlyResult \<Rightarrow>
             (case fs_result (fstates S ! i) of
                None \<Rightarrow> Aborted
              | Some r \<Rightarrow> call (OpExecute i cb r) (upd_state i (fs_state_update (\<lambda>_. SubDone)) S1))
         | _ \<Rightarrow> Aborted)"

definition future_Subscribe ::
    "('e, 'v) future_call \<Rightarrow> state_ref \<Rightarrow> ('e, 'v) callback \<Rightarrow> ('e, 'v) store \<Rightarrow> ('e, 'v) outcome" where
  "future_Subscribe call i cb S =
     (if fs_state (fstates S ! i) = SubOnlyResult then
        (case fs_result (fstates S ! i) of
           None \<Rightarrow> Aborted
         | Some r \<Rightarrow> call (OpExecute i cb r) (upd_state i (fs_state_update (\<lambda>_. SubDone)) S))
      else state_PassCallback call i cb S)"

text \<open>The lambda that the synchronous \<open>Transform\<close> subscribes. An exception of \<open>SetValue\<close> itself
  reaches the \<open>catch\<close>, whose \<open>SetError\<close> finds the promise released.\<close>

definition transform_callback ::
    "('e + 'v \<Rightarrow> 'e + 'v) \<Rightarrow> ('e, 'v) future_call \<Rightarrow> ('e + 'v \<Rightarrow> 'e + ('e + 'v)) \<Rightarrow> state_ref
     \<Rightarrow> 'e + 'v \<Rightarrow> ('e, 'v) store \<Rightarrow> ('e, 'v) outcome" where
  "transform_callback tv call transformer p r S =
     (case transformer r of
        Inl e \<Rightarrow> call (OpSetResult p (Inl e)) S
      | Inr new_result \<Rightarrow>
          (case tv new_result of
             Inl e \<Rightarrow> call (OpSetResult p (Inl e)) S
           | Inr v \<Rightarrow>
               (case call (OpSetResult p (Inr v)) S of Threw e S' \<Rightarrow> Aborted | res \<Rightarrow> res)))"

text \<open>The lambda that the asynchronous \<open>Transform\<close> subscribes: the promise is moved into the
  inner lambda before \<open>Subscribe\<close> runs, so the \<open>catch\<close> finds it released.\<close>

definition async_transform_callback ::
    "('e, 'v) future_call \<Rightarrow> ('e + 'v \<Rightarrow> 'e + ('e, 'v) async_future) \<Rightarrow> state_ref
     \<Rightarrow> 'e + 'v \<Rightarrow> ('e, 'v) store \<Rightarrow> ('e, 'v) outcome" where
  "async_transform_callback call transformer p r S =
     (case transformer r of
        Inl e \<Rightarrow> call (OpSetResult p (Inl e)) S
      | Inr async_f \<Rightarrow>
          (let (j, S1) =
             (case async_f of
                AsyncRef j \<Rightarrow> (j, S)
              | AsyncReady r' \<Rightarrow>
                  (let (j, S') = MakeSharedState S
                   in (j, upd_state j (fs_state_update (\<lambda>_. SubOnlyResult))
                            (upd_state j (fs_result_update (\<lambda>_. Some r')) S'))))
           in case call (OpSubscribe j (CbForward p)) S1 of Threw e S' \<Rightarrow> Aborted | res \<Rightarrow> res))"

definition forward_callback ::
    "('e + 'v \<Rightarrow> 'e + 'v) \<Rightarrow> ('e, 'v) future_call \<Rightarrow> state_ref \<Rightarrow> 'e + 'v \<Rightarrow> ('e, 'v) store \<Rightarrow> ('e, 'v) outcome" where
  "forward_callback tv call p final_result S =
     (case tv final_result of Inl e \<Rightarrow> Threw e S | Inr v \<Rightarrow> call (OpSetResult p (Inr v)) S)"

text \<open>The recursion: \<open>n\<close> bounds how deep operations nest in each other. A chain of \<open>k\<close>
  transformations nests \<open>3 k + 1\<close> deep.\<close>

primrec run_op :: "('e + 'v \<Rightarrow> 'e + 'v) \<Rightarrow> nat \<Rightarrow> ('e, 'v) future_call" where
  "run_op tv 0 = (\<lambda>c S. NoFuel)"
| "run_op tv (Suc n) = (\<lambda>c S.
     case c of
       OpSetResult i r \<Rightarrow> state_SetResult (run_op tv n) i r S
     | OpExecute i cb r \<Rightarrow> state_Execute (run_op tv n) i cb r S
     | OpSubscribe i cb \<Rightarrow> future_Subscribe (run_op tv n) i cb S
     | OpCallback cb r \<Rightarrow>
         (case cb of
            CbUser k \<Rightarrow> Returned (S\<lparr>flog := flog S @ [(k, r)]\<rparr>)
          | CbUserThrows k e \<Rightarrow> Threw e (S\<lparr>flog := flog S @ [(k, r)]\<rparr>)
          | CbUserSets k f p \<Rightarrow> run_op tv n (OpSetResult p (f r)) (S\<lparr>flog := flog S @ [(k, r)]\<rparr>)
          | CbTransform f p \<Rightarrow> transform_callback tv (run_op tv n) f p r S
          | CbAsyncTransform f p \<Rightarrow> async_transform_callback (run_op tv n) f p r S
          | CbForward p \<Rightarrow> forward_callback tv (run_op tv n) p r S))"

text \<open>An executor runs the oldest of its tasks; \<open>ExecuteHere\<close> ignores exceptions.\<close>

definition run_task :: "('e + 'v \<Rightarrow> 'e + 'v) \<Rightarrow> nat \<Rightarrow> ('e, 'v) store \<Rightarrow> ('e, 'v) outcome" where
  "run_task tv n S =
     (case ftasks S of
        [] \<Rightarrow> Returned S
      | (x, t) # rest \<Rightarrow>
          (let S1 = S\<lparr>ftasks := rest\<rparr>
           in case (case t of TaskCallback cb r \<Rightarrow> run_op tv n (OpCallback cb r) S1
                            | TaskTarget r p \<Rightarrow> run_op tv n (OpSetResult p r) S1) of
                Threw e S' \<Rightarrow> Returned S'
              | res \<Rightarrow> res))"

section \<open>Promise and Future\<close>

record promise =
  promise_state :: "state_ref option"
  future_extracted :: bool

definition Promise_ctor :: "('e, 'v) store \<Rightarrow> promise \<times> ('e, 'v) store" where
  "Promise_ctor S =
     (let (i, S') = MakeSharedState S in (\<lparr>promise_state = Some i, future_extracted = False\<rparr>, S'))"

text \<open>\<open>HoldState::ReleaseState\<close>: the state and the emptied handle; \<open>None\<close> when \<open>CheckState\<close> fails.\<close>

definition HoldState_ReleaseState :: "state_ref option \<Rightarrow> (state_ref \<times> state_ref option) option" where
  "HoldState_ReleaseState h = (case h of None \<Rightarrow> None | Some i \<Rightarrow> Some (i, None))"

definition Promise_MakeFuture :: "promise \<Rightarrow> (state_ref option \<times> promise) option" where
  "Promise_MakeFuture p =
     (if \<not> future_extracted p then Some (promise_state p, p\<lparr>future_extracted := True\<rparr>) else None)"

definition MakeContract :: "('e, 'v) store \<Rightarrow> (state_ref option \<times> promise \<times> ('e, 'v) store) option" where
  "MakeContract S =
     (let (p, S') = Promise_ctor S
      in map_option (\<lambda>(f, p'). (f, p', S')) (Promise_MakeFuture p))"

definition Promise_Set ::
    "('e + 'v \<Rightarrow> 'e + 'v) \<Rightarrow> nat \<Rightarrow> 'e + 'v \<Rightarrow> promise \<Rightarrow> ('e, 'v) store \<Rightarrow> promise \<times> ('e, 'v) outcome" where
  "Promise_Set tv n r p S =
     (case HoldState_ReleaseState (promise_state p) of
        None \<Rightarrow> (p, Aborted)
      | Some (i, h) \<Rightarrow> (p\<lparr>promise_state := h\<rparr>, run_op tv n (OpSetResult i r) S))"

definition Promise_SetValue ::
    "('e + 'v \<Rightarrow> 'e + 'v) \<Rightarrow> nat \<Rightarrow> 'v \<Rightarrow> promise \<Rightarrow> ('e, 'v) store \<Rightarrow> promise \<times> ('e, 'v) outcome" where
  "Promise_SetValue tv n v p S = Promise_Set tv n (Inr v) p S"

definition Promise_SetError ::
    "('e + 'v \<Rightarrow> 'e + 'v) \<Rightarrow> nat \<Rightarrow> 'e \<Rightarrow> promise \<Rightarrow> ('e, 'v) store \<Rightarrow> promise \<times> ('e, 'v) outcome" where
  "Promise_SetError tv n e p S = Promise_Set tv n (Inl e) p S"

text \<open>The future of the result of a transformation inherits the executor.\<close>

definition transform_contract :: "state_ref \<Rightarrow> ('e, 'v) store \<Rightarrow> state_ref \<times> ('e, 'v) store" where
  "transform_contract i S =
     (let executor = GetExecutor i S; (t, S') = MakeSharedState S in (t, SetExecutor executor t S'))"

definition Future_Transform ::
    "('e + 'v \<Rightarrow> 'e + 'v) \<Rightarrow> nat \<Rightarrow> ('e + 'v \<Rightarrow> 'e + ('e + 'v)) \<Rightarrow> state_ref \<Rightarrow> ('e, 'v) store
     \<Rightarrow> state_ref \<times> ('e, 'v) outcome" where
  "Future_Transform tv n transformer i S =
     (let (t, S') = transform_contract i S
      in (t, run_op tv n (OpSubscribe i (CbTransform transformer t)) S'))"

definition Future_Transform_async ::
    "('e + 'v \<Rightarrow> 'e + 'v) \<Rightarrow> nat \<Rightarrow> ('e + 'v \<Rightarrow> 'e + ('e, 'v) async_future) \<Rightarrow> state_ref \<Rightarrow> ('e, 'v) store
     \<Rightarrow> state_ref \<times> ('e, 'v) outcome" where
  "Future_Transform_async tv n transformer i S =
     (let (t, S') = transform_contract i S
      in (t, run_op tv n (OpSubscribe i (CbAsyncTransform transformer t)) S'))"

text \<open>The transformers that \<open>Then\<close> and \<open>Recover\<close> make; \<open>Invoke\<close> gives a \<open>Result\<close>.\<close>

definition Then_transformer ::
    "(('v \<Rightarrow> 'e + 'v) \<Rightarrow> 'e + 'v \<Rightarrow> 'e + 'v) \<Rightarrow> ('v \<Rightarrow> 'e + 'v) \<Rightarrow> 'e + 'v \<Rightarrow> 'e + ('e + 'v)" where
  "Then_transformer invoke cont input =
     (case input of Inl e \<Rightarrow> Inr (Inl e) | Inr v \<Rightarrow> Inr (invoke cont input))"

definition Then_async_transformer ::
    "('v \<Rightarrow> 'e + ('e, 'v) async_future) \<Rightarrow> 'e + 'v \<Rightarrow> 'e + ('e, 'v) async_future" where
  "Then_async_transformer cont input =
     (case input of
        Inl e \<Rightarrow> Inr (AsyncReady (Inl e))
      | Inr v \<Rightarrow> (case cont v of Inr f \<Rightarrow> Inr f | Inl e \<Rightarrow> Inr (AsyncReady (Inl e))))"

definition Recover_transformer ::
    "(('e \<Rightarrow> 'e + 'v) \<Rightarrow> 'e \<Rightarrow> 'e + 'v) \<Rightarrow> ('e \<Rightarrow> 'e + 'v) \<Rightarrow> 'e + 'v \<Rightarrow> 'e + ('e + 'v)" where
  "Recover_transformer invoke_err handler input =
     (case input of Inr v \<Rightarrow> Inr input | Inl e \<Rightarrow> Inr (invoke_err handler e))"

definition Future_Then where
  "Future_Then tv invoke n cont i S = Future_Transform tv n (Then_transformer invoke cont) i S"

definition Future_Then_async where
  "Future_Then_async tv n cont i S = Future_Transform_async tv n (Then_async_transformer cont) i S"

definition Future_Recover where
  "Future_Recover tv invoke_err n handler i S =
     Future_Transform tv n (Recover_transformer invoke_err handler) i S"

definition Future_Completed :: "('e, 'v) store \<Rightarrow> 'v \<Rightarrow> state_ref \<times> ('e, 'v) store" where
  "Future_Completed S v =
     (let (i, S') = MakeSharedState S
      in (i, upd_state i (fs_state_update (\<lambda>_. SubOnlyResult)) (upd_state i (fs_result_update (\<lambda>_. Some (Inr v))) S')))"

definition Future_Failed :: "('e, 'v) store \<Rightarrow> 'e \<Rightarrow> state_ref \<times> ('e, 'v) store" where
  "Future_Failed S e =
     (let (i, S') = MakeSharedState S
      in (i, upd_state i (fs_state_update (\<lambda>_. SubOnlyResult)) (upd_state i (fs_result_update (\<lambda>_. Some (Inl e))) S')))"

text \<open>\<open>AsyncVia\<close>: the target runs as a task of the executor and fulfils the promise either way.\<close>

definition AsyncVia :: "executor_id \<Rightarrow> 'e + 'v \<Rightarrow> ('e, 'v) store \<Rightarrow> (state_ref \<times> ('e, 'v) store)" where
  "AsyncVia x target S =
     (let (i, S1) = MakeSharedState S;
          S2 = S1\<lparr>ftasks := ftasks S1 @ [(x, TaskTarget target i)]\<rparr>
      in (i, SetExecutor (Some x) i S2))"

section \<open>Chains of transformations\<close>

text \<open>Calling \<open>Transform\<close> for one function after the other, on the future of the previous one.\<close>

primrec transforms ::
    "('e + 'v \<Rightarrow> 'e + 'v) \<Rightarrow> nat \<Rightarrow> ('e + 'v \<Rightarrow> 'e + ('e + 'v)) list \<Rightarrow> state_ref \<Rightarrow> ('e, 'v) store
     \<Rightarrow> state_ref \<times> ('e, 'v) outcome" where
  "transforms tv n [] i S = (i, Returned S)"
| "transforms tv n (f # fs) i S =
     (case Future_Transform tv n f i S of
        (t, Returned S') \<Rightarrow> transforms tv n fs t S'
      | res \<Rightarrow> res)"

text \<open>What one transformation makes of a result: what the function returns, or its exception.\<close>

definition transformed :: "('e + 'v \<Rightarrow> 'e + 'v) \<Rightarrow> ('e + 'v \<Rightarrow> 'e + ('e + 'v)) \<Rightarrow> 'e + 'v \<Rightarrow> 'e + 'v" where
  "transformed tv f r = (case f r of Inl e \<Rightarrow> Inl e | Inr r' \<Rightarrow> tv r')"

lemma upd_state_simps [simp]:
  "length (fstates (upd_state i f S)) = length (fstates S)"
  "i < length (fstates S) \<Longrightarrow> fstates (upd_state i f S) ! i = f (fstates S ! i)"
  "i \<noteq> k \<Longrightarrow> fstates (upd_state i f S) ! k = fstates S ! k"
  "ftasks (upd_state i f S) = ftasks S" "flog (upd_state i f S) = flog S"
  by (simp_all add: upd_state_def)

text \<open>A chain that waits for its first result: every state but the last has its callback.\<close>

fun waiting_chain :: "('e, 'v) store \<Rightarrow> state_ref \<Rightarrow> ('e + 'v \<Rightarrow> 'e + ('e + 'v)) list \<Rightarrow> state_ref \<Rightarrow> bool" where
  "waiting_chain S i [] j \<longleftrightarrow>
     i = j \<and> i < length (fstates S) \<and> fs_state (fstates S ! i) = SubStart \<and> fs_executor (fstates S ! i) = None"
| "waiting_chain S i (f # fs) j \<longleftrightarrow>
     i < length (fstates S) \<and> fs_state (fstates S ! i) = SubOnlyCallback \<and> fs_executor (fstates S ! i) = None \<and>
     (\<exists>t > i. fs_callback (fstates S ! i) = Some (CbTransform f t) \<and> waiting_chain S t fs j)"

lemma waiting_chain_cong:
  "length (fstates S') = length (fstates S) \<Longrightarrow> (\<And>k. i \<le> k \<Longrightarrow> fstates S' ! k = fstates S ! k) \<Longrightarrow>
   waiting_chain S' i fs j = waiting_chain S i fs j"
  by (induction fs arbitrary: i) auto

text \<open>Fulfilling the first promise of the chain.\<close>

lemma waiting_chain_completes:
  assumes "waiting_chain S i fs j" and "3 * length fs + 1 \<le> n"
  shows "\<exists>S'. run_op tv n (OpSetResult i r) S = Returned S' \<and>
    fs_state (fstates S' ! j) = SubOnlyResult \<and> fs_result (fstates S' ! j) = Some (fold (transformed tv) fs r) \<and>
    fs_executor (fstates S' ! j) = None \<and> length (fstates S') = length (fstates S)"
  using assms
proof (induction fs arbitrary: i r S n)
  case Nil
  then obtain m where n: "n = Suc m" by (cases n) auto
  with Nil show ?case by (auto simp: state_SetResult_def Let_def)
next
  case (Cons f fs)
  then obtain m where n: "n = Suc (Suc (Suc m))" "3 * length fs + 1 \<le> m"
    by (cases n rule: nat.exhaust) (auto simp: numeral_3_eq_3 Suc_le_eq less_iff_Suc_add)
  from Cons.prems(1) obtain t where t: "i < t" "fs_callback (fstates S ! i) = Some (CbTransform f t)"
      "waiting_chain S t fs j" and i: "i < length (fstates S)" "fs_state (fstates S ! i) = SubOnlyCallback"
      "fs_executor (fstates S ! i) = None" by auto
  define S1 where "S1 = upd_state i (fs_state_update (\<lambda>_. SubDone)) (upd_state i (fs_result_update (\<lambda>_. Some r)) S)"
  have "waiting_chain S1 t fs j" using t
    by (subst waiting_chain_cong [of _ S]) (auto simp: S1_def)
  from Cons.IH [OF this n(2), of "transformed tv f r"] obtain S' where
    S': "run_op tv m (OpSetResult t (transformed tv f r)) S1 = Returned S'"
      "fs_state (fstates S' ! j) = SubOnlyResult" "fs_executor (fstates S' ! j) = None"
      "fs_result (fstates S' ! j) = Some (fold (transformed tv) fs (transformed tv f r))"
      "length (fstates S') = length (fstates S1)" by blast
  have "run_op tv n (OpSetResult i r) S = transform_callback tv (run_op tv m) f t r S1"
    using i t n by (simp add: state_SetResult_def state_Execute_def S1_def Let_def)
  also have "\<dots> = Returned S'"
    using S'(1) by (auto simp: transform_callback_def transformed_def split: sum.splits)
  finally show ?case using S' by (simp add: S1_def)
qed

text \<open>Extending a waiting chain, and transforming a future that is already completed.\<close>

lemma transform_contract_simps:
  assumes "transform_contract i S = (t, S')" "i < length (fstates S)"
  shows "t = length (fstates S)" "length (fstates S') = Suc t" "fs_state (fstates S' ! t) = SubStart"
    "fs_executor (fstates S' ! t) = fs_executor (fstates S ! i)" "ftasks S' = ftasks S"
    "\<And>k. k < t \<Longrightarrow> fstates S' ! k = fstates S ! k"
  using assms by (auto simp: transform_contract_def MakeSharedState_def SetExecutor_def GetExecutor_def
      Let_def upd_state_def nth_append)

lemma waiting_chain_less: "waiting_chain S i fs j \<Longrightarrow> i \<le> j \<and> j < length (fstates S)"
  by (induction fs arbitrary: i) force+

lemma waiting_chain_extend:
  assumes "waiting_chain S i fs j" "fs_state (fstates S' ! t) = SubStart" "fs_executor (fstates S' ! t) = None"
    "t = length (fstates S)" "length (fstates S') = Suc t"
    "\<And>k. k < t \<Longrightarrow> k \<noteq> j \<Longrightarrow> fstates S' ! k = fstates S ! k"
    "fs_state (fstates S' ! j) = SubOnlyCallback" "fs_executor (fstates S' ! j) = None"
    "fs_callback (fstates S' ! j) = Some (CbTransform f t)"
  shows "waiting_chain S' i (fs @ [f]) t"
  using assms
proof (induction fs arbitrary: i)
  case (Cons g fs)
  then obtain u where u: "u > i" "fs_callback (fstates S ! i) = Some (CbTransform g u)" "waiting_chain S u fs j"
    by auto
  then have "i \<noteq> j" using waiting_chain_less [OF u(3)] by auto
  with Cons u show ?case by auto
qed auto

lemma transform_waiting:
  assumes "waiting_chain S i fs j" "0 < n"
  shows "\<exists>t S'. Future_Transform tv n f j S = (t, Returned S') \<and> waiting_chain S' i (fs @ [f]) t"
proof -
  obtain m where n: "n = Suc m" using assms(2) by (cases n) auto
  obtain t S1 where c: "transform_contract j S = (t, S1)" by (cases "transform_contract j S")
  have j: "j < length (fstates S)" using waiting_chain_less [OF assms(1)] by simp
  note S1 = transform_contract_simps [OF c j]
  have start: "fs_state (fstates S ! j) = SubStart" "fs_executor (fstates S ! j) = None"
    using assms(1) by (induction fs arbitrary: i) auto
  define S2 where "S2 = upd_state j (fs_state_update (\<lambda>_. SubOnlyCallback))
    (upd_state j (fs_callback_update (\<lambda>_. Some (CbTransform f t))) S1)"
  have "Future_Transform tv n f j S = (t, Returned S2)"
    using c n S1 start j by (simp add: Future_Transform_def future_Subscribe_def state_PassCallback_def S2_def)
  moreover have "waiting_chain S2 i (fs @ [f]) t"
    using assms(1) S1 start j by (intro waiting_chain_extend [of S i fs j]) (simp_all add: S2_def)
  ultimately show ?thesis by blast
qed

lemma transform_completed:
  assumes "j < length (fstates S)" "fs_state (fstates S ! j) = SubOnlyResult"
    "fs_result (fstates S ! j) = Some r" "fs_executor (fstates S ! j) = None" "4 \<le> n"
  shows "\<exists>t S'. Future_Transform tv n f j S = (t, Returned S') \<and> t < length (fstates S') \<and>
    fs_state (fstates S' ! t) = SubOnlyResult \<and> fs_result (fstates S' ! t) = Some (transformed tv f r) \<and>
    fs_executor (fstates S' ! t) = None"
proof -
  obtain m where n: "n = Suc (Suc (Suc (Suc m)))"
    using assms(5) by (auto simp: numeral_eq_Suc dest!: le_Suc_ex)
  obtain t S1 where c: "transform_contract j S = (t, S1)" by (cases "transform_contract j S")
  note S1 = transform_contract_simps [OF c assms(1)]
  define S2 where "S2 = upd_state j (fs_state_update (\<lambda>_. SubDone)) S1"
  define S3 where "S3 = upd_state t (fs_state_update (\<lambda>_. SubOnlyResult))
    (upd_state t (fs_result_update (\<lambda>_. Some (transformed tv f r))) S2)"
  have "run_op tv (Suc m) (OpSetResult t (transformed tv f r)) S2 = Returned S3"
    using S1 assms(1) by (simp add: state_SetResult_def S2_def S3_def Let_def)
  then have "transform_callback tv (run_op tv (Suc m)) f t r S2 = Returned S3"
    by (auto simp: transform_callback_def transformed_def split: sum.splits)
  then have "Future_Transform tv n f j S = (t, Returned S3)"
    using c S1 assms n by (simp add: Future_Transform_def future_Subscribe_def state_Execute_def S2_def)
  then show ?thesis using S1 assms(1,4) by (auto simp: S3_def S2_def)
qed

lemma transforms_waiting:
  assumes "waiting_chain S i gs j" "0 < n"
  shows "\<exists>t S'. transforms tv n fs j S = (t, Returned S') \<and> waiting_chain S' i (gs @ fs) t"
  using assms
proof (induction fs arbitrary: gs j S)
  case (Cons f fs)
  obtain t S1 where s1: "Future_Transform tv n f j S = (t, Returned S1)" "waiting_chain S1 i (gs @ [f]) t"
    using transform_waiting [OF Cons.prems, of tv f] by blast
  from Cons.IH [OF s1(2) Cons.prems(2)] s1(1) show ?case by auto
qed auto

lemma transforms_completed:
  assumes "j < length (fstates S)" "fs_state (fstates S ! j) = SubOnlyResult"
    "fs_result (fstates S ! j) = Some r" "fs_executor (fstates S ! j) = None" "4 \<le> n"
  shows "\<exists>t S'. transforms tv n fs j S = (t, Returned S') \<and>
    fs_state (fstates S' ! t) = SubOnlyResult \<and> fs_result (fstates S' ! t) = Some (fold (transformed tv) fs r)"
  using assms
proof (induction fs arbitrary: j r S)
  case (Cons f fs)
  obtain t S1 where s1: "Future_Transform tv n f j S = (t, Returned S1)" "t < length (fstates S1)"
      "fs_state (fstates S1 ! t) = SubOnlyResult" "fs_executor (fstates S1 ! t) = None"
      "fs_result (fstates S1 ! t) = Some (transformed tv f r)"
    using transform_completed [OF Cons.prems, of tv f] by blast
  from Cons.IH [OF s1(2,3,5,4) Cons.prems(5)] s1(1) show ?case by auto
qed auto

section \<open>Specification of Then and Recover\<close>

datatype ('e, 'v) link =
    ThenLink "'v \<Rightarrow> 'e + 'v"
  | RecoverLink "'e \<Rightarrow> 'e + 'v"

definition link_transformer ::
    "(('v \<Rightarrow> 'e + 'v) \<Rightarrow> 'e + 'v \<Rightarrow> 'e + 'v) \<Rightarrow> (('e \<Rightarrow> 'e + 'v) \<Rightarrow> 'e \<Rightarrow> 'e + 'v) \<Rightarrow>
     ('e, 'v) link \<Rightarrow> 'e + 'v \<Rightarrow> 'e + ('e + 'v)" where
  "link_transformer invoke invoke_err l =
     (case l of ThenLink c \<Rightarrow> Then_transformer invoke c | RecoverLink h \<Rightarrow> Recover_transformer invoke_err h)"

text \<open>What a link means: \<open>Then\<close> maps values and passes errors on, \<open>Recover\<close> the reverse; an
  exception of the function is an error.\<close>

fun link_result :: "('e, 'v) link \<Rightarrow> 'e + 'v \<Rightarrow> 'e + 'v" where
  "link_result (ThenLink c) (Inr v) = c v"
| "link_result (ThenLink c) (Inl e) = Inl e"
| "link_result (RecoverLink h) (Inr v) = Inr v"
| "link_result (RecoverLink h) (Inl e) = h e"

text \<open>The laws of the two library functions: the conversion of a \<open>Result\<close> to its value returns
  the value or throws the error; \<open>Invoke\<close> calls the function and turns what it does into a
  \<open>Result\<close>.\<close>

definition result_converts :: "('e + 'v \<Rightarrow> 'e + 'v) \<Rightarrow> bool" where
  "result_converts tv \<longleftrightarrow> (\<forall>e. tv (Inl e) = Inl e) \<and> (\<forall>v. tv (Inr v) = Inr v)"

definition invoke_calls ::
    "(('v \<Rightarrow> 'e + 'v) \<Rightarrow> 'e + 'v \<Rightarrow> 'e + 'v) \<Rightarrow> (('e \<Rightarrow> 'e + 'v) \<Rightarrow> 'e \<Rightarrow> 'e + 'v) \<Rightarrow> bool" where
  "invoke_calls invoke invoke_err \<longleftrightarrow>
     (\<forall>f v. invoke f (Inr v) = f v) \<and> (\<forall>h e. invoke_err h e = h e)"

lemma transformed_link:
  assumes "result_converts tv" "invoke_calls invoke invoke_err"
  shows "transformed tv (link_transformer invoke invoke_err l) r = link_result l r"
proof -
  have tv: "tv x = x" for x using assms(1) by (cases x) (auto simp: result_converts_def)
  show ?thesis using assms(2)
    by (cases l; cases r)
      (auto simp: transformed_def link_transformer_def Then_transformer_def Recover_transformer_def
        invoke_calls_def tv)
qed

lemma fold_transformed_links:
  "result_converts tv \<Longrightarrow> invoke_calls invoke invoke_err \<Longrightarrow>
   fold (transformed tv) (map (link_transformer invoke invoke_err) ls) r = fold link_result ls r"
  by (induction ls arbitrary: r) (auto simp: transformed_link)

section \<open>Properties\<close>

text \<open>C5: A chain of \<open>Then\<close> and \<open>Recover\<close> calls on the future of a contract computes the composition
  of its links, and it does not matter whether the promise is fulfilled after the chain has
  been built or before: in both orders every operation returns (no abort, no exception, for
  any length of the chain), and the last future holds the value or error that passing the
  promise's result through the links gives.\<close>

theorem Future_chain_result:
  assumes laws: "result_converts tv" "invoke_calls invoke invoke_err"
    and fuel: "3 * length ls + 4 \<le> n"
    and contract: "MakeSharedState S = (i, S0)"
  shows "(\<exists>t S1 S2. transforms tv n (map (link_transformer invoke invoke_err) ls) i S0 = (t, Returned S1) \<and>
        run_op tv n (OpSetResult i r) S1 = Returned S2 \<and>
        fs_state (fstates S2 ! t) = SubOnlyResult \<and>
        fs_result (fstates S2 ! t) = Some (fold link_result ls r)) \<and>
    (\<exists>t S1 S2. run_op tv n (OpSetResult i r) S0 = Returned S1 \<and>
        transforms tv n (map (link_transformer invoke invoke_err) ls) i S1 = (t, Returned S2) \<and>
        fs_state (fstates S2 ! t) = SubOnlyResult \<and>
        fs_result (fstates S2 ! t) = Some (fold link_result ls r))"
proof
  let ?fs = "map (link_transformer invoke invoke_err) ls"
  have chain: "waiting_chain S0 i [] i"
    using contract by (auto simp: MakeSharedState_def nth_append)
  obtain t S1 where b: "transforms tv n ?fs i S0 = (t, Returned S1)" "waiting_chain S1 i ?fs t"
    using transforms_waiting [OF chain, of n tv ?fs] fuel by auto
  have "3 * length ?fs + 1 \<le> n" using fuel by simp
  from waiting_chain_completes [OF b(2) this, of tv r] b(1)
  show "\<exists>t S1 S2. transforms tv n ?fs i S0 = (t, Returned S1) \<and>
      run_op tv n (OpSetResult i r) S1 = Returned S2 \<and> fs_state (fstates S2 ! t) = SubOnlyResult \<and>
      fs_result (fstates S2 ! t) = Some (fold link_result ls r)"
    by (auto simp: fold_transformed_links [OF laws])
  have "3 * length ([] :: ('e + 'v \<Rightarrow> 'e + ('e + 'v)) list) + 1 \<le> n" using fuel by simp
  from waiting_chain_completes [OF chain this, of tv r] obtain S1' where
    c: "run_op tv n (OpSetResult i r) S0 = Returned S1'" "fs_state (fstates S1' ! i) = SubOnlyResult"
      "fs_result (fstates S1' ! i) = Some r" "fs_executor (fstates S1' ! i) = None"
      "length (fstates S1') = length (fstates S0)" by auto
  have "i < length (fstates S1')" using chain c(5) by simp
  moreover have "4 \<le> n" using fuel by simp
  ultimately obtain t' S2 where "transforms tv n ?fs i S1' = (t', Returned S2)"
      "fs_state (fstates S2 ! t') = SubOnlyResult"
      "fs_result (fstates S2 ! t') = Some (fold (transformed tv) ?fs r)"
    using transforms_completed [of i S1' r n tv ?fs] c by blast
  with c(1) show "\<exists>t S1 S2. run_op tv n (OpSetResult i r) S0 = Returned S1 \<and>
      transforms tv n ?fs i S1 = (t, Returned S2) \<and> fs_state (fstates S2 ! t) = SubOnlyResult \<and>
      fs_result (fstates S2 ! t) = Some (fold link_result ls r)"
    by (auto simp: fold_transformed_links [OF laws])
qed

definition empty_store :: "('e, 'v) store" where
  "empty_store = \<lparr>fstates = [], ftasks = [], flog = []\<rparr>"

theorem Future_chain_result_witness:
  "result_converts (\<lambda>r :: string + nat. r) \<and>
   invoke_calls (\<lambda>f r. case r of Inl e \<Rightarrow> Inl e | Inr v \<Rightarrow> f v) (\<lambda>h (e :: string). h e :: string + nat) \<and>
   (\<exists>t S1 S2. transforms (\<lambda>r :: string + nat. r) 10
      (map (link_transformer (\<lambda>f r. case r of Inl e \<Rightarrow> Inl e | Inr v \<Rightarrow> f v) (\<lambda>h e. h e))
        [ThenLink (\<lambda>v. if v = 0 then Inl ''zero'' else Inr (v + 1)), RecoverLink (\<lambda>e. Inr 7)])
      0 (snd (MakeSharedState empty_store)) = (t, Returned S1) \<and>
      run_op (\<lambda>r. r) 10 (OpSetResult 0 (Inr 0)) S1 = Returned S2 \<and>
      fs_result (fstates S2 ! t) = Some (Inr 7))"
proof (intro conjI)
  let ?inv = "\<lambda>(f :: nat \<Rightarrow> string + nat) r. case r of Inl e \<Rightarrow> Inl e | Inr v \<Rightarrow> f v"
  let ?ls = "[ThenLink (\<lambda>v. if v = 0 then Inl ''zero'' else Inr (v + 1)), RecoverLink (\<lambda>e. Inr 7)] :: (string, nat) link list"
  show c: "result_converts (\<lambda>r :: string + nat. r)" by (simp add: result_converts_def)
  show i: "invoke_calls ?inv (\<lambda>h (e :: string). h e :: string + nat)" by (simp add: invoke_calls_def)
  have f: "3 * length ?ls + 4 \<le> 10" by simp
  have m: "MakeSharedState (empty_store :: (string, nat) store) = (0, snd (MakeSharedState empty_store))"
    by (simp add: MakeSharedState_def empty_store_def)
  have "fold link_result ?ls (Inr 0) = Inr 7" by simp
  note v = this
  from Future_chain_result [OF c i f m, of "Inr 0", THEN conjunct1]
  show "\<exists>t S1 S2. transforms (\<lambda>r :: string + nat. r) 10 (map (link_transformer ?inv (\<lambda>h e. h e)) ?ls)
      0 (snd (MakeSharedState empty_store)) = (t, Returned S1) \<and>
      run_op (\<lambda>r. r) 10 (OpSetResult 0 (Inr 0)) S1 = Returned S2 \<and>
      fs_result (fstates S2 ! t) = Some (Inr 7)"
    unfolding v by (elim exE conjE) (rule exI, rule exI, rule exI, rule conjI, assumption, rule conjI)
qed

text \<open>A continuation attached after \<open>Via(x)\<close> runs on the executor \<open>x\<close> and nowhere else: fulfilling
  the promise only hands one task to \<open>x\<close> and leaves the new future unfulfilled; running that
  task fulfils it with the result of the link; and the new future carries the same executor.\<close>

theorem Future_Via_runs_on_executor:
  assumes laws: "result_converts tv" "invoke_calls invoke invoke_err"
    and contract: "MakeSharedState S = (i, S0)" and idle: "ftasks S = []"
    and "Future_Transform tv (Suc n) (link_transformer invoke invoke_err l) i (SetExecutor (Some x) i S0) = (t, out)"
  shows "\<exists>S1 S2 S3. out = Returned S1 \<and> run_op tv (Suc (Suc n)) (OpSetResult i r) S1 = Returned S2 \<and>
    map fst (ftasks S2) = [x] \<and> fs_state (fstates S2 ! t) = SubStart \<and>
    run_task tv (Suc (Suc n)) S2 = Returned S3 \<and> ftasks S3 = [] \<and>
    fs_state (fstates S3 ! t) = SubOnlyResult \<and> fs_result (fstates S3 ! t) = Some (link_result l r) \<and>
    fs_executor (fstates S3 ! t) = Some x"
proof -
  let ?f = "link_transformer invoke invoke_err l"
  let ?S0 = "SetExecutor (Some x) i S0"
  have i: "i < length (fstates ?S0)" "fs_state (fstates ?S0 ! i) = SubStart"
    "fs_executor (fstates ?S0 ! i) = Some x" "ftasks ?S0 = []"
    using contract idle by (auto simp: MakeSharedState_def SetExecutor_def upd_state_def nth_append)
  obtain t' S' where c: "transform_contract i ?S0 = (t', S')" by (cases "transform_contract i ?S0")
  note S' = transform_contract_simps [OF c i(1)]
  define S1 where "S1 = upd_state i (fs_state_update (\<lambda>_. SubOnlyCallback))
    (upd_state i (fs_callback_update (\<lambda>_. Some (CbTransform ?f t'))) S')"
  have out: "t = t'" "out = Returned S1"
    using assms(5) c S' i
    by (auto simp: Future_Transform_def future_Subscribe_def state_PassCallback_def S1_def)
  define S2 where "S2 = upd_state i (fs_state_update (\<lambda>_. SubDone))
    (upd_state i (fs_result_update (\<lambda>_. Some r)) S1)\<lparr>ftasks := [(x, TaskCallback (CbTransform ?f t') r)]\<rparr>"
  have run: "run_op tv (Suc (Suc n)) (OpSetResult i r) S1 = Returned S2"
    using S' i by (simp add: state_SetResult_def state_Execute_def S1_def S2_def Let_def upd_state_def)
  define S3 where "S3 = upd_state t' (fs_state_update (\<lambda>_. SubOnlyResult))
    (upd_state t' (fs_result_update (\<lambda>_. Some (link_result l r))) (S2\<lparr>ftasks := []\<rparr>))"
  have at: "i \<noteq> t'" "t' < length (fstates S2)" "fs_state (fstates S2 ! t') = SubStart"
    "fs_executor (fstates S2 ! t') = Some x"
    using S' i by (auto simp: S2_def S1_def upd_state_def)
  have "run_op tv (Suc n) (OpSetResult t' (transformed tv ?f r)) (S2\<lparr>ftasks := []\<rparr>) = Returned S3"
    using at by (simp add: state_SetResult_def S3_def Let_def transformed_link [OF laws])
  then have "run_op tv (Suc (Suc n)) (OpCallback (CbTransform ?f t') r) (S2\<lparr>ftasks := []\<rparr>) = Returned S3"
    by (auto simp: transform_callback_def transformed_def split: sum.splits)
  then have "run_task tv (Suc (Suc n)) S2 = Returned S3" by (simp add: run_task_def S2_def)
  with out run at show ?thesis by (auto simp: S3_def) (simp add: S2_def)
qed

theorem Future_Via_runs_on_executor_witness:
  "\<exists>t S1 S2 S3. Future_Transform (\<lambda>r :: string + nat. r) 1
      (link_transformer (\<lambda>f r. case r of Inl e \<Rightarrow> Inl e | Inr v \<Rightarrow> f v) (\<lambda>h e. h e) (ThenLink (\<lambda>v. Inr (v + 1))))
      0 (SetExecutor (Some 5) 0 (snd (MakeSharedState empty_store))) = (t, Returned S1) \<and>
    run_op (\<lambda>r. r) 2 (OpSetResult 0 (Inr 3)) S1 = Returned S2 \<and> map fst (ftasks S2) = [5] \<and>
    run_task (\<lambda>r. r) 2 S2 = Returned S3 \<and> fs_result (fstates S3 ! t) = Some (Inr 4)"
proof -
  let ?inv = "\<lambda>(f :: nat \<Rightarrow> string + nat) r. case r of Inl e \<Rightarrow> Inl e | Inr v \<Rightarrow> f v"
  let ?l = "ThenLink (\<lambda>v. Inr (v + 1)) :: (string, nat) link"
  let ?S0 = "snd (MakeSharedState (empty_store :: (string, nat) store))"
  have c: "result_converts (\<lambda>r :: string + nat. r)" by (simp add: result_converts_def)
  have i: "invoke_calls ?inv (\<lambda>h (e :: string). h e :: string + nat)" by (simp add: invoke_calls_def)
  have m: "MakeSharedState (empty_store :: (string, nat) store) = (0, ?S0)" "ftasks (empty_store :: (string, nat) store) = []"
    by (simp_all add: MakeSharedState_def empty_store_def)
  obtain t out where d: "Future_Transform (\<lambda>r :: string + nat. r) (Suc 0) (link_transformer ?inv (\<lambda>h e. h e) ?l)
      0 (SetExecutor (Some 5) 0 ?S0) = (t, out)" by fastforce
  obtain S1 S2 S3 where "out = Returned S1" "run_op (\<lambda>r. r) 2 (OpSetResult 0 (Inr 3)) S1 = Returned S2"
      "map fst (ftasks S2) = [5]" "run_task (\<lambda>r. r) 2 S2 = Returned S3"
      "fs_result (fstates S3 ! t) = Some (link_result ?l (Inr 3))"
    using Future_Via_runs_on_executor [OF c i m d, of "Inr 3"] by (auto simp: numeral_2_eq_2)
  with d show ?thesis by auto
qed

text \<open>The asynchronous \<open>Then\<close> waits for the future that the continuation returns: when that future
  is pending, fulfilling the first promise leaves the new future unfulfilled, and fulfilling the
  inner promise with a value fulfils it with that value.\<close>

theorem Future_Then_async_waits:
  assumes tv: "result_converts tv" and contracts: "MakeSharedState S = (i, S0)" "MakeSharedState S0 = (j, S1)"
    and cont: "cont v = Inr (AsyncRef j)" and fuel: "6 \<le> n"
  shows "\<exists>t S2 S3 S4. Future_Then_async tv n cont i S1 = (t, Returned S2) \<and>
    run_op tv n (OpSetResult i (Inr v)) S2 = Returned S3 \<and> fs_state (fstates S3 ! t) = SubStart \<and>
    run_op tv n (OpSetResult j (Inr u)) S3 = Returned S4 \<and>
    fs_state (fstates S4 ! t) = SubOnlyResult \<and> fs_result (fstates S4 ! t) = Some (Inr u)"
proof -
  obtain m where n: "n = Suc (Suc (Suc (Suc (Suc (Suc m)))))"
    using fuel by (auto simp: numeral_eq_Suc dest!: le_Suc_ex)
  let ?L = "length (fstates S)"
  have ij: "i = ?L" "j = Suc ?L" and S1: "fstates S1 = fstates S @ [a, a]"
    if "a = \<lparr>fs_state = SubStart, fs_callback = None, fs_result = None, fs_executor = None\<rparr>" for a
    using contracts that by (auto simp: MakeSharedState_def)
  let ?a = "\<lparr>fs_state = SubStart, fs_callback = None, fs_result = None, fs_executor = None\<rparr> :: ('a, 'b) fstate"
  note ij = ij [OF refl] and S1 = S1 [OF refl]
  have tv': "tv (Inr w) = Inr w" for w using tv by (simp add: result_converts_def)
  show ?thesis
    by (simp add: n Future_Then_async_def Future_Transform_async_def transform_contract_def GetExecutor_def
        MakeSharedState_def SetExecutor_def upd_state_def Let_def S1 ij nth_append list_update_append
        future_Subscribe_def state_PassCallback_def state_SetResult_def state_Execute_def
        async_transform_callback_def Then_async_transformer_def cont [unfolded ij] forward_callback_def tv')
qed

text \<open>The asynchronous \<open>Then\<close> does not propagate errors: an error of the input future, and an
  exception of the continuation, abort the program. The callback moves its promise into the
  inner lambda, the conversion of the failed result to a value throws there, and the handler
  calls \<open>SetError\<close> on the moved promise, where \<open>CheckState\<close> fails.\<close>

theorem Future_Then_async_error_aborts:
  assumes tv: "result_converts tv" and contract: "MakeSharedState S = (i, S0)"
    and failing: "r = Inl e \<or> (\<exists>v. r = Inr v \<and> cont v = Inl e)" and fuel: "6 \<le> n"
  shows "\<exists>t S1. Future_Then_async tv n cont i S0 = (t, Returned S1) \<and>
    run_op tv n (OpSetResult i r) S1 = Aborted"
proof -
  obtain m where n: "n = Suc (Suc (Suc (Suc (Suc (Suc m)))))"
    using fuel by (auto simp: numeral_eq_Suc dest!: le_Suc_ex)
  have tv': "tv (Inl e) = Inl e" using tv by (simp add: result_converts_def)
  have r: "Then_async_transformer cont r = Inr (AsyncReady (Inl e))"
    using failing by (auto simp: Then_async_transformer_def)
  have S0: "i = length (fstates S)"
    "fstates S0 = fstates S @ [\<lparr>fs_state = SubStart, fs_callback = None, fs_result = None, fs_executor = None\<rparr>]"
    using contract by (auto simp: MakeSharedState_def)
  show ?thesis
    by (simp add: n Future_Then_async_def Future_Transform_async_def transform_contract_def GetExecutor_def
        MakeSharedState_def SetExecutor_def upd_state_def Let_def S0 nth_append list_update_append
        future_Subscribe_def state_PassCallback_def state_SetResult_def state_Execute_def
        async_transform_callback_def r forward_callback_def tv')
qed

text \<open>\<open>AsyncVia\<close> runs its target on the given executor and delivers what it does: until the
  executor runs the task the future is unfulfilled, and then it holds the returned value, or
  the thrown exception as its error.\<close>

theorem AsyncVia_delivers:
  assumes "ftasks S = []" and "AsyncVia x target S = (i, S1)"
  shows "map fst (ftasks S1) = [x] \<and> fs_state (fstates S1 ! i) = SubStart \<and>
    fs_executor (fstates S1 ! i) = Some x \<and>
    (\<exists>S2. run_task tv (Suc n) S1 = Returned S2 \<and> ftasks S2 = [] \<and>
       fs_state (fstates S2 ! i) = SubOnlyResult \<and> fs_result (fstates S2 ! i) = Some target)"
  using assms
  by (auto simp: AsyncVia_def MakeSharedState_def SetExecutor_def upd_state_def Let_def nth_append
      run_task_def state_SetResult_def)

theorem AsyncVia_delivers_witness:
  "\<exists>S1 S2. AsyncVia 5 (Inl ''bang'' :: string + nat) empty_store = (0, S1) \<and> map fst (ftasks S1) = [5] \<and>
     run_task (\<lambda>r. r) 1 S1 = Returned S2 \<and> fs_result (fstates S2 ! 0) = Some (Inl ''bang'')"
proof -
  have e: "ftasks (empty_store :: (string, nat) store) = []" by (simp add: empty_store_def)
  obtain S1 where a: "AsyncVia 5 (Inl ''bang'' :: string + nat) empty_store = (0, S1)"
    by (simp add: AsyncVia_def MakeSharedState_def empty_store_def)
  from AsyncVia_delivers [OF e a, of "\<lambda>r. r" 0] a show ?thesis by auto
qed

theorem Future_Then_async_waits_witness:
  "\<exists>t S2 S3 S4. Future_Then_async (\<lambda>r :: string + nat. r) 6 (\<lambda>v. Inr (AsyncRef 1)) 0
      (snd (MakeSharedState (snd (MakeSharedState empty_store)))) = (t, Returned S2) \<and>
    run_op (\<lambda>r. r) 6 (OpSetResult 0 (Inr 3)) S2 = Returned S3 \<and> fs_state (fstates S3 ! t) = SubStart \<and>
    run_op (\<lambda>r. r) 6 (OpSetResult 1 (Inr 9)) S3 = Returned S4 \<and>
    fs_state (fstates S4 ! t) = SubOnlyResult \<and> fs_result (fstates S4 ! t) = Some (Inr 9)"
proof -
  let ?S = "empty_store :: (string, nat) store"
  have c: "result_converts (\<lambda>r :: string + nat. r)" by (simp add: result_converts_def)
  have m: "MakeSharedState ?S = (0, snd (MakeSharedState ?S))"
    "MakeSharedState (snd (MakeSharedState ?S)) = (1, snd (MakeSharedState (snd (MakeSharedState ?S))))"
    by (simp_all add: MakeSharedState_def empty_store_def)
  from Future_Then_async_waits [OF c m, of "\<lambda>v. Inr (AsyncRef 1)" 3 6 9] show ?thesis by simp
qed

theorem Future_Then_async_error_aborts_witness:
  "\<exists>t S1. Future_Then_async (\<lambda>r :: string + nat. r) 6 (\<lambda>v. Inr (AsyncReady (Inr v))) 0
      (snd (MakeSharedState empty_store)) = (t, Returned S1) \<and>
    run_op (\<lambda>r. r) 6 (OpSetResult 0 (Inl ''failed'')) S1 = Aborted"
proof -
  let ?S = "empty_store :: (string, nat) store"
  have c: "result_converts (\<lambda>r :: string + nat. r)" by (simp add: result_converts_def)
  have m: "MakeSharedState ?S = (0, snd (MakeSharedState ?S))"
    by (simp add: MakeSharedState_def empty_store_def)
  have f: "(Inl ''failed'' :: string + nat) = Inl ''failed'' \<or>
      (\<exists>v. (Inl ''failed'' :: string + nat) = Inr v \<and> (Inr (AsyncReady (Inr v)) :: string + (string, nat) async_future) = Inl ''failed'')"
    by simp
  from Future_Then_async_error_aborts [OF c m f, of 6] show ?thesis by simp
qed

text \<open>A callback that throws aborts the program when it is subscribed behind a transformation and nothing runs it on an executor:
  the handler of the transformation catches the exception of the callback, which \<open>SetValue\<close> has run, and calls \<open>SetError\<close> on the promise
  that \<open>SetValue\<close> has released.\<close>

theorem Future_Then_throwing_callback_aborts:
  assumes tv: "result_converts tv" and contract: "MakeSharedState S = (i, S0)" and cont: "transformer r = Inr (Inr v)" and fuel: "6 \<le> n"
  shows "\<exists>t S1 S2. Future_Transform tv n transformer i S0 = (t, Returned S1) \<and>
    run_op tv n (OpSubscribe t (CbUserThrows k e)) S1 = Returned S2 \<and> run_op tv n (OpSetResult i r) S2 = Aborted"
proof -
  obtain m where n: "n = Suc (Suc (Suc (Suc (Suc (Suc m)))))"
    using fuel by (auto simp: numeral_eq_Suc dest!: le_Suc_ex)
  have tv': "tv (Inr v) = Inr v" using tv by (simp add: result_converts_def)
  have S0: "i = length (fstates S)"
    "fstates S0 = fstates S @ [\<lparr>fs_state = SubStart, fs_callback = None, fs_result = None, fs_executor = None\<rparr>]"
    using contract by (auto simp: MakeSharedState_def)
  show ?thesis
    by (simp add: n Future_Transform_def transform_contract_def GetExecutor_def
        MakeSharedState_def SetExecutor_def upd_state_def Let_def S0 nth_append list_update_append
        future_Subscribe_def state_PassCallback_def state_SetResult_def state_Execute_def
        transform_callback_def cont tv')
qed

theorem Future_Then_throwing_callback_aborts_witness:
  "\<exists>t S1 S2. Future_Transform (\<lambda>r :: string + nat. r) 6 (\<lambda>r. Inr (Inr 5)) 0 (snd (MakeSharedState empty_store)) = (t, Returned S1) \<and>
    run_op (\<lambda>r. r) 6 (OpSubscribe t (CbUserThrows 1 ''bang'')) S1 = Returned S2 \<and> run_op (\<lambda>r. r) 6 (OpSetResult 0 (Inr 4)) S2 = Aborted"
proof -
  have c: "result_converts (\<lambda>r :: string + nat. r)" by (simp add: result_converts_def)
  have m: "MakeSharedState (empty_store :: (string, nat) store) = (0, snd (MakeSharedState empty_store))"
    by (simp add: MakeSharedState_def empty_store_def)
  from Future_Then_throwing_callback_aborts [OF c m, of "\<lambda>r. Inr (Inr 5)" "Inr 4" 5 6 1 "''bang''"] show ?thesis by simp
qed

end
