(* ===== verification/Future_Clients.thy ===== *)
theory Future_Clients
  imports Futures
begin

text \<open>
  Clients of futures and promises that follow the rules of the interface: every promise is fulfilled at most once, every future consumed
  at most once, each by its holder. The handles of the client are two lists of references; moving a handle out of them is
  what \<open>ReleaseState\<close> does, and handing one to a callback moves it into the store.

  The theorem at the end is a type safety theorem: no assertion of the library fails, no exception leaves it, and every state that is
  not fulfilled has exactly one producer. It needs more of the client than the rules above, since some uses of the library abort: the
  section on the discipline says what. That the library aborts otherwise is \<open>Future_Then_async_error_aborts\<close> and
  \<open>Future_Then_throwing_callback_aborts\<close> of the theory \<open>Futures\<close>.
\<close>

section \<open>Operations on the handle of a future\<close>

definition Future_Invalid :: "state_ref option" where
  "Future_Invalid = None"

definition Future_IsValid :: "state_ref option \<Rightarrow> bool" where
  "Future_IsValid h \<longleftrightarrow> h \<noteq> None"

text \<open>\<open>None\<close> is the failed \<open>CheckState\<close>.\<close>

definition client_IsReady :: "state_ref option \<Rightarrow> ('e, 'v) store \<Rightarrow> bool option" where
  "client_IsReady h S = map_option (\<lambda>i. fs_state (fstates S ! i) = SubOnlyResult) h"

text \<open>\<open>GetReadyResult\<close> of the shared state, which reads an empty \<open>optional\<close> when there is no result.\<close>

definition state_GetReadyResult :: "state_ref \<Rightarrow> ('e, 'v) store \<Rightarrow> (('e + 'v) \<times> ('e, 'v) store) option" where
  "state_GetReadyResult i S =
     map_option (\<lambda>r. (r, upd_state i (fs_state_update (\<lambda>_. SubDone)) S)) (fs_result (fstates S ! i))"

definition client_GetReadyResult :: "state_ref option \<Rightarrow> ('e, 'v) store \<Rightarrow> (('e + 'v) \<times> state_ref option \<times> ('e, 'v) store) option" where
  "client_GetReadyResult h S =
     (case HoldState_ReleaseState h of
        None \<Rightarrow> None
      | Some (i, h') \<Rightarrow> map_option (\<lambda>(r, S'). (r, h', S')) (state_GetReadyResult i S))"

text \<open>\<open>BlockForResult\<close> returns when the state is not \<open>Start\<close>; \<open>GetResult\<close> and \<open>GetValue\<close> from there on.\<close>

definition state_BlockForResult :: "state_ref \<Rightarrow> ('e, 'v) store \<Rightarrow> bool" where
  "state_BlockForResult i S \<longleftrightarrow> fs_state (fstates S ! i) \<noteq> SubStart"

definition client_GetResult :: "state_ref option \<Rightarrow> ('e, 'v) store \<Rightarrow> (('e + 'v) \<times> state_ref option \<times> ('e, 'v) store) option" where
  "client_GetResult h S =
     (case HoldState_ReleaseState h of
        None \<Rightarrow> None
      | Some (i, h') \<Rightarrow>
          (if state_BlockForResult i S then map_option (\<lambda>(r, S'). (r, h', S')) (state_GetReadyResult i S) else None))"

text \<open>\<open>GetValue\<close>: the value of the result, or the exception with its error.\<close>

definition client_GetValue :: "('e + 'v \<Rightarrow> 'e + 'v) \<Rightarrow> state_ref option \<Rightarrow> ('e, 'v) store \<Rightarrow> (('e + 'v) \<times> state_ref option \<times> ('e, 'v) store) option" where
  "client_GetValue value_or_throw h S = map_option (\<lambda>(r, h', S'). (value_or_throw r, h', S')) (client_GetResult h S)"

definition Future_Via :: "executor_id \<Rightarrow> state_ref \<Rightarrow> ('e, 'v) store \<Rightarrow> state_ref \<times> ('e, 'v) store" where
  "Future_Via x i S = (i, SetExecutor (Some x) i S)"

section \<open>Clients\<close>

text \<open>
  The handles of the client are two lists of references. History: \<open>fc_waits\<close> has the pair \<open>(i, p)\<close> when the promise \<open>p\<close> was
  made to depend on the result of the state \<open>i\<close>: \<open>p\<close> is fulfilled by a callback subscribed to \<open>i\<close>, or by the forwarding of the
  future \<open>i\<close> that an asynchronous continuation returns.
\<close>

record ('e, 'v) fclient =
  fc_promises :: "state_ref list"
  fc_futures :: "state_ref list"
  fc_store :: "('e, 'v) store"
  fc_results :: "('e + 'v) list"
  fc_waits :: "(state_ref \<times> state_ref) list"
  fc_broken :: bool                   \<comment> \<open>an assertion failed, or an exception left the library\<close>

datatype ('e, 'v) fclient_label =
    FcMakeContract
  | FcCompleted 'v | FcFailed 'e
  | FcSet state_ref "'e + 'v"
  | FcVia state_ref executor_id
  | FcSubscribe state_ref nat
  | FcSubscribeThrows state_ref nat 'e                      \<comment> \<open>a callback that throws\<close>
  | FcSubscribeSets state_ref nat "'e + 'v \<Rightarrow> 'e + 'v" state_ref   \<comment> \<open>a callback that owns a promise and fulfils it\<close>
  | FcTransform state_ref "'e + 'v \<Rightarrow> 'e + ('e + 'v)"       \<comment> \<open>\<open>Then\<close> and \<open>Recover\<close> included\<close>
  | FcTransformAsync state_ref "'e + 'v \<Rightarrow> 'e + ('e, 'v) async_future" "state_ref option"
      \<comment> \<open>the asynchronous \<open>Then\<close> included; with the future that the continuation owns, if any\<close>
  | FcGetResult state_ref
  | FcAsyncVia executor_id "'e + 'v"
  | FcRunTask nat                                           \<comment> \<open>an executor runs the task at that position\<close>

text \<open>Callbacks run each other at most six calls deep for every state.\<close>

definition fc_fuel :: "('e, 'v) store \<Rightarrow> nat" where
  "fc_fuel S = 6 * length (fstates S) + 12"

definition fc_finish :: "('e, 'v) outcome \<Rightarrow> ('e, 'v) fclient \<Rightarrow> ('e, 'v) fclient" where
  "fc_finish out c = (case out of Returned S' \<Rightarrow> c\<lparr>fc_store := S'\<rparr> | _ \<Rightarrow> c\<lparr>fc_broken := True\<rparr>)"

text \<open>Executors may run their tasks in any order: the task at position \<open>k\<close> becomes the next one.\<close>

definition run_task_at :: "('e + 'v \<Rightarrow> 'e + 'v) \<Rightarrow> nat \<Rightarrow> nat \<Rightarrow> ('e, 'v) store \<Rightarrow> ('e, 'v) outcome" where
  "run_task_at tv n k S = run_task tv n (S\<lparr>ftasks := (ftasks S ! k) # take k (ftasks S) @ drop (Suc k) (ftasks S)\<rparr>)"

text \<open>Subscribing a callback that owns no handle.\<close>

definition client_Subscribe ::
    "('e + 'v \<Rightarrow> 'e + 'v) \<Rightarrow> state_ref \<Rightarrow> ('e, 'v) callback \<Rightarrow> ('e, 'v) fclient \<Rightarrow> ('e, 'v) fclient option" where
  "client_Subscribe tv f cb c =
     (if f \<in> set (fc_futures c) then
        Some (fc_finish (run_op tv (fc_fuel (fc_store c)) (OpSubscribe f cb) (fc_store c))
          (c\<lparr>fc_futures := remove1 f (fc_futures c)\<rparr>))
      else None)"

fun fclient_step :: "('e + 'v \<Rightarrow> 'e + 'v) \<Rightarrow> ('e, 'v) fclient_label \<Rightarrow> ('e, 'v) fclient \<Rightarrow> ('e, 'v) fclient option" where
  "fclient_step tv FcMakeContract c =
     (case MakeContract (fc_store c) of
        Some (Some f, p, S') \<Rightarrow>
          (case promise_state p of
             Some i \<Rightarrow> Some (c\<lparr>fc_promises := i # fc_promises c, fc_futures := f # fc_futures c, fc_store := S'\<rparr>)
           | None \<Rightarrow> Some (c\<lparr>fc_broken := True\<rparr>))
      | _ \<Rightarrow> Some (c\<lparr>fc_broken := True\<rparr>))"
| "fclient_step tv (FcCompleted v) c =
     (let (i, S') = Future_Completed (fc_store c) v in Some (c\<lparr>fc_futures := i # fc_futures c, fc_store := S'\<rparr>))"
| "fclient_step tv (FcFailed e) c =
     (let (i, S') = Future_Failed (fc_store c) e in Some (c\<lparr>fc_futures := i # fc_futures c, fc_store := S'\<rparr>))"
| "fclient_step tv (FcSet p r) c =
     (if p \<in> set (fc_promises c) then
        (let (p', out) = Promise_Set tv (fc_fuel (fc_store c)) r \<lparr>promise_state = Some p, future_extracted = True\<rparr> (fc_store c)
         in Some (fc_finish out (c\<lparr>fc_promises := remove1 p (fc_promises c)\<rparr>)))
      else None)"
| "fclient_step tv (FcVia f x) c =
     (if f \<in> set (fc_futures c) then
        (let (f', S') = Future_Via x f (fc_store c) in Some (c\<lparr>fc_store := S'\<rparr>))
      else None)"
| "fclient_step tv (FcSubscribe f k) c = client_Subscribe tv f (CbUser k) c"
| "fclient_step tv (FcSubscribeThrows f k e) c = client_Subscribe tv f (CbUserThrows k e) c"
| "fclient_step tv (FcSubscribeSets f k g p) c =
     (if p \<in> set (fc_promises c) then
        client_Subscribe tv f (CbUserSets k g p)
          (c\<lparr>fc_promises := remove1 p (fc_promises c), fc_waits := (f, p) # fc_waits c\<rparr>)
      else None)"
| "fclient_step tv (FcTransform f tr) c =
     (if f \<in> set (fc_futures c) then
        (let (t, out) = Future_Transform tv (fc_fuel (fc_store c)) tr f (fc_store c)
         in Some (fc_finish out (c\<lparr>fc_futures := t # remove1 f (fc_futures c), fc_waits := (f, t) # fc_waits c\<rparr>)))
      else None)"
| "fclient_step tv (FcTransformAsync f tr None) c =
     (if f \<in> set (fc_futures c) then
        (let (t, out) = Future_Transform_async tv (fc_fuel (fc_store c)) tr f (fc_store c)
         in Some (fc_finish out (c\<lparr>fc_futures := t # remove1 f (fc_futures c), fc_waits := (f, t) # fc_waits c\<rparr>)))
      else None)"
| "fclient_step tv (FcTransformAsync f tr (Some j)) c =
     (if f \<in> set (fc_futures c) \<and> j \<in> set (remove1 f (fc_futures c)) then
        (let (t, out) = Future_Transform_async tv (fc_fuel (fc_store c)) tr f (fc_store c)
         in Some (fc_finish out (c\<lparr>fc_futures := t # remove1 j (remove1 f (fc_futures c)),
                                   fc_waits := (j, t) # (f, t) # fc_waits c\<rparr>)))
      else None)"
| "fclient_step tv (FcGetResult f) c =
     (if f \<in> set (fc_futures c) \<and> state_BlockForResult f (fc_store c) then
        (case client_GetResult (Some f) (fc_store c) of
           None \<Rightarrow> Some (c\<lparr>fc_broken := True\<rparr>)
         | Some (r, h, S') \<Rightarrow>
             Some (c\<lparr>fc_futures := remove1 f (fc_futures c), fc_results := fc_results c @ [r], fc_store := S'\<rparr>))
      else None)"
| "fclient_step tv (FcAsyncVia x target) c =
     (let (i, S') = AsyncVia x target (fc_store c) in Some (c\<lparr>fc_futures := i # fc_futures c, fc_store := S'\<rparr>))"
| "fclient_step tv (FcRunTask k) c =
     (if k < length (ftasks (fc_store c))
      then Some (fc_finish (run_task_at tv (fc_fuel (fc_store c)) k (fc_store c)) c) else None)"

definition fc_start :: "('e, 'v) fclient" where
  "fc_start = \<lparr>fc_promises = [], fc_futures = [], fc_store = \<lparr>fstates = [], ftasks = [], flog = []\<rparr>, fc_results = [],
     fc_waits = [], fc_broken = False\<rparr>"

section \<open>The discipline\<close>

text \<open>
  What clients must keep to. \<open>good\<close> are the results that the client lets
  occur in its futures; for a client without asynchronous transformations these can be all results.

  \<^item> Only good results are given to promises, and functions passed to the library keep results good.
  \<^item> An asynchronous transformation is used only if good results are values (an error aborts), and its continuation returns a
    future made by \<open>Completed\<close> with a good result or the future it owns; it does not throw.
  \<^item> A callback that throws is subscribed only to a future with an executor, which runs it inside \<open>ExecuteHere\<close>.
  \<^item> A callback that fulfils a promise is not subscribed to a future that itself depends on this promise.
\<close>

definition results_are_values :: "('e + 'v \<Rightarrow> bool) \<Rightarrow> ('e + 'v \<Rightarrow> 'e + 'v) \<Rightarrow> bool" where
  "results_are_values good tv \<longleftrightarrow> (\<forall>r. good r \<longrightarrow> (\<exists>v. tv r = Inr v \<and> good (Inr v)))"

fun async_good :: "('e + 'v \<Rightarrow> bool) \<Rightarrow> state_ref option \<Rightarrow> ('e, 'v) async_future \<Rightarrow> bool" where
  "async_good good j (AsyncReady r) \<longleftrightarrow> good r"
| "async_good good j (AsyncRef i) \<longleftrightarrow> j = Some i"

definition async_continuation_good ::
    "('e + 'v \<Rightarrow> bool) \<Rightarrow> state_ref option \<Rightarrow> ('e + 'v \<Rightarrow> 'e + ('e, 'v) async_future) \<Rightarrow> bool" where
  "async_continuation_good good j f \<longleftrightarrow> (\<forall>r. good r \<longrightarrow> (\<exists>a. f r = Inr a \<and> async_good good j a))"

fun fc_disciplined :: "('e + 'v \<Rightarrow> bool) \<Rightarrow> ('e + 'v \<Rightarrow> 'e + 'v) \<Rightarrow> ('e, 'v) fclient_label \<Rightarrow> ('e, 'v) fclient \<Rightarrow> bool" where
  "fc_disciplined good tv (FcCompleted v) c \<longleftrightarrow> good (Inr v)"
| "fc_disciplined good tv (FcFailed e) c \<longleftrightarrow> good (Inl e)"
| "fc_disciplined good tv (FcSet p r) c \<longleftrightarrow> good r"
| "fc_disciplined good tv (FcSubscribeThrows f k e) c \<longleftrightarrow> GetExecutor f (fc_store c) \<noteq> None"
| "fc_disciplined good tv (FcSubscribeSets f k g p) c \<longleftrightarrow> (\<forall>r. good r \<longrightarrow> good (g r)) \<and> (p, f) \<notin> (set (fc_waits c))\<^sup>*"
| "fc_disciplined good tv (FcTransform f tr) c \<longleftrightarrow> (\<forall>r. good r \<longrightarrow> good (transformed tv tr r))"
| "fc_disciplined good tv (FcTransformAsync f tr j) c \<longleftrightarrow> results_are_values good tv \<and> async_continuation_good good j tr"
| "fc_disciplined good tv (FcAsyncVia x r) c \<longleftrightarrow> good r"
| "fc_disciplined good tv _ c \<longleftrightarrow> True"

definition fc_step :: "('e + 'v \<Rightarrow> bool) \<Rightarrow> ('e + 'v \<Rightarrow> 'e + 'v) \<Rightarrow> ('e, 'v) fclient_label \<Rightarrow> ('e, 'v) fclient \<Rightarrow> ('e, 'v) fclient option" where
  "fc_step good tv l c = (if fc_disciplined good tv l c then fclient_step tv l c else None)"

lemma fc_stepD: "fc_step good tv l c = Some c' \<Longrightarrow> fclient_step tv l c = Some c' \<and> fc_disciplined good tv l c"
  by (simp add: fc_step_def split: if_splits)

lemma fc_step_run_task [simp]: "fc_step good tv (FcRunTask k) c = fclient_step tv (FcRunTask k) c"
  by (simp add: fc_step_def)

section \<open>Well-typed stores\<close>

definition unfulfilled :: "('e, 'v) store \<Rightarrow> state_ref set" where
  "unfulfilled S = {i. i < length (fstates S) \<and> fs_state (fstates S ! i) \<in> {SubStart, SubOnlyCallback}}"

text \<open>The promise of a callback.\<close>

fun cb_promises :: "('e, 'v) callback \<Rightarrow> state_ref multiset" where
  "cb_promises (CbUser k) = {#}"
| "cb_promises (CbUserThrows k e) = {#}"
| "cb_promises (CbUserSets k f p) = {#p#}"
| "cb_promises (CbTransform f p) = {#p#}"
| "cb_promises (CbAsyncTransform f p) = {#p#}"
| "cb_promises (CbForward p) = {#p#}"

fun cb_throws :: "('e, 'v) callback \<Rightarrow> bool" where
  "cb_throws (CbUserThrows k e) \<longleftrightarrow> True"
| "cb_throws _ \<longleftrightarrow> False"

text \<open>\<open>K p\<close> is the future that the asynchronous continuation with the promise \<open>p\<close> owns.\<close>

type_synonym owned_futures = "state_ref \<Rightarrow> state_ref option"

fun cb_ok :: "('e + 'v \<Rightarrow> bool) \<Rightarrow> ('e + 'v \<Rightarrow> 'e + 'v) \<Rightarrow> owned_futures \<Rightarrow> ('e, 'v) callback \<Rightarrow> bool" where
  "cb_ok good tv K (CbUserSets k f p) \<longleftrightarrow> (\<forall>r. good r \<longrightarrow> good (f r))"
| "cb_ok good tv K (CbTransform f p) \<longleftrightarrow> (\<forall>r. good r \<longrightarrow> good (transformed tv f r))"
| "cb_ok good tv K (CbAsyncTransform f p) \<longleftrightarrow> results_are_values good tv \<and> async_continuation_good good (K p) f"
| "cb_ok good tv K (CbForward p) \<longleftrightarrow> results_are_values good tv"
| "cb_ok good tv K _ \<longleftrightarrow> True"

fun task_promises :: "('e, 'v) future_task \<Rightarrow> state_ref multiset" where
  "task_promises (TaskCallback cb r) = cb_promises cb"
| "task_promises (TaskTarget r p) = {#p#}"

fun task_ok :: "('e + 'v \<Rightarrow> bool) \<Rightarrow> ('e + 'v \<Rightarrow> 'e + 'v) \<Rightarrow> owned_futures \<Rightarrow> ('e, 'v) future_task \<Rightarrow> bool" where
  "task_ok good tv K (TaskCallback cb r) \<longleftrightarrow> cb_ok good tv K cb \<and> good r"
| "task_ok good tv K (TaskTarget r p) \<longleftrightarrow> good r"

text \<open>The promises that a stored callback will fulfil.\<close>

definition state_promises :: "('e, 'v) fstate \<Rightarrow> state_ref multiset" where
  "state_promises st =
     (if fs_state st = SubOnlyCallback then case fs_callback st of None \<Rightarrow> {#} | Some cb \<Rightarrow> cb_promises cb else {#})"

definition producers :: "('e, 'v) store \<Rightarrow> state_ref multiset" where
  "producers S = sum_list (map state_promises (fstates S)) + sum_list (map (task_promises \<circ> snd) (ftasks S))"

text \<open>The callback that waits at the state \<open>i\<close>: it is known to \<open>W\<close> which promises depend on \<open>i\<close>.\<close>

definition waiting_ok ::
    "('e + 'v \<Rightarrow> bool) \<Rightarrow> ('e + 'v \<Rightarrow> 'e + 'v) \<Rightarrow> (state_ref \<times> state_ref) set \<Rightarrow> owned_futures \<Rightarrow> nat \<Rightarrow> ('e, 'v) fstate \<Rightarrow>
     ('e, 'v) callback \<Rightarrow> bool" where
  "waiting_ok good tv W K i st cb \<longleftrightarrow>
     cb_ok good tv K cb \<and> (\<forall>p \<in># cb_promises cb. (i, p) \<in> W) \<and> (cb_throws cb \<longrightarrow> fs_executor st \<noteq> None)"

text \<open>A state fits its history.\<close>

definition state_ok ::
    "('e + 'v \<Rightarrow> bool) \<Rightarrow> ('e + 'v \<Rightarrow> 'e + 'v) \<Rightarrow> (state_ref \<times> state_ref) set \<Rightarrow> owned_futures \<Rightarrow> nat \<Rightarrow> ('e, 'v) fstate \<Rightarrow> bool" where
  "state_ok good tv W K i st \<longleftrightarrow>
     (fs_state st = SubOnlyCallback \<longrightarrow> (\<exists>cb. fs_callback st = Some cb \<and> waiting_ok good tv W K i st cb)) \<and>
     (fs_state st = SubOnlyResult \<longrightarrow> (\<exists>r. fs_result st = Some r \<and> good r))"

text \<open>A future that somebody holds is not yet consumed.\<close>

definition held :: "('e, 'v) store \<Rightarrow> state_ref \<Rightarrow> bool" where
  "held S i \<longleftrightarrow> i < length (fstates S) \<and> fs_state (fstates S ! i) \<in> {SubStart, SubOnlyResult}"

text \<open>\<open>C\<close> and \<open>F\<close> are the promises and the futures of the client: every unfulfilled state has exactly one producer, every future
  has one holder.\<close>

definition store_ok ::
    "('e + 'v \<Rightarrow> bool) \<Rightarrow> ('e + 'v \<Rightarrow> 'e + 'v) \<Rightarrow> (state_ref \<times> state_ref) set \<Rightarrow>
     state_ref multiset \<Rightarrow> state_ref list \<Rightarrow> owned_futures \<Rightarrow> ('e, 'v) store \<Rightarrow> bool" where
  "store_ok good tv W C F K S \<longleftrightarrow>
     (\<forall>i < length (fstates S). state_ok good tv W K i (fstates S ! i)) \<and>
     (\<forall>t \<in> set (ftasks S). task_ok good tv K (snd t)) \<and>
     C + producers S = mset_set (unfulfilled S) \<and>
     distinct F \<and> (\<forall>i \<in> set F. held S i) \<and>
     inj_on K (dom K) \<and> (\<forall>p j. K p = Some j \<longrightarrow> (j, p) \<in> W \<and> held S j \<and> j \<notin> set F)"

lemma finite_unfulfilled [simp]: "finite (unfulfilled S)"
  by (simp add: unfulfilled_def)

lemma card_unfulfilled: "card (unfulfilled S) \<le> length (fstates S)"
proof -
  have "unfulfilled S \<subseteq> {..< length (fstates S)}" by (auto simp: unfulfilled_def)
  from card_mono [OF _ this] show ?thesis by simp
qed

lemma sum_list_update_mset:
  "i < length xs \<Longrightarrow> sum_list (map f (xs[i := x])) + f (xs ! i) = sum_list (map f xs) + (f x :: 'a multiset)"
  by (induction xs arbitrary: i) (auto split: nat.split simp: ac_simps)

lemma producers_upd:
  assumes "i < length (fstates S)"
  shows "producers (upd_state i g S) + state_promises (fstates S ! i) = producers S + state_promises (g (fstates S ! i))"
  using sum_list_update_mset [OF assms, of state_promises "g (fstates S ! i)"]
  by (simp add: producers_def upd_state_def ac_simps)

lemma store_okD:
  assumes "store_ok good tv W C F K S"
  shows "i < length (fstates S) \<Longrightarrow> state_ok good tv W K i (fstates S ! i)"
    "t \<in> set (ftasks S) \<Longrightarrow> task_ok good tv K (snd t)" "C + producers S = mset_set (unfulfilled S)"
    "distinct F" "i \<in> set F \<Longrightarrow> held S i" "inj_on K (dom K)"
    "K p = Some j \<Longrightarrow> (j, p) \<in> W \<and> held S j \<and> j \<notin> set F"
  using assms unfolding store_ok_def by blast+

lemma store_ok_promise:
  assumes "store_ok good tv W C F K S" and "p \<in># C"
  shows "p \<in> unfulfilled S" "p < length (fstates S)" "fs_state (fstates S ! p) \<in> {SubStart, SubOnlyCallback}"
proof -
  have "p \<in># mset_set (unfulfilled S)"
    using store_okD(3) [OF assms(1)] assms(2) by (metis mset_subset_eqD mset_subset_eq_add_left)
  then show "p \<in> unfulfilled S" "p < length (fstates S)" "fs_state (fstates S ! p) \<in> {SubStart, SubOnlyCallback}"
    by (auto simp: unfulfilled_def)
qed

lemma store_ok_mono: "store_ok good tv W C F K S \<Longrightarrow> W \<subseteq> W' \<Longrightarrow> store_ok good tv W' C F K S"
  unfolding store_ok_def state_ok_def waiting_ok_def by blast

lemma unfulfilled_upd:
  assumes "i < length (fstates S)"
  shows "unfulfilled (upd_state i g S) =
    (if fs_state (g (fstates S ! i)) \<in> {SubStart, SubOnlyCallback} then insert i (unfulfilled S) else unfulfilled S - {i})"
proof (rule set_eqI)
  fix k
  show "k \<in> unfulfilled (upd_state i g S) \<longleftrightarrow> k \<in> (if fs_state (g (fstates S ! i)) \<in> {SubStart, SubOnlyCallback}
      then insert i (unfulfilled S) else unfulfilled S - {i})"
    using assms by (cases "k = i") (auto simp: unfulfilled_def)
qed

lemma held_upd: "i < length (fstates S) \<Longrightarrow>
  held (upd_state i g S) k \<longleftrightarrow> (if k = i then fs_state (g (fstates S ! i)) \<in> {SubStart, SubOnlyResult} else held S k)"
  by (simp add: held_def)

text \<open>The rule for a change of one state.\<close>

lemma store_ok_upd:
  assumes ok: "store_ok good tv W C F K S" and i: "i < length (fstates S)" and new: "state_ok good tv W K i (g (fstates S ! i))"
    and prod: "C' + producers (upd_state i g S) = mset_set (unfulfilled (upd_state i g S))"
    and fut: "distinct F'" "set F' \<subseteq> set F" "i \<in> set F' \<or> i \<in> ran K \<Longrightarrow> fs_state (g (fstates S ! i)) \<in> {SubStart, SubOnlyResult}"
  shows "store_ok good tv W C' F' K (upd_state i g S)"
proof -
  note D = store_okD [OF ok]
  have "state_ok good tv W K k (fstates (upd_state i g S) ! k)" if "k < length (fstates S)" for k
    using D(1) [OF that] new i by (cases "k = i") simp_all
  moreover have "held (upd_state i g S) k" if "k \<in> set F' \<or> k \<in> ran K" for k
  proof -
    have "held S k" using that D(5,7) fut(2) by (auto simp: ran_def)
    with fut(3) that i show ?thesis by (auto simp: held_upd)
  qed
  ultimately show ?thesis using D(2,6,7) prod fut(1,2) unfolding store_ok_def by (auto intro: ranI)
qed

lemma upd_state_twice: "i < length (fstates S) \<Longrightarrow> upd_state i g (upd_state i f S) = upd_state i (g \<circ> f) S"
  by (simp add: upd_state_def)

lemma mset_unfulfilled_remove: "p \<in> unfulfilled S \<Longrightarrow> mset_set (unfulfilled S) = add_mset p (mset_set (unfulfilled S - {p}))"
  by (metis finite_unfulfilled mset_set.remove)

text \<open>Fulfilling a state whose callback has not arrived.\<close>

lemma store_ok_result:
  assumes ok: "store_ok good tv W (add_mset p C) F K S" and p: "fs_state (fstates S ! p) = SubStart" and r: "good r"
  shows "store_ok good tv W C F K (upd_state p (fs_state_update (\<lambda>_. SubOnlyResult)) (upd_state p (fs_result_update (\<lambda>_. Some r)) S))"
proof -
  have i: "p < length (fstates S)" using store_ok_promise(2) [OF ok] by simp
  let ?g = "fs_state_update (\<lambda>_. SubOnlyResult) \<circ> fs_result_update (\<lambda>_. Some r)"
  have "producers (upd_state p ?g S) = producers S" using producers_upd [OF i, of ?g] p by (simp add: state_promises_def)
  moreover have "p \<in> unfulfilled S" using i p by (simp add: unfulfilled_def)
  ultimately have "C + producers (upd_state p ?g S) = mset_set (unfulfilled (upd_state p ?g S))"
    using store_okD(3) [OF ok] mset_unfulfilled_remove [of p S] by (simp add: unfulfilled_upd [OF i])
  then have "store_ok good tv W C F K (upd_state p ?g S)"
    using r store_okD(4) [OF ok] by (intro store_ok_upd [OF ok i]) (simp_all add: state_ok_def)
  then show ?thesis by (simp add: upd_state_twice [OF i])
qed

text \<open>Taking a stored callback: its promises are in the hands of whoever runs it, and one state less is unfulfilled.\<close>

lemma store_ok_take_callback:
  assumes ok: "store_ok good tv W (add_mset p C) F K S"
    and p: "fs_state (fstates S ! p) = SubOnlyCallback" "fs_callback (fstates S ! p) = Some cb"
  defines "T \<equiv> \<lambda>r. upd_state p (fs_state_update (\<lambda>_. SubDone)) (upd_state p (fs_result_update (\<lambda>_. Some r)) S)"
  shows "store_ok good tv W (C + cb_promises cb) F K (T r)" and "Suc (card (unfulfilled (T r))) = card (unfulfilled S)"
proof -
  have i: "p < length (fstates S)" using store_ok_promise(2) [OF ok] by simp
  let ?g = "fs_state_update (\<lambda>_. SubDone) \<circ> fs_result_update (\<lambda>_. Some r)"
  have T: "T r = upd_state p ?g S" unfolding T_def by (rule upd_state_twice [OF i])
  have "producers (upd_state p ?g S) + cb_promises cb = producers S" using producers_upd [OF i, of ?g] p by (simp add: state_promises_def)
  moreover have u: "p \<in> unfulfilled S" using i p by (simp add: unfulfilled_def)
  moreover have "add_mset p C + producers S = mset_set (unfulfilled S)" using ok by (simp add: store_ok_def)
  ultimately have "(C + cb_promises cb) + producers (upd_state p ?g S) = mset_set (unfulfilled (upd_state p ?g S))"
    using mset_unfulfilled_remove [of p S] by (simp add: unfulfilled_upd [OF i] ac_simps)
  moreover have "\<not> held S p" using p by (simp add: held_def)
  then have "p \<notin> set F" "p \<notin> ran K" using store_okD(5,7) [OF ok] by (auto simp: ran_def)
  ultimately show "store_ok good tv W (C + cb_promises cb) F K (T r)" unfolding T
    using store_okD(4) [OF ok] by (intro store_ok_upd [OF ok i]) (simp_all add: state_ok_def)
  show "Suc (card (unfulfilled (T r))) = card (unfulfilled S)" unfolding T unfulfilled_upd [OF i]
    using u card_gt_0_iff [of "unfulfilled S"] by auto
qed

text \<open>Consuming a ready future.\<close>

lemma store_ok_consume:
  assumes ok: "store_ok good tv W C F K S" and i: "i \<in> set F" and r: "fs_state (fstates S ! i) = SubOnlyResult"
  shows "store_ok good tv W C (remove1 i F) K (upd_state i (fs_state_update (\<lambda>_. SubDone)) S)"
    and "unfulfilled (upd_state i (fs_state_update (\<lambda>_. SubDone)) S) = unfulfilled S"
proof -
  have l: "i < length (fstates S)" using store_okD(5) [OF ok i] by (simp add: held_def)
  let ?g = "fs_state_update (\<lambda>_. SubDone)"
  have "producers (upd_state i ?g S) = producers S" using producers_upd [OF l, of ?g] r by (simp add: state_promises_def)
  moreover have "i \<notin> unfulfilled S" using r by (simp add: unfulfilled_def)
  ultimately have "C + producers (upd_state i ?g S) = mset_set (unfulfilled (upd_state i ?g S))"
    using store_okD(3) [OF ok] by (simp add: unfulfilled_upd [OF l])
  moreover have "i \<notin> ran K" using store_okD(7) [OF ok] i by (auto simp: ran_def)
  ultimately show "store_ok good tv W C (remove1 i F) K (upd_state i ?g S)"
    using store_okD(4) [OF ok] by (intro store_ok_upd [OF ok l]) (auto simp: state_ok_def set_remove1_eq)
  show "unfulfilled (upd_state i ?g S) = unfulfilled S"
    using \<open>i \<notin> unfulfilled S\<close> by (simp add: unfulfilled_upd [OF l])
qed

text \<open>Storing a callback in a state that is not fulfilled.\<close>

lemma store_ok_subscribe:
  assumes ok: "store_ok good tv W (C + cb_promises cb) F K S" and i: "i \<in> set F" and r: "fs_state (fstates S ! i) = SubStart"
    and cb: "waiting_ok good tv W K i (fstates S ! i) cb"
  shows "store_ok good tv W C (remove1 i F) K
    (upd_state i (fs_state_update (\<lambda>_. SubOnlyCallback)) (upd_state i (fs_callback_update (\<lambda>_. Some cb)) S))"
proof -
  have l: "i < length (fstates S)" using store_okD(5) [OF ok i] by (simp add: held_def)
  let ?g = "fs_state_update (\<lambda>_. SubOnlyCallback) \<circ> fs_callback_update (\<lambda>_. Some cb)"
  have "producers (upd_state i ?g S) = producers S + cb_promises cb" using producers_upd [OF l, of ?g] r by (simp add: state_promises_def)
  moreover have "i \<in> unfulfilled S" using l r by (simp add: unfulfilled_def)
  then have "insert i (unfulfilled S) = unfulfilled S" by blast
  ultimately have "C + producers (upd_state i ?g S) = mset_set (unfulfilled (upd_state i ?g S))"
    using store_okD(3) [OF ok] by (simp add: unfulfilled_upd [OF l] ac_simps)
  moreover have "i \<notin> ran K" using store_okD(7) [OF ok] i by (auto simp: ran_def)
  ultimately have "store_ok good tv W C (remove1 i F) K (upd_state i ?g S)"
    using cb store_okD(4) [OF ok] by (intro store_ok_upd [OF ok l]) (auto simp: state_ok_def waiting_ok_def set_remove1_eq)
  then show ?thesis by (simp add: upd_state_twice [OF l])
qed

text \<open>Tasks of executors.\<close>

lemma store_ok_task:
  assumes "store_ok good tv W (C + task_promises t) F K S" and "task_ok good tv K t"
  shows "store_ok good tv W C F K (S\<lparr>ftasks := ftasks S @ [(x, t)]\<rparr>)"
proof -
  have "producers (S\<lparr>ftasks := ftasks S @ [(x, t)]\<rparr>) = producers S + task_promises t"
    by (simp add: producers_def ac_simps)
  moreover have "unfulfilled (S\<lparr>ftasks := ftasks S @ [(x, t)]\<rparr>) = unfulfilled S" by (simp add: unfulfilled_def)
  ultimately show ?thesis using assms by (auto simp: store_ok_def held_def ac_simps)
qed

lemma store_ok_pop_task:
  assumes "store_ok good tv W C F K S" and "ftasks S = (x, t) # rest"
  shows "store_ok good tv W (C + task_promises t) F K (S\<lparr>ftasks := rest\<rparr>)" and "task_ok good tv K t"
    and "unfulfilled (S\<lparr>ftasks := rest\<rparr>) = unfulfilled S"
proof -
  have "producers (S\<lparr>ftasks := rest\<rparr>) + task_promises t = producers S"
    using assms(2) by (simp add: producers_def ac_simps)
  moreover show "unfulfilled (S\<lparr>ftasks := rest\<rparr>) = unfulfilled S" by (simp add: unfulfilled_def)
  ultimately show "store_ok good tv W (C + task_promises t) F K (S\<lparr>ftasks := rest\<rparr>)" and "task_ok good tv K t"
    using assms by (auto simp: store_ok_def held_def ac_simps)
qed

lemma store_ok_log: "store_ok good tv W C F K S \<Longrightarrow> store_ok good tv W C F K (S\<lparr>flog := l\<rparr>)"
  by (simp add: store_ok_def producers_def unfulfilled_def held_def)

lemma unfulfilled_log [simp]: "unfulfilled (S\<lparr>flog := l\<rparr>) = unfulfilled S"
  by (simp add: unfulfilled_def)

lemma SetExecutor_ok:
  assumes ok: "store_ok good tv W C F K S" and i: "held S i" and x: "x \<noteq> None \<or> fs_executor (fstates S ! i) = None"
  shows "store_ok good tv W C F K (SetExecutor x i S)" and "unfulfilled (SetExecutor x i S) = unfulfilled S"
proof -
  have l: "i < length (fstates S)" using i by (simp add: held_def)
  let ?g = "fs_executor_update (\<lambda>_. x)"
  have "state_promises (?g st) = state_promises st" for st :: "('a, 'b) fstate" by (simp add: state_promises_def)
  then have "producers (upd_state i ?g S) = producers S" using producers_upd [OF l, of ?g] by simp
  moreover show un: "unfulfilled (SetExecutor x i S) = unfulfilled S" unfolding SetExecutor_def
    by (auto simp: unfulfilled_upd [OF l]) (auto simp: unfulfilled_def l)
  ultimately show "store_ok good tv W C F K (SetExecutor x i S)" unfolding SetExecutor_def
    using store_okD(1) [OF ok l] store_okD(3,4) [OF ok] i
    by (intro store_ok_upd [OF ok l]) (auto simp: SetExecutor_def state_ok_def held_def)
qed

text \<open>New states.\<close>

lemma make_state_ok:
  assumes ok: "store_ok good tv W C F K S" and m: "MakeSharedState S = (i, S')"
  shows "store_ok good tv W (add_mset i C) (i # F) K S'" and "i = length (fstates S)" and "length (fstates S') = Suc (length (fstates S))"
    and "unfulfilled S' = insert i (unfulfilled S)" and "\<And>k. k < length (fstates S) \<Longrightarrow> fstates S' ! k = fstates S ! k"
    and "fs_state (fstates S' ! i) = SubStart" "fs_executor (fstates S' ! i) = None"
proof -
  show i: "i = length (fstates S)" using m by (simp add: MakeSharedState_def)
  have S': "fstates S' = fstates S @ [\<lparr>fs_state = SubStart, fs_callback = None, fs_result = None, fs_executor = None\<rparr>]"
    "ftasks S' = ftasks S" using m by (auto simp: MakeSharedState_def)
  show "length (fstates S') = Suc (length (fstates S))" "\<And>k. k < length (fstates S) \<Longrightarrow> fstates S' ! k = fstates S ! k"
    "fs_state (fstates S' ! i) = SubStart" "fs_executor (fstates S' ! i) = None"
    by (simp_all add: S' i nth_append)
  have "producers S' = producers S" by (simp add: producers_def S' state_promises_def)
  moreover show un: "unfulfilled S' = insert i (unfulfilled S)"
    by (auto simp: unfulfilled_def S' i nth_append less_Suc_eq)
  moreover have "i \<notin> unfulfilled S" by (simp add: unfulfilled_def i)
  moreover have "state_ok good tv W K k (fstates S' ! k)" if "k < length (fstates S')" for k
    using that store_okD(1) [OF ok, of k] by (cases "k = i") (auto simp: S' i nth_append state_ok_def)
  moreover have held: "held S' k \<longleftrightarrow> held S k \<or> k = i" for k
    by (auto simp: held_def S' i nth_append)
  moreover have "\<not> held S i" by (simp add: held_def i)
  then have "i \<notin> set F" "\<And>p. K p \<noteq> Some i" using store_okD(5,7) [OF ok] by blast+
  ultimately show "store_ok good tv W (add_mset i C) (i # F) K S'"
    using ok unfolding store_ok_def S'(2) by auto
qed

text \<open>A future made with its result.\<close>

lemma ready_state_ok:
  assumes ok: "store_ok good tv W C F K S" and m: "MakeSharedState S = (i, S')" and r: "good r"
  defines "T \<equiv> upd_state i (fs_state_update (\<lambda>_. SubOnlyResult)) (upd_state i (fs_result_update (\<lambda>_. Some r)) S')"
  shows "store_ok good tv W C (i # F) K T" and "unfulfilled T = unfulfilled S" and "fs_state (fstates T ! i) = SubOnlyResult"
proof -
  note new = make_state_ok [OF ok m]
  show "store_ok good tv W C (i # F) K T" unfolding T_def using new(1,6) r by (rule store_ok_result)
  have l: "i < length (fstates S')" using new(2,3) by simp
  have "i \<notin> unfulfilled S" using new(2) by (simp add: unfulfilled_def)
  then show "unfulfilled T = unfulfilled S"
    unfolding T_def upd_state_twice [OF l] unfulfilled_upd [OF l] new(4) by simp
  show "fs_state (fstates T ! i) = SubOnlyResult" using l by (simp add: T_def)
qed

lemma in_sum_list_mset: "(p :: 'b) \<in># sum_list ms \<longleftrightarrow> (\<exists>m \<in> set ms. p \<in># m)"
  by (induction ms) auto

text \<open>The future that the continuation with the promise \<open>p\<close> owns: nobody else looks at it while the promise is in somebody's hands, so
  it can be given to the continuation, and goes to whoever runs it.\<close>

lemma store_ok_owned_at:
  assumes ok: "store_ok good tv W (add_mset p C) F K S" and same: "\<And>q. q \<noteq> p \<Longrightarrow> K' q = K q"
  shows "i < length (fstates S) \<Longrightarrow> state_ok good tv W K' i (fstates S ! i)"
    and "t \<in> set (ftasks S) \<Longrightarrow> task_ok good tv K' (snd t)"
proof -
  note D = store_okD [OF ok]
  have "p \<notin># producers S"
  proof
    assume "p \<in># producers S"
    then have "count (mset_set (unfulfilled S)) p \<ge> 2" unfolding D(3) [symmetric] by (simp add: Suc_le_eq)
    then show False by (simp add: count_mset_set' split: if_splits)
  qed
  then have prod: "i < length (fstates S) \<Longrightarrow> p \<notin># state_promises (fstates S ! i)"
    and task: "t \<in> set (ftasks S) \<Longrightarrow> p \<notin># task_promises (snd t)"
    by (auto simp: producers_def in_sum_list_mset)
  have cbs: "cb_ok good tv K' cb = cb_ok good tv K cb" if "p \<notin># cb_promises cb" for cb
    using that same by (cases cb) auto
  show "state_ok good tv W K' i (fstates S ! i)" if i: "i < length (fstates S)"
    using D(1) [OF i] prod [OF i] cbs by (auto simp: state_ok_def waiting_ok_def state_promises_def)
  show "task_ok good tv K' (snd t)" if t: "t \<in> set (ftasks S)"
    using D(2) [OF t] task [OF t] cbs by (cases "snd t") auto
qed

lemma store_ok_release_owned:
  assumes ok: "store_ok good tv W (add_mset p C) F K S" and j: "K p = Some j"
  shows "store_ok good tv W (add_mset p C) (j # F) (K(p := None)) S"
proof -
  note D = store_okD [OF ok]
  have "inj_on (K(p := None)) (dom (K(p := None)))" using D(6) by (auto simp: inj_on_def)
  moreover have "(K(p := None)) q = Some i \<Longrightarrow> i \<noteq> j" for q i
    using D(6) j unfolding inj_on_def by (metis domI fun_upd_other fun_upd_same option.distinct(1))
  ultimately show ?thesis using D(3,4,5,7) j store_ok_owned_at [OF ok, of "K(p := None)"] unfolding store_ok_def
    by (auto split: if_splits)
qed

lemma store_ok_give_owned:
  assumes ok: "store_ok good tv W (add_mset p C) F K S" and j: "j \<in> set F" "(j, p) \<in> W" and "K p = None"
  shows "store_ok good tv W (add_mset p C) (remove1 j F) (K(p \<mapsto> j)) S"
proof -
  note D = store_okD [OF ok]
  have "K q \<noteq> Some j" for q using D(7) j(1) by blast
  then have "inj_on (K(p \<mapsto> j)) (dom (K(p \<mapsto> j)))" using D(6) by (auto simp: inj_on_def)
  then show ?thesis using D(3,4,5,7) j store_ok_owned_at [OF ok, of "K(p \<mapsto> j)"] unfolding store_ok_def
    by (auto split: if_splits simp: set_remove1_eq)
qed

section \<open>Operations on well-typed stores\<close>

text \<open>An operation returns, and leaves a well-typed store.\<close>

definition returns_ok ::
    "('e + 'v \<Rightarrow> bool) \<Rightarrow> ('e + 'v \<Rightarrow> 'e + 'v) \<Rightarrow> (state_ref \<times> state_ref) set \<Rightarrow>
     state_ref multiset \<Rightarrow> state_ref list \<Rightarrow> ('e, 'v) outcome \<Rightarrow> bool" where
  "returns_ok good tv W C F res \<longleftrightarrow> (\<exists>S K. res = Returned S \<and> store_ok good tv W C F K S)"

lemma returns_okI: "res = Returned S \<Longrightarrow> store_ok good tv W C F K S \<Longrightarrow> returns_ok good tv W C F res"
  by (auto simp: returns_ok_def)

text \<open>Executing and subscribing, for any callback that runs well.\<close>

lemma execute_ok:
  assumes ok: "store_ok good tv W (C + cb_promises cb) F K S" and cb: "cb_ok good tv K cb" and r: "good r"
    and x: "cb_throws cb \<Longrightarrow> fs_executor (fstates S ! i) \<noteq> None"
    and run: "\<not> cb_throws cb \<Longrightarrow> returns_ok good tv W C F (run_op tv n (OpCallback cb r) S)"
  shows "returns_ok good tv W C F (run_op tv (Suc n) (OpExecute i cb r) S)"
proof (cases "fs_executor (fstates S ! i)")
  case (Some x)
  show ?thesis
  proof (rule returns_okI)
    show "run_op tv (Suc n) (OpExecute i cb r) S = Returned (S\<lparr>ftasks := ftasks S @ [(x, TaskCallback cb r)]\<rparr>)"
      by (simp add: Some state_Execute_def)
    show "store_ok good tv W C F K (S\<lparr>ftasks := ftasks S @ [(x, TaskCallback cb r)]\<rparr>)"
      using ok cb r by (intro store_ok_task) simp_all
  qed
next
  case None
  with x run show ?thesis by (auto simp: state_Execute_def)
qed

lemma subscribe_ok:
  assumes ok: "store_ok good tv W (C + cb_promises cb) F K S" and i: "i \<in> set F" and cb: "cb_ok good tv K cb"
    and x: "cb_throws cb \<Longrightarrow> fs_executor (fstates S ! i) \<noteq> None"
    and waits: "fs_state (fstates S ! i) = SubStart \<Longrightarrow> \<forall>p \<in># cb_promises cb. (i, p) \<in> W"
    and run: "\<And>r S'. good r \<Longrightarrow> \<not> cb_throws cb \<Longrightarrow> store_ok good tv W (C + cb_promises cb) (remove1 i F) K S' \<Longrightarrow>
      unfulfilled S' = unfulfilled S \<Longrightarrow> returns_ok good tv W C (remove1 i F) (run_op tv n (OpCallback cb r) S')"
  shows "returns_ok good tv W C (remove1 i F) (run_op tv (Suc (Suc n)) (OpSubscribe i cb) S)"
proof -
  have l: "i < length (fstates S)" "fs_state (fstates S ! i) \<in> {SubStart, SubOnlyResult}"
    using store_okD(5) [OF ok i] by (simp_all add: held_def)
  show ?thesis
  proof (cases "fs_state (fstates S ! i) = SubStart")
    case True
    show ?thesis
    proof (rule returns_okI)
      show "store_ok good tv W C (remove1 i F) K
          (upd_state i (fs_state_update (\<lambda>_. SubOnlyCallback)) (upd_state i (fs_callback_update (\<lambda>_. Some cb)) S))"
        using cb x waits [OF True] by (intro store_ok_subscribe [OF ok i True]) (simp add: waiting_ok_def)
    qed (use True l(1) in \<open>simp add: future_Subscribe_def state_PassCallback_def Let_def\<close>)
  next
    case False
    with l(2) have r: "fs_state (fstates S ! i) = SubOnlyResult" by simp
    with store_okD(1) [OF ok l(1)] obtain v where v: "fs_result (fstates S ! i) = Some v" "good v" by (auto simp: state_ok_def)
    let ?S = "upd_state i (fs_state_update (\<lambda>_. SubDone)) S"
    note consumed = store_ok_consume [OF ok i r]
    have "returns_ok good tv W C (remove1 i F) (run_op tv (Suc n) (OpExecute i cb v) ?S)"
      using x l(1) by (intro execute_ok [OF consumed(1) cb v(2)] run [OF v(2) _ consumed]) simp_all
    with r v(1) show ?thesis by (simp add: future_Subscribe_def)
  qed
qed

text \<open>Callbacks, given the operation that fulfils a promise.\<close>

lemma callback_ok:
  assumes set_ok: "\<And>m p r C F K S. m \<le> n \<Longrightarrow> store_ok good tv W (add_mset p C) F K (S :: ('e, 'v) store) \<Longrightarrow> good r \<Longrightarrow>
      6 * card (unfulfilled S) \<le> m \<Longrightarrow> returns_ok good tv W C F (run_op tv m (OpSetResult p r) S)"
    and ok: "store_ok good tv W (C + cb_promises cb) F K S" and cb: "cb_ok good tv K cb" "\<not> cb_throws cb" and r: "good r"
    and n: "6 * card (unfulfilled S) + 3 \<le> n"
  shows "returns_ok good tv W C F (run_op tv (Suc n) (OpCallback cb r) S)"
proof (cases cb)
  case (CbUser k)
  with ok store_ok_log [of good tv W C F K S] show ?thesis by (auto intro: returns_okI)
next
  case (CbUserThrows k e)
  with cb show ?thesis by simp
next
  case (CbUserSets k f p)
  have "returns_ok good tv W C F (run_op tv n (OpSetResult p (f r)) (S\<lparr>flog := flog S @ [(k, r)]\<rparr>))"
    using ok cb r n CbUserSets by (intro set_ok [OF order_refl store_ok_log]) simp_all
  with CbUserSets show ?thesis by simp
next
  case (CbTransform f p)
  have "returns_ok good tv W C F (run_op tv n (OpSetResult p (transformed tv f r)) S)"
    using ok cb r n CbTransform by (intro set_ok [OF order_refl]) simp_all
  then show ?thesis using CbTransform
    by (auto simp: returns_ok_def transform_callback_def transformed_def split: sum.splits)
next
  case (CbForward p)
  with cb r obtain v where v: "tv r = Inr v" "good (Inr v)" by (auto simp: results_are_values_def)
  have "returns_ok good tv W C F (run_op tv n (OpSetResult p (Inr v)) S)"
    using ok v n CbForward by (intro set_ok [OF order_refl]) simp_all
  with CbForward v show ?thesis by (simp add: forward_callback_def)
next
  case (CbAsyncTransform f p)
  with cb r obtain a where a: "f r = Inr a" "async_good good (K p) a" and vals: "results_are_values good tv"
    by (auto simp: async_continuation_good_def)
  let ?fw = "CbForward p :: ('e, 'v) callback"
  obtain k where k: "n = Suc (Suc (Suc k))" using n by (metis add_leD2 le_Suc_ex add_Suc add_0 numeral_3_eq_3)
  have ok': "store_ok good tv W (C + cb_promises ?fw) F K S" using ok CbAsyncTransform by simp
  have forward: "returns_ok good tv W C F' (run_op tv (Suc k) (OpCallback ?fw r') S')"
    if r': "good r'" and S': "store_ok good tv W (C + cb_promises ?fw) F' K' S'" "unfulfilled S' = unfulfilled S" for r' F' K' S'
  proof -
    obtain v where v: "tv r' = Inr v" "good (Inr v)" using vals r' by (auto simp: results_are_values_def)
    have "returns_ok good tv W C F' (run_op tv k (OpSetResult p (Inr v)) S')"
      using S' v n by (intro set_ok [of _ _ _ _ K']) (simp_all add: k)
    with v show ?thesis by (simp add: forward_callback_def)
  qed
  have sub: "\<exists>S' K'. run_op tv n (OpSubscribe j ?fw) S1 = Returned S' \<and> store_ok good tv W C F K' S'"
    if S1: "store_ok good tv W (C + cb_promises ?fw) (j # F) K1 S1" "unfulfilled S1 = unfulfilled S"
      and waits: "fs_state (fstates S1 ! j) = SubStart \<Longrightarrow> (j, p) \<in> W" for j S1 K1
  proof -
    have "returns_ok good tv W C (remove1 j (j # F)) (run_op tv n (OpSubscribe j ?fw) S1)"
      using vals waits S1(2) unfolding k by (intro subscribe_ok [OF S1(1)] forward) (simp_all add: results_are_values_def)
    then show ?thesis by (simp add: returns_ok_def)
  qed
  show ?thesis
  proof (cases a)
    case (AsyncReady r')
    obtain j S0 where m: "MakeSharedState S = (j, S0)" by (cases "MakeSharedState S")
    have "good r'" using a AsyncReady by simp
    note new = ready_state_ok [OF ok' m this]
    have "fs_state (fstates (upd_state j (fs_state_update (\<lambda>_. SubOnlyResult)) (upd_state j (fs_result_update (\<lambda>_. Some r')) S0)) ! j)
        \<noteq> SubStart" using new(3) by simp
    with sub [OF new(1,2)] AsyncReady a CbAsyncTransform m show ?thesis
      by (auto simp: returns_ok_def async_transform_callback_def)
  next
    case (AsyncRef j)
    with a have K: "K p = Some j" by simp
    have "(j, p) \<in> W" using store_okD(7) [OF ok' K] by simp
    moreover have "store_ok good tv W (C + cb_promises ?fw) (j # F) (K(p := None)) S"
      using store_ok_release_owned [of good tv W p C F K S j] ok' K by simp
    ultimately obtain S' K' where "run_op tv n (OpSubscribe j ?fw) S = Returned S'" "store_ok good tv W C F K' S'"
      using sub by blast
    with AsyncRef a CbAsyncTransform show ?thesis
      by (auto simp: returns_ok_def async_transform_callback_def)
  qed
qed

text \<open>Each state that gets fulfilled leaves the unfulfilled ones, which bounds the depth.\<close>

lemma set_result_ok:
  assumes "store_ok good tv W (add_mset p C) F K S" and "good r" and "6 * card (unfulfilled S) \<le> n"
  shows "returns_ok good tv W C F (run_op tv n (OpSetResult p r) S)"
  using assms
proof (induction n arbitrary: p r C F K S rule: less_induct)
  case (less n)
  note ok = less.prems(1)
  have p: "p \<in> unfulfilled S" "p < length (fstates S)" "fs_state (fstates S ! p) \<in> {SubStart, SubOnlyCallback}"
    using store_ok_promise [OF ok] by simp_all
  then have "0 < card (unfulfilled S)" by (auto simp: card_gt_0_iff)
  with less.prems(3) have n: "6 \<le> n" by linarith
  then have "n = Suc (Suc (Suc (n - 3)))" by simp
  then obtain m where m: "n = Suc (Suc (Suc m))" ..
  show ?case
  proof (cases "fs_state (fstates S ! p) = SubStart")
    case True
    from store_ok_result [OF ok True less.prems(2)] show ?thesis
      by (rule returns_okI [rotated]) (use True p in \<open>simp add: m state_SetResult_def Let_def\<close>)
  next
    case False
    with p(3) have cb: "fs_state (fstates S ! p) = SubOnlyCallback" by simp
    with store_okD(1) [OF ok p(2)] obtain cb where cb': "fs_callback (fstates S ! p) = Some cb" "cb_ok good tv K cb"
      "cb_throws cb \<longrightarrow> fs_executor (fstates S ! p) \<noteq> None" by (auto simp: state_ok_def waiting_ok_def)
    let ?S = "upd_state p (fs_state_update (\<lambda>_. SubDone)) (upd_state p (fs_result_update (\<lambda>_. Some r)) S)"
    note taken = store_ok_take_callback [OF ok cb cb'(1), of r]
    have "returns_ok good tv W C F (run_op tv (Suc m) (OpCallback cb r) ?S)" if "\<not> cb_throws cb"
      using m taken(2) less.prems(3)
      by (intro callback_ok [OF less.IH taken(1) cb'(2) that less.prems(2)]) simp_all
    then have "returns_ok good tv W C F (run_op tv (Suc (Suc m)) (OpExecute p cb r) ?S)"
      using cb'(3) p(2) by (intro execute_ok [OF taken(1) cb'(2) less.prems(2)]) simp_all
    with cb cb'(1) show ?thesis by (simp add: m state_SetResult_def Let_def)
  qed
qed

lemmas client_callback_ok = callback_ok [OF set_result_ok]

text \<open>Tasks: what a callback throws stops at the executor.\<close>

lemma run_task_ok:
  assumes ok: "store_ok good tv W C F K S" and n: "6 * card (unfulfilled S) + 4 \<le> n"
  shows "returns_ok good tv W C F (run_task tv n S)"
proof (cases "ftasks S")
  case Nil
  with ok show ?thesis by (auto simp: run_task_def intro: returns_okI)
next
  case (Cons xt rest)
  obtain x t where xt: "ftasks S = (x, t) # rest" using Cons by (cases xt) auto
  let ?S = "S\<lparr>ftasks := rest\<rparr>"
  note pop = store_ok_pop_task [OF ok xt]
  obtain m where m: "n = Suc m" using n by (cases n) auto
  show ?thesis
  proof (cases t)
    case (TaskTarget r p)
    have "returns_ok good tv W C F (run_op tv n (OpSetResult p r) ?S)"
      using pop n TaskTarget by (intro set_result_ok) simp_all
    with TaskTarget show ?thesis by (auto simp: returns_ok_def run_task_def xt)
  next
    case (TaskCallback cb r)
    show ?thesis
    proof (cases "cb_throws cb")
      case True
      then obtain k e where cb: "cb = CbUserThrows k e" by (cases cb) auto
      have "store_ok good tv W C F K (?S\<lparr>flog := flog ?S @ [(k, r)]\<rparr>)"
        using pop(1) TaskCallback cb by (intro store_ok_log) simp
      then show ?thesis by (rule returns_okI [rotated]) (simp add: run_task_def xt TaskCallback cb m)
    next
      case False
      have "returns_ok good tv W C F (run_op tv (Suc m) (OpCallback cb r) ?S)"
        using pop TaskCallback False n m by (intro client_callback_ok [where K = K]) simp_all
      with TaskCallback show ?thesis by (auto simp: returns_ok_def run_task_def xt m)
    qed
  qed
qed

lemma run_task_at_ok:
  assumes ok: "store_ok good tv W C F K S" and n: "6 * card (unfulfilled S) + 4 \<le> n" and k: "k < length (ftasks S)"
  shows "returns_ok good tv W C F (run_task_at tv n k S)"
proof -
  let ?ts = "(ftasks S ! k) # take k (ftasks S) @ drop (Suc k) (ftasks S)"
  have "ftasks S = take k (ftasks S) @ (ftasks S ! k) # drop (Suc k) (ftasks S)" using k by (rule id_take_nth_drop)
  then have m: "mset ?ts = mset (ftasks S)" by (metis mset.simps(2) mset_append union_mset_add_mset_right)
  have "producers (S\<lparr>ftasks := ?ts\<rparr>) = producers S"
    using arg_cong [OF m, of "\<lambda>M. sum_mset (image_mset (task_promises \<circ> snd) M)"]
    by (simp add: producers_def sum_mset_sum_list del: mset.simps flip: mset_map)
  moreover have "set ?ts = set (ftasks S)" using m by (metis set_mset_mset)
  moreover have un: "unfulfilled (S\<lparr>ftasks := ?ts\<rparr>) = unfulfilled S" by (simp add: unfulfilled_def)
  ultimately have "store_ok good tv W C F K (S\<lparr>ftasks := ?ts\<rparr>)"
    using ok unfolding store_ok_def by (simp add: held_def)
  from run_task_ok [OF this] n un show ?thesis by (simp add: run_task_at_def)
qed

text \<open>When nobody outside of the store has to fulfil anything, everything is fulfilled, as callbacks do not wait in circles.\<close>

lemma store_ok_idle:
  assumes ok: "store_ok good tv W {#} F K S" and tasks: "ftasks S = []" and W: "finite W" "acyclic W"
  shows "unfulfilled S = {}"
proof (rule ccontr)
  assume ne: "unfulfilled S \<noteq> {}"
  obtain i where i: "i \<in> unfulfilled S" and least: "\<And>j. (j, i) \<in> W \<Longrightarrow> j \<notin> unfulfilled S"
    using wfE_min' [OF finite_acyclic_wf [OF W] ne] by blast
  have "i \<in># producers S" using store_okD(3) [OF ok] i by simp
  then obtain st where "st \<in> set (fstates S)" "i \<in># state_promises st"
    using tasks by (auto simp: producers_def in_sum_list_mset)
  then obtain j where j: "j < length (fstates S)" "i \<in># state_promises (fstates S ! j)" by (metis in_set_conv_nth)
  then have "fs_state (fstates S ! j) = SubOnlyCallback" by (auto simp: state_promises_def split: if_splits)
  with j store_okD(1) [OF ok j(1)] have "(j, i) \<in> W" "j \<in> unfulfilled S"
    by (auto simp: state_promises_def state_ok_def waiting_ok_def unfulfilled_def)
  with least show False by blast
qed

lemma store_ok_ready:
  assumes ok: "store_ok good tv W {#} F K S" and tasks: "ftasks S = []" and W: "finite W" "acyclic W"
  shows "\<forall>f \<in> set F. client_IsReady (Some f) S = Some True"
  using store_ok_idle [OF assms] store_okD(5) [OF ok] by (auto simp: held_def unfulfilled_def client_IsReady_def)

section \<open>Clients keep the store well typed\<close>

text \<open>States are never removed.\<close>

definition grows :: "nat \<Rightarrow> ('e, 'v) outcome \<Rightarrow> bool" where
  "grows k out \<longleftrightarrow> (case out of Returned S \<Rightarrow> k \<le> length (fstates S) | Threw e S \<Rightarrow> k \<le> length (fstates S) | _ \<Rightarrow> True)"

lemma run_op_grows: "k \<le> length (fstates S) \<Longrightarrow> grows k (run_op tv n op S)"
proof (induction n arbitrary: op S)
  case 0
  then show ?case by (simp add: grows_def)
next
  case (Suc n)
  have rec: "grows k (run_op tv n op (S' :: ('a, 'b) store))" if "k \<le> length (fstates S')" for op S' using Suc.IH that .
  have mk: "k \<le> length (fstates (snd (MakeSharedState S)))" using Suc.prems by (simp add: MakeSharedState_def)
  have abort: "grows k (case out of Threw e S' \<Rightarrow> Aborted | res \<Rightarrow> res)" if "grows k out" for out :: "('a, 'b) outcome"
    using that by (simp add: grows_def split: outcome.splits)
  show ?case
  proof (cases op)
    case (OpCallback cb r)
    with Suc.prems show ?thesis
      by (cases cb) (auto simp: transform_callback_def async_transform_callback_def forward_callback_def grows_def [of k "Returned _"]
        grows_def [of k "Threw _ _"] Let_def case_prod_beta mk intro!: rec abort split: sum.split async_future.split)
  qed (use Suc.prems in \<open>auto simp: state_SetResult_def state_Execute_def future_Subscribe_def state_PassCallback_def Let_def
        grows_def [of k "Returned _"] grows_def [of k Aborted] intro!: rec split: subscription_state.split option.split\<close>)
qed

lemma run_task_grows:
  assumes "k \<le> length (fstates S)"
  shows "grows k (run_task_at tv n i S)"
proof -
  obtain x t where xt: "ftasks S ! i = (x, t)" by fastforce
  have catch: "grows k (case out of Threw e S' \<Rightarrow> Returned S' | res \<Rightarrow> res)" if "grows k out" for out :: "('a, 'b) outcome"
    using that by (simp add: grows_def split: outcome.splits)
  show ?thesis unfolding run_task_at_def run_task_def Let_def
    using assms by (auto simp: xt intro!: catch run_op_grows split: future_task.split)
qed

definition waits_ok :: "nat \<Rightarrow> (state_ref \<times> state_ref) set \<Rightarrow> bool" where
  "waits_ok k W \<longleftrightarrow> acyclic W \<and> W \<subseteq> {..< k} \<times> {..< k}"

lemma waits_ok_finite: "waits_ok k W \<Longrightarrow> finite W"
  unfolding waits_ok_def by (meson finite_SigmaI finite_lessThan finite_subset)

lemma waits_ok_mono: "waits_ok k W \<Longrightarrow> k \<le> k' \<Longrightarrow> waits_ok k' W"
  unfolding waits_ok_def by fastforce

lemma waits_ok_insert:
  "waits_ok k W \<Longrightarrow> i < k' \<Longrightarrow> p < k' \<Longrightarrow> k \<le> k' \<Longrightarrow> (p, i) \<notin> W\<^sup>* \<Longrightarrow> waits_ok k' (insert (i, p) W)"
  using waits_ok_mono [of k W k'] by (simp add: waits_ok_def acyclic_insert)

text \<open>A promise that nothing depends on can wait for anything else.\<close>

lemma waits_ok_fresh: "p \<notin> Domain W \<Longrightarrow> i \<noteq> p \<Longrightarrow> (p, i) \<notin> W\<^sup>*"
  by (auto elim: converse_rtranclE)

lemma owned_fresh:
  assumes ok: "store_ok good tv W C F K S" and W: "waits_ok (length (fstates S)) W"
  shows "K (length (fstates S)) = None"
proof (cases "K (length (fstates S))")
  case (Some i)
  then have "(i, length (fstates S)) \<in> W" using store_okD(7) [OF ok] by blast
  with W show ?thesis by (auto simp: waits_ok_def)
qed

definition fc_typed :: "('e + 'v \<Rightarrow> bool) \<Rightarrow> ('e + 'v \<Rightarrow> 'e + 'v) \<Rightarrow> ('e, 'v) fclient \<Rightarrow> bool" where
  "fc_typed good tv c \<longleftrightarrow> \<not> fc_broken c \<and> waits_ok (length (fstates (fc_store c))) (set (fc_waits c)) \<and>
     (\<exists>K. store_ok good tv (set (fc_waits c)) (mset (fc_promises c)) (fc_futures c) K (fc_store c))"

lemma fc_finish_typed:
  assumes "returns_ok good tv (set (fc_waits c)) (mset (fc_promises c)) (fc_futures c) out" and "\<not> fc_broken c"
    and "waits_ok k (set (fc_waits c))" and "grows k out"
  shows "fc_typed good tv (fc_finish out c)"
  using assms by (auto simp: returns_ok_def fc_finish_def fc_typed_def grows_def intro: waits_ok_mono)

text \<open>Subscribing, with the fuel of the client.\<close>

lemma client_subscribe_ok:
  assumes ok: "store_ok good tv W (C + cb_promises cb) F K S" and i: "i \<in> set F" and cb: "cb_ok good tv K cb"
    and x: "cb_throws cb \<Longrightarrow> fs_executor (fstates S ! i) \<noteq> None"
    and waits: "\<forall>p \<in># cb_promises cb. (i, p) \<in> W" and n: "6 * card (unfulfilled S) + 6 \<le> n"
  shows "returns_ok good tv W C (remove1 i F) (run_op tv n (OpSubscribe i cb) S)"
proof -
  have "n = Suc (Suc (Suc (n - 3)))" using n by simp
  then obtain m where m: "n = Suc (Suc (Suc m))" ..
  have "returns_ok good tv W C (remove1 i F) (run_op tv (Suc m) (OpCallback cb r) S')"
    if "good r" "\<not> cb_throws cb" "store_ok good tv W (C + cb_promises cb) (remove1 i F) K S'" "unfulfilled S' = unfulfilled S" for r S'
    using that cb n m by (intro client_callback_ok [where K = K]) simp_all
  then show ?thesis unfolding m using waits by (intro subscribe_ok [OF ok i cb x])
qed

text \<open>The contract of a transformation.\<close>

lemma contract_ok:
  assumes ok: "store_ok good tv W C F K S" and f: "f \<in> set F" and c: "transform_contract f S = (t, S1)"
  shows "store_ok good tv W (add_mset t C) (t # F) K S1" and "t = length (fstates S)" and "length (fstates S1) = Suc t"
    and "card (unfulfilled S1) \<le> Suc t" and "f < t"
proof -
  obtain S0 where m: "MakeSharedState S = (t, S0)" and S1: "S1 = SetExecutor (GetExecutor f S) t S0"
    using c by (auto simp: transform_contract_def Let_def split: prod.splits)
  note new = make_state_ok [OF ok m]
  have "held S0 t" using new by (simp add: held_def)
  with new show "store_ok good tv W (add_mset t C) (t # F) K S1" unfolding S1 by (intro SetExecutor_ok) simp_all
  show t: "t = length (fstates S)" by (rule new(2))
  show l: "length (fstates S1) = Suc t" using new(2,3) by (simp add: S1 SetExecutor_def)
  show "card (unfulfilled S1) \<le> Suc t" using card_unfulfilled [of S1] l by simp
  show "f < t" using store_okD(5) [OF ok f] t by (simp add: held_def)
qed

lemma client_Subscribe_typed:
  assumes ok: "store_ok good tv (set (fc_waits c)) (mset (fc_promises c) + cb_promises cb) (fc_futures c) K (fc_store c)"
    and waits: "waits_ok (length (fstates (fc_store c))) (set (fc_waits c))" and nb: "\<not> fc_broken c"
    and cb: "cb_ok good tv K cb" "cb_throws cb \<Longrightarrow> GetExecutor f (fc_store c) \<noteq> None"
      "\<forall>p \<in># cb_promises cb. (f, p) \<in> set (fc_waits c)"
    and step: "client_Subscribe tv f cb c = Some c'"
  shows "fc_typed good tv c'"
proof -
  let ?S = "fc_store c"
  let ?out = "run_op tv (fc_fuel ?S) (OpSubscribe f cb) ?S"
  have f: "f \<in> set (fc_futures c)" and c': "c' = fc_finish ?out (c\<lparr>fc_futures := remove1 f (fc_futures c)\<rparr>)"
    using step by (auto simp: client_Subscribe_def split: if_splits)
  have "6 * card (unfulfilled ?S) + 6 \<le> fc_fuel ?S" using card_unfulfilled [of ?S] by (simp add: fc_fuel_def)
  then have "returns_ok good tv (set (fc_waits c)) (mset (fc_promises c)) (remove1 f (fc_futures c)) ?out"
    using cb by (intro client_subscribe_ok [OF ok f]) (simp_all add: GetExecutor_def)
  then show ?thesis unfolding c'
    using nb waits by (intro fc_finish_typed [where k = "length (fstates ?S)"] run_op_grows) simp_all
qed

text \<open>Transformations: a new promise depends on the future that is transformed, and on the future that the continuation owns.\<close>

lemma transform_waits:
  assumes W: "waits_ok (length (fstates S)) W" and t: "t = length (fstates S)" and f: "f < t"
  shows "waits_ok (Suc t) (insert (f, t) W)" and "j < t \<Longrightarrow> waits_ok (Suc t) (insert (j, t) (insert (f, t) W))"
proof -
  have d: "t \<notin> Domain W" using W t by (auto simp: waits_ok_def)
  show 1: "waits_ok (Suc t) (insert (f, t) W)"
    using f t by (intro waits_ok_insert [OF W] waits_ok_fresh [OF d]) simp_all
  have "t \<notin> Domain (insert (f, t) W)" using d f by auto
  then show "waits_ok (Suc t) (insert (j, t) (insert (f, t) W))" if "j < t"
    using that by (intro waits_ok_insert [OF 1] waits_ok_fresh) simp_all
qed

lemma transform_typed:
  assumes ok: "store_ok good tv W C F K S" and f: "f \<in> set F" and W: "waits_ok (length (fstates S)) W"
    and c: "transform_contract f S = (t, S1)" and cb: "cb_ok good tv K cb" "\<not> cb_throws cb" "cb_promises cb = {#t#}"
  shows "returns_ok good tv (insert (f, t) W) C (t # remove1 f F) (run_op tv (fc_fuel S) (OpSubscribe f cb) S1)"
proof -
  note new = contract_ok [OF ok f c]
  have "store_ok good tv (insert (f, t) W) (C + cb_promises cb) (t # F) K S1"
    using store_ok_mono [OF new(1), of "insert (f, t) W"] cb(3) by auto
  then have "returns_ok good tv (insert (f, t) W) C (remove1 f (t # F)) (run_op tv (fc_fuel S) (OpSubscribe f cb) S1)"
    using f cb new by (intro client_subscribe_ok [where K = K]) (auto simp: fc_fuel_def)
  with new(5) show ?thesis by simp
qed

lemma transform_owning_typed:
  assumes ok: "store_ok good tv W C F K S" and f: "f \<in> set F" "j \<in> set (remove1 f F)" and W: "waits_ok (length (fstates S)) W"
    and c: "transform_contract f S = (t, S1)" and cb: "cb_ok good tv (K(t \<mapsto> j)) cb" "\<not> cb_throws cb" "cb_promises cb = {#t#}"
  defines "W' \<equiv> insert (j, t) (insert (f, t) W)"
  shows "returns_ok good tv W' C (t # remove1 j (remove1 f F)) (run_op tv (fc_fuel S) (OpSubscribe f cb) S1)" and "j < t"
proof -
  note new = contract_ok [OF ok f(1) c]
  have j: "j \<in> set F" "j \<noteq> f" using f store_okD(4) [OF ok] by (auto simp: set_remove1_eq)
  show jt: "j < t" using contract_ok(2) [OF ok f(1) c] store_okD(5) [OF ok j(1)] by (simp add: held_def)
  have "K t = None" using owned_fresh [OF ok W] new(2) by simp
  moreover have "store_ok good tv W' (add_mset t C) (t # F) K S1" by (rule store_ok_mono [OF new(1)]) (auto simp: W'_def)
  ultimately have "store_ok good tv W' (add_mset t C) (remove1 j (t # F)) (K(t \<mapsto> j)) S1"
    using j by (intro store_ok_give_owned) (auto simp: W'_def)
  with jt have own: "store_ok good tv W' (C + cb_promises cb) (t # remove1 j F) (K(t \<mapsto> j)) S1" using cb(3) by simp
  have "f \<in> set (t # remove1 j F)" using f(1) j store_okD(4) [OF ok] by (simp add: set_remove1_eq)
  from client_subscribe_ok [OF own this cb(1)] have
    "returns_ok good tv W' C (remove1 f (t # remove1 j F)) (run_op tv (fc_fuel S) (OpSubscribe f cb) S1)"
    using cb new by (simp add: W'_def fc_fuel_def)
  with new(5) show "returns_ok good tv W' C (t # remove1 j (remove1 f F)) (run_op tv (fc_fuel S) (OpSubscribe f cb) S1)"
    by (simp add: remove1_commute)
qed

lemma Future_Transform_typed:
  assumes c: "fc_typed good tv c" and f: "f \<in> set (fc_futures c)" and T: "Future_Transform tv (fc_fuel (fc_store c)) tr f (fc_store c) = (t, out)"
    and tr: "\<forall>r. good r \<longrightarrow> good (transformed tv tr r)"
  shows "fc_typed good tv (fc_finish out (c\<lparr>fc_futures := t # remove1 f (fc_futures c), fc_waits := (f, t) # fc_waits c\<rparr>))"
proof -
  let ?S = "fc_store c"
  obtain K where ok: "store_ok good tv (set (fc_waits c)) (mset (fc_promises c)) (fc_futures c) K ?S" and nb: "\<not> fc_broken c"
    and W: "waits_ok (length (fstates ?S)) (set (fc_waits c))" using c by (auto simp: fc_typed_def)
  obtain S1 where S1: "transform_contract f ?S = (t, S1)" and out: "out = run_op tv (fc_fuel ?S) (OpSubscribe f (CbTransform tr t)) S1"
    using T by (auto simp: Future_Transform_def split: prod.splits)
  note new = contract_ok [OF ok f S1]
  show ?thesis
    using transform_typed [OF ok f W S1, of "CbTransform tr t"] tr nb transform_waits(1) [OF W new(2) new(5)] new(3)
    unfolding out by (intro fc_finish_typed [where k = "Suc t"] run_op_grows) simp_all
qed

lemma Future_Transform_async_typed:
  assumes c: "fc_typed good tv c" and f: "f \<in> set (fc_futures c)"
    and T: "Future_Transform_async tv (fc_fuel (fc_store c)) tr f (fc_store c) = (t, out)"
    and tr: "results_are_values good tv"
  shows "async_continuation_good good None tr \<Longrightarrow>
      fc_typed good tv (fc_finish out (c\<lparr>fc_futures := t # remove1 f (fc_futures c), fc_waits := (f, t) # fc_waits c\<rparr>))"
    and "async_continuation_good good (Some j) tr \<Longrightarrow> j \<in> set (remove1 f (fc_futures c)) \<Longrightarrow>
      fc_typed good tv (fc_finish out (c\<lparr>fc_futures := t # remove1 j (remove1 f (fc_futures c)),
        fc_waits := (j, t) # (f, t) # fc_waits c\<rparr>))"
proof -
  let ?S = "fc_store c"
  obtain K where ok: "store_ok good tv (set (fc_waits c)) (mset (fc_promises c)) (fc_futures c) K ?S" and nb: "\<not> fc_broken c"
    and W: "waits_ok (length (fstates ?S)) (set (fc_waits c))" using c by (auto simp: fc_typed_def)
  obtain S1 where S1: "transform_contract f ?S = (t, S1)" and out: "out = run_op tv (fc_fuel ?S) (OpSubscribe f (CbAsyncTransform tr t)) S1"
    using T by (auto simp: Future_Transform_async_def split: prod.splits)
  note new = contract_ok [OF ok f S1]
  have Kt: "K t = None" using owned_fresh [OF ok W] new(2) by simp
  show "fc_typed good tv (fc_finish out (c\<lparr>fc_futures := t # remove1 f (fc_futures c), fc_waits := (f, t) # fc_waits c\<rparr>))"
    if "async_continuation_good good None tr"
    using transform_typed [OF ok f W S1, of "CbAsyncTransform tr t"] tr that Kt nb transform_waits(1) [OF W new(2) new(5)] new(3)
    unfolding out by (intro fc_finish_typed [where k = "Suc t"] run_op_grows) simp_all
  show "fc_typed good tv (fc_finish out (c\<lparr>fc_futures := t # remove1 j (remove1 f (fc_futures c)),
        fc_waits := (j, t) # (f, t) # fc_waits c\<rparr>))"
    if "async_continuation_good good (Some j) tr" "j \<in> set (remove1 f (fc_futures c))"
    using transform_owning_typed [OF ok f that(2) W S1, of "CbAsyncTransform tr t"] tr that nb transform_waits(2) [OF W new(2) new(5)] new(3)
    unfolding out by (intro fc_finish_typed [where k = "Suc t"] run_op_grows) simp_all
qed

lemma FcSet_typed:
  assumes c: "fc_typed good tv c" and r: "good r" and step: "fclient_step tv (FcSet p r) c = Some c'"
  shows "fc_typed good tv c'"
proof -
  let ?S = "fc_store c"
  let ?out = "run_op tv (fc_fuel ?S) (OpSetResult p r) ?S"
  obtain K where ok: "store_ok good tv (set (fc_waits c)) (mset (fc_promises c)) (fc_futures c) K ?S" and nb: "\<not> fc_broken c"
    and W: "waits_ok (length (fstates ?S)) (set (fc_waits c))" using c by (auto simp: fc_typed_def)
  have p: "p \<in> set (fc_promises c)" and c': "c' = fc_finish ?out (c\<lparr>fc_promises := remove1 p (fc_promises c)\<rparr>)"
    using step by (auto simp: Promise_Set_def HoldState_ReleaseState_def split: if_splits)
  have "returns_ok good tv (set (fc_waits c)) (mset (remove1 p (fc_promises c))) (fc_futures c) ?out"
    using ok p card_unfulfilled [of ?S] r by (intro set_result_ok) (simp_all add: fc_fuel_def)
  then show ?thesis unfolding c'
    using nb W by (intro fc_finish_typed [where k = "length (fstates ?S)"] run_op_grows) simp_all
qed

lemma FcSubscribe_typed:
  assumes c: "fc_typed good tv c" and cb: "cb_promises cb = {#}" "\<And>K. cb_ok good tv K cb"
    and x: "cb_throws cb \<Longrightarrow> GetExecutor f (fc_store c) \<noteq> None" and step: "client_Subscribe tv f cb c = Some c'"
  shows "fc_typed good tv c'"
proof -
  obtain K where "store_ok good tv (set (fc_waits c)) (mset (fc_promises c)) (fc_futures c) K (fc_store c)" "\<not> fc_broken c"
    "waits_ok (length (fstates (fc_store c))) (set (fc_waits c))" using c by (auto simp: fc_typed_def)
  then show ?thesis using cb x step by (intro client_Subscribe_typed [where K = K and cb = cb]) simp_all
qed

lemma FcSubscribeSets_typed:
  assumes c: "fc_typed good tv c" and step: "fclient_step tv (FcSubscribeSets f k g p) c = Some c'"
    and g: "\<forall>r. good r \<longrightarrow> good (g r)" and "(p, f) \<notin> (set (fc_waits c))\<^sup>*"
  shows "fc_typed good tv c'"
proof -
  let ?S = "fc_store c"
  let ?c = "c\<lparr>fc_promises := remove1 p (fc_promises c), fc_waits := (f, p) # fc_waits c\<rparr>"
  obtain K where ok: "store_ok good tv (set (fc_waits c)) (mset (fc_promises c)) (fc_futures c) K ?S" and nb: "\<not> fc_broken c"
    and W: "waits_ok (length (fstates ?S)) (set (fc_waits c))" using c by (auto simp: fc_typed_def)
  have p: "p \<in> set (fc_promises c)" and sub: "client_Subscribe tv f (CbUserSets k g p) ?c = Some c'"
    using step by (auto split: if_splits)
  have f: "f \<in> set (fc_futures c)" using sub by (auto simp: client_Subscribe_def split: if_splits)
  have "waits_ok (length (fstates ?S)) (insert (f, p) (set (fc_waits c)))"
    using store_okD(5) [OF ok f] store_ok_promise(2) [OF ok, of p] p assms(4) by (intro waits_ok_insert [OF W]) (simp_all add: held_def)
  moreover have "store_ok good tv (insert (f, p) (set (fc_waits c)))
      (mset (remove1 p (fc_promises c)) + cb_promises (CbUserSets k g p)) (fc_futures c) K ?S"
    using store_ok_mono [OF ok, of "insert (f, p) (set (fc_waits c))"] p by auto
  ultimately show ?thesis using g nb sub by (intro client_Subscribe_typed [OF _ _ _ _ _ _ sub, where K = K]) simp_all
qed

lemma fc_new_typed:
  assumes c: "fc_typed good tv c" and m: "MakeSharedState (fc_store c) = (i, S')"
  shows "fc_typed good tv (c\<lparr>fc_promises := i # fc_promises c, fc_futures := i # fc_futures c, fc_store := S'\<rparr>)"
    and "good r \<Longrightarrow> fc_typed good tv (c\<lparr>fc_futures := i # fc_futures c,
      fc_store := upd_state i (fs_state_update (\<lambda>_. SubOnlyResult)) (upd_state i (fs_result_update (\<lambda>_. Some r)) S')\<rparr>)"
    and "good r \<Longrightarrow> fc_typed good tv (c\<lparr>fc_futures := i # fc_futures c,
      fc_store := SetExecutor (Some x) i (S'\<lparr>ftasks := ftasks S' @ [(x, TaskTarget r i)]\<rparr>)\<rparr>)"
proof -
  obtain K where ok: "store_ok good tv (set (fc_waits c)) (mset (fc_promises c)) (fc_futures c) K (fc_store c)" and nb: "\<not> fc_broken c"
    and W: "waits_ok (length (fstates (fc_store c))) (set (fc_waits c))" using c by (auto simp: fc_typed_def)
  note new = make_state_ok [OF ok m]
  have W': "waits_ok (Suc (length (fstates (fc_store c)))) (set (fc_waits c))" using W by (rule waits_ok_mono) simp
  show "fc_typed good tv (c\<lparr>fc_promises := i # fc_promises c, fc_futures := i # fc_futures c, fc_store := S'\<rparr>)"
    using new(1,3) nb W' by (auto simp: fc_typed_def)
  show "fc_typed good tv (c\<lparr>fc_futures := i # fc_futures c,
      fc_store := upd_state i (fs_state_update (\<lambda>_. SubOnlyResult)) (upd_state i (fs_result_update (\<lambda>_. Some r)) S')\<rparr>)" if "good r"
    using ready_state_ok(1) [OF ok m that] new(3) nb W' by (auto simp: fc_typed_def)
  let ?S = "S'\<lparr>ftasks := ftasks S' @ [(x, TaskTarget r i)]\<rparr>"
  have "store_ok good tv (set (fc_waits c)) (mset (fc_promises c)) (i # fc_futures c) K (SetExecutor (Some x) i ?S)" if "good r"
    using new that by (intro SetExecutor_ok(1) store_ok_task) (simp_all add: held_def)
  then show "fc_typed good tv (c\<lparr>fc_futures := i # fc_futures c,
      fc_store := SetExecutor (Some x) i (S'\<lparr>ftasks := ftasks S' @ [(x, TaskTarget r i)]\<rparr>)\<rparr>)" if "good r"
    using new(3) nb W' that by (auto simp: fc_typed_def SetExecutor_def)
qed

lemma FcVia_typed:
  assumes c: "fc_typed good tv c" and f: "f \<in> set (fc_futures c)"
  shows "fc_typed good tv (c\<lparr>fc_store := SetExecutor (Some x) f (fc_store c)\<rparr>)"
proof -
  obtain K where ok: "store_ok good tv (set (fc_waits c)) (mset (fc_promises c)) (fc_futures c) K (fc_store c)"
    using c by (auto simp: fc_typed_def)
  with SetExecutor_ok(1) [OF ok store_okD(5) [OF ok f], of "Some x"] c show ?thesis
    by (auto simp: fc_typed_def SetExecutor_def)
qed

lemma FcGetResult_typed:
  assumes c: "fc_typed good tv c" and step: "fclient_step tv (FcGetResult f) c = Some c'"
  shows "fc_typed good tv c'"
proof -
  let ?S = "fc_store c"
  obtain K where ok: "store_ok good tv (set (fc_waits c)) (mset (fc_promises c)) (fc_futures c) K ?S"
    using c by (auto simp: fc_typed_def)
  have f: "f \<in> set (fc_futures c)" "state_BlockForResult f ?S" using step by (auto split: if_splits)
  then have r: "f < length (fstates ?S)" "fs_state (fstates ?S ! f) = SubOnlyResult"
    using store_okD(5) [OF ok f(1)] by (auto simp: held_def state_BlockForResult_def)
  with store_okD(1) [OF ok r(1)] obtain v where "fs_result (fstates ?S ! f) = Some v" by (auto simp: state_ok_def)
  with step f store_ok_consume(1) [OF ok f(1) r(2)] c show ?thesis
    by (auto simp: client_GetResult_def HoldState_ReleaseState_def state_GetReadyResult_def fc_typed_def)
qed

lemma FcRunTask_typed:
  assumes c: "fc_typed good tv c" and step: "fclient_step tv (FcRunTask k) c = Some c'"
  shows "fc_typed good tv c'"
proof -
  let ?S = "fc_store c"
  obtain K where ok: "store_ok good tv (set (fc_waits c)) (mset (fc_promises c)) (fc_futures c) K ?S" and nb: "\<not> fc_broken c"
    and W: "waits_ok (length (fstates ?S)) (set (fc_waits c))" using c by (auto simp: fc_typed_def)
  have k: "k < length (ftasks ?S)" and c': "c' = fc_finish (run_task_at tv (fc_fuel ?S) k ?S) c" using step by (auto split: if_splits)
  have "6 * card (unfulfilled ?S) + 4 \<le> fc_fuel ?S" using card_unfulfilled [of ?S] by (simp add: fc_fuel_def)
  then show ?thesis unfolding c' by (rule fc_finish_typed [OF run_task_at_ok [OF ok _ k] nb W run_task_grows [OF order_refl]])
qed

lemma fc_step_typed:
  assumes c: "fc_typed good tv c" and "fc_step good tv l c = Some c'"
  shows "fc_typed good tv c'"
proof -
  have step: "fclient_step tv l c = Some c'" and d: "fc_disciplined good tv l c" using assms(2) by (auto dest: fc_stepD)
  obtain i S' where m: "MakeSharedState (fc_store c) = (i, S')" by (cases "MakeSharedState (fc_store c)")
  show ?thesis
  proof (cases l)
    case FcMakeContract
    with step m fc_new_typed(1) [OF c m] show ?thesis by (auto simp: MakeContract_def Promise_ctor_def Promise_MakeFuture_def)
  next
    case (FcCompleted v)
    with step m fc_new_typed(2) [OF c m] d show ?thesis by (auto simp: Future_Completed_def)
  next
    case (FcFailed e)
    with step m fc_new_typed(2) [OF c m] d show ?thesis by (auto simp: Future_Failed_def)
  next
    case (FcSet p r)
    with step d FcSet_typed [OF c] show ?thesis by simp
  next
    case (FcVia f x)
    with step FcVia_typed [OF c] show ?thesis by (auto simp: Future_Via_def split: if_splits)
  next
    case (FcSubscribe f k)
    with step show ?thesis by (intro FcSubscribe_typed [OF c, of "CbUser k"]) simp_all
  next
    case (FcSubscribeThrows f k e)
    with step d show ?thesis by (intro FcSubscribe_typed [OF c, of "CbUserThrows k e"]) simp_all
  next
    case (FcSubscribeSets f k g p)
    with step d FcSubscribeSets_typed [OF c, of f k g p c'] show ?thesis by simp
  next
    case (FcTransform f tr)
    with step d Future_Transform_typed [OF c] show ?thesis by (auto split: if_splits prod.splits)
  next
    case (FcTransformAsync f tr j)
    with step d Future_Transform_async_typed [OF c] show ?thesis by (cases j) (auto split: if_splits prod.splits)
  next
    case (FcGetResult f)
    with step FcGetResult_typed [OF c] show ?thesis by simp
  next
    case (FcAsyncVia x target)
    with step m fc_new_typed(3) [OF c m] d show ?thesis by (auto simp: AsyncVia_def Let_def)
  next
    case (FcRunTask k)
    with step FcRunTask_typed [OF c] show ?thesis by simp
  qed
qed

lemma fc_typed_start: "fc_typed good tv fc_start"
  by (auto simp: fc_typed_def fc_start_def store_ok_def producers_def unfulfilled_def waits_ok_def acyclic_def
      intro!: exI [of _ "\<lambda>_. None"])

interpretation fclients: invariant_system "fc_step good tv" fc_start "fc_typed good tv" for good tv
  by unfold_locales (fact fc_typed_start, fact fc_step_typed)

section \<open>Properties\<close>

text \<open>C6: Type safety of futures. For every client that fulfils each promise at most once, consumes each future at most once and keeps to the
  discipline above (asynchronous transformations only of values, since an error or an exception of the continuation aborts; throwing callbacks only
  behind an executor, since otherwise they leave the call or abort; no promise that waits for itself; user callbacks do nothing with the library
  but fulfil a promise that they own), whatever the order of its calls and of the tasks of executors: no assertion of the library fails, no optional is
  read empty, no exception leaves a call, callbacks that run each other come to an end (within six calls for every state); every unfulfilled
  state has exactly one producer (the client, a stored callback or a task); and when the client has fulfilled its promises and the executors have run
  their tasks, then every future the client still holds is ready.\<close>

theorem Future_clients_type_safe:
  assumes "reachable (fc_step good tv) fc_start c"
  shows "\<not> fc_broken c \<and>
    mset (fc_promises c) + producers (fc_store c) = mset_set (unfulfilled (fc_store c)) \<and>
    (fc_promises c = [] \<and> ftasks (fc_store c) = [] \<longrightarrow>
       (\<forall>f \<in> set (fc_futures c). client_IsReady (Some f) (fc_store c) = Some True))"
proof (intro conjI impI)
  have "fc_typed good tv c" using assms by (rule fclients.inv_reachable)
  then obtain K where ok: "store_ok good tv (set (fc_waits c)) (mset (fc_promises c)) (fc_futures c) K (fc_store c)"
    and "\<not> fc_broken c" and W: "waits_ok (length (fstates (fc_store c))) (set (fc_waits c))" by (auto simp: fc_typed_def)
  then show "\<not> fc_broken c" and "mset (fc_promises c) + producers (fc_store c) = mset_set (unfulfilled (fc_store c))"
    using store_okD(3) [OF ok] by simp_all
  have "acyclic (set (fc_waits c))" using W by (simp add: waits_ok_def)
  then show "\<forall>f \<in> set (fc_futures c). client_IsReady (Some f) (fc_store c) = Some True"
    if "fc_promises c = [] \<and> ftasks (fc_store c) = []" using that ok by (intro store_ok_ready) simp_all
qed

text \<open>A client that uses everything: its results are values, an asynchronous continuation on an executor returns a future that the client made, a
  callback fulfils a promise, another one throws on the executor.\<close>

definition fc_example :: "(nat, nat) fclient_label list" where
  "fc_example = [FcMakeContract, FcMakeContract, FcVia 0 9, FcTransformAsync 0 (\<lambda>r. Inr (AsyncRef 1)) (Some 1), FcSet 0 (Inr 4),
     FcMakeContract, FcSubscribeSets 2 7 (map_sum id Suc) 3, FcRunTask 0, FcSet 1 (Inr 5), FcRunTask 0,
     FcTransform 3 (\<lambda>r. Inr r), FcVia 4 9, FcSubscribeThrows 4 8 0, FcRunTask 0, FcCompleted 6]"

lemma values_are_values [simp]: "results_are_values (\<lambda>r :: 'e + 'v. \<not> isl r) (\<lambda>r. r)"
  by (auto simp: results_are_values_def split_sum_all)

theorem Future_clients_type_safe_witness:
  "\<exists>c. run (fc_step (\<lambda>r. \<not> isl r) (\<lambda>r. r)) fc_example fc_start = Some c \<and> \<not> fc_broken c \<and> fc_futures c = [5] \<and>
     client_IsReady (Some 5) (fc_store c) = Some True \<and> flog (fc_store c) = [(7, Inr 5), (8, Inr 6)]"
proof -
  note ops = MakeContract_def Promise_ctor_def Promise_MakeFuture_def MakeSharedState_def Future_Via_def SetExecutor_def GetExecutor_def
    upd_state_def Future_Transform_def Future_Transform_async_def transform_contract_def fc_fuel_def Let_def future_Subscribe_def
    state_PassCallback_def fc_finish_def Promise_Set_def HoldState_ReleaseState_def state_SetResult_def state_Execute_def run_task_at_def
    run_task_def transform_callback_def async_transform_callback_def forward_callback_def client_Subscribe_def Future_Completed_def
  have acyclic: "(Suc (Suc (Suc 0)), Suc (Suc 0)) \<notin> {(Suc 0, Suc (Suc 0)), (0, Suc (Suc 0))}\<^sup>*" by (auto elim: converse_rtranclE)
  obtain c where c: "run (fc_step (\<lambda>r. \<not> isl r) (\<lambda>r. r)) fc_example fc_start = Some c"
    and p: "fc_futures c = [5]" "fc_promises c = []" "ftasks (fc_store c) = []" "flog (fc_store c) = [(7, Inr 5), (8, Inr 6)]"
    by (simp add: fc_example_def fc_start_def fc_step_def async_continuation_good_def transformed_def isl_map_sum acyclic ops numeral_eq_Suc)
  from Future_clients_type_safe [OF run_reachable [OF c]] p c show ?thesis by auto
qed

end
