(* ===== verification/Futures_On_Pool.thy ===== *)
theory Futures_On_Pool
  imports "HOL-Library.Monad_Syntax" Future_Clients Pool_Handover
begin

text \<open>
  Futures whose executor is the thread pool, the composition of \<open>Future_Clients\<close> and \<open>Thread_Pool\<close>: what a state hands to
  \<open>executor->Execute\<close>, and what \<open>AsyncVia\<close> does, is a call of \<open>Execute\<close> of the pool by the thread that is there, a client
  or a worker inside a task; the lambda runs while a worker is inside \<open>ExecuteHere\<close> with it. A lambda handed over is
  named by a number; \<open>fp_ids\<close> has the numbers of the lambdas in \<open>ftasks\<close> that have not run yet, in the same order.
\<close>

section \<open>The system\<close>

record ('e, 'v) futures_on_pool =
  fp_client :: "('e, 'v) fclient"
  fp_pool :: "nat pool"
  fp_ids :: "nat list"
  fp_next :: nat

datatype ('e, 'v) fp_label =
    FpClient tid "('e, 'v) fclient_label"    \<comment> \<open>a client calls an operation of a future or promise\<close>
  | FpRun tid                                \<comment> \<open>the lambda that a worker has taken runs\<close>
  | FpEnd tid                                \<comment> \<open>it returns to \<open>ExecuteHere\<close>\<close>
  | FpPool "nat pool_label"                  \<comment> \<open>any other step of the pool\<close>

definition FuturesOnPool :: "nat \<Rightarrow> nat \<Rightarrow> ('e, 'v) futures_on_pool" where
  "FuturesOnPool clients workers =
     \<lparr>fp_client = fc_start, fp_pool = StaticThreadPool_ctor workers clients, fp_ids = [], fp_next = 0\<rparr>"

text \<open>Clients do not run tasks, and the pool is the only executor there is.\<close>

definition the_pool :: executor_id where
  "the_pool = 0"

fun client_of_pool :: "('e, 'v) fclient_label \<Rightarrow> bool" where
  "client_of_pool (FcVia f x) \<longleftrightarrow> x = the_pool"
| "client_of_pool (FcAsyncVia x target) \<longleftrightarrow> x = the_pool"
| "client_of_pool (FcRunTask k) \<longleftrightarrow> False"
| "client_of_pool _ \<longleftrightarrow> True"

text \<open>
  The operation has led to \<open>c\<close>; \<open>ids\<close> names the lambdas that were there before. If it has handed over a lambda, the thread
  starts \<open>Execute\<close> of the pool by \<open>submit\<close>. (It never hands over two, see below.)
\<close>

definition fp_submit ::
    "nat list \<Rightarrow> ('e, 'v) fclient \<Rightarrow> (nat \<Rightarrow> nat pool_label) \<Rightarrow> ('e, 'v) futures_on_pool \<Rightarrow> ('e, 'v) futures_on_pool option" where
  "fp_submit ids c submit s =
     (case drop (length ids) (ftasks (fc_store c)) of
        [] \<Rightarrow> Some (s\<lparr>fp_client := c, fp_ids := ids\<rparr>)
      | [t] \<Rightarrow> do { p \<leftarrow> pool_step (submit (fp_next s)) (fp_pool s);
                   Some \<lparr>fp_client = c, fp_pool = p, fp_ids = ids @ [fp_next s], fp_next = Suc (fp_next s)\<rparr> }
      | _ \<Rightarrow> None)"

fun index_of :: "nat \<Rightarrow> nat list \<Rightarrow> nat option" where
  "index_of x [] = None"
| "index_of x (y # ys) = (if x = y then Some 0 else map_option Suc (index_of x ys))"

text \<open>The list without its element at a position.\<close>

definition without :: "nat \<Rightarrow> 'x list \<Rightarrow> 'x list" where
  "without k xs = take k xs @ drop (Suc k) xs"

lemma length_without [simp]: "k < length xs \<Longrightarrow> length (without k xs) = length xs - 1"
  by (simp add: without_def)

definition worker_lambda :: "tid \<Rightarrow> ('e, 'v) futures_on_pool \<Rightarrow> nat option" where
  "worker_lambda w s =
     (if w < length (pool_workers (fp_pool s))
      then case pool_workers (fp_pool s) ! w of Running x NotInExecute \<Rightarrow> Some x | _ \<Rightarrow> None
      else None)"

fun fp_step :: "('e + 'v \<Rightarrow> bool) \<Rightarrow> ('e + 'v \<Rightarrow> 'e + 'v) \<Rightarrow> ('e, 'v) fp_label \<Rightarrow> ('e, 'v) futures_on_pool \<Rightarrow> ('e, 'v) futures_on_pool option" where
  "fp_step good tv (FpClient i l) s =
     (if i < length (pool_clients (fp_pool s)) \<and> pool_clients (fp_pool s) ! i = NotInExecute \<and> client_of_pool l
      then do { c \<leftarrow> fc_step good tv l (fp_client s); fp_submit (fp_ids s) c (ClientExecutes i) s }
      else None)"
| "fp_step good tv (FpRun w) s =
     do { x \<leftarrow> worker_lambda w s;
          k \<leftarrow> index_of x (fp_ids s);
          c \<leftarrow> fclient_step tv (FcRunTask k) (fp_client s);
          fp_submit (without k (fp_ids s)) c (TaskExecutes w) s }"
| "fp_step good tv (FpEnd w) s =
     do { x \<leftarrow> worker_lambda w s;
          if x \<notin> set (fp_ids s)
          then do { p \<leftarrow> pool_step (TaskEnds w TaskReturned) (fp_pool s); Some (s\<lparr>fp_pool := p\<rparr>) }
          else None }"
| "fp_step good tv (FpPool l) s =
     (if pool_own l then do { p \<leftarrow> pool_step l (fp_pool s); Some (s\<lparr>fp_pool := p\<rparr>) } else None)"

section \<open>An operation hands over at most one lambda\<close>

definition posts :: "('e, 'v) store \<Rightarrow> ('e, 'v) store \<Rightarrow> bool" where
  "posts S S' \<longleftrightarrow> (\<exists>ts. ftasks S' = ftasks S @ ts \<and> length ts \<le> 1)"

definition out_posts :: "('e, 'v) store \<Rightarrow> ('e, 'v) outcome \<Rightarrow> bool" where
  "out_posts S out \<longleftrightarrow> (case out of Returned S' \<Rightarrow> posts S S' | Threw e S' \<Rightarrow> posts S S' | _ \<Rightarrow> True)"

lemma posts_same: "ftasks S' = ftasks S \<Longrightarrow> posts S S'"
  by (simp add: posts_def)

lemma out_posts_simps [simp]:
  "out_posts S (Returned S') \<longleftrightarrow> posts S S'" "out_posts S (Threw e S') \<longleftrightarrow> posts S S'"
  "out_posts S Aborted" "out_posts S NoFuel"
  by (simp_all add: out_posts_def)

lemma out_posts_same: "out_posts S' out \<Longrightarrow> ftasks S' = ftasks S \<Longrightarrow> out_posts S out"
  by (simp add: out_posts_def posts_def split: outcome.splits)

lemma run_op_posts: "out_posts S (run_op tv n op S)"
proof (induction n arbitrary: op S)
  case (Suc n)
  have call: "out_posts S (run_op tv n op T)" if "ftasks T = ftasks S" for op T and S :: "('a, 'b) store"
    using Suc.IH [of T op] that by (rule out_posts_same)
  show ?case
  proof (cases op)
    case (OpSetResult i r)
    then show ?thesis
      by (auto simp: state_SetResult_def Let_def posts_same call split: subscription_state.splits option.splits)
  next
    case (OpExecute i cb r)
    then show ?thesis by (auto simp: state_Execute_def posts_def call split: option.splits)
  next
    case (OpSubscribe i cb)
    then show ?thesis
      by (auto simp: future_Subscribe_def state_PassCallback_def Let_def posts_same call split: subscription_state.splits option.splits)
  next
    case (OpCallback cb r)
    have ready: "out_posts T (case run_op tv n op S of Threw e S' \<Rightarrow> Aborted | res \<Rightarrow> res)" if "ftasks S = ftasks T" for op and S T :: "('a, 'b) store"
      using call [OF that, of op] by (auto split: outcome.splits)
    show ?thesis unfolding OpCallback
      by (cases cb) (auto simp: posts_same call ready transform_callback_def async_transform_callback_def forward_callback_def
          MakeSharedState_def Let_def split: sum.splits async_future.splits prod.splits)
  qed
qed simp

lemma fc_finish_posts:
  assumes "out_posts S out" and "fc_store c = S"
  shows "posts S (fc_store (fc_finish out c))"
  using assms by (cases out) (auto simp: fc_finish_def posts_same)

lemma client_posts:
  assumes "fclient_step tv l c = Some c'" and "client_of_pool l"
  shows "posts (fc_store c) (fc_store c')"
proof -
  have subscribe: "posts (fc_store c) (fc_store c')" if "client_Subscribe tv f cb c = Some c'" for f cb c
    using that by (auto simp: client_Subscribe_def run_op_posts split: if_splits intro: fc_finish_posts)
  have contract: "out_posts (fc_store c) (run_op tv n op S')" if "transform_contract f (fc_store c) = (t, S')" for f c n op t S'
  proof -
    have "ftasks S' = ftasks (fc_store c)" using that
      by (auto simp: transform_contract_def MakeSharedState_def SetExecutor_def Let_def)
    with run_op_posts show ?thesis by (rule out_posts_same)
  qed
  show ?thesis
proof (cases l)
  case (FcSet p r)
  with assms show ?thesis
    by (auto simp: Promise_Set_def HoldState_ReleaseState_def run_op_posts split: if_splits intro: fc_finish_posts)
next
  case (FcSubscribe f k)
  with assms subscribe show ?thesis by simp
next
  case (FcSubscribeThrows f k e)
  with assms subscribe show ?thesis by simp
next
  case (FcSubscribeSets f k g p)
  with assms subscribe [of f "CbUserSets k g p" "c\<lparr>fc_promises := remove1 p (fc_promises c), fc_waits := (f, p) # fc_waits c\<rparr>"]
  show ?thesis by (simp split: if_splits)
next
  case (FcTransform f tr)
  with assms contract [of f c] show ?thesis
    by (auto simp: Future_Transform_def split: if_splits prod.splits intro: fc_finish_posts)
next
  case (FcTransformAsync f tr j)
  with assms contract [of f c] show ?thesis
    by (cases j) (auto simp: Future_Transform_async_def split: if_splits prod.splits intro: fc_finish_posts)
next
  case (FcAsyncVia x target)
  with assms show ?thesis by (auto simp: AsyncVia_def MakeSharedState_def SetExecutor_def Let_def posts_def)
qed (use assms in \<open>auto simp: posts_same MakeContract_def Promise_ctor_def Promise_MakeFuture_def MakeSharedState_def Future_Completed_def
    Future_Failed_def Future_Via_def SetExecutor_def client_GetResult_def HoldState_ReleaseState_def state_GetReadyResult_def Let_def
    split: if_splits option.splits prod.splits\<close>)
qed

lemma task_posts:
  assumes run: "run_task_at tv n k S = Returned S'"
  shows "posts (S\<lparr>ftasks := without k (ftasks S)\<rparr>) S'"
proof -
  let ?S = "S\<lparr>ftasks := without k (ftasks S)\<rparr>"
  obtain x t where xt: "ftasks S ! k = (x, t)" by (cases "ftasks S ! k")
  define out where "out = (case t of TaskCallback cb r \<Rightarrow> run_op tv n (OpCallback cb r) ?S | TaskTarget r p \<Rightarrow> run_op tv n (OpSetResult p r) ?S)"
  have "out_posts ?S out" by (simp add: out_def run_op_posts split: future_task.split)
  moreover have "Returned S' = (case out of Threw e S'' \<Rightarrow> Returned S'' | res \<Rightarrow> res)"
    using run [symmetric] unfolding out_def without_def by (simp add: run_task_at_def run_task_def xt Let_def)
  ultimately show ?thesis by (auto split: outcome.splits)
qed

lemma runs_and_posts:
  assumes c: "fc_typed good tv c" and step: "fclient_step tv (FcRunTask k) c = Some c'"
  shows "k < length (ftasks (fc_store c))"
    and "posts ((fc_store c)\<lparr>ftasks := without k (ftasks (fc_store c))\<rparr>) (fc_store c')"
proof -
  from step show k: "k < length (ftasks (fc_store c))" by (simp split: if_splits)
  obtain K where ok: "store_ok good tv (set (fc_waits c)) (mset (fc_promises c)) (fc_futures c) K (fc_store c)"
    using c by (auto simp: fc_typed_def)
  have "6 * card (unfulfilled (fc_store c)) + 4 \<le> fc_fuel (fc_store c)"
    using card_unfulfilled [of "fc_store c"] by (simp add: fc_fuel_def)
  from run_task_at_ok [OF ok this k] obtain S' where
    "run_task_at tv (fc_fuel (fc_store c)) k (fc_store c) = Returned S'" by (auto simp: returns_ok_def)
  with step k task_posts [OF this] show "posts ((fc_store c)\<lparr>ftasks := without k (ftasks (fc_store c))\<rparr>) (fc_store c')"
    by (auto simp: fc_finish_def)
qed

section \<open>Both components at work\<close>

lemma fp_submit_Some:
  assumes "fp_submit ids c submit s = Some s'" and "ftasks (fc_store c) = ts @ new" "length ts = length ids" "length new \<le> 1"
  shows "new = [] \<and> s' = s\<lparr>fp_client := c, fp_ids := ids\<rparr> \<or>
    (\<exists>t p. new = [t] \<and> pool_step (submit (fp_next s)) (fp_pool s) = Some p \<and>
       s' = \<lparr>fp_client = c, fp_pool = p, fp_ids = ids @ [fp_next s], fp_next = Suc (fp_next s)\<rparr>)"
  using assms by (cases new) (auto simp: fp_submit_def split: Option.bind_splits)

lemma fp_submit_client: "fp_submit ids c submit s = Some s' \<Longrightarrow> fp_client s' = c"
  by (auto simp: fp_submit_def split: list.splits Option.bind_splits)

lemma fp_submit_pool:
  "fp_submit ids c submit s = Some s' \<Longrightarrow>
   fp_next s' = fp_next s \<and> fp_pool s' = fp_pool s \<or>
   fp_next s' = Suc (fp_next s) \<and> pool_step (submit (fp_next s)) (fp_pool s) = Some (fp_pool s')"
  by (auto simp: fp_submit_def split: list.splits Option.bind_splits)

fun fp_client_schedule :: "('e, 'v) futures_on_pool \<Rightarrow> ('e, 'v) fp_label \<Rightarrow> ('e, 'v) fclient_label list" where
  "fp_client_schedule s (FpClient i l) = [l]"
| "fp_client_schedule s (FpRun w) =
     (case worker_lambda w s of
        None \<Rightarrow> []
      | Some x \<Rightarrow> (case index_of x (fp_ids s) of None \<Rightarrow> [] | Some k \<Rightarrow> [FcRunTask k]))"
| "fp_client_schedule s _ = []"

interpretation fpc: stuttering_refinement "fp_step good tv" "FuturesOnPool n w" "fc_step good tv" fc_start
    "\<lambda>s c. c = fp_client s" fp_client_schedule for good tv
proof
  show "fc_start = fp_client (FuturesOnPool n w)" by (simp add: FuturesOnPool_def)
  fix s :: "('a, 'b) futures_on_pool" and c l s'
  assume "c = fp_client s" and "fp_step good tv l s = Some s'"
  then show "\<exists>c'. run (fc_step good tv) (fp_client_schedule s l) c = Some c' \<and> c' = fp_client s'"
    by (cases l) (auto dest: fp_submit_client simp del: fclient_step.simps split: if_splits Option.bind_splits)
qed

lemma fp_pool_step:
  assumes "fp_step good tv l s = Some s'"
  shows "fp_pool s' = fp_pool s \<or> (\<exists>m. pool_step m (fp_pool s) = Some (fp_pool s'))"
  using assms
  by (cases l) (auto dest!: fp_submit_pool simp del: fclient_step.simps pool_step.simps split: if_splits Option.bind_splits)

lemma fp_pool_reachable:
  assumes "reachable (fp_step good tv) (FuturesOnPool n w) s"
  shows "reachable pool_step (StaticThreadPool_ctor w n) (fp_pool s)"
  using assms
proof (induction rule: reachable.induct)
  case (step s l s')
  from fp_pool_step [OF step.hyps(2)] step.IH show ?case by (auto intro: reachable.step)
qed (simp add: FuturesOnPool_def reachable.start)

section \<open>Every lambda is handed over once\<close>

definition fp_inv :: "('e + 'v \<Rightarrow> bool) \<Rightarrow> ('e + 'v \<Rightarrow> 'e + 'v) \<Rightarrow> ('e, 'v) futures_on_pool \<Rightarrow> bool" where
  "fp_inv good tv s \<longleftrightarrow>
     fc_typed good tv (fp_client s) \<and>
     length (fp_ids s) = length (ftasks (fc_store (fp_client s))) \<and>
     distinct (fp_ids s) \<and> set (fp_ids s) \<subseteq> {..< fp_next s} \<and>
     (\<forall>k. handed k (fp_pool s) \<le> of_bool (k < fp_next s)) \<and>
     set (ended (fp_pool s)) \<subseteq> {..< fp_next s} - set (fp_ids s)"

lemma fp_inv_submit:
  assumes inv: "fp_inv good tv s" and typed: "fc_typed good tv c" and sub: "fp_submit ids c submit s = Some s'"
    and posts: "posts (S\<lparr>ftasks := ts\<rparr>) (fc_store c)" "length ts = length ids"
    and ids: "distinct ids" "set ids \<subseteq> set (fp_ids s)"
    and submit: "\<And>n p p' k. pool_step (submit n) p = Some p' \<Longrightarrow> handed k p' = handed k p + of_bool (n = k) \<and> ended p' = ended p"
  shows "fp_inv good tv s'"
proof -
  obtain new where new: "ftasks (fc_store c) = ts @ new" "length new \<le> 1" using posts(1) by (auto simp: posts_def)
  from fp_submit_Some [OF sub new(1) posts(2) new(2)] show ?thesis
  proof (elim disjE exE conjE)
    assume "new = []" "s' = s\<lparr>fp_client := c, fp_ids := ids\<rparr>"
    with inv typed new posts(2) ids show ?thesis by (auto simp: fp_inv_def)
  next
    fix t p
    assume t: "new = [t]" and p: "pool_step (submit (fp_next s)) (fp_pool s) = Some p"
      and s': "s' = \<lparr>fp_client = c, fp_pool = p, fp_ids = ids @ [fp_next s], fp_next = Suc (fp_next s)\<rparr>"
    have "handed k p \<le> of_bool (k < Suc (fp_next s))" for k
    proof -
      have "handed k (fp_pool s) \<le> of_bool (k < fp_next s)" using inv by (simp add: fp_inv_def)
      with submit [OF p, of k] show ?thesis by (auto split: if_splits simp: less_Suc_eq)
    qed
    moreover have "fp_next s \<notin> set ids" "set ids \<subseteq> {..< Suc (fp_next s)}" using inv ids(2) by (auto simp: fp_inv_def)
    moreover have "set (ended p) \<subseteq> {..< Suc (fp_next s)} - set (ids @ [fp_next s])"
      using inv ids(2) submit [OF p] by (auto simp: fp_inv_def)
    ultimately show ?thesis using typed new posts(2) ids t by (simp add: fp_inv_def s')
  qed
qed

lemma fp_inv_pool:
  assumes "fp_inv good tv s" and "\<And>k. handed k p \<le> handed k (fp_pool s)"
    and "set (ended p) \<subseteq> set (ended (fp_pool s)) \<union> ({..< fp_next s} - set (fp_ids s))"
  shows "fp_inv good tv (s\<lparr>fp_pool := p\<rparr>)"
  using assms order_trans [OF assms(2)] unfolding fp_inv_def by simp blast

lemma index_of_Some: "index_of x xs = Some k \<Longrightarrow> k < length xs \<and> xs ! k = x"
  by (induction xs arbitrary: k) (auto split: if_splits)

lemma index_of_None: "index_of x xs = None \<longleftrightarrow> x \<notin> set xs"
  by (induction xs) auto

lemma set_without: "set (without k xs) \<subseteq> set xs"
  by (auto simp: without_def dest: in_set_takeD in_set_dropD)

lemma distinct_without: "distinct xs \<Longrightarrow> distinct (without k xs)"
  by (auto simp: without_def set_take_disj_set_drop_if_distinct)

lemma worker_lambda_Some:
  "worker_lambda w s = Some x \<longleftrightarrow> w < length (pool_workers (fp_pool s)) \<and> pool_workers (fp_pool s) ! w = Running x NotInExecute"
  by (auto simp: worker_lambda_def split: worker_pc.splits exec_pc.splits)

lemma fp_inv_step:
  assumes inv: "fp_inv good tv s" and pool: "pool_inv (fp_pool s)" and step: "fp_step good tv l s = Some s'"
  shows "fp_inv good tv s'"
proof -
  let ?c = "fp_client s"
  have typed: "fc_typed good tv ?c" and len: "length (ftasks (fc_store ?c)) = length (fp_ids s)" and dist: "distinct (fp_ids s)"
    using inv by (simp_all add: fp_inv_def)
  show ?thesis
  proof (cases l)
    case (FpClient i m)
    with step obtain c where m: "client_of_pool m" and c: "fc_step good tv m ?c = Some c"
      and sub: "fp_submit (fp_ids s) c (ClientExecutes i) s = Some s'" by (auto split: if_splits Option.bind_splits)
    have "posts ((fc_store ?c)\<lparr>ftasks := ftasks (fc_store ?c)\<rparr>) (fc_store c)" using client_posts [OF fc_stepD [OF c, THEN conjunct1] m] by simp
    from fp_inv_submit [OF inv fc_step_typed [OF typed c] sub this len dist order_refl client_submit_handed] show ?thesis .
  next
    case (FpRun w)
    with step obtain k c where c: "fclient_step tv (FcRunTask k) ?c = Some c"
      and sub: "fp_submit (without k (fp_ids s)) c (TaskExecutes w) s = Some s'"
      by (auto split: Option.bind_splits simp del: fclient_step.simps)
    have c': "fc_step good tv (FcRunTask k) ?c = Some c" using c by (simp del: fclient_step.simps)
    note run = runs_and_posts [OF typed c]
    have "length (without k (ftasks (fc_store ?c))) = length (without k (fp_ids s))" using run(1) len by simp
    from fp_inv_submit [OF inv fc_step_typed [OF typed c'] sub run(2) this distinct_without [OF dist] set_without task_submit_handed]
    show ?thesis .
  next
    case (FpEnd w)
    with step obtain x p where x: "worker_lambda w s = Some x" "x \<notin> set (fp_ids s)"
      and p: "pool_step (TaskEnds w TaskReturned) (fp_pool s) = Some p" "s' = s\<lparr>fp_pool := p\<rparr>"
      by (auto split: Option.bind_splits if_splits)
    from x(1) have w: "w < length (pool_workers (fp_pool s))" "pool_workers (fp_pool s) ! w = Running x NotInExecute"
      by (simp_all add: worker_lambda_Some)
    with p(1) have p': "p = worker_goto w AfterExecute ((fp_pool s)\<lparr>ended := ended (fp_pool s) @ [x]\<rparr>)"
      by (simp add: ExecuteHere_def)
    have below: "x < fp_next s"
      by (rule handed_once_worker(2) [of x "fp_pool s" "fp_next s" w w]) (use inv pool w in \<open>simp_all add: fp_inv_def\<close>)
    show ?thesis unfolding p(2)
    proof (rule fp_inv_pool [OF inv])
      show "handed j p \<le> handed j (fp_pool s)" for j
        using handed_worker [of w "(fp_pool s)\<lparr>ended := ended (fp_pool s) @ [x]\<rparr>" j AfterExecute] w by (simp add: p')
      show "set (ended p) \<subseteq> set (ended (fp_pool s)) \<union> ({..< fp_next s} - set (fp_ids s))"
        using x(2) below by (auto simp: p' worker_goto_def)
    qed
  next
    case (FpPool m)
    with step obtain p where p: "pool_own m" "pool_step m (fp_pool s) = Some p" "s' = s\<lparr>fp_pool := p\<rparr>"
      by (auto split: if_splits Option.bind_splits)
    from p(1) have "ended p = ended (fp_pool s)" by (intro ended_kept [OF p(2)]) auto
    then show ?thesis unfolding p(3) by (intro fp_inv_pool [OF inv] handed_own [OF p(1,2)]) simp
  qed
qed

interpretation fp: invariant_system "fp_step good tv" "FuturesOnPool n w" "\<lambda>s. fp_inv good tv s \<and> pool_inv (fp_pool s)" for good tv
proof
  have "pool_inv (StaticThreadPool_ctor w n :: nat pool)" by (rule pool_inv_ctor)
  then show "fp_inv good tv (FuturesOnPool n w) \<and> pool_inv (fp_pool (FuturesOnPool n w))"
    using fclients.inv_start
    by (simp add: fp_inv_def FuturesOnPool_def) (simp add: fc_start_def StaticThreadPool_ctor_def handed_def)
next
  fix s :: "('a, 'b) futures_on_pool" and l s'
  assume "fp_inv good tv s \<and> pool_inv (fp_pool s)" and "fp_step good tv l s = Some s'"
  then show "fp_inv good tv s' \<and> pool_inv (fp_pool s')"
    using fp_inv_step [of good tv s l s'] fp_pool_step [of good tv l s s'] by (auto intro: pool_inv_step)
qed

section \<open>The composition does not get stuck\<close>

lemma fp_submit_possible:
  assumes "posts (S\<lparr>ftasks := ts\<rparr>) (fc_store c)" and "length ts = length ids"
    and "\<And>x. pool_step (submit x) (fp_pool s) \<noteq> None"
  shows "fp_submit ids c submit s \<noteq> None"
proof -
  obtain new where "ftasks (fc_store c) = ts @ new" "length new \<le> 1" using assms(1) by (auto simp: posts_def)
  with assms(2,3) show ?thesis by (cases new) (auto simp: fp_submit_def split: Option.bind_splits)
qed

text \<open>A client that is not inside \<open>Execute\<close> can do what it can do without the pool; a lambda a worker has taken can run, and end.\<close>

lemma client_possible:
  assumes inv: "fp_inv good tv s" and i: "i < length (pool_clients (fp_pool s))" "pool_clients (fp_pool s) ! i = NotInExecute"
    and m: "client_of_pool m" "fc_step good tv m (fp_client s) \<noteq> None"
  shows "fp_step good tv (FpClient i m) s \<noteq> None"
proof -
  from m(2) obtain c where c: "fc_step good tv m (fp_client s) = Some c" by blast
  let ?S = "fc_store (fp_client s)"
  have "posts (?S\<lparr>ftasks := ftasks ?S\<rparr>) (fc_store c)" using client_posts [OF fc_stepD [OF c, THEN conjunct1] m(1)] by simp
  then have "fp_submit (fp_ids s) c (ClientExecutes i) s \<noteq> None"
    by (rule fp_submit_possible) (use inv i in \<open>simp_all add: fp_inv_def\<close>)
  with i m(1) c show ?thesis by simp
qed

lemma lambda_possible:
  assumes inv: "fp_inv good tv s" and w: "worker_lambda w s = Some x"
  shows "fp_step good tv (FpRun w) s \<noteq> None \<or> fp_step good tv (FpEnd w) s \<noteq> None"
proof (cases "index_of x (fp_ids s)")
  case None
  then have "x \<notin> set (fp_ids s)" by (simp add: index_of_None)
  with w have "fp_step good tv (FpEnd w) s \<noteq> None" by (simp add: ExecuteHere_def) (simp add: worker_lambda_Some)
  then show ?thesis ..
next
  case (Some k)
  let ?S = "fc_store (fp_client s)"
  have typed: "fc_typed good tv (fp_client s)" and len: "length (ftasks ?S) = length (fp_ids s)" using inv by (simp_all add: fp_inv_def)
  with index_of_Some [OF Some] obtain c where c: "fclient_step tv (FcRunTask k) (fp_client s) = Some c" by simp
  note run = runs_and_posts [OF typed c]
  have "fp_submit (without k (fp_ids s)) c (TaskExecutes w) s \<noteq> None"
    by (rule fp_submit_possible [OF run(2)]) (use run(1) len w in \<open>simp_all add: worker_lambda_Some\<close>)
  with w Some c show ?thesis by (simp del: fclient_step.simps)
qed

fun fp_progress_label :: "('e, 'v) fp_label \<Rightarrow> bool" where
  "fp_progress_label (FpClient i m) = False"
| "fp_progress_label (FpPool l) = progress_label l"
| "fp_progress_label _ = True"

lemma fp_progress:
  assumes inv: "fp_inv good tv s" and l: "progress_label l" "pool_step l (fp_pool s) \<noteq> None"
  shows "\<exists>m. fp_progress_label m \<and> fp_step good tv m s \<noteq> None"
proof (cases "\<exists>w r. l = TaskEnds w r")
  case True
  then obtain w r where "l = TaskEnds w r" by blast
  with l(2) obtain x where "worker_lambda w s = Some x"
    by (auto simp: worker_lambda_Some split: if_splits worker_pc.splits exec_pc.splits)
  from lambda_possible [OF inv this] show ?thesis by (metis fp_progress_label.simps(3,4))
next
  case False
  with l have "fp_step good tv (FpPool l) s \<noteq> None" by (cases l) (auto split: if_splits)
  with l(1) show ?thesis by (metis fp_progress_label.simps(2))
qed

section \<open>Properties\<close>

text \<open>C7: Futures on the thread pool. Clients on any number of threads use futures as the interface asks and keep to the discipline of
  \<open>Future_Clients\<close> (asynchronous transformations only of values, throwing callbacks only behind an executor, no promise that waits for itself,
  user callbacks do nothing with the library but fulfil a promise that they own), with the pool as their executor; lambdas are handed over by
  clients and by the lambdas that workers run. Whatever the interleaving, no assertion fails and no exception leaves
  the library; no lambda is accepted twice or taken by two workers; and when \<open>Join\<close> has returned, the pool has accepted every lambda and
  all promises were fulfilled, then every lambda has run and every future still held is ready.\<close>

theorem Futures_on_pool_complete:
  assumes "reachable (fp_step good tv) (FuturesOnPool n w) s"
  shows "\<not> fc_broken (fp_client s) \<and>
    distinct (accepted (fp_pool s)) \<and>
    (worker_lambda i s = Some x \<and> worker_lambda j s = Some x \<longrightarrow> i = j) \<and>
    (pool_closer (fp_pool s) = PoolClosed False \<and> pool_workers (fp_pool s) \<noteq> [] \<and>
     length (accepted (fp_pool s)) = fp_next s \<and> fc_promises (fp_client s) = [] \<longrightarrow>
       ftasks (fc_store (fp_client s)) = [] \<and>
       (\<forall>f \<in> set (fc_futures (fp_client s)). client_IsReady (Some f) (fc_store (fp_client s)) = Some True))"
proof (intro conjI impI)
  have inv: "fp_inv good tv s" and pool: "pool_inv (fp_pool s)" using fp.inv_reachable [OF assms] by simp_all
  then have once: "handed k (fp_pool s) \<le> of_bool (k < fp_next s)" for k by (simp add: fp_inv_def)
  obtain K where typed: "\<not> fc_broken (fp_client s)"
    "store_ok good tv (set (fc_waits (fp_client s))) (mset (fc_promises (fp_client s))) (fc_futures (fp_client s)) K (fc_store (fp_client s))"
    "acyclic (set (fc_waits (fp_client s)))" using inv by (auto simp: fp_inv_def fc_typed_def waits_ok_def)
  show "\<not> fc_broken (fp_client s)" and "distinct (accepted (fp_pool s))"
    by (fact typed(1)) (rule handed_once_accepted(1) [OF once])
  show "i = j" if "worker_lambda i s = Some x \<and> worker_lambda j s = Some x"
    using that by (intro handed_once_worker(1) [OF once pool, of i x j]) (auto simp: worker_lambda_Some)
  assume quiet: "pool_closer (fp_pool s) = PoolClosed False \<and> pool_workers (fp_pool s) \<noteq> [] \<and>
    length (accepted (fp_pool s)) = fp_next s \<and> fc_promises (fp_client s) = []"
  then have "{..< fp_next s} \<subseteq> set (ended (fp_pool s))"
    using handed_once_joined [OF once fp_pool_reachable [OF assms]] by auto
  moreover have "set (fp_ids s) \<subseteq> {..< fp_next s}" "set (ended (fp_pool s)) \<subseteq> {..< fp_next s} - set (fp_ids s)"
    using inv by (simp_all add: fp_inv_def)
  ultimately have "set (fp_ids s) = {}" by (meson DiffD2 equals0I subsetD)
  with inv show idle: "ftasks (fc_store (fp_client s)) = []" by (simp add: fp_inv_def)
  show "\<forall>f \<in> set (fc_futures (fp_client s)). client_IsReady (Some f) (fc_store (fp_client s)) = Some True"
    using store_ok_ready [OF _ idle _ typed(3)] typed(2) quiet by simp
qed

definition fp_example :: "(nat, nat) fp_label list" where
  "fp_example = [FpClient 0 (FcAsyncVia the_pool (Inr 4)), FpClient 1 (FcTransform 0 (\<lambda>r. Inr (map_sum id Suc r))),
     FpPool (ClientGo 0 None), FpPool CallJoin, FpPool CloserGo, FpPool (WorkerGo 0 None), FpRun 0, FpPool (WorkerGo 0 None),
     FpEnd 0, FpPool (WorkerGo 0 None), FpPool (WorkerGo 0 None), FpPool (WorkerGo 0 None), FpRun 0, FpEnd 0,
     FpPool (WorkerGo 0 None), FpPool (WorkerGo 0 None), FpPool CloserGo, FpPool CloserGo, FpPool (WorkerGo 0 None), FpPool CloserGo,
     FpPool CloserGo]"

lemmas fp_eval = fc_step_def FuturesOnPool_def fp_submit_def worker_lambda_def without_def the_pool_def fc_start_def AsyncVia_def
  MakeSharedState_def SetExecutor_def GetExecutor_def upd_state_def Future_Transform_def transform_contract_def fc_fuel_def Let_def
  future_Subscribe_def state_PassCallback_def fc_finish_def state_SetResult_def state_Execute_def run_task_at_def run_task_def
  transform_callback_def

lemma fp_example_run:
  "\<exists>s. run (fp_step (\<lambda>_. True) (\<lambda>r. r)) fp_example (FuturesOnPool 2 1) = Some s \<and> fc_futures (fp_client s) = [1] \<and>
     pool_closer (fp_pool s) = PoolClosed False \<and> pool_workers (fp_pool s) \<noteq> [] \<and>
     length (accepted (fp_pool s)) = fp_next s \<and> fc_promises (fp_client s) = [] \<and>
     fs_result (fstates (fc_store (fp_client s)) ! 1) = Some (Inr 5)"
  by (simp add: fp_example_def fp_eval pool_eval numeral_eq_Suc)

theorem Futures_on_pool_complete_witness:
  "\<exists>s :: (nat, nat) futures_on_pool. reachable (fp_step (\<lambda>_. True) (\<lambda>r. r)) (FuturesOnPool 2 1) s \<and> fc_futures (fp_client s) = [1] \<and>
     client_IsReady (Some 1) (fc_store (fp_client s)) = Some True \<and> fs_result (fstates (fc_store (fp_client s)) ! 1) = Some (Inr 5)"
proof -
  obtain s where s: "run (fp_step (\<lambda>_. True) (\<lambda>r. r)) fp_example (FuturesOnPool 2 1) = Some s"
    and p: "fc_futures (fp_client s) = [1]" "pool_closer (fp_pool s) = PoolClosed False" "pool_workers (fp_pool s) \<noteq> []"
      "length (accepted (fp_pool s)) = fp_next s" "fc_promises (fp_client s) = []"
      "fs_result (fstates (fc_store (fp_client s)) ! 1) = Some (Inr 5)"
    using fp_example_run by blast
  note r = run_reachable [OF s]
  from Futures_on_pool_complete [OF r, of 0 0 0] r p show ?thesis by (intro exI [of _ s]) simp
qed

text \<open>C21: Futures on the thread pool do not deadlock, for the clients of C7. In every reachable state of a pool with workers on which \<open>Join\<close> has been called and
  has not returned, some thread has an enabled step that is not a new call of a client: the joining thread, a client inside \<open>Execute\<close>, a
  worker, or a lambda that runs or ends; and a client outside \<open>Execute\<close> is never held up by the pool in an operation of a
  future or promise.\<close>

theorem Futures_on_pool_no_deadlock:
  assumes "reachable (fp_step good tv) (FuturesOnPool n w) s"
  shows "(pool_workers (fp_pool s) \<noteq> [] \<and>
      (pool_closer (fp_pool s) \<in> {HomeEntry, HomeParked, BeforeClose} \<or> (\<exists>k. pool_closer (fp_pool s) = JoiningWorkers False k)) \<longrightarrow>
        (\<exists>l. fp_progress_label l \<and> fp_step good tv l s \<noteq> None)) \<and>
    (i < length (pool_clients (fp_pool s)) \<and> pool_clients (fp_pool s) ! i = NotInExecute \<and> client_of_pool m \<and>
      fc_step good tv m (fp_client s) \<noteq> None \<longrightarrow> fp_step good tv (FpClient i m) s \<noteq> None)"
proof (intro conjI impI; (elim conjE)?)
  have inv: "fp_inv good tv s" using fp.inv_reachable [OF assms] by simp
  show "\<exists>l. fp_progress_label l \<and> fp_step good tv l s \<noteq> None"
    if "pool_workers (fp_pool s) \<noteq> []"
      "pool_closer (fp_pool s) \<in> {HomeEntry, HomeParked, BeforeClose} \<or> (\<exists>k. pool_closer (fp_pool s) = JoiningWorkers False k)"
    using pool_join_progress [OF fp_pool_reachable [OF assms] that] fp_progress [OF inv] by blast
  show "fp_step good tv (FpClient i m) s \<noteq> None"
    if "i < length (pool_clients (fp_pool s))" "pool_clients (fp_pool s) ! i = NotInExecute" "client_of_pool m"
      "fc_step good tv m (fp_client s) \<noteq> None"
    using client_possible [OF inv] that by blast
qed

theorem Futures_on_pool_no_deadlock_witness:
  "\<exists>s :: (nat, nat) futures_on_pool. reachable (fp_step (\<lambda>_. True) (\<lambda>r. r)) (FuturesOnPool 1 1) s \<and> pool_closer (fp_pool s) = HomeParked \<and>
     (\<exists>l. fp_progress_label l \<and> fp_step (\<lambda>_. True) (\<lambda>r. r) l s \<noteq> None)"
proof -
  obtain s :: "(nat, nat) futures_on_pool" where s: "run (fp_step (\<lambda>_. True) (\<lambda>r. r))
      [FpClient 0 (FcAsyncVia the_pool (Inr 4)), FpPool CallJoin, FpPool CloserGo] (FuturesOnPool 1 1) = Some s"
    and p: "pool_closer (fp_pool s) = HomeParked" "pool_workers (fp_pool s) \<noteq> []"
    by (simp add: fp_eval pool_eval)
  note r = run_reachable [OF s]
  from Futures_on_pool_no_deadlock [OF r, of 0 FcMakeContract] r p show ?thesis by (intro exI [of _ s]) simp
qed

end
