(* ===== verification/Combinators.thy ===== *)
theory Combinators
  imports Futures
begin

text \<open>
  The combinators \<open>All\<close> and \<open>FirstOf\<close> (\<^verbatim>\<open>futures/combine\<close>). Each subscribes one callback per
  input. The callbacks of \<open>All\<close> run under the combinator's mutex, those of \<open>FirstOf\<close> are ordered
  by an atomic exchange: in both cases what the combinator sees is the sequence of the results
  in the order in which the inputs complete. The output promise lives in a store of its own.
\<close>

section \<open>All\<close>

record 'v all_combinator =
  ac_error :: bool
  ac_promise :: promise
  ac_results :: "'v list"
  ac_counter :: nat

text \<open>\<open>Combine\<close> up to the subscriptions: the output future, the combinator, and the store; with
  no inputs the output is fulfilled at once. \<open>dflt\<close> is the value \<open>results_.resize\<close> fills in.\<close>

definition AllCombinator_Combine ::
    "('e + 'v list \<Rightarrow> 'e + 'v list) \<Rightarrow> nat \<Rightarrow> 'v \<Rightarrow> nat \<Rightarrow> ('e, 'v list) store
     \<Rightarrow> (state_ref option \<times> 'v all_combinator \<times> ('e, 'v list) outcome) option" where
  "AllCombinator_Combine tv k dflt n S =
     (case MakeContract S of
        None \<Rightarrow> None
      | Some (v_future, v_promise, S1) \<Rightarrow>
          (if n = 0 then
             (let (p, out) = Promise_SetValue tv k [] v_promise S1
              in Some (v_future,
                   \<lparr>ac_error = False, ac_promise = p, ac_results = [], ac_counter = 0\<rparr>, out))
           else Some (v_future,
                  \<lparr>ac_error = False, ac_promise = v_promise, ac_results = replicate n dflt,
                   ac_counter = 0\<rparr>, Returned S1)))"

text \<open>The callback of one input.\<close>

definition AllCombinator_callback ::
    "('e + 'v list \<Rightarrow> 'e + 'v list) \<Rightarrow> nat \<Rightarrow> nat \<Rightarrow> 'e + 'v \<Rightarrow> 'v all_combinator \<Rightarrow> ('e, 'v list) store
     \<Rightarrow> 'v all_combinator \<times> ('e, 'v list) outcome" where
  "AllCombinator_callback tv k n result c S =
     (if ac_error c then (c, Returned S)
      else
        (case (case result of
                 Inl e \<Rightarrow>
                   (let (p, out) = Promise_SetError tv k e (ac_promise c) S
                    in (c\<lparr>ac_error := True, ac_promise := p\<rparr>, out))
               | Inr v \<Rightarrow>
                   (c\<lparr>ac_results := (ac_results c)[ac_counter c := v]\<rparr>, Returned S)) of
           (c1, Returned S1) \<Rightarrow>
             (let c2 = c1\<lparr>ac_counter := ac_counter c1 + 1\<rparr>
              in if ac_counter c2 = n then
                   (let (p, out) = Promise_SetValue tv k (ac_results c2) (ac_promise c2) S1
                    in (c2\<lparr>ac_promise := p\<rparr>, out))
                 else (c2, Returned S1))
         | res \<Rightarrow> res))"

primrec all_callbacks ::
    "('e + 'v list \<Rightarrow> 'e + 'v list) \<Rightarrow> nat \<Rightarrow> nat \<Rightarrow> ('e + 'v) list \<Rightarrow> 'v all_combinator \<Rightarrow> ('e, 'v list) store
     \<Rightarrow> 'v all_combinator \<times> ('e, 'v list) outcome" where
  "all_callbacks tv k n [] c S = (c, Returned S)"
| "all_callbacks tv k n (r # rs) c S =
     (case AllCombinator_callback tv k n r c S of
        (c', Returned S') \<Rightarrow> all_callbacks tv k n rs c' S'
      | res \<Rightarrow> res)"

text \<open>A combinator that has seen the values \<open>vs\<close>, with its promise at the unfulfilled state \<open>i\<close>.\<close>

definition all_collecting :: "nat \<Rightarrow> state_ref \<Rightarrow> 'v list \<Rightarrow> 'v all_combinator \<Rightarrow> ('e, 'v list) store \<Rightarrow> bool" where
  "all_collecting n i vs c S \<longleftrightarrow>
     \<not> ac_error c \<and> promise_state (ac_promise c) = Some i \<and> ac_counter c = length vs \<and>
     length (ac_results c) = n \<and> take (length vs) (ac_results c) = vs \<and>
     i < length (fstates S) \<and> fs_state (fstates S ! i) = SubStart"

lemma all_callback_value:
  assumes "all_collecting n i vs c S" "Suc (length vs) < n"
  shows "\<exists>c'. AllCombinator_callback tv k n (Inr v) c S = (c', Returned S) \<and> all_collecting n i (vs @ [v]) c' S"
  using assms by (auto simp: all_collecting_def AllCombinator_callback_def take_Suc_conv_app_nth Let_def)

lemma all_callbacks_values:
  assumes "all_collecting n i us c S" "length us + length vs < n"
  shows "\<exists>c'. all_callbacks tv k n (map Inr vs @ rs) c S = all_callbacks tv k n rs c' S \<and>
    all_collecting n i (us @ vs) c' S"
  using assms
proof (induction vs arbitrary: us c)
  case (Cons v vs)
  obtain c1 where c1: "AllCombinator_callback tv k n (Inr v) c S = (c1, Returned S)"
      "all_collecting n i (us @ [v]) c1 S"
    using all_callback_value [OF Cons.prems(1), of tv k v] Cons.prems(2) by auto
  from Cons.IH [OF c1(2)] Cons.prems(2) c1(1) show ?case by auto
qed auto

lemma all_callbacks_ignored: "ac_error c \<Longrightarrow> all_callbacks tv k n rs c S = (c, Returned S)"
  by (induction rs) (auto simp: AllCombinator_callback_def)

lemma AllCombinator_Combine_collecting:
  assumes "AllCombinator_Combine tv k d n S = Some (f, c, out)" "0 < n"
  shows "\<exists>S0. out = Returned S0 \<and> f = Some (length (fstates S)) \<and> all_collecting n (length (fstates S)) [] c S0"
  using assms
  by (auto simp: AllCombinator_Combine_def MakeContract_def Promise_ctor_def Promise_MakeFuture_def
      MakeSharedState_def all_collecting_def Let_def)

lemma promise_set_fresh:
  assumes "promise_state p = Some i" "i < length (fstates S)" "fs_state (fstates S ! i) = SubStart"
  shows "\<exists>S'. Promise_Set tv (Suc k) r p S = (p\<lparr>promise_state := None\<rparr>, Returned S') \<and>
    fs_state (fstates S' ! i) = SubOnlyResult \<and> fs_result (fstates S' ! i) = Some r"
  using assms by (auto simp: Promise_Set_def HoldState_ReleaseState_def state_SetResult_def Let_def)

lemma all_callback_last:
  assumes "all_collecting n i vs c S" "Suc (length vs) = n"
  shows "\<exists>c' S'. AllCombinator_callback tv (Suc k) n (Inr v) c S = (c', Returned S') \<and>
    fs_state (fstates S' ! i) = SubOnlyResult \<and> fs_result (fstates S' ! i) = Some (Inr (vs @ [v]))"
proof -
  have res: "(ac_results c)[length vs := v] = vs @ [v]"
    using assms by (auto simp: all_collecting_def list_eq_iff_nth_eq nth_append nth_list_update)
  obtain S' where "Promise_Set tv (Suc k) (Inr (vs @ [v])) (ac_promise c) S
      = ((ac_promise c)\<lparr>promise_state := None\<rparr>, Returned S')"
      "fs_state (fstates S' ! i) = SubOnlyResult" "fs_result (fstates S' ! i) = Some (Inr (vs @ [v]))"
    using promise_set_fresh [of "ac_promise c" i S tv k "Inr (vs @ [v])"] assms(1)
    by (auto simp: all_collecting_def)
  with assms res show ?thesis
    by (simp add: AllCombinator_callback_def all_collecting_def Promise_SetValue_def)
qed

lemma all_callback_error:
  assumes "all_collecting n i vs c S"
  shows "Suc (length vs) = n \<Longrightarrow> \<exists>c'. AllCombinator_callback tv (Suc k) n (Inl e) c S = (c', Aborted)"
    and "Suc (length vs) \<noteq> n \<Longrightarrow> \<exists>c' S'. AllCombinator_callback tv (Suc k) n (Inl e) c S = (c', Returned S') \<and>
      ac_error c' \<and> fs_state (fstates S' ! i) = SubOnlyResult \<and> fs_result (fstates S' ! i) = Some (Inl e)"
proof -
  obtain S' where "Promise_Set tv (Suc k) (Inl e) (ac_promise c) S
      = ((ac_promise c)\<lparr>promise_state := None\<rparr>, Returned S')"
      "fs_state (fstates S' ! i) = SubOnlyResult" "fs_result (fstates S' ! i) = Some (Inl e)"
    using promise_set_fresh [of "ac_promise c" i S tv k "Inl e"] assms by (auto simp: all_collecting_def)
  note set = this
  from set(1) assms show "\<exists>c'. AllCombinator_callback tv (Suc k) n (Inl e) c S = (c', Aborted)"
    if "Suc (length vs) = n" using that
    by (simp add: AllCombinator_callback_def all_collecting_def Promise_SetError_def Promise_SetValue_def
        Let_def Promise_Set_def [of tv "Suc k" "Inr _"] HoldState_ReleaseState_def)
  from set assms show "\<exists>c' S'. AllCombinator_callback tv (Suc k) n (Inl e) c S = (c', Returned S') \<and>
      ac_error c' \<and> fs_state (fstates S' ! i) = SubOnlyResult \<and> fs_result (fstates S' ! i) = Some (Inl e)"
    if "Suc (length vs) \<noteq> n" using that
    by (simp add: AllCombinator_callback_def all_collecting_def Promise_SetError_def Let_def)
qed

section \<open>FirstOf\<close>

record firstof_combinator =
  fc_released :: bool
  fc_promise :: promise

text \<open>With no inputs the output future is fulfilled and consumed: the returned handle is empty.\<close>

definition FirstOfCombinator_Combine ::
    "('e + 'v \<Rightarrow> 'e + 'v) \<Rightarrow> nat \<Rightarrow> 'v \<Rightarrow> nat \<Rightarrow> ('e, 'v) store
     \<Rightarrow> (state_ref option \<times> firstof_combinator \<times> ('e, 'v) outcome) option" where
  "FirstOfCombinator_Combine tv k zero n S =
     (case MakeContract S of
        None \<Rightarrow> None
      | Some (v_future, v_promise, S1) \<Rightarrow>
          (if n = 0 then
             (let (p, out) = Promise_SetValue tv k zero v_promise S1
              in case HoldState_ReleaseState v_future of
                   None \<Rightarrow> Some (v_future, \<lparr>fc_released = False, fc_promise = p\<rparr>, Aborted)
                 | Some (i, h) \<Rightarrow> Some (h, \<lparr>fc_released = False, fc_promise = p\<rparr>, out))
           else Some (v_future, \<lparr>fc_released = False, fc_promise = v_promise\<rparr>, Returned S1)))"

definition FirstOfCombinator_callback ::
    "('e + 'v \<Rightarrow> 'e + 'v) \<Rightarrow> nat \<Rightarrow> 'e + 'v \<Rightarrow> firstof_combinator \<Rightarrow> ('e, 'v) store
     \<Rightarrow> firstof_combinator \<times> ('e, 'v) outcome" where
  "FirstOfCombinator_callback tv k result c S =
     (case result of
        Inl e \<Rightarrow> (c, Returned S)
      | Inr _ \<Rightarrow>
          (if fc_released c then (c\<lparr>fc_released := True\<rparr>, Returned S)
           else
             (let c1 = c\<lparr>fc_released := True\<rparr>
              in case tv result of
                   Inl e \<Rightarrow> (c1, Threw e S)
                 | Inr v \<Rightarrow>
                     (let (p, out) = Promise_SetValue tv k v (fc_promise c1) S
                      in (c1\<lparr>fc_promise := p\<rparr>, out)))))"

primrec firstof_callbacks ::
    "('e + 'v \<Rightarrow> 'e + 'v) \<Rightarrow> nat \<Rightarrow> ('e + 'v) list \<Rightarrow> firstof_combinator \<Rightarrow> ('e, 'v) store
     \<Rightarrow> firstof_combinator \<times> ('e, 'v) outcome" where
  "firstof_callbacks tv k [] c S = (c, Returned S)"
| "firstof_callbacks tv k (r # rs) c S =
     (case FirstOfCombinator_callback tv k r c S of
        (c', Returned S') \<Rightarrow> firstof_callbacks tv k rs c' S'
      | res \<Rightarrow> res)"

lemma firstof_errors: "firstof_callbacks tv k (map Inl es @ rs) c S = firstof_callbacks tv k rs c S"
  by (induction es) (auto simp: FirstOfCombinator_callback_def)

lemma firstof_released: "fc_released c \<Longrightarrow> firstof_callbacks tv k rs c S = (c, Returned S)"
proof (induction rs)
  case (Cons r rs)
  then have "FirstOfCombinator_callback tv k r c S = (c, Returned S)"
    by (cases c) (auto simp: FirstOfCombinator_callback_def split: sum.splits)
  with Cons show ?case by simp
qed simp

lemma FirstOfCombinator_Combine_fresh:
  assumes "FirstOfCombinator_Combine tv k z n S = Some (f, c, out)" "0 < n"
  shows "\<exists>S0. out = Returned S0 \<and> f = Some (length (fstates S)) \<and> \<not> fc_released c \<and>
    promise_state (fc_promise c) = Some (length (fstates S)) \<and>
    length (fstates S) < length (fstates S0) \<and> fs_state (fstates S0 ! length (fstates S)) = SubStart"
  using assms
  by (auto simp: FirstOfCombinator_Combine_def MakeContract_def Promise_ctor_def Promise_MakeFuture_def
      MakeSharedState_def Let_def)

section \<open>Properties\<close>

text \<open>C25: \<open>All\<close>: when every input completes with a value, the output future is fulfilled exactly when
  the last one has, with all the values, in the order in which the inputs completed. When an
  input fails and it is not the last one to complete, the output future gets the first error
  and everything that arrives later is ignored.\<close>

theorem All_collects_or_first_error:
  assumes comb: "AllCombinator_Combine tv (Suc k) d n S = Some (Some i, c, Returned S0)" and n: "0 < n"
    and rs: "(rs = map Inr vs \<and> length vs = n) \<or> (rs = map Inr vs @ Inl e # rest \<and> Suc (length vs) < n)"
  shows "\<exists>c' S'. all_callbacks tv (Suc k) n rs c S0 = (c', Returned S') \<and>
    fs_state (fstates S' ! i) = SubOnlyResult \<and>
    fs_result (fstates S' ! i) = Some (if length vs = n then Inr vs else Inl e)"
proof -
  have start: "all_collecting n i [] c S0"
    using AllCombinator_Combine_collecting [OF comb n] by auto
  show ?thesis
  proof (cases "length vs = n")
    case True
    with rs have r: "rs = map Inr vs" by auto
    from True n obtain us v where vs: "vs = us @ [v]" by (metis length_greater_0_conv rev_exhaust)
    obtain c1 where c1: "all_callbacks tv (Suc k) n (map Inr us @ [Inr v]) c S0 = all_callbacks tv (Suc k) n [Inr v] c1 S0"
        "all_collecting n i us c1 S0"
      using all_callbacks_values [OF start, of us tv "Suc k" "[Inr v]"] True vs by auto
    have "Suc (length us) = n" using True vs by simp
    from all_callback_last [OF c1(2) this, of tv k v] c1(1) r vs True show ?thesis by auto
  next
    case False
    with rs have r: "rs = map Inr vs @ Inl e # rest" "Suc (length vs) < n" by auto
    obtain c1 where c1: "all_callbacks tv (Suc k) n rs c S0 = all_callbacks tv (Suc k) n (Inl e # rest) c1 S0"
        "all_collecting n i vs c1 S0"
      using all_callbacks_values [OF start, of vs tv "Suc k" "Inl e # rest"] r by auto
    from all_callback_error(2) [OF c1(2), of tv k e] r(2) obtain c2 S' where
      "AllCombinator_callback tv (Suc k) n (Inl e) c1 S0 = (c2, Returned S')" "ac_error c2"
      "fs_state (fstates S' ! i) = SubOnlyResult" "fs_result (fstates S' ! i) = Some (Inl e)" by auto
    with c1(1) False show ?thesis by (simp add: all_callbacks_ignored)
  qed
qed

theorem All_collects_or_first_error_witness:
  "\<exists>c S0 c' S'. AllCombinator_Combine (\<lambda>r :: string + nat list. r) 1 0 3 empty_store = Some (Some 0, c, Returned S0) \<and>
     all_callbacks (\<lambda>r. r) 1 3 [Inr 5, Inl ''bad'', Inr 6] c S0 = (c', Returned S') \<and>
     fs_result (fstates S' ! 0) = Some (Inl ''bad'')"
proof -
  obtain c S0 where c: "AllCombinator_Combine (\<lambda>r :: string + nat list. r) (Suc 0) 0 3 empty_store = Some (Some 0, c, Returned S0)"
    by (simp add: AllCombinator_Combine_def MakeContract_def Promise_ctor_def Promise_MakeFuture_def
        MakeSharedState_def empty_store_def)
  have r: "([Inr 5, Inl ''bad'', Inr 6] :: (string + nat) list) = map Inr [5] \<and> length [5 :: nat] = 3 \<or>
      [Inr 5, Inl ''bad'', Inr 6] = map Inr [5] @ Inl ''bad'' # [Inr 6] \<and> Suc (length [5 :: nat]) < 3" by simp
  have "0 < (3 :: nat)" by simp
  from All_collects_or_first_error [OF c this r] c show ?thesis by auto
qed

text \<open>\<open>All\<close> aborts when the only error is the result of the input that completes last: the callback
  fulfils the output promise with the error, counts the input nevertheless, finds the counter
  complete and fulfils the released promise a second time, where \<open>CheckState\<close> fails.\<close>

theorem All_error_on_last_input_aborts:
  assumes comb: "AllCombinator_Combine tv (Suc k) d n S = Some (Some i, c, Returned S0)" and n: "Suc (length vs) = n"
  shows "\<exists>c'. all_callbacks tv (Suc k) n (map Inr vs @ [Inl e]) c S0 = (c', Aborted)"
proof -
  have start: "all_collecting n i [] c S0"
    using AllCombinator_Combine_collecting [OF comb] n by auto
  obtain c1 where c1: "all_callbacks tv (Suc k) n (map Inr vs @ [Inl e]) c S0 = all_callbacks tv (Suc k) n [Inl e] c1 S0"
      "all_collecting n i vs c1 S0"
    using all_callbacks_values [OF start, of vs tv "Suc k" "[Inl e]"] n by auto
  from all_callback_error(1) [OF c1(2) n, of tv k e] c1(1) show ?thesis by auto
qed

theorem All_error_on_last_input_aborts_witness:
  "\<exists>c S0 c'. AllCombinator_Combine (\<lambda>r :: string + nat list. r) 1 0 2 empty_store = Some (Some 0, c, Returned S0) \<and>
     all_callbacks (\<lambda>r. r) 1 2 [Inr 5, Inl ''bad''] c S0 = (c', Aborted)"
proof -
  obtain c S0 where c: "AllCombinator_Combine (\<lambda>r :: string + nat list. r) (Suc 0) 0 2 empty_store = Some (Some 0, c, Returned S0)"
    by (simp add: AllCombinator_Combine_def MakeContract_def Promise_ctor_def Promise_MakeFuture_def
        MakeSharedState_def empty_store_def)
  have "Suc (length [5 :: nat]) = 2" by simp
  from All_error_on_last_input_aborts [OF c this, of "''bad''"] c show ?thesis by auto
qed

text \<open>\<open>FirstOf\<close> drops every error: when all inputs fail the combinator does nothing and its output is
  never fulfilled, although the comment in \<^verbatim>\<open>first_of.hpp\<close> promises the last error in that case.\<close>

theorem FirstOf_all_fail_never_completes:
  assumes comb: "FirstOfCombinator_Combine tv (Suc k) z n S = Some (Some i, c, Returned S0)" and n: "0 < n"
  shows "firstof_callbacks tv (Suc k) (map Inl es) c S0 = (c, Returned S0) \<and>
    fs_state (fstates S0 ! i) = SubStart"
  using FirstOfCombinator_Combine_fresh [OF comb n] firstof_errors [of tv "Suc k" es "[]" c S0] by auto

theorem FirstOf_all_fail_never_completes_witness:
  "\<exists>c S0. FirstOfCombinator_Combine (\<lambda>r :: string + nat. r) 1 0 2 empty_store = Some (Some 0, c, Returned S0) \<and>
     firstof_callbacks (\<lambda>r. r) 1 [Inl ''bad'', Inl ''worse''] c S0 = (c, Returned S0) \<and>
     fs_state (fstates S0 ! 0) = SubStart"
proof -
  obtain c S0 where c: "FirstOfCombinator_Combine (\<lambda>r :: string + nat. r) (Suc 0) 0 2 empty_store = Some (Some 0, c, Returned S0)"
    by (simp add: FirstOfCombinator_Combine_def MakeContract_def Promise_ctor_def Promise_MakeFuture_def
        MakeSharedState_def empty_store_def)
  have "0 < (2 :: nat)" by simp
  from FirstOf_all_fail_never_completes [OF c this, of "[''bad'', ''worse'']"] c show ?thesis by auto
qed

text \<open>C26: \<open>FirstOf\<close> of inputs of which at least one succeeds fulfils its output with the first value
  that arrives, once: the errors that come before it and every result that comes after it change
  nothing. (Inputs that all fail are the case of the previous theorem.)\<close>

theorem FirstOf_first_value:
  assumes tv: "result_converts tv" and n: "0 < n"
    and comb: "FirstOfCombinator_Combine tv (Suc k) z n S = Some (Some i, c, Returned S0)"
  shows "\<exists>c' S'. firstof_callbacks tv (Suc k) (map Inl es @ [Inr v]) c S0 = (c', Returned S') \<and>
    fs_state (fstates S' ! i) = SubOnlyResult \<and> fs_result (fstates S' ! i) = Some (Inr v) \<and>
    firstof_callbacks tv (Suc k) (map Inl es) c S0 = (c, Returned S0) \<and>
    firstof_callbacks tv (Suc k) (map Inl es @ Inr v # rest) c S0 = (c', Returned S')"
proof -
  have f: "\<not> fc_released c" "promise_state (fc_promise c) = Some i" "i < length (fstates S0)"
    "fs_state (fstates S0 ! i) = SubStart"
    using FirstOfCombinator_Combine_fresh [OF comb n] by auto
  obtain S' where s: "Promise_Set tv (Suc k) (Inr v) (fc_promise c) S0 = ((fc_promise c)\<lparr>promise_state := None\<rparr>, Returned S')"
      "fs_state (fstates S' ! i) = SubOnlyResult" "fs_result (fstates S' ! i) = Some (Inr v)"
    using promise_set_fresh [OF f(2,3,4)] by blast
  have "tv (Inr v) = Inr v" using tv by (simp add: result_converts_def)
  with s f have "\<And>rs. firstof_callbacks tv (Suc k) (Inr v # rs) c S0
      = (c\<lparr>fc_released := True, fc_promise := (fc_promise c)\<lparr>promise_state := None\<rparr>\<rparr>, Returned S')"
    by (simp add: FirstOfCombinator_callback_def Promise_SetValue_def firstof_released)
  with s firstof_errors [of tv "Suc k" es _ c S0] firstof_errors [of tv "Suc k" es "[]" c S0]
  show ?thesis by auto
qed

theorem FirstOf_first_value_witness:
  "\<exists>c S0 c' S'. FirstOfCombinator_Combine (\<lambda>r :: string + nat. r) 1 0 3 empty_store = Some (Some 0, c, Returned S0) \<and>
     firstof_callbacks (\<lambda>r. r) 1 [Inl ''bad'', Inr 4, Inr 5] c S0 = (c', Returned S') \<and>
     fs_result (fstates S' ! 0) = Some (Inr 4)"
proof -
  obtain c S0 where c: "FirstOfCombinator_Combine (\<lambda>r :: string + nat. r) (Suc 0) 0 3 empty_store = Some (Some 0, c, Returned S0)"
    by (simp add: FirstOfCombinator_Combine_def MakeContract_def Promise_ctor_def Promise_MakeFuture_def
        MakeSharedState_def empty_store_def)
  have t: "result_converts (\<lambda>r :: string + nat. r)" "0 < (3 :: nat)" by (simp_all add: result_converts_def)
  from FirstOf_first_value [OF t c, of "[''bad'']" 4 "[Inr 5]"] c show ?thesis by auto
qed

end
