(* ===== verification/Time_Keeper.thy ===== *)
theory Time_Keeper
  imports Futures
begin

text \<open>
  \<open>TimeKeeper\<close> of \<^verbatim>\<open>time/time_keeper.hpp\<close>: timers in a priority queue ordered by deadline, and a
  worker thread that fulfils the promises of the timers that are due. Both critical sections
  are steps. Time points are natural numbers. \<open>std::priority_queue\<close> is a list sorted by
  deadline; the order among equal deadlines, which the standard leaves open, is immaterial
  for the properties.
\<close>

section \<open>Model\<close>

record timer =
  deadline :: nat
  timer_promise :: promise

record 'e time_keeper =
  tk_queue :: "timer list"
  tk_store :: "('e, unit) store"
  stop_requested :: bool
  worker_joined :: bool
  tk_fired :: "(state_ref \<times> nat) list"      \<comment> \<open>history: promises fulfilled, and when\<close>
  tk_aborted :: bool

definition TimeKeeper_ctor :: "'e time_keeper" where
  "TimeKeeper_ctor =
     \<lparr>tk_queue = [], tk_store = \<lparr>fstates = [], ftasks = [], flog = []\<rparr>, stop_requested = False,
      worker_joined = False, tk_fired = [], tk_aborted = False\<rparr>"

definition TimeKeeper_AddTimer :: "nat \<Rightarrow> promise \<Rightarrow> 'e time_keeper \<Rightarrow> 'e time_keeper" where
  "TimeKeeper_AddTimer d p s =
     s\<lparr>tk_queue := insort_key deadline \<lparr>deadline = d, timer_promise = p\<rparr> (tk_queue s)\<rparr>"

definition TimeKeeper_ToDeadLine :: "nat \<Rightarrow> nat \<Rightarrow> nat" where
  "TimeKeeper_ToDeadLine now d = now + d"

text \<open>\<open>After\<close> called at the time \<open>now\<close>.\<close>

definition TimeKeeper_After :: "nat \<Rightarrow> nat \<Rightarrow> 'e time_keeper \<Rightarrow> (state_ref option \<times> 'e time_keeper) option" where
  "TimeKeeper_After now d s =
     (case MakeContract (tk_store s) of
        None \<Rightarrow> None
      | Some (f, p, S) \<Rightarrow>
          Some (f, TimeKeeper_AddTimer (TimeKeeper_ToDeadLine now d) p (s\<lparr>tk_store := S\<rparr>)))"

text \<open>The loop of \<open>GrabReadyTimers\<close>: the promises taken, and the queue left.\<close>

fun TimeKeeper_GrabReadyTimers :: "nat \<Rightarrow> timer list \<Rightarrow> promise list \<Rightarrow> promise list \<times> timer list" where
  "TimeKeeper_GrabReadyTimers now [] promises = (promises, [])"
| "TimeKeeper_GrabReadyTimers now (next # queue) promises =
     (if deadline next > now then (promises, next # queue)
      else TimeKeeper_GrabReadyTimers now queue (promises @ [timer_promise next]))"

primrec set_promises ::
    "(('e + unit) \<Rightarrow> 'e + unit) \<Rightarrow> nat \<Rightarrow> nat \<Rightarrow> promise list \<Rightarrow> 'e time_keeper \<Rightarrow> 'e time_keeper" where
  "set_promises tv k now [] s = s"
| "set_promises tv k now (p # ps) s =
     (case Promise_SetValue tv k () p (tk_store s) of
        (_, Returned S) \<Rightarrow>
          set_promises tv k now ps
            (s\<lparr>tk_store := S, tk_fired := tk_fired s @ [(the (promise_state p), now)]\<rparr>)
      | _ \<Rightarrow> s\<lparr>tk_aborted := True\<rparr>)"

definition TimeKeeper_PollTimerQueue :: "(('e + unit) \<Rightarrow> 'e + unit) \<Rightarrow> nat \<Rightarrow> nat \<Rightarrow> 'e time_keeper \<Rightarrow> 'e time_keeper" where
  "TimeKeeper_PollTimerQueue tv k now s =
     (let (promises, queue) = TimeKeeper_GrabReadyTimers now (tk_queue s) []
      in set_promises tv k now promises (s\<lparr>tk_queue := queue\<rparr>))"

definition TimeKeeper_Stop :: "'e time_keeper \<Rightarrow> 'e time_keeper" where
  "TimeKeeper_Stop s = s\<lparr>stop_requested := True\<rparr>"

datatype tk_label =
    TkAfter nat nat      \<comment> \<open>\<open>After\<close>: the time of the call and the delay\<close>
  | TkWork nat           \<comment> \<open>a round of \<open>Work\<close>: the test of \<open>stop_requested_\<close>, then a poll at that time\<close>
  | TkStop

text \<open>The worker: \<open>while (!stop_requested_) { PollTimerQueue(); sleep }\<close>.\<close>

definition TimeKeeper_Work :: "(('e + unit) \<Rightarrow> 'e + unit) \<Rightarrow> nat \<Rightarrow> nat \<Rightarrow> 'e time_keeper \<Rightarrow> 'e time_keeper" where
  "TimeKeeper_Work tv k now s =
     (if \<not> stop_requested s then TimeKeeper_PollTimerQueue tv k now s else s\<lparr>worker_joined := True\<rparr>)"

fun tk_timer_step ::
    "(('e + unit) \<Rightarrow> 'e + unit) \<Rightarrow> nat \<Rightarrow> tk_label \<Rightarrow> 'e time_keeper \<Rightarrow> 'e time_keeper option" where
  "tk_timer_step tv k (TkAfter now d) s = map_option snd (TimeKeeper_After now d s)"
| "tk_timer_step tv k (TkWork now) s =
     (if worker_joined s then None else Some (TimeKeeper_Work tv k now s))"
| "tk_timer_step tv k TkStop s = (if stop_requested s then None else Some (TimeKeeper_Stop s))"

section \<open>The queue\<close>

lemma grab_eq:
  "sorted (map deadline q) \<Longrightarrow>
   TimeKeeper_GrabReadyTimers now q ps
     = (ps @ map timer_promise (filter (\<lambda>t. deadline t \<le> now) q), filter (\<lambda>t. now < deadline t) q)"
proof (induction q arbitrary: ps)
  case (Cons t q)
  then have "now < deadline t \<Longrightarrow> filter (\<lambda>t. now < deadline t) q = q \<and> filter (\<lambda>t. deadline t \<le> now) q = []"
    by (auto simp: filter_id_conv filter_empty_conv)
  with Cons show ?case by auto
qed simp

text \<open>Every timer in the queue has a promise of its own whose future is unfulfilled.\<close>

definition timer_ref :: "timer \<Rightarrow> state_ref" where
  "timer_ref t = the (promise_state (timer_promise t))"

definition tk_timers_inv :: "'e time_keeper \<Rightarrow> bool" where
  "tk_timers_inv s \<longleftrightarrow>
     \<not> tk_aborted s \<and> sorted (map deadline (tk_queue s)) \<and> distinct (map timer_ref (tk_queue s)) \<and>
     (\<forall>t \<in> set (tk_queue s). promise_state (timer_promise t) \<noteq> None \<and>
        timer_ref t < length (fstates (tk_store s)) \<and>
        fs_state (fstates (tk_store s) ! timer_ref t) = SubStart) \<and>
     (\<forall>(i, now) \<in> set (tk_fired s). i < length (fstates (tk_store s)) \<and>
        fs_state (fstates (tk_store s) ! i) = SubOnlyResult \<and>
        fs_result (fstates (tk_store s) ! i) = Some (Inr ()))"

lemma set_promises_inv:
  assumes "distinct (map timer_ref ts)"
    "\<And>t. t \<in> set ts \<Longrightarrow> promise_state (timer_promise t) \<noteq> None \<and> timer_ref t < length (fstates (tk_store s)) \<and>
      fs_state (fstates (tk_store s) ! timer_ref t) = SubStart"
  shows "\<exists>S. set_promises tv (Suc k) now (map timer_promise ts) s
      = s\<lparr>tk_store := S, tk_fired := tk_fired s @ map (\<lambda>t. (timer_ref t, now)) ts\<rparr> \<and>
    length (fstates S) = length (fstates (tk_store s)) \<and>
    (\<forall>t \<in> set ts. fs_state (fstates S ! timer_ref t) = SubOnlyResult \<and>
       fs_result (fstates S ! timer_ref t) = Some (Inr ())) \<and>
    (\<forall>i. i \<notin> timer_ref ` set ts \<longrightarrow> fstates S ! i = fstates (tk_store s) ! i)"
  using assms
proof (induction ts arbitrary: s)
  case Nil
  then show ?case by (intro exI [of _ "tk_store s"]) simp
next
  case (Cons t ts)
  let ?i = "timer_ref t"
  obtain p where p: "promise_state (timer_promise t) = Some p" "?i = p"
    using Cons.prems(2) [of t] by (auto simp: timer_ref_def)
  define S1 where "S1 = upd_state p (fs_state_update (\<lambda>_. SubOnlyResult))
    (upd_state p (fs_result_update (\<lambda>_. Some (Inr ()))) (tk_store s))"
  define s1 where "s1 = s\<lparr>tk_store := S1, tk_fired := tk_fired s @ [(p, now)]\<rparr>"
  have at: "p < length (fstates (tk_store s))" "fs_state (fstates (tk_store s) ! p) = SubStart"
    using Cons.prems(2) [of t] p by auto
  then have step: "set_promises tv (Suc k) now (map timer_promise (t # ts)) s
      = set_promises tv (Suc k) now (map timer_promise ts) s1"
    using p by (simp add: Promise_SetValue_def Promise_Set_def HoldState_ReleaseState_def
        state_SetResult_def Let_def S1_def s1_def)
  have fresh: "p \<noteq> timer_ref u" if "u \<in> set ts" for u
  proof -
    have "?i \<notin> timer_ref ` set ts" using Cons.prems(1) by simp
    then have "timer_ref u \<noteq> ?i" using that by (metis image_eqI)
    with p(2) show ?thesis by auto
  qed
  have "\<exists>S. set_promises tv (Suc k) now (map timer_promise ts) s1
      = s1\<lparr>tk_store := S, tk_fired := tk_fired s1 @ map (\<lambda>t. (timer_ref t, now)) ts\<rparr> \<and>
    length (fstates S) = length (fstates (tk_store s1)) \<and>
    (\<forall>t \<in> set ts. fs_state (fstates S ! timer_ref t) = SubOnlyResult \<and>
       fs_result (fstates S ! timer_ref t) = Some (Inr ())) \<and>
    (\<forall>i. i \<notin> timer_ref ` set ts \<longrightarrow> fstates S ! i = fstates (tk_store s1) ! i)"
    using Cons.prems fresh by (intro Cons.IH) (auto simp: s1_def S1_def)
  then obtain S where S: "set_promises tv (Suc k) now (map timer_promise ts) s1
      = s1\<lparr>tk_store := S, tk_fired := tk_fired s1 @ map (\<lambda>t. (timer_ref t, now)) ts\<rparr>"
    "length (fstates S) = length (fstates S1)"
    "\<And>t. t \<in> set ts \<Longrightarrow> fs_state (fstates S ! timer_ref t) = SubOnlyResult \<and>
       fs_result (fstates S ! timer_ref t) = Some (Inr ())"
    "\<And>i. i \<notin> timer_ref ` set ts \<Longrightarrow> fstates S ! i = fstates S1 ! i"
    by (auto simp: s1_def)
  have "p \<notin> timer_ref ` set ts" using fresh by auto
  then have "fs_state (fstates S ! p) = SubOnlyResult \<and> fs_result (fstates S ! p) = Some (Inr ())"
    using S(4) at by (simp add: S1_def)
  with S step p show ?case by (intro exI [of _ S]) (auto simp: s1_def S1_def)
qed

text \<open>A poll, as a whole.\<close>

lemma poll_effect:
  assumes inv: "tk_timers_inv s"
  shows "\<exists>S. TimeKeeper_PollTimerQueue tv (Suc k) now s
      = s\<lparr>tk_queue := filter (\<lambda>t. now < deadline t) (tk_queue s), tk_store := S,
          tk_fired := tk_fired s @ map (\<lambda>t. (timer_ref t, now)) (filter (\<lambda>t. deadline t \<le> now) (tk_queue s))\<rparr> \<and>
    length (fstates S) = length (fstates (tk_store s)) \<and>
    (\<forall>t \<in> set (tk_queue s). deadline t \<le> now \<longrightarrow> fs_state (fstates S ! timer_ref t) = SubOnlyResult \<and>
       fs_result (fstates S ! timer_ref t) = Some (Inr ())) \<and>
    (\<forall>i. i \<notin> timer_ref ` {t \<in> set (tk_queue s). deadline t \<le> now} \<longrightarrow> fstates S ! i = fstates (tk_store s) ! i)"
proof -
  let ?due = "filter (\<lambda>t. deadline t \<le> now) (tk_queue s)"
  let ?s = "s\<lparr>tk_queue := filter (\<lambda>t. now < deadline t) (tk_queue s)\<rparr>"
  have d: "distinct (map timer_ref ?due)" using inv by (simp add: tk_timers_inv_def distinct_map_filter)
  have each: "promise_state (timer_promise t) \<noteq> None \<and> timer_ref t < length (fstates (tk_store ?s)) \<and>
      fs_state (fstates (tk_store ?s) ! timer_ref t) = SubStart" if "t \<in> set ?due" for t
    using inv that by (auto simp: tk_timers_inv_def)
  have "TimeKeeper_PollTimerQueue tv (Suc k) now s = set_promises tv (Suc k) now (map timer_promise ?due) ?s"
    using inv grab_eq [of "tk_queue s" now "[]"]
    by (simp add: TimeKeeper_PollTimerQueue_def tk_timers_inv_def)
  with set_promises_inv [OF d, of ?s tv k now] each show ?thesis by auto
qed

lemma tk_timers_inv_ctor: "tk_timers_inv TimeKeeper_ctor"
  by (simp add: tk_timers_inv_def TimeKeeper_ctor_def)

lemma tk_timers_inv_poll:
  assumes inv: "tk_timers_inv s"
  shows "tk_timers_inv (TimeKeeper_PollTimerQueue tv (Suc k) now s)"
proof -
  obtain S where S: "TimeKeeper_PollTimerQueue tv (Suc k) now s
      = s\<lparr>tk_queue := filter (\<lambda>t. now < deadline t) (tk_queue s), tk_store := S,
          tk_fired := tk_fired s @ map (\<lambda>t. (timer_ref t, now)) (filter (\<lambda>t. deadline t \<le> now) (tk_queue s))\<rparr>"
    "length (fstates S) = length (fstates (tk_store s))"
    "\<And>t. t \<in> set (tk_queue s) \<Longrightarrow> deadline t \<le> now \<Longrightarrow> fs_state (fstates S ! timer_ref t) = SubOnlyResult \<and>
       fs_result (fstates S ! timer_ref t) = Some (Inr ())"
    "\<And>i. i \<notin> timer_ref ` {t \<in> set (tk_queue s). deadline t \<le> now} \<Longrightarrow> fstates S ! i = fstates (tk_store s) ! i"
    using poll_effect [OF inv, of tv k now] by blast
  have inj: "timer_ref t = timer_ref u \<Longrightarrow> t = u" if "t \<in> set (tk_queue s)" "u \<in> set (tk_queue s)" for t u
    using inv that by (auto simp: tk_timers_inv_def distinct_map dest: inj_onD)
  have later: "fs_state (fstates S ! timer_ref t) = SubStart" if "t \<in> set (tk_queue s)" "now < deadline t" for t
  proof -
    have "timer_ref t \<notin> timer_ref ` {t \<in> set (tk_queue s). deadline t \<le> now}" using inj that by fastforce
    from S(4) [OF this] inv that show ?thesis by (simp add: tk_timers_inv_def)
  qed
  have old: "fstates S ! i = fstates (tk_store s) ! i" if "(i, w) \<in> set (tk_fired s)" for i w
  proof (rule S(4))
    show "i \<notin> timer_ref ` {t \<in> set (tk_queue s). deadline t \<le> now}"
      using inv that by (fastforce simp: tk_timers_inv_def)
  qed
  show ?thesis unfolding S(1)
    using inv S(2,3) later old
    by (auto simp: tk_timers_inv_def distinct_map_filter sorted_filter)
qed

lemma tk_timers_inv_after:
  assumes inv: "tk_timers_inv s" and a: "TimeKeeper_After now d s = Some (f, s')"
  shows "tk_timers_inv s'"
proof -
  let ?n = "length (fstates (tk_store s))"
  let ?t = "\<lparr>deadline = now + d, timer_promise = \<lparr>promise_state = Some ?n, future_extracted = True\<rparr>\<rparr>"
  have s': "s' = s\<lparr>tk_store := snd (MakeSharedState (tk_store s)), tk_queue := insort_key deadline ?t (tk_queue s)\<rparr>"
    using a by (auto simp: TimeKeeper_After_def MakeContract_def Promise_ctor_def Promise_MakeFuture_def
        MakeSharedState_def TimeKeeper_AddTimer_def TimeKeeper_ToDeadLine_def Let_def)
  have ref: "timer_ref ?t = ?n" by (simp add: timer_ref_def)
  have "?n \<notin> timer_ref ` set (tk_queue s)" using inv by (fastforce simp: tk_timers_inv_def)
  moreover have "mset (map timer_ref (insort_key deadline ?t (tk_queue s))) = add_mset ?n (mset (map timer_ref (tk_queue s)))"
    by (simp add: ref)
  ultimately have "distinct (map timer_ref (insort_key deadline ?t (tk_queue s)))"
    using inv by (metis distinct.simps(2) list.set_map mset.simps(2) mset_eq_imp_distinct_iff tk_timers_inv_def)
  with inv show ?thesis unfolding s'
    by (auto simp: tk_timers_inv_def sorted_insort_key set_insort_key ref MakeSharedState_def nth_append)
qed

lemma tk_timers_inv_step:
  assumes "tk_timers_inv s" "tk_timer_step tv (Suc k) l s = Some s'"
  shows "tk_timers_inv s'"
proof (cases l)
  case (TkAfter now d)
  with assms show ?thesis by (auto intro: tk_timers_inv_after)
next
  case (TkWork now)
  with assms tk_timers_inv_poll [OF assms(1), of tv k now] show ?thesis
    by (auto simp: TimeKeeper_Work_def tk_timers_inv_def split: if_splits)
next
  case TkStop
  with assms show ?thesis by (auto simp: TimeKeeper_Stop_def tk_timers_inv_def split: if_splits)
qed

interpretation timers: invariant_system "tk_timer_step tv (Suc k)" TimeKeeper_ctor tk_timers_inv for tv k
  by unfold_locales (fact tk_timers_inv_ctor, fact tk_timers_inv_step)

section \<open>Properties\<close>

text \<open>A poll at the time \<open>now\<close> fulfils exactly the timers whose deadline has passed, each once and
  in the order of their deadlines, and leaves the others in the queue with their futures
  unfulfilled; no promise is fulfilled twice (nothing aborts).\<close>

theorem TimeKeeper_fires_exactly_due_timers:
  assumes "reachable (tk_timer_step tv (Suc k)) TimeKeeper_ctor s"
  shows "\<exists>s' due. TimeKeeper_PollTimerQueue tv (Suc k) now s = s' \<and> \<not> tk_aborted s' \<and>
    due = filter (\<lambda>t. deadline t \<le> now) (tk_queue s) \<and> sorted (map deadline due) \<and>
    tk_fired s' = tk_fired s @ map (\<lambda>t. (timer_ref t, now)) due \<and> distinct (map timer_ref due) \<and>
    (\<forall>t \<in> set due. fs_result (fstates (tk_store s') ! timer_ref t) = Some (Inr ())) \<and>
    (\<forall>t. t \<in> set (tk_queue s') \<longleftrightarrow> t \<in> set (tk_queue s) \<and> now < deadline t) \<and>
    (\<forall>t \<in> set (tk_queue s'). fs_state (fstates (tk_store s') ! timer_ref t) = SubStart)"
proof -
  have inv: "tk_timers_inv s" using assms by (rule timers.inv_reachable)
  have inv': "tk_timers_inv (TimeKeeper_PollTimerQueue tv (Suc k) now s)"
    using inv by (rule tk_timers_inv_poll)
  from inv have "sorted (map deadline (filter (\<lambda>t. deadline t \<le> now) (tk_queue s)))"
    "distinct (map timer_ref (filter (\<lambda>t. deadline t \<le> now) (tk_queue s)))"
    by (simp_all add: tk_timers_inv_def sorted_filter distinct_map_filter)
  with poll_effect [OF inv, of tv k now] inv' show ?thesis
    by (auto simp: tk_timers_inv_def)
qed

theorem TimeKeeper_fires_exactly_due_timers_witness:
  "\<exists>s :: string time_keeper. reachable (tk_timer_step (\<lambda>r. r) 1) TimeKeeper_ctor s \<and>
     map deadline (tk_queue s) = [13, 15] \<and>
     tk_fired (TimeKeeper_PollTimerQueue (\<lambda>r. r) 1 14 s) = [(1, 14)]"
proof -
  obtain s where s: "run (tk_timer_step (\<lambda>r :: string + unit. r) (Suc 0)) [TkAfter 10 5, TkAfter 11 2, TkWork 12]
      TimeKeeper_ctor = Some s"
    and q: "map deadline (tk_queue s) = [13, 15]" "map timer_ref (tk_queue s) = [1, 0]" "tk_fired s = []"
    by (simp add: TimeKeeper_ctor_def TimeKeeper_After_def TimeKeeper_AddTimer_def TimeKeeper_ToDeadLine_def
        MakeContract_def Promise_ctor_def Promise_MakeFuture_def MakeSharedState_def Let_def
        TimeKeeper_Work_def TimeKeeper_PollTimerQueue_def timer_ref_def)
  have r: "reachable (tk_timer_step (\<lambda>r :: string + unit. r) (Suc 0)) TimeKeeper_ctor s"
    using s by (rule run_reachable)
  from q obtain t u where tu: "tk_queue s = [t, u]" "deadline t = 13" "deadline u = 15" "timer_ref t = 1"
    by (auto simp: map_eq_Cons_conv)
  from TimeKeeper_fires_exactly_due_timers [OF r, of 14] tu q r show ?thesis by (intro exI [of _ s]) auto
qed

end
