(* ===== verification/Timed_Clients.thy ===== *)
theory Timed_Clients
  imports Time_Keeper Future_Clients
begin

text \<open>
  The time keeper together with the clients of its futures: the composition of \<open>Time_Keeper\<close> and \<open>Future_Clients\<close>, with the
  interleavings that the former leaves out. Threads call \<open>After\<close>, which reads the clock before it takes the mutex; the worker reads the clock
  before it takes the mutex, and sets the promises it took one by one after it has released the mutex; in between clients subscribe,
  transform and consume the futures of the timers, under the discipline of \<open>Future_Clients\<close>. The promise of a timer is held by the time keeper, all other handles by
  the clients. The clock does not go back (it is a \<open>steady_clock\<close>).
\<close>

section \<open>Model\<close>

datatype tm_worker_pc =
    TwTest                    \<comment> \<open>before \<open>stop_requested_.load()\<close>\<close>
  | TwPoll                    \<comment> \<open>before \<open>Clock::now()\<close> in \<open>GrabReadyTimers\<close>\<close>
  | TwGrab nat                \<comment> \<open>before the critical section, with the time read\<close>
  | TwSet "promise list"      \<comment> \<open>in the loop of \<open>PollTimerQueue\<close>, the promises left\<close>
  | TwSleep
  | TwExited

text \<open>
  \<open>tm_adding\<close>: calls of \<open>After\<close> before their critical section, with the future they will return and the timer they will add.
  History: \<open>tm_made\<close> has every timer with its deadline, \<open>tm_fired\<close> every promise that was set, with the time.
\<close>

record ('e, 'v) timed =
  tm_client :: "('e, 'v) fclient"
  tm_adding :: "(state_ref \<times> timer) list"
  tm_queue :: "timer list"
  tm_worker :: tm_worker_pc
  tm_stop :: bool
  tm_clock :: nat
  tm_made :: "(state_ref \<times> nat) list"
  tm_fired :: "(state_ref \<times> nat) list"

definition timed_start :: "('e, 'v) timed" where
  "timed_start =
     \<lparr>tm_client = fc_start, tm_adding = [], tm_queue = [], tm_worker = TwTest, tm_stop = False, tm_clock = 0,
      tm_made = [], tm_fired = []\<rparr>"

text \<open>\<open>After\<close>: the contract and the deadline.\<close>

definition timed_After :: "nat \<Rightarrow> ('e, 'v) timed \<Rightarrow> ('e, 'v) timed" where
  "timed_After d s =
     (case MakeContract (fc_store (tm_client s)) of
        Some (Some f, p, S') \<Rightarrow>
          (let dl = TimeKeeper_ToDeadLine (tm_clock s) d
           in s\<lparr>tm_client := (tm_client s)\<lparr>fc_store := S'\<rparr>,
                tm_adding := tm_adding s @ [(f, \<lparr>deadline = dl, timer_promise = p\<rparr>)], tm_made := tm_made s @ [(f, dl)]\<rparr>)
      | _ \<Rightarrow> s\<lparr>tm_client := (tm_client s)\<lparr>fc_broken := True\<rparr>\<rparr>)"

text \<open>The critical section of \<open>AddTimer\<close> in one of the calls, which then returns the future.\<close>

definition timed_AddTimer :: "nat \<Rightarrow> ('e, 'v) timed \<Rightarrow> ('e, 'v) timed" where
  "timed_AddTimer k s =
     (let (f, t) = tm_adding s ! k
      in s\<lparr>tm_queue := insort_key deadline t (tm_queue s),
           tm_adding := take k (tm_adding s) @ drop (Suc k) (tm_adding s),
           tm_client := (tm_client s)\<lparr>fc_futures := f # fc_futures (tm_client s)\<rparr>\<rparr>)"

text \<open>One step of the worker; \<open>u\<close> is the value \<open>{}\<close> of \<open>Unit\<close>.\<close>

definition timed_Work :: "'v \<Rightarrow> ('e + 'v \<Rightarrow> 'e + 'v) \<Rightarrow> ('e, 'v) timed \<Rightarrow> ('e, 'v) timed option" where
  "timed_Work u tv s =
     (case tm_worker s of
        TwTest \<Rightarrow> Some (s\<lparr>tm_worker := (if \<not> tm_stop s then TwPoll else TwExited)\<rparr>)
      | TwPoll \<Rightarrow> Some (s\<lparr>tm_worker := TwGrab (tm_clock s)\<rparr>)
      | TwGrab now \<Rightarrow>
          (let (promises, queue) = TimeKeeper_GrabReadyTimers now (tm_queue s) []
           in Some (s\<lparr>tm_queue := queue, tm_worker := TwSet promises\<rparr>))
      | TwSet [] \<Rightarrow> Some (s\<lparr>tm_worker := TwSleep\<rparr>)
      | TwSet (p # ps) \<Rightarrow>
          (let (p', out) = Promise_SetValue tv (fc_fuel (fc_store (tm_client s))) u p (fc_store (tm_client s))
           in Some (s\<lparr>tm_client := fc_finish out (tm_client s), tm_worker := TwSet ps,
                      tm_fired := tm_fired s @ [(the (promise_state p), tm_clock s)]\<rparr>))
      | TwSleep \<Rightarrow> Some (s\<lparr>tm_worker := TwTest\<rparr>)
      | TwExited \<Rightarrow> None)"

text \<open>\<open>Stop\<close> is called by the destructor, when no call of \<open>After\<close> is under way and none will follow.\<close>

definition timed_Stop :: "('e, 'v) timed \<Rightarrow> ('e, 'v) timed" where
  "timed_Stop s = s\<lparr>tm_stop := True\<rparr>"

datatype ('e, 'v) timed_label =
    TmClient "('e, 'v) fclient_label"
  | TmAfter nat
  | TmAdd nat
  | TmWorker
  | TmStop
  | TmTick nat        \<comment> \<open>time passes\<close>

text \<open>The clients keep to the discipline of \<open>Future_Clients\<close>, with good results \<open>good\<close>; the result of a timer is one of them.\<close>

definition timer_good :: "'v \<Rightarrow> ('e + 'v \<Rightarrow> bool) \<Rightarrow> 'e + 'v \<Rightarrow> bool" where
  "timer_good u good r \<longleftrightarrow> r = Inr u \<or> good r"

fun timed_step :: "('e + 'v \<Rightarrow> bool) \<Rightarrow> 'v \<Rightarrow> ('e + 'v \<Rightarrow> 'e + 'v) \<Rightarrow> ('e, 'v) timed_label \<Rightarrow> ('e, 'v) timed \<Rightarrow> ('e, 'v) timed option" where
  "timed_step good u tv (TmClient l) s = map_option (\<lambda>c. s\<lparr>tm_client := c\<rparr>) (fc_step (timer_good u good) tv l (tm_client s))"
| "timed_step good u tv (TmAfter d) s = (if tm_stop s then None else Some (timed_After d s))"
| "timed_step good u tv (TmAdd k) s = (if k < length (tm_adding s) then Some (timed_AddTimer k s) else None)"
| "timed_step good u tv TmWorker s = timed_Work u tv s"
| "timed_step good u tv TmStop s = (if tm_stop s \<or> tm_adding s \<noteq> [] then None else Some (timed_Stop s))"
| "timed_step good u tv (TmTick n) s = Some (s\<lparr>tm_clock := tm_clock s + n\<rparr>)"

section \<open>Fulfilled futures keep their result\<close>

definition fulfilled :: "('e, 'v) store \<Rightarrow> state_ref \<Rightarrow> bool" where
  "fulfilled S i \<longleftrightarrow> i < length (fstates S) \<and> fs_state (fstates S ! i) \<in> {SubOnlyResult, SubDone}"

definition store_le :: "('e, 'v) store \<Rightarrow> ('e, 'v) store \<Rightarrow> bool" where
  "store_le S S' \<longleftrightarrow> length (fstates S) \<le> length (fstates S') \<and>
     (\<forall>i. fulfilled S i \<longrightarrow> fulfilled S' i \<and> fs_result (fstates S' ! i) = fs_result (fstates S ! i))"

definition out_le :: "('e, 'v) store \<Rightarrow> ('e, 'v) outcome \<Rightarrow> bool" where
  "out_le S out \<longleftrightarrow> (case out of Returned S' \<Rightarrow> store_le S S' | Threw e S' \<Rightarrow> store_le S S' | _ \<Rightarrow> True)"

lemma out_le_simps [simp]:
  "out_le S (Returned S') \<longleftrightarrow> store_le S S'" "out_le S (Threw e S') \<longleftrightarrow> store_le S S'"
  "out_le S Aborted" "out_le S NoFuel"
  by (simp_all add: out_le_def)

lemma store_le_refl [simp]: "store_le S S"
  by (simp add: store_le_def)

lemma store_le_trans: "store_le S T \<Longrightarrow> store_le T U \<Longrightarrow> store_le S U"
  by (simp add: store_le_def) 

lemma out_le_trans: "store_le S T \<Longrightarrow> out_le T out \<Longrightarrow> out_le S out"
  by (cases out) (auto intro: store_le_trans)

lemma store_le_same: "fstates S' = fstates S \<Longrightarrow> store_le S S'"
  by (simp add: store_le_def fulfilled_def)

lemma store_le_make: "MakeSharedState S = (i, S') \<Longrightarrow> store_le S S'"
  by (auto simp: MakeSharedState_def store_le_def fulfilled_def nth_append)

lemma store_le_upd:
  assumes "fulfilled S i \<Longrightarrow> fs_state (g (fstates S ! i)) \<in> {SubOnlyResult, SubDone} \<and>
      fs_result (g (fstates S ! i)) = fs_result (fstates S ! i)"
  shows "store_le S (upd_state i g S)"
proof -
  have "fulfilled (upd_state i g S) k \<and> fs_result (fstates (upd_state i g S) ! k) = fs_result (fstates S ! k)"
    if "fulfilled S k" for k
    using that assms by (cases "k = i") (auto simp: fulfilled_def upd_state_def)
  then show ?thesis by (simp add: store_le_def)
qed

lemma upd_upd: "upd_state i g (upd_state i f S) = upd_state i (g \<circ> f) S"
  by (cases "i < length (fstates S)") (simp_all add: upd_state_def list_update_beyond)

lemma ready_le:
  assumes T: "MakeSharedState S = (i, T)"
  shows "store_le S (upd_state i (fs_state_update (\<lambda>_. SubOnlyResult)) (upd_state i (fs_result_update (\<lambda>_. Some r)) T))"
proof -
  have "\<not> fulfilled T i" using T by (auto simp: MakeSharedState_def fulfilled_def)
  then have "store_le T (upd_state i (fs_state_update (\<lambda>_. SubOnlyResult) \<circ> fs_result_update (\<lambda>_. Some r)) T)"
    by (intro store_le_upd) simp
  with store_le_make [OF T] show ?thesis unfolding upd_upd by (rule store_le_trans)
qed

lemma out_le_SetResult:
  assumes "\<And>c T. out_le T (call c T)"
  shows "out_le S (state_SetResult call i r S)"
proof (cases "fulfilled S i")
  case False
  then have le: "store_le S (upd_state i g S)" for g by (intro store_le_upd) simp
  show ?thesis
    by (auto simp: state_SetResult_def Let_def upd_upd le split: subscription_state.split option.split
        intro: out_le_trans [OF le assms])
qed (auto simp: fulfilled_def state_SetResult_def Let_def)

lemma out_le_Subscribe:
  assumes call: "\<And>c T. out_le T (call c T)"
  shows "out_le S (future_Subscribe call i cb S)"
proof -
  have fin: "store_le S (upd_state i (fs_state_update (\<lambda>_. SubDone)) S)"
    "store_le S (upd_state i (fs_state_update (\<lambda>_. SubDone) \<circ> fs_callback_update (\<lambda>_. Some cb)) S)"
    by (rule store_le_upd, simp)+
  have wait: "store_le S (upd_state i (fs_state_update (\<lambda>_. SubOnlyCallback) \<circ> fs_callback_update (\<lambda>_. Some cb)) S)"
    if "fs_state (fstates S ! i) = SubStart"
    by (rule store_le_upd) (use that in \<open>simp add: fulfilled_def\<close>)
  show ?thesis
    by (auto simp: future_Subscribe_def state_PassCallback_def Let_def upd_upd wait
        split: subscription_state.split option.split intro: out_le_trans [OF fin(1) call] out_le_trans [OF fin(2) call])
qed

lemma out_le_async:
  assumes call: "\<And>c T. out_le T (call c T)"
  shows "out_le S (async_transform_callback call f p r S)"
proof -
  have ready: "store_le S (upd_state j (fs_state_update (\<lambda>_. SubOnlyResult)) (upd_state j (fs_result_update (\<lambda>_. Some x)) T))"
    if "MakeSharedState S = (j, T)" for j x T
    by (rule ready_le [OF that])
  have sub: "out_le T (case call c T of Threw e S' \<Rightarrow> Aborted | res \<Rightarrow> res)" for c T
    using call [of T c] by (cases "call c T") simp_all
  show ?thesis
    by (auto simp: async_transform_callback_def Let_def call split: sum.split async_future.split prod.split
        intro: sub out_le_trans [OF ready sub])
qed

lemma run_op_le: "out_le S (run_op tv n op S)"
proof (induction n arbitrary: op S)
  case (Suc n)
  have sub: "out_le T (case run_op tv n c T of Threw e S' \<Rightarrow> Aborted | res \<Rightarrow> res)" for c T
    using Suc.IH [of T c] by (cases "run_op tv n c T") simp_all
  have exec: "out_le S (state_Execute (run_op tv n) i cb r S)" for i cb r
    by (auto simp: state_Execute_def Suc.IH store_le_same split: option.split)
  show ?case
    by (auto simp: out_le_SetResult [OF Suc.IH] out_le_Subscribe [OF Suc.IH] out_le_async [OF Suc.IH] exec store_le_same
        transform_callback_def forward_callback_def Suc.IH sub out_le_trans [OF store_le_same Suc.IH] split: future_op.split callback.split sum.split)
qed simp

lemma run_task_le: "out_le S (run_task tv n S)"
proof (cases "ftasks S")
  case (Cons xt rest)
  let ?T = "S\<lparr>ftasks := rest\<rparr>"
  have S: "store_le S ?T" by (rule store_le_same) simp
  have sub: "out_le S (case run_op tv n c ?T of Threw e S' \<Rightarrow> Returned S' | res \<Rightarrow> res)" for c
    using out_le_trans [OF S run_op_le, of tv n c] by (cases "run_op tv n c ?T") simp_all
  show ?thesis by (auto simp: run_task_def Cons Let_def sub split: prod.split future_task.split)
qed (simp add: run_task_def)

lemma finish_le: "out_le S out \<Longrightarrow> fc_store c = S \<Longrightarrow> store_le S (fc_store (fc_finish out c))"
  by (cases out) (simp_all add: fc_finish_def)

lemma run_task_at_le: "out_le S (run_task_at tv n k S)"
  unfolding run_task_at_def by (rule out_le_trans [OF store_le_same run_task_le]) simp

lemma subscribe_le: "client_Subscribe tv f cb c = Some c' \<Longrightarrow> store_le (fc_store c) (fc_store c')"
  by (auto simp: client_Subscribe_def run_op_le split: if_splits intro!: finish_le)

lemma contract_le:
  assumes "transform_contract f S = (t, T)"
  shows "store_le S T"
proof -
  obtain T0 where T0: "MakeSharedState S = (t, T0)" and T: "T = SetExecutor (GetExecutor f S) t T0"
    using assms by (auto simp: transform_contract_def Let_def split: prod.splits)
  have "store_le T0 (SetExecutor (GetExecutor f S) t T0)" unfolding SetExecutor_def by (rule store_le_upd) (simp add: fulfilled_def)
  with store_le_make [OF T0] show ?thesis unfolding T by (rule store_le_trans)
qed

lemma transform_le: "Future_Transform tv n tr f S = (t, out) \<Longrightarrow> out_le S out"
  by (auto simp: Future_Transform_def split: prod.splits intro: out_le_trans [OF contract_le run_op_le])

lemma transform_async_le: "Future_Transform_async tv n tr f S = (t, out) \<Longrightarrow> out_le S out"
  by (auto simp: Future_Transform_async_def split: prod.splits intro: out_le_trans [OF contract_le run_op_le])

lemma async_via_le: "AsyncVia x target S = (i, S') \<Longrightarrow> store_le S S'"
proof -
  assume A: "AsyncVia x target S = (i, S')"
  obtain T where T: "MakeSharedState S = (i, T)"
    and S': "S' = SetExecutor (Some x) i (T\<lparr>ftasks := ftasks T @ [(x, TaskTarget target i)]\<rparr>)"
    using A by (auto simp: AsyncVia_def Let_def split: prod.splits)
  let ?T = "T\<lparr>ftasks := ftasks T @ [(x, TaskTarget target i)]\<rparr>"
  have "store_le ?T S'" unfolding S' SetExecutor_def by (rule store_le_upd) (simp add: fulfilled_def)
  moreover have "store_le T ?T" by (rule store_le_same) simp
  ultimately show ?thesis using store_le_make [OF T] by (blast intro: store_le_trans)
qed

text \<open>So no call of a client changes the result of a fulfilled future.\<close>

lemma client_le:
  assumes step: "fclient_step tv l c = Some c'"
  shows "store_le (fc_store c) (fc_store c')"
proof (cases l)
  case FcMakeContract
  with step show ?thesis
    by (auto simp: MakeContract_def Promise_ctor_def Promise_MakeFuture_def store_le_make split: prod.splits)
next
  case (FcCompleted v)
  with step show ?thesis by (auto simp: Future_Completed_def ready_le split: prod.splits)
next
  case (FcFailed e)
  with step show ?thesis by (auto simp: Future_Failed_def ready_le split: prod.splits)
next
  case (FcSet p r)
  with step show ?thesis
    by (auto simp: Promise_Set_def HoldState_ReleaseState_def run_op_le split: if_splits intro!: finish_le)
next
  case (FcVia f x)
  with step show ?thesis by (auto simp: Future_Via_def SetExecutor_def fulfilled_def split: if_splits intro!: store_le_upd)
next
  case (FcSubscribe f k)
  with step subscribe_le show ?thesis by simp
next
  case (FcSubscribeThrows f k e)
  with step subscribe_le show ?thesis by simp
next
  case (FcSubscribeSets f k g p)
  with step subscribe_le [of tv f "CbUserSets k g p" "c\<lparr>fc_promises := remove1 p (fc_promises c), fc_waits := (f, p) # fc_waits c\<rparr>"]
  show ?thesis by (simp split: if_splits)
next
  case (FcTransform f tr)
  with step show ?thesis by (auto split: if_splits prod.splits intro!: finish_le dest: transform_le)
next
  case (FcTransformAsync f tr j)
  with step show ?thesis by (cases j) (auto split: if_splits prod.splits intro!: finish_le dest: transform_async_le)
next
  case (FcGetResult f)
  have "store_le S (upd_state f (fs_state_update (\<lambda>_. SubDone)) S)" for S :: "('a, 'b) store"
    by (rule store_le_upd) simp
  with FcGetResult step show ?thesis
    by (auto simp: client_GetResult_def HoldState_ReleaseState_def state_GetReadyResult_def split: if_splits option.splits)
next
  case (FcAsyncVia x target)
  with step show ?thesis by (auto split: prod.splits dest: async_via_le)
next
  case (FcRunTask k)
  with step show ?thesis by (auto simp: run_task_at_le split: if_splits intro!: finish_le)
qed

section \<open>The composition is a behaviour of the clients\<close>

text \<open>The client \<open>a\<close> holds the handles of \<open>c\<close>, the promises \<open>P\<close> and the futures \<open>F\<close>.\<close>

definition fc_view :: "state_ref multiset \<Rightarrow> state_ref multiset \<Rightarrow> ('e, 'v) fclient \<Rightarrow> ('e, 'v) fclient \<Rightarrow> bool" where
  "fc_view P F c a \<longleftrightarrow>
     mset (fc_promises a) = mset (fc_promises c) + P \<and> mset (fc_futures a) = mset (fc_futures c) + F \<and>
     fc_store a = fc_store c \<and> fc_results a = fc_results c \<and> fc_waits a = fc_waits c \<and> fc_broken a = fc_broken c"

lemma view_mem:
  assumes "fc_view P F c a"
  shows "p \<in> set (fc_promises c) \<Longrightarrow> p \<in> set (fc_promises a)" and "f \<in> set (fc_futures c) \<Longrightarrow> f \<in> set (fc_futures a)"
proof -
  have "set_mset (mset (fc_promises c)) \<subseteq> set_mset (mset (fc_promises a))"
    "set_mset (mset (fc_futures c)) \<subseteq> set_mset (mset (fc_futures a))"
    using assms unfolding fc_view_def by simp_all
  then show "p \<in> set (fc_promises c) \<Longrightarrow> p \<in> set (fc_promises a)" "f \<in> set (fc_futures c) \<Longrightarrow> f \<in> set (fc_futures a)" by auto
qed

text \<open>A call of the smaller client is a call of the larger one.\<close>

lemma finish_frame: "fc_view P F c a \<Longrightarrow> fc_view P F (fc_finish out c) (fc_finish out a)"
  by (cases out) (auto simp: fc_finish_def fc_view_def)

lemma remove1_frame: "mset ys = mset xs + M \<Longrightarrow> p \<in> set xs \<Longrightarrow> mset (remove1 p ys) = mset (remove1 p xs) + M"
  by simp

lemma subscribe_frame:
  assumes v: "fc_view P F c a" and step: "client_Subscribe tv f cb c = Some c'"
  shows "\<exists>a'. client_Subscribe tv f cb a = Some a' \<and> fc_view P F c' a'"
proof -
  from step have f: "f \<in> set (fc_futures c)" by (simp add: client_Subscribe_def split: if_splits)
  have "fc_view P F (c\<lparr>fc_futures := remove1 f (fc_futures c)\<rparr>) (a\<lparr>fc_futures := remove1 f (fc_futures a)\<rparr>)"
    using v f remove1_frame [of "fc_futures a" "fc_futures c" F f] by (simp add: fc_view_def)
  moreover have "fc_store a = fc_store c" using v by (simp add: fc_view_def)
  ultimately show ?thesis using step f view_mem(2) [OF v f] by (auto simp: client_Subscribe_def intro: finish_frame)
qed

lemma client_frame:
  assumes v: "fc_view P F c a" and step: "fclient_step tv l c = Some c'"
  shows "\<exists>a'. fclient_step tv l a = Some a' \<and> fc_view P F c' a'"
proof -
  have S: "fc_store a = fc_store c" using v by (simp add: fc_view_def)
  note mem = view_mem [OF v]
  note move = remove1_frame and fin = finish_frame
  show ?thesis
  proof (cases l)
    case FcMakeContract
    with step v show ?thesis by (auto simp: MakeContract_def Promise_ctor_def Promise_MakeFuture_def fc_view_def split: prod.splits)
  next
    case (FcCompleted x)
    with step v show ?thesis by (auto simp: fc_view_def split: prod.splits)
  next
    case (FcFailed e)
    with step v show ?thesis by (auto simp: fc_view_def split: prod.splits)
  next
    case (FcSet p r)
    with step have p: "p \<in> set (fc_promises c)" by (simp split: if_splits)
    have "fc_view P F (c\<lparr>fc_promises := remove1 p (fc_promises c)\<rparr>) (a\<lparr>fc_promises := remove1 p (fc_promises a)\<rparr>)"
      using v p move [of "fc_promises a" "fc_promises c" P p] by (simp add: fc_view_def)
    with FcSet step p mem(1) [OF p] show ?thesis by (auto simp: S intro: fin split: prod.splits)
  next
    case (FcVia f x)
    with step v mem(2) [of f] show ?thesis by (auto simp: S fc_view_def split: if_splits prod.splits)
  next
    case (FcSubscribe f k)
    with step subscribe_frame [OF v] show ?thesis by simp
  next
    case (FcSubscribeThrows f k e)
    with step subscribe_frame [OF v] show ?thesis by simp
  next
    case (FcSubscribeSets f k g p)
    with step have p: "p \<in> set (fc_promises c)" by (simp split: if_splits)
    have "fc_view P F (c\<lparr>fc_promises := remove1 p (fc_promises c), fc_waits := (f, p) # fc_waits c\<rparr>)
        (a\<lparr>fc_promises := remove1 p (fc_promises a), fc_waits := (f, p) # fc_waits a\<rparr>)"
      using v p move [of "fc_promises a" "fc_promises c" P p] by (simp add: fc_view_def)
    with FcSubscribeSets step p mem(1) [OF p] show ?thesis by (auto intro: subscribe_frame)
  next
    case (FcTransform f tr)
    with step have f: "f \<in> set (fc_futures c)" by (simp split: if_splits)
    have "fc_view P F (c\<lparr>fc_futures := t # remove1 f (fc_futures c), fc_waits := (f, t) # fc_waits c\<rparr>)
        (a\<lparr>fc_futures := t # remove1 f (fc_futures a), fc_waits := (f, t) # fc_waits a\<rparr>)" for t
      using v f move [of "fc_futures a" "fc_futures c" F f] by (simp add: fc_view_def)
    with FcTransform step f mem(2) [OF f] show ?thesis by (auto simp: S intro: finish_frame split: prod.splits)
  next
    case (FcTransformAsync f tr own)
    with step have f: "f \<in> set (fc_futures c)" by (cases own) (simp_all split: if_splits)
    have rest: "mset (remove1 f (fc_futures a)) = mset (remove1 f (fc_futures c)) + F"
      using v f move [of "fc_futures a" "fc_futures c" F f] by (simp add: fc_view_def)
    show ?thesis
    proof (cases own)
      case None
      have "fc_view P F (c\<lparr>fc_futures := t # remove1 f (fc_futures c), fc_waits := (f, t) # fc_waits c\<rparr>)
          (a\<lparr>fc_futures := t # remove1 f (fc_futures a), fc_waits := (f, t) # fc_waits a\<rparr>)" for t
        using v rest by (simp add: fc_view_def)
      with None FcTransformAsync step f mem(2) [OF f] show ?thesis by (auto simp: S intro: finish_frame split: prod.splits)
    next
      case (Some j)
      with FcTransformAsync step have j: "j \<in> set (remove1 f (fc_futures c))" by (simp split: if_splits)
      then have "j \<in># mset (remove1 f (fc_futures c)) + F" by (simp del: mset_remove1)
      then have "j \<in># mset (remove1 f (fc_futures a))" unfolding rest .
      then have j': "j \<in> set (remove1 f (fc_futures a))" by (simp only: set_mset_mset)
      have "fc_view P F (c\<lparr>fc_futures := t # remove1 j (remove1 f (fc_futures c)), fc_waits := (j, t) # (f, t) # fc_waits c\<rparr>)
          (a\<lparr>fc_futures := t # remove1 j (remove1 f (fc_futures a)), fc_waits := (j, t) # (f, t) # fc_waits a\<rparr>)" for t
        using v move [OF rest j] by (simp add: fc_view_def)
      with Some FcTransformAsync step f j j' mem(2) [OF f] show ?thesis by (auto simp: S intro: finish_frame split: prod.splits)
    qed
  next
    case (FcGetResult f)
    with step have f: "f \<in> set (fc_futures c)" by (simp split: if_splits)
    note m = move [of "fc_futures a" "fc_futures c" F f]
    show ?thesis
    proof (cases "client_GetResult (Some f) (fc_store c)")
      case None
      with FcGetResult step f mem(2) [OF f] v show ?thesis by (auto simp: S fc_view_def split: if_splits)
    next
      case (Some x)
      obtain r h S' where x: "x = (r, h, S')" by (cases x)
      with Some FcGetResult step f mem(2) [OF f] v m show ?thesis by (auto simp: S fc_view_def split: if_splits)
    qed
  next
    case (FcAsyncVia x target)
    with step v show ?thesis by (auto simp: S fc_view_def split: prod.splits)
  next
    case (FcRunTask k)
    with step have k: "k < length (ftasks (fc_store c))" by (simp split: if_splits)
    with FcRunTask step v show ?thesis by (auto simp: S intro: fin)
  qed
qed

lemma disciplined_frame: "fc_view P F c a \<Longrightarrow> fc_disciplined good tv l a \<longleftrightarrow> fc_disciplined good tv l c"
  by (cases l) (auto simp: fc_view_def)

lemma step_frame:
  assumes "fc_view P F c a" and "fc_step good tv l c = Some c'"
  shows "\<exists>a'. fc_step good tv l a = Some a' \<and> fc_view P F c' a'"
  using client_frame [OF assms(1)] assms disciplined_frame [OF assms(1)] by (auto simp: fc_step_def split: if_splits)

text \<open>The promises the time keeper holds: those of timers to be added, of the queue, and those the worker has taken.\<close>

definition tm_pending :: "('e, 'v) timed \<Rightarrow> promise list" where
  "tm_pending s = (case tm_worker s of TwSet ps \<Rightarrow> ps | _ \<Rightarrow> [])"

lemma tm_pending_simps [simp]:
  "tm_pending (s\<lparr>tm_client := c\<rparr>) = tm_pending s" "tm_pending (s\<lparr>tm_stop := b\<rparr>) = tm_pending s"
  "tm_pending (s\<lparr>tm_clock := k\<rparr>) = tm_pending s"
  by (simp_all add: tm_pending_def)

definition tm_promises :: "('e, 'v) timed \<Rightarrow> promise multiset" where
  "tm_promises s = mset (map (timer_promise \<circ> snd) (tm_adding s)) + mset (map timer_promise (tm_queue s)) + mset (tm_pending s)"

definition promise_ref :: "promise \<Rightarrow> state_ref" where
  "promise_ref p = the (promise_state p)"

definition timed_related :: "('e, 'v) timed \<Rightarrow> ('e, 'v) fclient \<Rightarrow> bool" where
  "timed_related s a \<longleftrightarrow>
     fc_view (image_mset promise_ref (tm_promises s)) (mset (map fst (tm_adding s))) (tm_client s) a \<and>
     (\<forall>p \<in># tm_promises s. promise_state p \<noteq> None)"

fun timed_schedule :: "'v \<Rightarrow> ('e, 'v) timed \<Rightarrow> ('e, 'v) timed_label \<Rightarrow> ('e, 'v) fclient_label list" where
  "timed_schedule u s (TmClient l) = [l]"
| "timed_schedule u s (TmAfter d) = [FcMakeContract]"
| "timed_schedule u s TmWorker = (case tm_pending s of [] \<Rightarrow> [] | p # ps \<Rightarrow> [FcSet (promise_ref p) (Inr u)])"
| "timed_schedule u s _ = []"

lemma grab_mset:
  "TimeKeeper_GrabReadyTimers now q ps = (ps', q') \<Longrightarrow>
   mset ps' + mset (map timer_promise q') = mset ps + mset (map timer_promise q)"
  by (induction now q ps rule: TimeKeeper_GrabReadyTimers.induct) (auto split: if_splits)

lemma mset_insort_map: "mset (map f (insort_key k x xs)) = add_mset (f x) (mset (map f xs))"
  by simp

lemma adding_remove:
  assumes "k < length xs"
  shows "mset (map g xs) = add_mset (g (xs ! k)) (mset (map g (take k xs @ drop (Suc k) xs)))"
proof -
  have "image_mset g (mset xs) = image_mset g (add_mset (xs ! k) (mset (take k xs @ drop (Suc k) xs)))"
    using mset_remove_nth [OF assms] by (rule arg_cong)
  then show ?thesis by simp
qed

lemma related_same:
  "timed_related s a \<Longrightarrow> tm_promises s' = tm_promises s \<Longrightarrow> tm_adding s' = tm_adding s \<Longrightarrow> tm_client s' = tm_client s \<Longrightarrow>
   timed_related s' a"
  by (simp add: timed_related_def)

lemma related_AddTimer:
  assumes r: "timed_related s a" and k: "k < length (tm_adding s)"
  shows "tm_promises (timed_AddTimer k s) = tm_promises s" and "timed_related (timed_AddTimer k s) a"
proof -
  obtain f t where ft: "tm_adding s ! k = (f, t)" by (cases "tm_adding s ! k")
  have p: "mset (map (timer_promise \<circ> snd) (tm_adding s)) =
      add_mset (timer_promise t) (mset (map (timer_promise \<circ> snd) (take k (tm_adding s) @ drop (Suc k) (tm_adding s))))"
    using adding_remove [OF k, of "timer_promise \<circ> snd"] by (simp add: ft)
  have f: "mset (map fst (tm_adding s)) = add_mset f (mset (map fst (take k (tm_adding s) @ drop (Suc k) (tm_adding s))))"
    using adding_remove [OF k, of fst] by (simp add: ft)
  show P: "tm_promises (timed_AddTimer k s) = tm_promises s"
    unfolding tm_promises_def p by (simp add: timed_AddTimer_def ft tm_pending_def mset_insort_map)
  have "fc_view (image_mset promise_ref (tm_promises s)) (mset (map fst (tm_adding (timed_AddTimer k s)))) (tm_client (timed_AddTimer k s)) a"
    using r unfolding timed_related_def fc_view_def f by (simp add: timed_AddTimer_def ft)
  with r show "timed_related (timed_AddTimer k s) a" unfolding timed_related_def P by simp
qed

lemma related_After:
  assumes r: "timed_related s a"
  shows "\<exists>a'. fc_step good tv FcMakeContract a = Some a' \<and> timed_related (timed_After d s) a'"
proof -
  obtain i S' where m: "MakeSharedState (fc_store (tm_client s)) = (i, S')" by (cases "MakeSharedState (fc_store (tm_client s))")
  have S: "fc_store a = fc_store (tm_client s)" using r by (simp add: timed_related_def fc_view_def)
  show ?thesis using r m
    by (auto simp: fc_step_def S timed_related_def timed_After_def MakeContract_def Promise_ctor_def Promise_MakeFuture_def Let_def
        fc_view_def tm_promises_def tm_pending_def promise_ref_def)
qed

lemma related_set:
  assumes r: "timed_related s a" and w: "tm_worker s = TwSet (p # ps)" and step: "timed_Work u tv s = Some s'"
  shows "\<exists>a'. fc_step (timer_good u good) tv (FcSet (promise_ref p) (Inr u)) a = Some a' \<and> timed_related s' a'"
proof -
  let ?S = "fc_store (tm_client s)"
  have S: "fc_store a = ?S" using r by (simp add: timed_related_def fc_view_def)
  have pr: "tm_promises s = add_mset p (tm_promises (s\<lparr>tm_worker := TwSet ps\<rparr>))"
    by (simp add: tm_promises_def tm_pending_def w)
  have p: "promise_state p = Some (promise_ref p)" using r unfolding timed_related_def pr by (auto simp: promise_ref_def)
  let ?out = "run_op tv (fc_fuel ?S) (OpSetResult (promise_ref p) (Inr u)) ?S"
  have s': "s' = s\<lparr>tm_client := fc_finish ?out (tm_client s), tm_worker := TwSet ps, tm_fired := tm_fired s @ [(promise_ref p, tm_clock s)]\<rparr>"
    using step p by (auto simp: timed_Work_def w Promise_SetValue_def Promise_Set_def HoldState_ReleaseState_def)
  have mem: "promise_ref p \<in> set (fc_promises a)"
  proof -
    have "promise_ref p \<in># mset (fc_promises a)" using r unfolding timed_related_def fc_view_def pr by simp
    then show ?thesis by simp
  qed
  define a1 where "a1 = a\<lparr>fc_promises := remove1 (promise_ref p) (fc_promises a)\<rparr>"
  let ?P = "image_mset promise_ref (tm_promises s')"
  have P: "tm_promises s' = tm_promises (s\<lparr>tm_worker := TwSet ps\<rparr>)" by (simp add: s' tm_promises_def tm_pending_def)
  have "fc_view ?P (mset (map fst (tm_adding s))) (tm_client s) a1"
    using r unfolding timed_related_def fc_view_def pr P a1_def by simp
  then have "fc_view ?P (mset (map fst (tm_adding s'))) (tm_client s') (fc_finish ?out a1)"
    by (cases ?out) (auto simp: s' fc_finish_def fc_view_def)
  moreover have "fc_step (timer_good u good) tv (FcSet (promise_ref p) (Inr u)) a = Some (fc_finish ?out a1)"
    using mem by (simp add: S a1_def Promise_Set_def HoldState_ReleaseState_def fc_step_def timer_good_def)
  moreover have "\<forall>q \<in># tm_promises s'. promise_state q \<noteq> None" using r unfolding timed_related_def pr P by simp
  ultimately show ?thesis unfolding timed_related_def by blast
qed

lemma related_step:
  assumes r: "timed_related s a" and step: "timed_step good u tv l s = Some s'"
  shows "\<exists>a'. run (fc_step (timer_good u good) tv) (timed_schedule u s l) a = Some a' \<and> timed_related s' a'"
proof (cases l)
  case (TmClient m)
  with step obtain c' where c': "fc_step (timer_good u good) tv m (tm_client s) = Some c'" "s' = s\<lparr>tm_client := c'\<rparr>" by auto
  from r have "fc_view (image_mset promise_ref (tm_promises s)) (mset (map fst (tm_adding s))) (tm_client s) a"
    by (simp add: timed_related_def)
  from step_frame [OF this c'(1)] obtain a' where "fc_step (timer_good u good) tv m a = Some a'"
    "fc_view (image_mset promise_ref (tm_promises s)) (mset (map fst (tm_adding s))) c' a'" by blast
  with r show ?thesis by (simp add: TmClient c'(2) timed_related_def tm_promises_def tm_pending_def)
next
  case (TmAfter d)
  with step have s': "s' = timed_After d s" by (simp split: if_splits)
  from related_After [OF r, of "timer_good u good" tv d] show ?thesis
    unfolding s' TmAfter timed_schedule.simps run.simps by (auto simp del: fclient_step.simps split: option.splits)
next
  case (TmAdd k)
  with step related_AddTimer(2) [OF r, of k] show ?thesis by (auto split: if_splits)
next
  case TmWorker
  with step have W: "timed_Work u tv s = Some s'" by simp
  show ?thesis
  proof (cases "tm_worker s")
    case (TwGrab now)
    obtain ps q where g: "TimeKeeper_GrabReadyTimers now (tm_queue s) [] = (ps, q)" by (cases "TimeKeeper_GrabReadyTimers now (tm_queue s) []")
    with W TwGrab have s': "s' = s\<lparr>tm_queue := q, tm_worker := TwSet ps\<rparr>" by (simp add: timed_Work_def)
    have "tm_promises s' = tm_promises s" using grab_mset [OF g] by (simp add: s' tm_promises_def tm_pending_def TwGrab add.commute)
    with related_same [OF r, of s'] show ?thesis by (simp add: TmWorker tm_pending_def TwGrab s')
  next
    case (TwSet ps)
    show ?thesis
    proof (cases ps)
      case Nil
      with W TwSet related_same [OF r, of s'] show ?thesis
        by (auto simp: TmWorker timed_Work_def tm_promises_def tm_pending_def)
    next
      case (Cons p qs)
      with TwSet have w: "tm_worker s = TwSet (p # qs)" by simp
      from related_set [OF r w W, of good] show ?thesis
        by (auto simp del: fclient_step.simps simp: TmWorker tm_pending_def w)
    qed
  qed (use W related_same [OF r, of s'] in \<open>auto simp: TmWorker timed_Work_def tm_promises_def tm_pending_def\<close>)
next
  case TmStop
  with step related_same [OF r, of s'] show ?thesis
    by (auto simp: timed_Stop_def tm_promises_def tm_pending_def split: if_splits)
next
  case (TmTick n)
  with step related_same [OF r, of s'] show ?thesis by (auto simp: tm_promises_def tm_pending_def)
qed

lemma related_start: "timed_related timed_start fc_start"
  by (simp add: timed_related_def timed_start_def fc_view_def tm_promises_def tm_pending_def)

interpretation timed: stuttering_refinement "timed_step good u tv" timed_start "fc_step (timer_good u good) tv" fc_start timed_related "timed_schedule u" for good u tv
  by unfold_locales (fact related_start, fact related_step)

section \<open>The invariant of the timers\<close>

lemma set_fulfils:
  assumes "run_op tv n (OpSetResult i r) S = Returned S'" and i: "i < length (fstates S)"
  shows "fulfilled S' i \<and> fs_result (fstates S' ! i) = Some r"
proof -
  obtain m where m: "n = Suc m" using assms(1) by (cases n) auto
  let ?T = "upd_state i (fs_state_update (\<lambda>_. SubDone) \<circ> fs_result_update (\<lambda>_. Some r)) S"
  have T: "fulfilled ?T i" "fs_result (fstates ?T ! i) = Some r" using i by (simp_all add: fulfilled_def upd_state_def)
  show ?thesis
  proof (cases "fs_state (fstates S ! i)")
    case SubStart
    with assms show ?thesis by (auto simp: m state_SetResult_def Let_def fulfilled_def upd_state_def)
  next
    case SubOnlyCallback
    with assms(1) obtain cb where "run_op tv m (OpExecute i cb r) ?T = Returned S'"
      by (auto simp: m state_SetResult_def Let_def upd_upd split: option.splits)
    with run_op_le [of ?T tv m "OpExecute i cb r"] have "store_le ?T S'" by simp
    with T show ?thesis unfolding store_le_def by metis
  qed (use assms m in \<open>auto simp: state_SetResult_def Let_def\<close>)
qed

text \<open>The deadlines: the queue is sorted, a promise is taken only when its deadline has passed.\<close>

definition tm_deadlines :: "('e, 'v) timed \<Rightarrow> bool" where
  "tm_deadlines s \<longleftrightarrow>
     sorted (map deadline (tm_queue s)) \<and> (\<forall>n. tm_worker s = TwGrab n \<longrightarrow> n \<le> tm_clock s) \<and>
     (\<forall>(f, t) \<in> set (tm_adding s). promise_ref (timer_promise t) = f \<and> (f, deadline t) \<in> set (tm_made s)) \<and>
     (\<forall>t \<in> set (tm_queue s). (promise_ref (timer_promise t), deadline t) \<in> set (tm_made s)) \<and>
     (\<forall>p \<in> set (tm_pending s). \<exists>d \<le> tm_clock s. (promise_ref p, d) \<in> set (tm_made s))"

text \<open>What has fired, and that a timer is either still held by the time keeper or has fired, once.\<close>

definition tm_once :: "'v \<Rightarrow> ('e, 'v) timed \<Rightarrow> bool" where
  "tm_once u s \<longleftrightarrow>
     (\<forall>(i, t) \<in> set (tm_fired s). t \<le> tm_clock s \<and> (\<exists>d \<le> t. (i, d) \<in> set (tm_made s)) \<and>
        fulfilled (fc_store (tm_client s)) i \<and> fs_result (fstates (fc_store (tm_client s)) ! i) = Some (Inr u)) \<and>
     mset (map fst (tm_made s)) = image_mset promise_ref (tm_promises s) + mset (map fst (tm_fired s)) \<and>
     distinct (map fst (tm_made s)) \<and> (\<forall>i \<in> fst ` set (tm_made s). i < length (fstates (fc_store (tm_client s))))"

definition tm_typed :: "('e + 'v \<Rightarrow> bool) \<Rightarrow> 'v \<Rightarrow> ('e + 'v \<Rightarrow> 'e + 'v) \<Rightarrow> ('e, 'v) timed \<Rightarrow> bool" where
  "tm_typed good u tv s \<longleftrightarrow> (\<exists>a. fc_typed (timer_good u good) tv a \<and> timed_related s a)"

lemma fc_typed_run:
  assumes "fc_typed (timer_good u good) tv a" "run (fc_step (timer_good u good) tv) ls a = Some a'"
  shows "fc_typed (timer_good u good) tv a'"
  using assms by (induction ls arbitrary: a) (auto split: option.splits dest: fc_step_typed)

lemma tm_typed_step:
  assumes "tm_typed good u tv s" "timed_step good u tv l s = Some s'"
  shows "tm_typed good u tv s'"
proof -
  obtain a where a: "fc_typed (timer_good u good) tv a" "timed_related s a" using assms(1) by (auto simp: tm_typed_def)
  from related_step [OF a(2) assms(2)] obtain a' where "run (fc_step (timer_good u good) tv) (timed_schedule u s l) a = Some a'" "timed_related s' a'" by blast
  with fc_typed_run [OF a(1)] show ?thesis by (auto simp: tm_typed_def)
qed

lemma tm_typedD: "tm_typed good u tv s \<Longrightarrow> \<not> fc_broken (tm_client s)"
  by (auto simp: tm_typed_def timed_related_def fc_view_def fc_typed_def)

lemma tm_typed_promise:
  assumes "tm_typed good u tv s" "p \<in># tm_promises s"
  shows "promise_state p = Some (promise_ref p)" and "promise_ref p \<in> unfulfilled (fc_store (tm_client s))"
proof -
  obtain a where a: "fc_typed (timer_good u good) tv a" "timed_related s a" using assms(1) by (auto simp: tm_typed_def)
  then obtain K where ok: "store_ok (timer_good u good) tv (set (fc_waits a)) (mset (fc_promises a)) (fc_futures a) K (fc_store (tm_client s))"
    and P: "mset (fc_promises a) = mset (fc_promises (tm_client s)) + image_mset promise_ref (tm_promises s)"
    by (auto simp: fc_typed_def timed_related_def fc_view_def)
  have "promise_ref p \<in># mset (fc_promises a)" using assms(2) unfolding P by simp
  from store_ok_promise [OF ok this] show "promise_ref p \<in> unfulfilled (fc_store (tm_client s))" by (simp add: unfulfilled_def)
  show "promise_state p = Some (promise_ref p)" using a(2) assms(2) by (auto simp: timed_related_def promise_ref_def)
qed

text \<open>A step keeps the deadlines.\<close>

lemma tm_deadlines_After:
  assumes "tm_deadlines s"
  shows "tm_deadlines (timed_After d s)"
  using assms
  by (auto simp: tm_deadlines_def timed_After_def MakeContract_def Promise_ctor_def Promise_MakeFuture_def Let_def
      promise_ref_def tm_pending_def split: prod.splits)

lemma tm_deadlines_Add:
  assumes d: "tm_deadlines s" and k: "k < length (tm_adding s)"
  shows "tm_deadlines (timed_AddTimer k s)"
proof -
  obtain f t where ft: "tm_adding s ! k = (f, t)" by (cases "tm_adding s ! k")
  have "(f, t) \<in> set (tm_adding s)" using k ft nth_mem by fastforce
  with d have "(promise_ref (timer_promise t), deadline t) \<in> set (tm_made s)" by (auto simp: tm_deadlines_def)
  moreover have "set (take k (tm_adding s) @ drop (Suc k) (tm_adding s)) \<subseteq> set (tm_adding s)"
    by (auto dest: in_set_takeD in_set_dropD)
  ultimately show ?thesis using d
    unfolding tm_deadlines_def by (simp add: timed_AddTimer_def ft sorted_insort_key set_insort_key tm_pending_def) blast
qed

lemma tm_deadlines_Work:
  assumes d: "tm_deadlines s" and step: "timed_Work u tv s = Some s'"
  shows "tm_deadlines s'"
proof (cases "tm_worker s")
  case (TwGrab now)
  let ?due = "filter (\<lambda>t. deadline t \<le> now) (tm_queue s)"
  have s': "s' = s\<lparr>tm_queue := filter (\<lambda>t. now < deadline t) (tm_queue s), tm_worker := TwSet (map timer_promise ?due)\<rparr>"
    using step d grab_eq [of "tm_queue s" now "[]"] by (simp add: timed_Work_def TwGrab tm_deadlines_def)
  have "now \<le> tm_clock s" using d by (simp add: tm_deadlines_def TwGrab)
  then have "\<exists>x \<le> tm_clock s. (promise_ref (timer_promise t), x) \<in> set (tm_made s)" if "t \<in> set ?due" for t
    using d that by (intro exI [of _ "deadline t"]) (auto simp: tm_deadlines_def)
  with d show ?thesis by (auto simp: s' tm_deadlines_def tm_pending_def TwGrab sorted_filter)
next
  case (TwSet ps)
  with step d show ?thesis
    by (cases ps) (auto simp: timed_Work_def tm_deadlines_def tm_pending_def split: prod.splits)
qed (use step d in \<open>auto simp: timed_Work_def tm_deadlines_def tm_pending_def split: if_splits\<close>)

lemma tm_deadlines_step:
  assumes d: "tm_deadlines s" and step: "timed_step good u tv l s = Some s'"
  shows "tm_deadlines s'"
proof (cases l)
  case (TmTick n)
  with step have s': "s' = s\<lparr>tm_clock := tm_clock s + n\<rparr>" by simp
  have "\<forall>p \<in> set (tm_pending s). \<exists>d \<le> tm_clock s + n. (promise_ref p, d) \<in> set (tm_made s)"
    using d unfolding tm_deadlines_def by (meson trans_le_add1)
  with d show ?thesis by (auto simp: s' tm_deadlines_def)
next
  case (TmClient m)
  with step d show ?thesis by (auto simp: tm_deadlines_def)
next
  case TmStop
  with step d show ?thesis by (auto simp: tm_deadlines_def timed_Stop_def split: if_splits)
qed (use step tm_deadlines_After [OF d] tm_deadlines_Add [OF d] tm_deadlines_Work [OF d] in \<open>auto split: if_splits\<close>)

text \<open>A step that sets no promise and makes no timer.\<close>

lemma tm_once_same:
  assumes o: "tm_once u s" and same: "tm_fired s' = tm_fired s" "tm_made s' = tm_made s" "tm_promises s' = tm_promises s"
    and "tm_clock s \<le> tm_clock s'" and le: "store_le (fc_store (tm_client s)) (fc_store (tm_client s'))"
  shows "tm_once u s'"
proof -
  let ?S = "fc_store (tm_client s)" and ?T = "fc_store (tm_client s')"
  have "t \<le> tm_clock s' \<and> (\<exists>d \<le> t. (i, d) \<in> set (tm_made s')) \<and> fulfilled ?T i \<and> fs_result (fstates ?T ! i) = Some (Inr u)"
    if "(i, t) \<in> set (tm_fired s)" for i t
  proof -
    from o that have old: "t \<le> tm_clock s" "\<exists>d \<le> t. (i, d) \<in> set (tm_made s)" "fulfilled ?S i" "fs_result (fstates ?S ! i) = Some (Inr u)"
      by (auto simp: tm_once_def)
    then show ?thesis using le assms(5) same(2) unfolding store_le_def by auto
  qed
  moreover have "i < length (fstates ?T)" if "i \<in> fst ` set (tm_made s)" for i
    using o that le by (fastforce simp: tm_once_def store_le_def)
  ultimately show ?thesis using o unfolding tm_once_def same by blast
qed

lemma tm_once_After:
  assumes o: "tm_once u s"
  shows "tm_once u (timed_After d s)"
proof -
  let ?S = "fc_store (tm_client s)" and ?i = "length (fstates (fc_store (tm_client s)))" and ?T = "snd (MakeSharedState (fc_store (tm_client s)))"
  let ?dl = "tm_clock s + d"
  let ?p = "\<lparr>promise_state = Some ?i, future_extracted = True\<rparr>"
  let ?s = "s\<lparr>tm_client := (tm_client s)\<lparr>fc_store := ?T\<rparr>\<rparr>"
  have le: "store_le ?S ?T" by (rule store_le_make) (simp add: MakeSharedState_def)
  have s': "timed_After d s = ?s\<lparr>tm_adding := tm_adding s @ [(?i, \<lparr>deadline = ?dl, timer_promise = ?p\<rparr>)], tm_made := tm_made s @ [(?i, ?dl)]\<rparr>"
    by (simp add: timed_After_def MakeContract_def Promise_ctor_def Promise_MakeFuture_def MakeSharedState_def
        TimeKeeper_ToDeadLine_def Let_def)
  have "tm_once u ?s" by (rule tm_once_same [OF o]) (simp_all add: le tm_promises_def)
  moreover have "?i \<notin> fst ` set (tm_made s)" using o by (fastforce simp: tm_once_def)
  moreover have "length (fstates ?T) = Suc ?i" by (simp add: MakeSharedState_def)
  ultimately show ?thesis unfolding s'
    by (fastforce simp: tm_once_def tm_promises_def tm_pending_def promise_ref_def)
qed

lemma tm_once_set:
  assumes o: "tm_once u s" and d: "tm_deadlines s" and ty: "tm_typed good u tv s"
    and w: "tm_worker s = TwSet (p # ps)" and step: "timed_Work u tv s = Some s'"
  shows "tm_once u s'"
proof -
  let ?S = "fc_store (tm_client s)" and ?i = "promise_ref p"
  let ?t = "s\<lparr>tm_worker := TwSet ps\<rparr>"
  have pr: "tm_promises s = add_mset p (tm_promises ?t)" by (simp add: tm_promises_def tm_pending_def w)
  then have p: "promise_state p = Some ?i" and i: "?i < length (fstates ?S)"
    using tm_typed_promise [OF ty, of p] by (auto simp: unfulfilled_def)
  define out where "out = run_op tv (fc_fuel ?S) (OpSetResult ?i (Inr u)) ?S"
  have s': "s' = ?t\<lparr>tm_client := fc_finish out (tm_client s), tm_fired := tm_fired s @ [(?i, tm_clock s)]\<rparr>"
    using step p by (auto simp: out_def timed_Work_def w Promise_SetValue_def Promise_Set_def HoldState_ReleaseState_def)
  have "\<not> fc_broken (tm_client s')"
    using tm_typedD [OF tm_typed_step [OF ty, of TmWorker s']] step by simp
  then obtain T where T: "out = Returned T" by (cases out) (auto simp: s' fc_finish_def)
  have le: "store_le ?S T" using run_op_le [of ?S tv "fc_fuel ?S" "OpSetResult ?i (Inr u)"] T by (simp add: out_def)
  have ful: "fulfilled T ?i \<and> fs_result (fstates T ! ?i) = Some (Inr u)" using T i by (intro set_fulfils) (simp_all add: out_def)
  have dl: "\<exists>x \<le> tm_clock s. (?i, x) \<in> set (tm_made s)" using d by (simp add: tm_deadlines_def tm_pending_def w)
  let ?m = "s\<lparr>tm_client := (tm_client s)\<lparr>fc_store := T\<rparr>\<rparr>"
  have "tm_once u ?m" by (rule tm_once_same [OF o]) (simp_all add: le tm_promises_def)
  moreover have "tm_promises ?m = add_mset p (tm_promises s')" unfolding s' using pr by (simp add: tm_promises_def tm_pending_def w)
  ultimately show ?thesis using ful dl by (auto simp: tm_once_def s' T fc_finish_def)
qed

lemma tm_once_step:
  assumes o: "tm_once u s" and d: "tm_deadlines s" and ty: "tm_typed good u tv s" and step: "timed_step good u tv l s = Some s'"
  shows "tm_once u s'"
proof (cases l)
  case (TmClient m)
  with step show ?thesis
    by (auto intro!: tm_once_same [OF o] client_le [OF fc_stepD [THEN conjunct1]] simp: tm_promises_def)
next
  case (TmAfter d)
  with step tm_once_After [OF o] show ?thesis by (auto split: if_splits)
next
  case (TmAdd k)
  with step have k: "k < length (tm_adding s)" and s': "s' = timed_AddTimer k s" by (auto split: if_splits)
  obtain a where a: "timed_related s a" using ty by (auto simp: tm_typed_def)
  show ?thesis unfolding s'
    by (rule tm_once_same [OF o _ _ related_AddTimer(1) [OF a k]]) (auto simp: timed_AddTimer_def split: prod.split)
next
  case TmWorker
  show ?thesis
  proof (cases "tm_pending s")
    case Nil
    obtain a where a: "timed_related s a" using ty by (auto simp: tm_typed_def)
    have "tm_fired s' = tm_fired s \<and> tm_made s' = tm_made s \<and> tm_clock s' = tm_clock s \<and> tm_client s' = tm_client s \<and>
        tm_promises s' = tm_promises s"
    proof (cases "tm_worker s")
      case (TwGrab now)
      obtain ps q where g: "TimeKeeper_GrabReadyTimers now (tm_queue s) [] = (ps, q)" by (cases "TimeKeeper_GrabReadyTimers now (tm_queue s) []")
      show ?thesis using grab_mset [OF g] step TwGrab
        by (auto simp: TmWorker timed_Work_def g tm_promises_def tm_pending_def add.commute)
    next
      case (TwSet ps)
      with Nil step show ?thesis by (auto simp: TmWorker timed_Work_def tm_promises_def tm_pending_def)
    qed (use step in \<open>auto simp: TmWorker timed_Work_def tm_promises_def tm_pending_def\<close>)
    then show ?thesis by (intro tm_once_same [OF o]) simp_all
  next
    case (Cons p ps)
    then have "tm_worker s = TwSet (p # ps)" by (auto simp: tm_pending_def split: tm_worker_pc.splits)
    with tm_once_set [OF o d ty] step show ?thesis by (simp add: TmWorker)
  qed
next
  case TmStop
  with step show ?thesis by (auto intro!: tm_once_same [OF o] simp: tm_promises_def timed_Stop_def split: if_splits)
next
  case (TmTick n)
  with step show ?thesis by (auto intro!: tm_once_same [OF o] simp: tm_promises_def)
qed

definition timed_inv :: "('e + 'v \<Rightarrow> bool) \<Rightarrow> ('e + 'v \<Rightarrow> 'e + 'v) \<Rightarrow> 'v \<Rightarrow> ('e, 'v) timed \<Rightarrow> bool" where
  "timed_inv good tv u s \<longleftrightarrow> tm_typed good u tv s \<and> tm_deadlines s \<and> tm_once u s"

lemma timed_inv_start: "timed_inv good tv u timed_start"
proof -
  have "tm_typed good u tv timed_start" unfolding tm_typed_def using fclients.inv_start related_start by blast
  then show ?thesis
    by (simp add: timed_inv_def tm_deadlines_def tm_once_def timed_start_def tm_pending_def tm_promises_def)
qed

lemma timed_inv_step: "timed_inv good tv u s \<Longrightarrow> timed_step good u tv l s = Some s' \<Longrightarrow> timed_inv good tv u s'"
  unfolding timed_inv_def using tm_typed_step tm_deadlines_step tm_once_step by metis

interpretation timed_inv: invariant_system "timed_step good u tv" timed_start "timed_inv good tv u" for good u tv
  by unfold_locales (fact timed_inv_start, fact timed_inv_step)

text \<open>The worker ends only after \<open>Stop\<close>, and no timer is added after it.\<close>

definition tm_stopped :: "('e, 'v) timed \<Rightarrow> bool" where
  "tm_stopped s \<longleftrightarrow> (tm_worker s = TwExited \<longrightarrow> tm_stop s) \<and> (tm_stop s \<longrightarrow> tm_adding s = [])"

lemma tm_stopped_step: "tm_stopped s \<Longrightarrow> timed_step good u tv l s = Some s' \<Longrightarrow> tm_stopped s'"
  by (cases l) (auto simp: tm_stopped_def timed_After_def timed_AddTimer_def timed_Stop_def timed_Work_def Let_def
      split: if_splits option.splits prod.splits tm_worker_pc.splits list.splits)

interpretation timed_stopped: invariant_system "timed_step good u tv" timed_start tm_stopped for good u tv
  by unfold_locales (simp add: tm_stopped_def timed_start_def, fact tm_stopped_step)

section \<open>Rounds of the worker\<close>

fun worker_runs :: "'v \<Rightarrow> ('e + 'v \<Rightarrow> 'e + 'v) \<Rightarrow> nat \<Rightarrow> ('e, 'v) timed \<Rightarrow> ('e, 'v) timed \<Rightarrow> bool" where
  "worker_runs u tv 0 s s' \<longleftrightarrow> s' = s"
| "worker_runs u tv (Suc n) s s' \<longleftrightarrow> (\<exists>t. timed_Work u tv s = Some t \<and> worker_runs u tv n t s')"

lemma run_worker: "run (timed_step good u tv) (replicate n TmWorker) s = Some s' \<longleftrightarrow> worker_runs u tv n s s'"
  by (induction n arbitrary: s) (auto split: option.splits)

text \<open>What the steps of the worker leave alone.\<close>

definition same_calls :: "('e, 'v) timed \<Rightarrow> ('e, 'v) timed \<Rightarrow> bool" where
  "same_calls s s' \<longleftrightarrow> tm_adding s' = tm_adding s \<and> tm_made s' = tm_made s \<and> tm_clock s' = tm_clock s \<and> tm_stop s' = tm_stop s"

lemma same_calls_trans: "same_calls s t \<Longrightarrow> same_calls t r \<Longrightarrow> same_calls s r"
  by (simp add: same_calls_def)

lemma worker_runs_0: "worker_runs u tv 0 s s"
  by simp

lemma worker_runs_Suc: "timed_Work u tv s = Some t \<Longrightarrow> worker_runs u tv n t s' \<Longrightarrow> worker_runs u tv (Suc n) s s'"
  by auto

lemma worker_runs_trans: "worker_runs u tv n s t \<Longrightarrow> worker_runs u tv m t s' \<Longrightarrow> worker_runs u tv (n + m) s s'"
  by (induction n arbitrary: s) auto

declare worker_runs.simps [simp del]

lemma worker_sets:
  assumes "tm_worker s = TwSet ps"
  shows "\<exists>s'. worker_runs u tv (Suc (length ps)) s s' \<and> tm_worker s' = TwSleep \<and> tm_queue s' = tm_queue s \<and> same_calls s s'"
  using assms
proof (induction ps arbitrary: s)
  case Nil
  then have "timed_Work u tv s = Some (s\<lparr>tm_worker := TwSleep\<rparr>)" by (simp add: timed_Work_def)
  from worker_runs_Suc [OF this worker_runs_0] show ?case by (auto simp: same_calls_def)
next
  case (Cons p ps)
  then obtain t where t: "timed_Work u tv s = Some t" "tm_worker t = TwSet ps" "tm_queue t = tm_queue s" "same_calls s t"
    by (cases "Promise_SetValue tv (fc_fuel (fc_store (tm_client s))) u p (fc_store (tm_client s))")
      (simp add: timed_Work_def same_calls_def)
  from Cons.IH [OF t(2)] obtain s' where s': "worker_runs u tv (Suc (length ps)) t s'" "tm_worker s' = TwSleep"
    "tm_queue s' = tm_queue t" "same_calls t s'" by blast
  from worker_runs_Suc [OF t(1) s'(1)] s' t same_calls_trans [OF t(4) s'(4)] show ?case by auto
qed

lemma worker_grabs:
  assumes w: "tm_worker s = TwGrab now" and sorted: "sorted (map deadline (tm_queue s))"
  shows "\<exists>n s'. worker_runs u tv n s s' \<and> n + length (tm_queue s') = length (tm_queue s) + 2 \<and> tm_worker s' = TwSleep \<and>
    tm_queue s' = filter (\<lambda>t. now < deadline t) (tm_queue s) \<and> same_calls s s'"
proof -
  let ?due = "filter (\<lambda>t. deadline t \<le> now) (tm_queue s)" and ?rest = "filter (\<lambda>t. now < deadline t) (tm_queue s)"
  let ?t = "s\<lparr>tm_queue := ?rest, tm_worker := TwSet (map timer_promise ?due)\<rparr>"
  have t: "timed_Work u tv s = Some ?t" using grab_eq [OF sorted, of now "[]"] by (simp add: timed_Work_def w)
  obtain s' where s': "worker_runs u tv (Suc (length ?due)) ?t s'" "tm_worker s' = TwSleep" "tm_queue s' = ?rest" "same_calls ?t s'"
    using worker_sets [of ?t "map timer_promise ?due" u tv] by auto
  have "length ?due + length ?rest = length (tm_queue s)"
    using sum_length_filter_compl [of "\<lambda>t. deadline t \<le> now" "tm_queue s"] by (simp add: not_le)
  with worker_runs_Suc [OF t s'(1)] s' show ?thesis
    by (intro exI [of _ "Suc (Suc (length ?due))"] exI [of _ s']) (auto simp: same_calls_def)
qed

text \<open>From everywhere in its loop the worker soon reads the clock.\<close>

lemma worker_to_poll:
  assumes sorted: "sorted (map deadline (tm_queue s))" and "tm_worker s \<noteq> TwExited" "\<not> tm_stop s"
  shows "\<exists>n s'. worker_runs u tv n s s' \<and> n + length (tm_queue s') \<le> length (tm_queue s) + length (tm_pending s) + 4 \<and>
    tm_worker s' = TwPoll \<and> set (tm_queue s') \<subseteq> set (tm_queue s) \<and> sorted (map deadline (tm_queue s')) \<and> same_calls s s'"
proof -
  have test: "\<exists>s'. worker_runs u tv 1 t s' \<and> tm_worker s' = TwPoll \<and> tm_queue s' = tm_queue t \<and> same_calls t s'"
    if "tm_worker t = TwTest" "\<not> tm_stop t" for t
  proof -
    have "timed_Work u tv t = Some (t\<lparr>tm_worker := TwPoll\<rparr>)" using that by (simp add: timed_Work_def)
    from worker_runs_Suc [OF this worker_runs_0] show ?thesis by (auto simp: same_calls_def)
  qed
  have sleep: "\<exists>s'. worker_runs u tv 2 t s' \<and> tm_worker s' = TwPoll \<and> tm_queue s' = tm_queue t \<and> same_calls t s'"
    if t: "tm_worker t = TwSleep" "\<not> tm_stop t" for t
  proof -
    have 1: "timed_Work u tv t = Some (t\<lparr>tm_worker := TwTest\<rparr>)" using t by (simp add: timed_Work_def)
    obtain s' where "worker_runs u tv 1 (t\<lparr>tm_worker := TwTest\<rparr>) s'" "tm_worker s' = TwPoll" "tm_queue s' = tm_queue t"
      "same_calls (t\<lparr>tm_worker := TwTest\<rparr>) s'" using test [of "t\<lparr>tm_worker := TwTest\<rparr>"] t by auto
    with worker_runs_Suc [OF 1, of 1] show ?thesis by (auto simp: same_calls_def numeral_2_eq_2)
  qed
  have after: ?thesis if n: "worker_runs u tv n s t" "n + length (tm_queue t) \<le> length (tm_queue s) + length (tm_pending s) + 2"
    and t: "tm_worker t = TwSleep" "set (tm_queue t) \<subseteq> set (tm_queue s)" "sorted (map deadline (tm_queue t))" "same_calls s t" for n t
  proof -
    obtain s' where s': "worker_runs u tv 2 t s'" "tm_worker s' = TwPoll" "tm_queue s' = tm_queue t" "same_calls t s'"
      using sleep [OF t(1)] t(4) assms(3) by (auto simp: same_calls_def)
    from worker_runs_trans [OF n(1) s'(1)] s' n t same_calls_trans [OF t(4) s'(4)] show ?thesis
      by (intro exI [of _ "n + 2"] exI [of _ s']) auto
  qed
  show ?thesis
  proof (cases "tm_worker s")
    case TwTest
    with test [OF this assms(3)] sorted show ?thesis by fastforce
  next
    case TwPoll
    with worker_runs_0 [of u tv s] sorted show ?thesis by (fastforce simp: same_calls_def)
  next
    case (TwGrab now)
    from worker_grabs [OF this sorted] obtain n t where "worker_runs u tv n s t" "n + length (tm_queue t) = length (tm_queue s) + 2"
      "tm_worker t = TwSleep" "tm_queue t = filter (\<lambda>x. now < deadline x) (tm_queue s)" "same_calls s t" by blast
    with sorted show ?thesis by (intro after [of n t]) (auto simp: sorted_filter)
  next
    case (TwSet ps)
    from worker_sets [OF this] obtain t where "worker_runs u tv (Suc (length ps)) s t" "tm_worker t = TwSleep"
      "tm_queue t = tm_queue s" "same_calls s t" by blast
    with sorted TwSet show ?thesis by (intro after [of "Suc (length ps)" t]) (auto simp: tm_pending_def)
  next
    case TwSleep
    with sorted worker_runs_0 [of u tv s] show ?thesis by (intro after [of 0 s]) (auto simp: same_calls_def)
  qed (use assms in simp)
qed

text \<open>And then ends its round: nothing in the queue is due any more.\<close>

lemma worker_round:
  assumes sorted: "sorted (map deadline (tm_queue s))" and "tm_worker s \<noteq> TwExited" "\<not> tm_stop s"
  shows "\<exists>n s'. n \<le> length (tm_queue s) + length (tm_pending s) + 7 \<and> worker_runs u tv n s s' \<and> tm_worker s' = TwSleep \<and>
    (\<forall>t \<in> set (tm_queue s'). tm_clock s < deadline t) \<and> same_calls s s'"
proof -
  obtain n t where t: "worker_runs u tv n s t" "n + length (tm_queue t) \<le> length (tm_queue s) + length (tm_pending s) + 4"
    "tm_worker t = TwPoll" "sorted (map deadline (tm_queue t))" "same_calls s t"
    using worker_to_poll [OF assms] by blast
  let ?t = "t\<lparr>tm_worker := TwGrab (tm_clock t)\<rparr>"
  have g: "timed_Work u tv t = Some ?t" using t(3) by (simp add: timed_Work_def)
  obtain m s' where m: "worker_runs u tv m ?t s'" "m + length (tm_queue s') = length (tm_queue t) + 2" "tm_worker s' = TwSleep"
    "tm_queue s' = filter (\<lambda>x. tm_clock t < deadline x) (tm_queue t)" "same_calls ?t s'"
    using worker_grabs [of ?t "tm_clock t" u tv] t(4) by auto
  from worker_runs_trans [OF t(1) worker_runs_Suc [OF g m(1)]] t m show ?thesis
    by (intro exI [of _ "n + Suc m"] exI [of _ s']) (auto simp: same_calls_def)
qed

lemma distinct_parts:
  assumes "mset xs = M + mset ys" "distinct xs"
  shows "distinct ys"
proof -
  obtain zs where "mset zs = M" using ex_mset by blast
  with assms(1) have "mset xs = mset (zs @ ys)" by simp
  with assms(2) have "distinct (zs @ ys)" using mset_eq_imp_distinct_iff by blast
  then show ?thesis by simp
qed

text \<open>A timer that was due in the queue is, after the round, not held by the time keeper any more.\<close>

lemma not_waiting_fired:
  assumes inv: "timed_inv good tv u s" and inv': "timed_inv good tv u s'" and c: "same_calls s s'" and w: "tm_worker s' = TwSleep"
    and q: "\<forall>t \<in> set (tm_queue s'). tm_clock s < deadline t" and t: "t \<in> set (tm_queue s)" "deadline t \<le> tm_clock s"
  shows "promise_ref (timer_promise t) \<in> fst ` set (tm_fired s')"
proof (rule ccontr)
  let ?i = "promise_ref (timer_promise t)"
  assume "?i \<notin> fst ` set (tm_fired s')"
  moreover have made: "(?i, deadline t) \<in> set (tm_made s)" using inv t by (auto simp: timed_inv_def tm_deadlines_def)
  then have "?i \<in># mset (map fst (tm_made s'))" using c by (force simp: same_calls_def)
  moreover have "mset (map fst (tm_made s')) = image_mset promise_ref (tm_promises s') + mset (map fst (tm_fired s'))"
    using inv' by (simp add: timed_inv_def tm_once_def)
  ultimately have "?i \<in># image_mset promise_ref (tm_promises s')" by (metis set_map set_mset_mset union_iff)
  then consider (adding) f x where "(f, x) \<in> set (tm_adding s)" "promise_ref (timer_promise x) = ?i"
    | (queue) x where "x \<in> set (tm_queue s')" "promise_ref (timer_promise x) = ?i"
    using c by (auto simp: tm_promises_def tm_pending_def w same_calls_def)
  then show False
  proof cases
    case adding
    let ?as = "map (promise_ref \<circ> timer_promise \<circ> snd) (tm_adding s)" and ?qs = "map (promise_ref \<circ> timer_promise) (tm_queue s)"
    have "mset (map fst (tm_made s)) = (image_mset promise_ref (mset (tm_pending s)) + mset (map fst (tm_fired s))) + mset (?as @ ?qs)"
      and "distinct (map fst (tm_made s))"
      using inv by (simp_all add: timed_inv_def tm_once_def tm_promises_def multiset.map_comp comp_assoc)
    then have "distinct (?as @ ?qs)" by (rule distinct_parts)
    moreover have "?i \<in> set ?as" using adding by (force simp: image_iff)
    moreover have "?i \<in> set ?qs" using t by simp
    ultimately show False by auto
  next
    case queue
    then have "(?i, deadline x) \<in> set (tm_made s)" using inv' c by (auto simp: timed_inv_def tm_deadlines_def same_calls_def)
    moreover have "distinct (map fst (tm_made s))" using inv by (simp add: timed_inv_def tm_once_def)
    ultimately have "deadline x = deadline t" using made by (metis eq_key_imp_eq_value)
    with q queue(1) t(2) show False by auto
  qed
qed

section \<open>Properties\<close>

text \<open>C27: Timers and clients of futures together, for clients that keep to the discipline of \<open>Future_Clients\<close> (asynchronous transformations
  only of values, throwing callbacks only behind an executor, no promise that waits for itself, user callbacks do nothing with the library but
  fulfil a promise that they own) and any interleaving of calls of \<open>After\<close>, of the worker, of the clients of the futures and of the
  executors: nothing aborts and no exception leaves a call; a promise of a timer is set at most once, never before its deadline, and its
  future then has the value of \<open>Unit\<close>; every timer is either still held by the time keeper, its future unfulfilled, or has fired; and
  when no promise is left anywhere and the executors have run their tasks, every future a client holds is ready.\<close>

theorem Timers_fire_once_not_early:
  assumes "reachable (timed_step good u tv) timed_start s"
  shows "\<not> fc_broken (tm_client s) \<and> distinct (map fst (tm_fired s)) \<and>
    (\<forall>(i, t) \<in> set (tm_fired s). (\<exists>d \<le> t. (i, d) \<in> set (tm_made s)) \<and>
       fulfilled (fc_store (tm_client s)) i \<and> fs_result (fstates (fc_store (tm_client s)) ! i) = Some (Inr u)) \<and>
    mset (map fst (tm_made s)) = image_mset promise_ref (tm_promises s) + mset (map fst (tm_fired s)) \<and>
    promise_ref ` set_mset (tm_promises s) \<subseteq> unfulfilled (fc_store (tm_client s)) \<and>
    (tm_promises s = {#} \<and> fc_promises (tm_client s) = [] \<and> ftasks (fc_store (tm_client s)) = [] \<longrightarrow>
       (\<forall>f \<in> set (fc_futures (tm_client s)). client_IsReady (Some f) (fc_store (tm_client s)) = Some True))"
proof -
  have "timed_inv good tv u s" using assms by (rule timed_inv.inv_reachable)
  then have ty: "tm_typed good u tv s" and o: "tm_once u s" by (simp_all add: timed_inv_def)
  have mset: "mset (map fst (tm_made s)) = image_mset promise_ref (tm_promises s) + mset (map fst (tm_fired s))"
    and "distinct (map fst (tm_made s))" using o by (simp_all add: tm_once_def)
  then have "distinct (map fst (tm_fired s))" by (rule distinct_parts)
  moreover have "client_IsReady (Some f) (fc_store (tm_client s)) = Some True"
    if idle: "tm_promises s = {#}" "fc_promises (tm_client s) = []" "ftasks (fc_store (tm_client s)) = []" and f: "f \<in> set (fc_futures (tm_client s))" for f
  proof -
    obtain a where a: "fc_typed (timer_good u good) tv a" "fc_view (image_mset promise_ref (tm_promises s)) (mset (map fst (tm_adding s))) (tm_client s) a"
      using ty by (auto simp: tm_typed_def timed_related_def)
    then obtain K where ok: "store_ok (timer_good u good) tv (set (fc_waits a)) {#} (fc_futures a) K (fc_store (tm_client s))"
      and W: "acyclic (set (fc_waits a))" using idle by (auto simp: fc_typed_def fc_view_def waits_ok_def)
    from store_ok_ready [OF ok idle(3) _ W] view_mem(2) [OF a(2) f] show ?thesis by simp
  qed
  moreover have "(\<exists>d \<le> t. (i, d) \<in> set (tm_made s)) \<and> fulfilled (fc_store (tm_client s)) i \<and>
      fs_result (fstates (fc_store (tm_client s)) ! i) = Some (Inr u)" if "(i, t) \<in> set (tm_fired s)" for i t
    using o that by (auto simp: tm_once_def)
  moreover have "promise_ref ` set_mset (tm_promises s) \<subseteq> unfulfilled (fc_store (tm_client s))" using tm_typed_promise(2) [OF ty] by blast
  ultimately show ?thesis using mset tm_typedD [OF ty] by blast
qed

definition tm_example :: "(nat, nat) timed_label list" where
  "tm_example = [TmAfter 5, TmAdd 0, TmClient (FcTransform 0 (\<lambda>r. Inr (map_sum id Suc r))), TmTick 4,
     TmWorker, TmWorker, TmWorker, TmWorker, TmTick 2, TmWorker]"

lemmas tm_run_simps = timed_start_def fc_start_def timed_After_def timed_AddTimer_def timed_Work_def TimeKeeper_ToDeadLine_def
  MakeContract_def Promise_ctor_def Promise_MakeFuture_def MakeSharedState_def SetExecutor_def GetExecutor_def upd_state_def
  Future_Transform_def transform_contract_def fc_fuel_def Let_def future_Subscribe_def state_PassCallback_def fc_finish_def
  Promise_SetValue_def Promise_Set_def HoldState_ReleaseState_def state_SetResult_def state_Execute_def transform_callback_def
  fc_step_def timer_good_def numeral_eq_Suc tm_promises_def tm_pending_def promise_ref_def

text \<open>A timer of five units whose future is transformed; the worker polls once at four, and is about to test the flag at six.\<close>

lemma tm_example_runs:
  "\<exists>s. run (timed_step (\<lambda>_. True) 0 (\<lambda>r. r)) tm_example timed_start = Some s \<and> map deadline (tm_queue s) = [5] \<and> tm_clock s = 6 \<and>
     \<not> tm_stop s \<and> map (promise_ref \<circ> timer_promise) (tm_queue s) = [0]"
  by (simp add: tm_example_def tm_run_simps)

lemma tm_example_fires:
  "\<exists>s. run (timed_step (\<lambda>_. True) 0 (\<lambda>r. r)) (tm_example @ replicate 4 TmWorker) timed_start = Some s \<and> tm_fired s = [(0, 6)] \<and>
     tm_promises s = {#} \<and> fc_promises (tm_client s) = [] \<and> ftasks (fc_store (tm_client s)) = [] \<and> fc_futures (tm_client s) = [1]"
  by (simp add: tm_example_def tm_run_simps)

theorem Timers_fire_once_not_early_witness:
  "\<exists>s. run (timed_step (\<lambda>_. True) 0 (\<lambda>r. r)) (tm_example @ replicate 4 TmWorker) timed_start = Some s \<and>
     fs_result (fstates (fc_store (tm_client s)) ! 0) = Some (Inr 0) \<and> (\<exists>d \<le> 6. (0, d) \<in> set (tm_made s)) \<and>
     client_IsReady (Some 1) (fc_store (tm_client s)) = Some True"
proof -
  obtain s where s: "run (timed_step (\<lambda>_. True) 0 (\<lambda>r. r)) (tm_example @ replicate 4 TmWorker) timed_start = Some s" "tm_fired s = [(0, 6)]"
    "tm_promises s = {#}" "fc_promises (tm_client s) = []" "ftasks (fc_store (tm_client s)) = []" "fc_futures (tm_client s) = [1]"
    using tm_example_fires by blast
  from Timers_fire_once_not_early [OF run_reachable [OF s(1)]] s show ?thesis by simp
qed

text \<open>C28: A due timer fires in the next round of the worker, whatever the clients of C27 have done and wherever the worker is: as long as
  \<open>Stop\<close> has not been called, at most seven steps of the worker and one for every timer it holds lead to a state in which every timer
  of the queue whose deadline had passed has fired and its future has a result.\<close>

theorem Timers_due_fire_in_next_round:
  assumes "reachable (timed_step good u tv) timed_start s" and "\<not> tm_stop s"
  shows "\<exists>n s'. n \<le> length (tm_queue s) + length (tm_pending s) + 7 \<and> run (timed_step good u tv) (replicate n TmWorker) s = Some s' \<and>
    (\<forall>t \<in> set (tm_queue s). deadline t \<le> tm_clock s \<longrightarrow>
       promise_ref (timer_promise t) \<in> fst ` set (tm_fired s') \<and>
       fs_result (fstates (fc_store (tm_client s')) ! promise_ref (timer_promise t)) = Some (Inr u))"
proof -
  have inv: "timed_inv good tv u s" using assms(1) by (rule timed_inv.inv_reachable)
  have "tm_stopped s" using assms(1) by (rule timed_stopped.inv_reachable)
  then have ne: "tm_worker s \<noteq> TwExited" using assms(2) by (auto simp: tm_stopped_def)
  have "sorted (map deadline (tm_queue s))" using inv by (simp add: timed_inv_def tm_deadlines_def)
  from worker_round [OF this ne assms(2), of u tv] obtain n s' where n: "n \<le> length (tm_queue s) + length (tm_pending s) + 7" and r: "run (timed_step good u tv) (replicate n TmWorker) s = Some s'"
    and w: "tm_worker s' = TwSleep" and q: "\<forall>t \<in> set (tm_queue s'). tm_clock s < deadline t" and c: "same_calls s s'"
    unfolding run_worker by blast
  have inv': "timed_inv good tv u s'" by (rule timed_inv.inv_reachable [OF reachable_run [OF assms(1) r]])
  have "promise_ref (timer_promise t) \<in> fst ` set (tm_fired s')" if t: "t \<in> set (tm_queue s)" "deadline t \<le> tm_clock s" for t
    by (rule not_waiting_fired [OF inv inv' c w q t])
  moreover have "fs_result (fstates (fc_store (tm_client s')) ! i) = Some (Inr u)" if "i \<in> fst ` set (tm_fired s')" for i
  proof -
    obtain w where "(i, w) \<in> set (tm_fired s')" using \<open>i \<in> fst ` set (tm_fired s')\<close> by auto
    then show ?thesis using inv' by (auto simp: timed_inv_def tm_once_def)
  qed
  ultimately show ?thesis using n r by blast
qed

theorem Timers_due_fire_in_next_round_witness:
  "\<exists>s n s'. run (timed_step (\<lambda>_. True) 0 (\<lambda>r. r)) tm_example timed_start = Some s \<and> n \<le> length (tm_queue s) + length (tm_pending s) + 7 \<and>
     run (timed_step (\<lambda>_. True) 0 (\<lambda>r. r)) (replicate n TmWorker) s = Some s' \<and> 0 \<in> fst ` set (tm_fired s')"
proof -
  obtain s where s: "run (timed_step (\<lambda>_. True) 0 (\<lambda>r. r)) tm_example timed_start = Some s" "map deadline (tm_queue s) = [5]" "tm_clock s = 6"
    "\<not> tm_stop s" "map (promise_ref \<circ> timer_promise) (tm_queue s) = [0]" using tm_example_runs by (elim exE conjE)
  obtain t where t: "tm_queue s = [t]" "deadline t = 5" "promise_ref (timer_promise t) = 0" using s(2,5) by auto
  note round = Timers_due_fire_in_next_round [OF run_reachable [OF s(1)] s(4)]
  from round obtain n s' where
    "n \<le> length (tm_queue s) + length (tm_pending s) + 7 \<and> run (timed_step (\<lambda>_. True) 0 (\<lambda>r. r)) (replicate n TmWorker) s = Some s' \<and>
     (\<forall>t \<in> set (tm_queue s). deadline t \<le> tm_clock s \<longrightarrow>
       promise_ref (timer_promise t) \<in> fst ` set (tm_fired s') \<and>
       fs_result (fstates (fc_store (tm_client s')) ! promise_ref (timer_promise t)) = Some (Inr 0))" by (elim exE)
  then have "n \<le> length (tm_queue s) + length (tm_pending s) + 7" "run (timed_step (\<lambda>_. True) 0 (\<lambda>r. r)) (replicate n TmWorker) s = Some s'"
    "\<forall>t \<in> set (tm_queue s). deadline t \<le> tm_clock s \<longrightarrow> promise_ref (timer_promise t) \<in> fst ` set (tm_fired s')" by simp_all
  moreover from this(3) t s(3) have "0 \<in> fst ` set (tm_fired s')" by simp
  ultimately show ?thesis using s(1) by blast
qed

text \<open>Timers that are in the queue when the worker ends never fire: whatever happens later, their futures stay unfulfilled.\<close>

theorem Timers_left_at_Stop_never_fire:
  assumes "reachable (timed_step good u tv) timed_start s" and "tm_worker s = TwExited" and "run (timed_step good u tv) ls s = Some s'"
  shows "tm_queue s' = tm_queue s \<and> (\<forall>t \<in> set (tm_queue s). promise_ref (timer_promise t) \<in> unfulfilled (fc_store (tm_client s')))"
proof -
  have st: "tm_stopped s" using assms(1) by (rule timed_stopped.inv_reachable)
  have one: "tm_worker r' = TwExited \<and> tm_queue r' = tm_queue r" if "tm_worker r = TwExited" "tm_stopped r" "timed_step good u tv l r = Some r'" for r l r'
    using that by (cases l) (auto simp: tm_stopped_def timed_After_def timed_Stop_def timed_Work_def split: if_splits)
  have "tm_queue s' = tm_queue s"
    using assms(3,2) st
  proof (induction ls arbitrary: s)
    case (Cons l ls)
    then obtain r where "timed_step good u tv l s = Some r" "run (timed_step good u tv) ls r = Some s'" by (auto split: option.splits)
    with Cons one [of s l r] tm_stopped_step [of s good u tv l r] show ?case by simp
  qed simp
  moreover have "timed_inv good tv u s'" by (rule timed_inv.inv_reachable [OF reachable_run [OF assms(1,3)]])
  then have "promise_ref (timer_promise t) \<in> unfulfilled (fc_store (tm_client s'))" if "t \<in> set (tm_queue s')" for t
    using that by (intro tm_typed_promise(2)) (auto simp: timed_inv_def tm_promises_def)
  ultimately show ?thesis by auto
qed

end
