(* ===== verification/Fibers.thy ===== *)
theory Fibers
  imports Prelude
begin

text \<open>
  The cooperative fiber runtime of \<^verbatim>\<open>tinyfibers/echo/tinyfibers/runtime\<close>: the scheduler, the pool
  of stacks, sleeping, wait queues, parking lots, join handles and fiber futures. Everything
  runs in one thread; control alternates between the loop of \<open>io_context\<close> and one fiber.

  The routine of a fiber is the environment's choice: while a fiber runs, a label says which
  call it makes next. \<open>asio::io_context\<close> is represented by what the code hands to it: the
  posted functions in order (each is the lambda of \<open>Schedule\<close> for a fiber) and the timers. A
  label says which posted function or expired timer the loop runs next, so no order is
  assumed except where a property says so. A failed assertion, a panic and the access of a
  deleted fiber or handle set \<open>rt_aborted\<close>.
\<close>

section \<open>State\<close>

type_synonym fid = nat
type_synonym handle_id = nat
type_synonym stack_id = nat

datatype fiber_state = Starting | Runnable | RunningState | Suspended | Terminated

text \<open>What the call in which a fiber was suspended does when the fiber runs again: \<open>Join\<close>
  clears the handle, \<open>Future::Get\<close> reads the result.\<close>

datatype after_switch = ReturnsAtOnce | ClearsHandle handle_id | ReadsFuture nat

record fiber =
  f_state :: fiber_state
  f_stack :: stack_id
  f_watcher :: "handle_id option"
  f_after :: after_switch

record parking_lot =
  waitee :: "fid option"

record join_handle =
  jh_fiber :: "fid option"
  jh_completed :: bool
  jh_lot :: parking_lot

text \<open>A \<open>wheels::Result\<close>: an error or a value.\<close>

type_synonym fiber_result = "nat + nat"

record fiber_future =
  ff_result :: "fiber_result option"
  ff_lot :: parking_lot

record runtime =
  rt_fibers :: "fid \<Rightarrow> fiber option"
  rt_next_id :: nat
  io_posted :: "fid list"
  io_timers :: "(nat \<times> fid) list"
  rt_running :: "fid option"
  rt_clock :: nat
  rt_waits :: "nat \<Rightarrow> fid list"
  rt_handles :: "handle_id \<Rightarrow> join_handle option"
  rt_next_handle :: nat
  rt_futures :: "nat \<Rightarrow> fiber_future"
  stack_pool :: "stack_id list"
  next_stack :: nat
  rt_aborted :: bool

definition rt_abort :: "runtime \<Rightarrow> runtime" where
  "rt_abort s = s\<lparr>rt_aborted := True\<rparr>"

section \<open>Stacks\<close>

text \<open>The pool is a vector used as a stack: its last element is taken first.\<close>

definition StackAllocator_AllocateNewStack :: "runtime \<Rightarrow> stack_id \<times> runtime" where
  "StackAllocator_AllocateNewStack s = (next_stack s, s\<lparr>next_stack := Suc (next_stack s)\<rparr>)"

definition StackAllocator_TakeFromPool :: "runtime \<Rightarrow> stack_id \<times> runtime" where
  "StackAllocator_TakeFromPool s = (last (stack_pool s), s\<lparr>stack_pool := butlast (stack_pool s)\<rparr>)"

definition StackAllocator_Allocate :: "runtime \<Rightarrow> stack_id \<times> runtime" where
  "StackAllocator_Allocate s =
     (if stack_pool s \<noteq> [] then StackAllocator_TakeFromPool s else StackAllocator_AllocateNewStack s)"

definition StackAllocator_Release :: "stack_id \<Rightarrow> runtime \<Rightarrow> runtime" where
  "StackAllocator_Release st s = s\<lparr>stack_pool := stack_pool s @ [st]\<rparr>"

section \<open>Scheduler\<close>

definition Fiber_SetState :: "fid \<Rightarrow> fiber_state \<Rightarrow> runtime \<Rightarrow> runtime" where
  "Fiber_SetState f st s =
     (case rt_fibers s f of
        None \<Rightarrow> rt_abort s
      | Some fb \<Rightarrow> s\<lparr>rt_fibers := (rt_fibers s)(f \<mapsto> fb\<lparr>f_state := st\<rparr>)\<rparr>)"

definition Fiber_SetWatcher :: "fid \<Rightarrow> handle_id option \<Rightarrow> runtime \<Rightarrow> runtime" where
  "Fiber_SetWatcher f w s =
     (case rt_fibers s f of
        None \<Rightarrow> rt_abort s
      | Some fb \<Rightarrow> s\<lparr>rt_fibers := (rt_fibers s)(f \<mapsto> fb\<lparr>f_watcher := w\<rparr>)\<rparr>)"

definition Scheduler_Schedule :: "fid \<Rightarrow> runtime \<Rightarrow> runtime" where
  "Scheduler_Schedule f s = s\<lparr>io_posted := io_posted s @ [f]\<rparr>"

definition Scheduler_Resume :: "fid \<Rightarrow> runtime \<Rightarrow> runtime" where
  "Scheduler_Resume f s =
     (case rt_fibers s f of
        None \<Rightarrow> rt_abort s
      | Some fb \<Rightarrow>
          (if f_state fb \<noteq> Suspended then rt_abort s
           else Scheduler_Schedule f (Fiber_SetState f Runnable s)))"

definition Scheduler_CreateFiber :: "runtime \<Rightarrow> fid \<times> runtime" where
  "Scheduler_CreateFiber s =
     (let (st, s1) = StackAllocator_Allocate s; f = rt_next_id s1
      in (f, s1\<lparr>rt_next_id := Suc f,
               rt_fibers := (rt_fibers s1)(f \<mapsto> \<lparr>f_state = Starting, f_stack = st, f_watcher = None,
                                                 f_after = ReturnsAtOnce\<rparr>)\<rparr>))"

definition Scheduler_Spawn :: "runtime \<Rightarrow> fid \<times> runtime" where
  "Scheduler_Spawn s = (let (newbie, s1) = Scheduler_CreateFiber s in (newbie, Scheduler_Schedule newbie s1))"

section \<open>Parking lots, join handles and the end of a fiber\<close>

text \<open>\<open>Wake\<close> of the lot that holds \<open>w\<close>; the lot keeps its \<open>waitee_\<close>.\<close>

definition ParkingLot_Wake :: "parking_lot \<Rightarrow> runtime \<Rightarrow> runtime" where
  "ParkingLot_Wake lot s = (case waitee lot of None \<Rightarrow> s | Some f \<Rightarrow> Scheduler_Resume f s)"

definition JoinHandle_OnCompleted :: "handle_id \<Rightarrow> runtime \<Rightarrow> runtime" where
  "JoinHandle_OnCompleted h s =
     (case rt_handles s h of
        None \<Rightarrow> rt_abort s
      | Some jh \<Rightarrow>
          ParkingLot_Wake (jh_lot jh) (s\<lparr>rt_handles := (rt_handles s)(h \<mapsto> jh\<lparr>jh_completed := True\<rparr>)\<rparr>))"

text \<open>\<open>delete fiber\<close> runs the destructor, which tells the watcher.\<close>

definition Fiber_dtor :: "fid \<Rightarrow> fiber \<Rightarrow> runtime \<Rightarrow> runtime" where
  "Fiber_dtor f fb s =
     (let s1 = s\<lparr>rt_fibers := (rt_fibers s)(f := None)\<rparr>
      in case f_watcher fb of None \<Rightarrow> s1 | Some h \<Rightarrow> JoinHandle_OnCompleted h s1)"

definition Scheduler_Destroy :: "fid \<Rightarrow> runtime \<Rightarrow> runtime" where
  "Scheduler_Destroy f s =
     (case rt_fibers s f of
        None \<Rightarrow> rt_abort s
      | Some fb \<Rightarrow> Fiber_dtor f fb (StackAllocator_Release (f_stack fb) s))"

definition Scheduler_Reschedule :: "fid \<Rightarrow> runtime \<Rightarrow> runtime" where
  "Scheduler_Reschedule f s =
     (case rt_fibers s f of
        None \<Rightarrow> rt_abort s
      | Some fb \<Rightarrow>
          (case f_state fb of
             Runnable \<Rightarrow> Scheduler_Schedule f s
           | Suspended \<Rightarrow> s
           | Terminated \<Rightarrow> Scheduler_Destroy f s
           | _ \<Rightarrow> rt_abort s))"

text \<open>The fiber gives control back: \<open>Step\<close> returns, then the posted lambda calls \<open>Reschedule\<close>.\<close>

definition Scheduler_SwitchToScheduler :: "fid \<Rightarrow> runtime \<Rightarrow> runtime" where
  "Scheduler_SwitchToScheduler f s = Scheduler_Reschedule f (s\<lparr>rt_running := None\<rparr>)"

text \<open>What the suspended call does first when the fiber runs again.\<close>

definition finish_call :: "fid \<Rightarrow> fiber \<Rightarrow> runtime \<Rightarrow> runtime" where
  "finish_call f fb s =
     (let s1 = s\<lparr>rt_fibers := (rt_fibers s)(f \<mapsto> fb\<lparr>f_after := ReturnsAtOnce\<rparr>)\<rparr>
      in case f_after fb of
           ReturnsAtOnce \<Rightarrow> s1
         | ReadsFuture u \<Rightarrow> (if ff_result (rt_futures s u) = None then rt_abort s1 else s1)
         | ClearsHandle h \<Rightarrow>
             (case rt_handles s h of
                None \<Rightarrow> rt_abort s1
              | Some jh \<Rightarrow> s1\<lparr>rt_handles := (rt_handles s)(h \<mapsto> jh\<lparr>jh_fiber := None\<rparr>)\<rparr>))"

text \<open>\<open>Step\<close> up to the switch into the fiber.\<close>

definition Scheduler_Step :: "fid \<Rightarrow> runtime \<Rightarrow> runtime" where
  "Scheduler_Step f s =
     (case rt_fibers s f of
        None \<Rightarrow> rt_abort s
      | Some fb \<Rightarrow> finish_call f (fb\<lparr>f_state := RunningState\<rparr>) (s\<lparr>rt_running := Some f\<rparr>))"

section \<open>System calls of the running fiber\<close>

definition with_current :: "(fid \<Rightarrow> runtime \<Rightarrow> runtime) \<Rightarrow> runtime \<Rightarrow> runtime" where
  "with_current k s = (case rt_running s of None \<Rightarrow> rt_abort s | Some f \<Rightarrow> k f s)"

definition Scheduler_Yield :: "runtime \<Rightarrow> runtime" where
  "Scheduler_Yield = with_current (\<lambda>caller s. Scheduler_SwitchToScheduler caller (Fiber_SetState caller Runnable s))"

definition Scheduler_Suspend :: "runtime \<Rightarrow> runtime" where
  "Scheduler_Suspend = with_current (\<lambda>caller s. Scheduler_SwitchToScheduler caller (Fiber_SetState caller Suspended s))"

definition Scheduler_Terminate :: "runtime \<Rightarrow> runtime" where
  "Scheduler_Terminate = with_current (\<lambda>caller s. Scheduler_SwitchToScheduler caller (Fiber_SetState caller Terminated s))"

definition Scheduler_SleepFor :: "nat \<Rightarrow> runtime \<Rightarrow> runtime" where
  "Scheduler_SleepFor delay = with_current (\<lambda>current s.
     Scheduler_Suspend (s\<lparr>io_timers := io_timers s @ [(rt_clock s + delay, current)]\<rparr>))"

text \<open>\<open>SleepFor\<close> in the copy of the sleep task: the timer, whose deadline counts from its construction, is made before the
  running fiber is looked up.\<close>

definition Sleep_Scheduler_SleepFor :: "nat \<Rightarrow> runtime \<Rightarrow> runtime" where
  "Sleep_Scheduler_SleepFor delay s =
     (let timer = rt_clock s + delay
      in with_current (\<lambda>current_fiber s. Scheduler_Suspend (s\<lparr>io_timers := io_timers s @ [(timer, current_fiber)]\<rparr>)) s)"

lemma Sleep_Scheduler_SleepFor_same: "Sleep_Scheduler_SleepFor = Scheduler_SleepFor"
  by (intro ext) (simp add: Sleep_Scheduler_SleepFor_def Scheduler_SleepFor_def with_current_def Let_def split: option.split)

definition set_after :: "fid \<Rightarrow> after_switch \<Rightarrow> runtime \<Rightarrow> runtime" where
  "set_after f a s =
     (case rt_fibers s f of
        None \<Rightarrow> rt_abort s
      | Some fb \<Rightarrow> s\<lparr>rt_fibers := (rt_fibers s)(f \<mapsto> fb\<lparr>f_after := a\<rparr>)\<rparr>)"

text \<open>\<open>Park\<close> of a lot; \<open>put\<close> stores the lot in the object it belongs to, \<open>after\<close> is what that object does when \<open>Park\<close> returns.\<close>

definition ParkingLot_Park :: "(parking_lot \<Rightarrow> runtime \<Rightarrow> runtime) \<Rightarrow> after_switch \<Rightarrow> runtime \<Rightarrow> runtime" where
  "ParkingLot_Park put after = with_current (\<lambda>me s.
     Scheduler_Suspend (set_after me after (put \<lparr>waitee = Some me\<rparr> s)))"

definition JoinHandle_ctor :: "fid \<Rightarrow> runtime \<Rightarrow> runtime" where
  "JoinHandle_ctor f s =
     (let h = rt_next_handle s
      in Fiber_SetWatcher f (Some h)
           (s\<lparr>rt_next_handle := Suc h,
              rt_handles := (rt_handles s)(h \<mapsto> \<lparr>jh_fiber = Some f, jh_completed = False,
                                                jh_lot = \<lparr>waitee = None\<rparr>\<rparr>)\<rparr>))"

text \<open>\<open>Spawn\<close> of \<^verbatim>\<open>api.cpp\<close>: a fiber with a handle.\<close>

definition api_Spawn :: "runtime \<Rightarrow> runtime" where
  "api_Spawn s = (let (f, s1) = Scheduler_Spawn s in JoinHandle_ctor f s1)"

definition JoinHandle_Join :: "handle_id \<Rightarrow> runtime \<Rightarrow> runtime" where
  "JoinHandle_Join h s =
     (case rt_handles s h of
        None \<Rightarrow> rt_abort s
      | Some jh \<Rightarrow>
         (if jh_fiber jh = None then rt_abort s
          else if \<not> jh_completed jh then
            ParkingLot_Park (\<lambda>lot s. s\<lparr>rt_handles := (rt_handles s)(h \<mapsto> jh\<lparr>jh_lot := lot\<rparr>)\<rparr>) (ClearsHandle h) s
          else s\<lparr>rt_handles := (rt_handles s)(h \<mapsto> jh\<lparr>jh_fiber := None\<rparr>)\<rparr>))"

definition JoinHandle_Detach :: "handle_id \<Rightarrow> runtime \<Rightarrow> runtime" where
  "JoinHandle_Detach h s =
     (case rt_handles s h of
        None \<Rightarrow> rt_abort s
      | Some jh \<Rightarrow>
          (case jh_fiber jh of
             None \<Rightarrow> rt_abort s
           | Some f \<Rightarrow>
               Fiber_SetWatcher f None
                 (s\<lparr>rt_handles := (rt_handles s)(h \<mapsto> jh\<lparr>jh_fiber := None\<rparr>)\<rparr>)))"

text \<open>The move constructor: the new handle has a lot of its own.\<close>

definition JoinHandle_move :: "handle_id \<Rightarrow> runtime \<Rightarrow> runtime" where
  "JoinHandle_move h s =
     (case rt_handles s h of
        None \<Rightarrow> rt_abort s
      | Some that \<Rightarrow>
          (let h' = rt_next_handle s;
               s1 = s\<lparr>rt_next_handle := Suc h',
                      rt_handles := (rt_handles s)(h \<mapsto> that\<lparr>jh_fiber := None\<rparr>,
                         h' \<mapsto> \<lparr>jh_fiber = jh_fiber that, jh_completed = jh_completed that,
                                jh_lot = \<lparr>waitee = None\<rparr>\<rparr>)\<rparr>
           in if \<not> jh_completed that then
                (case jh_fiber that of None \<Rightarrow> rt_abort s1 | Some f \<Rightarrow> Fiber_SetWatcher f (Some h') s1)
              else s1))"

definition JoinHandle_dtor :: "handle_id \<Rightarrow> runtime \<Rightarrow> runtime" where
  "JoinHandle_dtor h s =
     (case rt_handles s h of
        None \<Rightarrow> rt_abort s
      | Some jh \<Rightarrow> (if jh_fiber jh \<noteq> None then rt_abort s else s\<lparr>rt_handles := (rt_handles s)(h := None)\<rparr>))"

definition WaitQueue_Park :: "nat \<Rightarrow> runtime \<Rightarrow> runtime" where
  "WaitQueue_Park q = with_current (\<lambda>caller s.
     Scheduler_Suspend (s\<lparr>rt_waits := (rt_waits s)(q := rt_waits s q @ [caller])\<rparr>))"

definition WaitQueue_WakeOne :: "nat \<Rightarrow> runtime \<Rightarrow> runtime" where
  "WaitQueue_WakeOne q s =
     (case rt_waits s q of
        [] \<Rightarrow> s
      | f # rest \<Rightarrow> Scheduler_Resume f (s\<lparr>rt_waits := (rt_waits s)(q := rest)\<rparr>))"

text \<open>The loop of \<open>WakeAll\<close>; every iteration takes a fiber off the queue.\<close>

primrec wake_all_loop :: "fid list \<Rightarrow> nat \<Rightarrow> runtime \<Rightarrow> runtime" where
  "wake_all_loop [] q s = s"
| "wake_all_loop (f # fs) q s =
     wake_all_loop fs q (Scheduler_Resume f (s\<lparr>rt_waits := (rt_waits s)(q := fs)\<rparr>))"

definition WaitQueue_WakeAll :: "nat \<Rightarrow> runtime \<Rightarrow> runtime" where
  "WaitQueue_WakeAll q s = wake_all_loop (rt_waits s q) q s"

definition FiberFuture_Get :: "nat \<Rightarrow> runtime \<Rightarrow> runtime" where
  "FiberFuture_Get u =
     ParkingLot_Park (\<lambda>lot s. s\<lparr>rt_futures := (rt_futures s)(u := (rt_futures s u)\<lparr>ff_lot := lot\<rparr>)\<rparr>) (ReadsFuture u)"

definition FiberFuture_Set :: "nat \<Rightarrow> fiber_result \<Rightarrow> runtime \<Rightarrow> runtime" where
  "FiberFuture_Set u r s =
     ParkingLot_Wake (ff_lot (rt_futures s u))
       (s\<lparr>rt_futures := (rt_futures s)(u := (rt_futures s u)\<lparr>ff_result := Some r\<rparr>)\<rparr>)"

definition FiberFuture_SetValue :: "nat \<Rightarrow> nat \<Rightarrow> runtime \<Rightarrow> runtime" where
  "FiberFuture_SetValue u v = FiberFuture_Set u (Inr v)"

definition FiberFuture_SetError :: "nat \<Rightarrow> nat \<Rightarrow> runtime \<Rightarrow> runtime" where
  "FiberFuture_SetError u e = FiberFuture_Set u (Inl e)"

definition WaitQueue_dtor :: "nat \<Rightarrow> runtime \<Rightarrow> runtime" where
  "WaitQueue_dtor q s = (if rt_waits s q \<noteq> [] then rt_abort s else s)"

text \<open>The end of the trampoline: the routine returned or let an exception escape.\<close>

definition Fiber_Trampoline :: "bool \<Rightarrow> runtime \<Rightarrow> runtime" where
  "Fiber_Trampoline threw s = (if threw then rt_abort s else Scheduler_Terminate s)"

section \<open>The system\<close>

datatype fiber_label =
    IoPosted nat            \<comment> \<open>the loop runs the posted function at that position\<close>
  | IoTimer nat             \<comment> \<open>the loop runs the handler of an expired timer\<close>
  | IoCompletes nat nat     \<comment> \<open>a handler of the loop fulfils a future\<close>
  | IoFails nat nat
  | Tick
  | ActSpawn | ActYield | ActSleepFor nat | ActReturn | ActThrow
  | ActJoin handle_id | ActDetach handle_id | ActMove handle_id | ActDrop handle_id
  | ActPark nat | ActWakeOne nat | ActWakeAll nat | ActDestroyQueue nat
  | ActGet nat | ActSetValue nat nat | ActSetError nat nat

definition rt_start :: "runtime" where
  "rt_start = snd (Scheduler_Spawn
     \<lparr>rt_fibers = (\<lambda>_. None), rt_next_id = 0, io_posted = [], io_timers = [], rt_running = None,
      rt_clock = 0, rt_waits = (\<lambda>_. []), rt_handles = (\<lambda>_. None), rt_next_handle = 0,
      rt_futures = (\<lambda>_. \<lparr>ff_result = None, ff_lot = \<lparr>waitee = None\<rparr>\<rparr>), stack_pool = [], next_stack = 0,
      rt_aborted = False\<rparr>)"

text \<open>What the running fiber does, by label.\<close>

fun fiber_act :: "fiber_label \<Rightarrow> runtime \<Rightarrow> runtime option" where
  "fiber_act ActSpawn s = Some (api_Spawn s)"
| "fiber_act ActYield s = Some (Scheduler_Yield s)"
| "fiber_act (ActSleepFor d) s = Some (Scheduler_SleepFor d s)"
| "fiber_act ActReturn s = Some (Fiber_Trampoline False s)"
| "fiber_act ActThrow s = Some (Fiber_Trampoline True s)"
| "fiber_act (ActJoin h) s = Some (JoinHandle_Join h s)"
| "fiber_act (ActDetach h) s = Some (JoinHandle_Detach h s)"
| "fiber_act (ActMove h) s = Some (JoinHandle_move h s)"
| "fiber_act (ActDrop h) s = Some (JoinHandle_dtor h s)"
| "fiber_act (ActPark q) s = Some (WaitQueue_Park q s)"
| "fiber_act (ActWakeOne q) s = Some (WaitQueue_WakeOne q s)"
| "fiber_act (ActWakeAll q) s = Some (WaitQueue_WakeAll q s)"
| "fiber_act (ActDestroyQueue q) s = Some (WaitQueue_dtor q s)"
| "fiber_act (ActGet u) s = Some (FiberFuture_Get u s)"
| "fiber_act (ActSetValue u v) s = Some (FiberFuture_SetValue u v s)"
| "fiber_act (ActSetError u e) s = Some (FiberFuture_SetError u e s)"
| "fiber_act _ s = None"

text \<open>What the loop of \<open>io_context\<close> does, by label.\<close>

fun loop_act :: "fiber_label \<Rightarrow> runtime \<Rightarrow> runtime option" where
  "loop_act (IoPosted k) s =
     (if k < length (io_posted s)
      then Some (Scheduler_Step (io_posted s ! k)
             (s\<lparr>io_posted := take k (io_posted s) @ drop (Suc k) (io_posted s)\<rparr>))
      else None)"
| "loop_act (IoTimer k) s =
     (if k < length (io_timers s) \<and> fst (io_timers s ! k) \<le> rt_clock s
      then Some (Scheduler_Resume (snd (io_timers s ! k))
             (s\<lparr>io_timers := take k (io_timers s) @ drop (Suc k) (io_timers s)\<rparr>))
      else None)"
| "loop_act (IoCompletes u v) s = Some (FiberFuture_SetValue u v s)"
| "loop_act (IoFails u e) s = Some (FiberFuture_SetError u e s)"
| "loop_act Tick s = Some (s\<lparr>rt_clock := Suc (rt_clock s)\<rparr>)"
| "loop_act _ s = None"

definition fiber_step :: "fiber_label \<Rightarrow> runtime \<Rightarrow> runtime option" where
  "fiber_step l s =
     (if rt_aborted s then None
      else case rt_running s of None \<Rightarrow> loop_act l s | Some _ \<Rightarrow> fiber_act l s)"

text \<open>The discipline the interfaces ask of their clients: a handle is joined or detached once, by
  one fiber, and dropped after that; a future is set once and read once; a wait queue is
  destroyed when nobody waits; no exception leaves the routine of a fiber. Detaching a handle
  whose fiber has completed, and reading a future that has been set, are left out here.\<close>

fun client_allowed :: "fiber_label \<Rightarrow> runtime \<Rightarrow> bool" where
  "client_allowed (ActJoin h) s \<longleftrightarrow>
     (case rt_handles s h of None \<Rightarrow> False | Some jh \<Rightarrow> jh_fiber jh \<noteq> None \<and> waitee (jh_lot jh) = None)"
| "client_allowed (ActDetach h) s \<longleftrightarrow>
     (case rt_handles s h of None \<Rightarrow> False
      | Some jh \<Rightarrow> jh_fiber jh \<noteq> None \<and> waitee (jh_lot jh) = None \<and> \<not> jh_completed jh)"
| "client_allowed (ActMove h) s \<longleftrightarrow>
     (case rt_handles s h of None \<Rightarrow> False | Some jh \<Rightarrow> jh_fiber jh \<noteq> None \<and> waitee (jh_lot jh) = None)"
| "client_allowed (ActDrop h) s \<longleftrightarrow>
     (case rt_handles s h of None \<Rightarrow> False | Some jh \<Rightarrow> jh_fiber jh = None)"
| "client_allowed (ActGet u) s \<longleftrightarrow>
     ff_result (rt_futures s u) = None \<and> waitee (ff_lot (rt_futures s u)) = None"
| "client_allowed (ActSetValue u v) s \<longleftrightarrow> ff_result (rt_futures s u) = None"
| "client_allowed (ActSetError u e) s \<longleftrightarrow> ff_result (rt_futures s u) = None"
| "client_allowed (IoCompletes u v) s \<longleftrightarrow> ff_result (rt_futures s u) = None"
| "client_allowed (IoFails u e) s \<longleftrightarrow> ff_result (rt_futures s u) = None"
| "client_allowed ActThrow s \<longleftrightarrow> False"
| "client_allowed (ActDestroyQueue q) s \<longleftrightarrow> rt_waits s q = []"
| "client_allowed _ s \<longleftrightarrow> True"

definition disciplined_step :: "fiber_label \<Rightarrow> runtime \<Rightarrow> runtime option" where
  "disciplined_step l s = (if client_allowed l s then fiber_step l s else None)"

end
