(* ===== verification/Fiber_Invariant.thy ===== *)
theory Fiber_Invariant
  imports Fibers
begin

text \<open>
  The invariant of the fiber runtime of theory Fibers: every live fiber is in exactly one place
  (running, posted, in a timer, a wait queue, a join handle or a future) and its state fits
  that place; watchers and handles agree; a fiber suspended in a call finds what the call needs;
  stacks are not shared. Each part is a predicate over the components it needs, with one
  lemma per kind of update; each operation is then proved to keep the five parts.
\<close>

section \<open>Where a fiber is\<close>

text \<open>
  A live fiber is owned by exactly one place: it runs, its lambda is posted, a timer holds it, or
  it waits in a wait queue or in the lot of a handle or of a future. \<open>members s p\<close> lists the
  fibers at a place; the lot of a completed handle or of a fulfilled future holds nobody,
  although \<open>waitee_\<close> still names the fiber that was woken.
\<close>

datatype place = PlRunning | PlQueue | PlTimer | PlWait nat | PlJoin handle_id | PlFuture nat

definition handle_waiter :: "join_handle option \<Rightarrow> fid list" where
  "handle_waiter x = (case x of None \<Rightarrow> [] | Some j \<Rightarrow>
     (if jh_completed j then [] else case waitee (jh_lot j) of None \<Rightarrow> [] | Some f \<Rightarrow> [f]))"

definition future_waiter :: "fiber_future \<Rightarrow> fid list" where
  "future_waiter u =
     (if ff_result u \<noteq> None then [] else case waitee (ff_lot u) of None \<Rightarrow> [] | Some f \<Rightarrow> [f])"

primrec members :: "runtime \<Rightarrow> place \<Rightarrow> fid list" where
  "members s PlRunning = (case rt_running s of None \<Rightarrow> [] | Some f \<Rightarrow> [f])"
| "members s PlQueue = io_posted s"
| "members s PlTimer = map snd (io_timers s)"
| "members s (PlWait q) = rt_waits s q"
| "members s (PlJoin h) = handle_waiter (rt_handles s h)"
| "members s (PlFuture u) = future_waiter (rt_futures s u)"

fun state_fits :: "place \<Rightarrow> fiber_state \<Rightarrow> bool" where
  "state_fits PlRunning st \<longleftrightarrow> st = RunningState"
| "state_fits PlQueue st \<longleftrightarrow> st = Starting \<or> st = Runnable"
| "state_fits _ st \<longleftrightarrow> st = Suspended"

type_synonym fibers = "fid \<Rightarrow> fiber option"
type_synonym handles = "handle_id \<Rightarrow> join_handle option"

definition places_ok :: "(fid \<Rightarrow> place option) \<Rightarrow> (place \<Rightarrow> fid list) \<Rightarrow> fibers \<Rightarrow> bool" where
  "places_ok pl A F \<longleftrightarrow>
     (\<forall>p. distinct (A p)) \<and> (\<forall>p f. f \<in> set (A p) \<longleftrightarrow> pl f = Some p) \<and>
     (\<forall>f. pl f = None \<longleftrightarrow> F f = None) \<and>
     (\<forall>f fb p. F f = Some fb \<longrightarrow> pl f = Some p \<longrightarrow> state_fits p (f_state fb))"

definition links_ok :: "fibers \<Rightarrow> handles \<Rightarrow> bool" where
  "links_ok F H \<longleftrightarrow>
     (\<forall>f fb h. F f = Some fb \<longrightarrow> f_watcher fb = Some h \<longrightarrow>
        (\<exists>j. H h = Some j \<and> jh_fiber j = Some f \<and> \<not> jh_completed j)) \<and>
     (\<forall>h j f. H h = Some j \<longrightarrow> jh_fiber j = Some f \<longrightarrow>
        (if jh_completed j then F f = None else \<exists>fb. F f = Some fb \<and> f_watcher fb = Some h)) \<and>
     (\<forall>h j. H h = Some j \<longrightarrow> jh_fiber j = None \<longrightarrow> jh_completed j \<or> waitee (jh_lot j) = None)"

definition after_ok :: "fid \<Rightarrow> place option \<Rightarrow> after_switch \<Rightarrow> handles \<Rightarrow> (nat \<Rightarrow> fiber_future) \<Rightarrow> bool" where
  "after_ok f p a H U \<longleftrightarrow>
     (case a of
        ReturnsAtOnce \<Rightarrow> True
      | ClearsHandle h \<Rightarrow>
          (\<exists>j. H h = Some j \<and> jh_fiber j \<noteq> None \<and> waitee (jh_lot j) = Some f \<and>
               (jh_completed j \<or> p = Some (PlJoin h)))
      | ReadsFuture u \<Rightarrow> ff_result (U u) \<noteq> None \<or> p = Some (PlFuture u))"

definition afters_ok :: "(fid \<Rightarrow> place option) \<Rightarrow> fibers \<Rightarrow> handles \<Rightarrow> (nat \<Rightarrow> fiber_future) \<Rightarrow> bool" where
  "afters_ok pl F H U \<longleftrightarrow> (\<forall>f fb. F f = Some fb \<longrightarrow> after_ok f (pl f) (f_after fb) H U)"

definition ids_ok :: "fibers \<Rightarrow> handles \<Rightarrow> nat \<Rightarrow> nat \<Rightarrow> bool" where
  "ids_ok F H n m \<longleftrightarrow>
     (\<forall>f. n \<le> f \<longrightarrow> F f = None) \<and> (\<forall>h. m \<le> h \<longrightarrow> H h = None) \<and>
     (\<forall>h j f. H h = Some j \<longrightarrow> jh_fiber j = Some f \<longrightarrow> f < n)"

definition stacks_ok :: "fibers \<Rightarrow> stack_id list \<Rightarrow> nat \<Rightarrow> bool" where
  "stacks_ok F pool n \<longleftrightarrow>
     distinct pool \<and> (\<forall>x \<in> set pool. x < n) \<and>
     (\<forall>f fb. F f = Some fb \<longrightarrow> f_stack fb < n \<and> f_stack fb \<notin> set pool) \<and>
     (\<forall>f g fb gb. F f = Some fb \<longrightarrow> F g = Some gb \<longrightarrow> f_stack fb = f_stack gb \<longrightarrow> f = g)"

definition rt_inv_at :: "(fid \<Rightarrow> place option) \<Rightarrow> runtime \<Rightarrow> bool" where
  "rt_inv_at pl s \<longleftrightarrow>
     \<not> rt_aborted s \<and>
     places_ok pl (members s) (rt_fibers s) \<and>
     links_ok (rt_fibers s) (rt_handles s) \<and>
     afters_ok pl (rt_fibers s) (rt_handles s) (rt_futures s) \<and>
     ids_ok (rt_fibers s) (rt_handles s) (rt_next_id s) (rt_next_handle s) \<and>
     stacks_ok (rt_fibers s) (stack_pool s) (next_stack s)"

definition rt_inv :: "runtime \<Rightarrow> bool" where
  "rt_inv s \<longleftrightarrow> (\<exists>pl. rt_inv_at pl s)"

section \<open>The five parts of the invariant\<close>

subsection \<open>Places\<close>

lemma places_move:
  assumes ok: "places_ok pl A F" and f: "pl f = Some p" and p': "p \<noteq> p'"
    and xs: "distinct xs" "set xs = set (A p) - {f}" and fits: "state_fits p' (f_state fb')"
  shows "places_ok (pl(f \<mapsto> p')) (A(p := xs, p' := A p' @ [f])) (F(f \<mapsto> fb'))"
proof -
  have m: "g \<in> set (A q) \<longleftrightarrow> pl g = Some q" and d: "distinct (A q)" for g q
    using ok by (simp_all add: places_ok_def)
  have none: "pl g = None \<longleftrightarrow> F g = None" for g using ok by (simp add: places_ok_def)
  have st: "F g = Some fb \<Longrightarrow> pl g = Some q \<Longrightarrow> state_fits q (f_state fb)" for g fb q
    using ok by (simp add: places_ok_def)
  have "f \<notin> set (A p')" using f p' by (simp add: m)
  then have "distinct ((A(p := xs, p' := A p' @ [f])) q)" for q using d xs(1) by simp
  moreover have "g \<in> set ((A(p := xs, p' := A p' @ [f])) q) \<longleftrightarrow> (pl(f \<mapsto> p')) g = Some q" for g q
    using xs(2) f p' by (auto simp: m)
  moreover have "(pl(f \<mapsto> p')) g = None \<longleftrightarrow> (F(f \<mapsto> fb')) g = None" for g by (simp add: none)
  moreover have "state_fits q (f_state fb)"
    if "(F(f \<mapsto> fb')) g = Some fb" "(pl(f \<mapsto> p')) g = Some q" for g fb q
    using that fits st by (auto split: if_splits)
  ultimately show ?thesis unfolding places_ok_def by blast
qed

lemma places_new:
  assumes ok: "places_ok pl A F" and f: "F f = None" and fits: "state_fits p' (f_state fb')"
  shows "places_ok (pl(f \<mapsto> p')) (A(p' := A p' @ [f])) (F(f \<mapsto> fb'))"
proof -
  have m: "g \<in> set (A q) \<longleftrightarrow> pl g = Some q" and d: "distinct (A q)" for g q
    using ok by (simp_all add: places_ok_def)
  have none: "pl g = None \<longleftrightarrow> F g = None" for g using ok by (simp add: places_ok_def)
  have st: "F g = Some fb \<Longrightarrow> pl g = Some q \<Longrightarrow> state_fits q (f_state fb)" for g fb q
    using ok by (simp add: places_ok_def)
  have pf: "pl f = None" using f by (simp add: none)
  then have "f \<notin> set (A q)" for q by (simp add: m)
  then have "distinct ((A(p' := A p' @ [f])) q)" for q using d by simp
  moreover have "g \<in> set ((A(p' := A p' @ [f])) q) \<longleftrightarrow> (pl(f \<mapsto> p')) g = Some q" for g q
    using pf by (auto simp: m)
  moreover have "(pl(f \<mapsto> p')) g = None \<longleftrightarrow> (F(f \<mapsto> fb')) g = None" for g by (simp add: none)
  moreover have "state_fits q (f_state fb)"
    if "(F(f \<mapsto> fb')) g = Some fb" "(pl(f \<mapsto> p')) g = Some q" for g fb q
    using that fits st by (auto split: if_splits)
  ultimately show ?thesis unfolding places_ok_def by blast
qed

lemma places_delete:
  assumes ok: "places_ok pl A F" and f: "pl f = Some p"
    and xs: "distinct xs" "set xs = set (A p) - {f}"
  shows "places_ok (pl(f := None)) (A(p := xs)) (F(f := None))"
proof -
  have m: "g \<in> set (A q) \<longleftrightarrow> pl g = Some q" and d: "distinct (A q)" for g q
    using ok by (simp_all add: places_ok_def)
  have none: "pl g = None \<longleftrightarrow> F g = None" for g using ok by (simp add: places_ok_def)
  have st: "F g = Some fb \<Longrightarrow> pl g = Some q \<Longrightarrow> state_fits q (f_state fb)" for g fb q
    using ok by (simp add: places_ok_def)
  have "distinct ((A(p := xs)) q)" for q using d xs(1) by simp
  moreover have "g \<in> set ((A(p := xs)) q) \<longleftrightarrow> (pl(f := None)) g = Some q" for g q
    using xs(2) f by (auto simp: m)
  moreover have "(pl(f := None)) g = None \<longleftrightarrow> (F(f := None)) g = None" for g by (simp add: none)
  moreover have "state_fits q (f_state fb)"
    if "(F(f := None)) g = Some fb" "(pl(f := None)) g = Some q" for g fb q
    using that st by (auto split: if_splits)
  ultimately show ?thesis unfolding places_ok_def by blast
qed

lemma places_same:
  assumes ok: "places_ok pl A F" and f: "F f = Some fb" and same: "f_state fb' = f_state fb"
  shows "places_ok pl A (F(f \<mapsto> fb'))"
  using assms unfolding places_ok_def by (metis fun_upd_apply option.distinct(1) option.inject)

lemma places_member: "places_ok pl A F \<Longrightarrow> f \<in> set (A p) \<longleftrightarrow> pl f = Some p"
  by (simp add: places_ok_def)

lemma places_distinct: "places_ok pl A F \<Longrightarrow> distinct (A p)"
  by (simp add: places_ok_def)

lemma places_fiber:
  assumes "places_ok pl A F" "pl f = Some p"
  obtains fb where "F f = Some fb" "state_fits p (f_state fb)"
  using assms unfolding places_ok_def by (metis option.exhaust option.distinct(1))


subsection \<open>How updates change the members of places\<close>

lemma members_ext: "(\<And>p. A p = B p) \<Longrightarrow> A = (B :: place \<Rightarrow> fid list)"
  by blast

lemma members_running [simp]:
  "members (s\<lparr>rt_running := r\<rparr>) = (members s)(PlRunning := (case r of None \<Rightarrow> [] | Some f \<Rightarrow> [f]))"
proof
  fix p show "members (s\<lparr>rt_running := r\<rparr>) p = ((members s)(PlRunning := (case r of None \<Rightarrow> [] | Some f \<Rightarrow> [f]))) p"
    by (cases p) simp_all
qed

lemma members_posted [simp]: "members (s\<lparr>io_posted := xs\<rparr>) = (members s)(PlQueue := xs)"
proof
  fix p show "members (s\<lparr>io_posted := xs\<rparr>) p = ((members s)(PlQueue := xs)) p" by (cases p) simp_all
qed

lemma members_timers [simp]: "members (s\<lparr>io_timers := xs\<rparr>) = (members s)(PlTimer := map snd xs)"
proof
  fix p show "members (s\<lparr>io_timers := xs\<rparr>) p = ((members s)(PlTimer := map snd xs)) p"
    by (cases p) simp_all
qed

lemma members_waits [simp]:
  assumes "rt_waits s = W"
  shows "members (s\<lparr>rt_waits := W(q := xs)\<rparr>) = (members s)(PlWait q := xs)"
proof
  fix p show "members (s\<lparr>rt_waits := W(q := xs)\<rparr>) p = ((members s)(PlWait q := xs)) p"
    using assms by (cases p) auto
qed

lemma members_handles [simp]:
  assumes "rt_handles s = H"
  shows "members (s\<lparr>rt_handles := H(q := xs)\<rparr>) = (members s)(PlJoin q := handle_waiter xs)"
proof
  fix p show "members (s\<lparr>rt_handles := H(q := xs)\<rparr>) p = ((members s)(PlJoin q := handle_waiter xs)) p"
    using assms by (cases p) auto
qed

lemma members_futures [simp]:
  assumes "rt_futures s = U"
  shows "members (s\<lparr>rt_futures := U(q := xs)\<rparr>) = (members s)(PlFuture q := future_waiter xs)"
proof
  fix p show "members (s\<lparr>rt_futures := U(q := xs)\<rparr>) p = ((members s)(PlFuture q := future_waiter xs)) p"
    using assms by (cases p) auto
qed

lemma members_frame [simp]:
  "members (s\<lparr>rt_fibers := F\<rparr>) = members s"
  "members (s\<lparr>rt_next_id := n\<rparr>) = members s"
  "members (s\<lparr>rt_clock := n\<rparr>) = members s"
  "members (s\<lparr>rt_next_handle := n\<rparr>) = members s"
  "members (s\<lparr>stack_pool := xs\<rparr>) = members s"
  "members (s\<lparr>next_stack := n\<rparr>) = members s"
  by (rule members_ext, rename_tac p, case_tac p, simp_all)+

subsection \<open>Fibers and their handles\<close>

lemma links_okI:
  assumes "\<And>f fb h. F f = Some fb \<Longrightarrow> f_watcher fb = Some h \<Longrightarrow>
      \<exists>j. H h = Some j \<and> jh_fiber j = Some f \<and> \<not> jh_completed j"
    and "\<And>h j f. H h = Some j \<Longrightarrow> jh_fiber j = Some f \<Longrightarrow> jh_completed j \<Longrightarrow> F f = None"
    and "\<And>h j f. H h = Some j \<Longrightarrow> jh_fiber j = Some f \<Longrightarrow> \<not> jh_completed j \<Longrightarrow>
      \<exists>fb. F f = Some fb \<and> f_watcher fb = Some h"
    and "\<And>h j. H h = Some j \<Longrightarrow> jh_fiber j = None \<Longrightarrow> \<not> jh_completed j \<Longrightarrow> waitee (jh_lot j) = None"
  shows "links_ok F H"
proof -
  have "H h = Some j \<Longrightarrow> jh_fiber j = None \<Longrightarrow> jh_completed j \<or> waitee (jh_lot j) = None" for h j
    using assms(4) [of h j] by (cases "jh_completed j") simp_all
  with assms(1-3) show ?thesis unfolding links_ok_def by simp
qed

lemma links_watcher:
  "links_ok F H \<Longrightarrow> F f = Some fb \<Longrightarrow> f_watcher fb = Some h \<Longrightarrow>
   \<exists>j. H h = Some j \<and> jh_fiber j = Some f \<and> \<not> jh_completed j"
  by (simp add: links_ok_def)

lemma links_done: "links_ok F H \<Longrightarrow> H h = Some j \<Longrightarrow> jh_fiber j = Some f \<Longrightarrow> jh_completed j \<Longrightarrow> F f = None"
  unfolding links_ok_def by metis

lemma links_live:
  "links_ok F H \<Longrightarrow> H h = Some j \<Longrightarrow> jh_fiber j = Some f \<Longrightarrow> \<not> jh_completed j \<Longrightarrow>
   \<exists>fb. F f = Some fb \<and> f_watcher fb = Some h"
  unfolding links_ok_def by metis

lemma links_idle:
  "links_ok F H \<Longrightarrow> H h = Some j \<Longrightarrow> jh_fiber j = None \<Longrightarrow> \<not> jh_completed j \<Longrightarrow> waitee (jh_lot j) = None"
  unfolding links_ok_def by metis

lemma links_fiber:
  assumes ok: "links_ok F H" and f: "F f = Some fb" and w: "f_watcher fb' = f_watcher fb"
  shows "links_ok (F(f \<mapsto> fb')) H"
proof (rule links_okI)
  fix g gb h assume "(F(f \<mapsto> fb')) g = Some gb" "f_watcher gb = Some h"
  then show "\<exists>j. H h = Some j \<and> jh_fiber j = Some g \<and> \<not> jh_completed j"
    using links_watcher [OF ok] f w by (auto split: if_splits)
next
  fix h j g assume a: "H h = Some j" "jh_fiber j = Some g" "jh_completed j"
  show "(F(f \<mapsto> fb')) g = None" using links_done [OF ok a] f by auto
next
  fix h j g assume a: "H h = Some j" "jh_fiber j = Some g" "\<not> jh_completed j"
  show "\<exists>fb. (F(f \<mapsto> fb')) g = Some fb \<and> f_watcher fb = Some h"
    using links_live [OF ok a] f w by auto
qed (rule links_idle [OF ok])

lemma links_spawn:
  assumes ok: "links_ok F H" and f: "F f = None" and h: "H h = None"
    and fresh: "\<And>h j. H h = Some j \<Longrightarrow> jh_fiber j \<noteq> Some f"
    and fb': "f_watcher fb' = Some h" and j': "jh_fiber j' = Some f" "\<not> jh_completed j'"
  shows "links_ok (F(f \<mapsto> fb')) (H(h \<mapsto> j'))"
proof (rule links_okI)
  fix g gb k assume "(F(f \<mapsto> fb')) g = Some gb" "f_watcher gb = Some k"
  then show "\<exists>j. (H(h \<mapsto> j')) k = Some j \<and> jh_fiber j = Some g \<and> \<not> jh_completed j"
    using links_watcher [OF ok, of g gb k] fb' j' h by (auto split: if_splits)
next
  fix k j g assume a: "(H(h \<mapsto> j')) k = Some j" "jh_fiber j = Some g" "jh_completed j"
  show "(F(f \<mapsto> fb')) g = None" using links_done [OF ok _ a(2,3)] a fresh j' by (auto split: if_splits)
next
  fix k j g assume a: "(H(h \<mapsto> j')) k = Some j" "jh_fiber j = Some g" "\<not> jh_completed j"
  show "\<exists>fb. (F(f \<mapsto> fb')) g = Some fb \<and> f_watcher fb = Some k"
    using links_live [OF ok _ a(2,3)] a fresh fb' j' by (auto split: if_splits)
next
  fix k j assume a: "(H(h \<mapsto> j')) k = Some j" "jh_fiber j = None" "\<not> jh_completed j"
  show "waitee (jh_lot j) = None" using links_idle [OF ok _ a(2,3)] a j' by (auto split: if_splits)
qed

lemma links_handle:
  assumes ok: "links_ok F H" and h: "H h = Some j" "jh_fiber j \<noteq> None"
    and j': "jh_fiber j' = jh_fiber j" "jh_completed j' = jh_completed j"
  shows "links_ok F (H(h \<mapsto> j'))"
proof (rule links_okI)
  fix g gb k assume "F g = Some gb" "f_watcher gb = Some k"
  then show "\<exists>j. (H(h \<mapsto> j')) k = Some j \<and> jh_fiber j = Some g \<and> \<not> jh_completed j"
    using links_watcher [OF ok, of g gb k] h j' by (auto split: if_splits)
next
  fix k i g assume a: "(H(h \<mapsto> j')) k = Some i" "jh_fiber i = Some g" "jh_completed i"
  show "F g = None" using links_done [OF ok, of k] a h j' by (auto split: if_splits)
next
  fix k i g assume a: "(H(h \<mapsto> j')) k = Some i" "jh_fiber i = Some g" "\<not> jh_completed i"
  show "\<exists>fb. F g = Some fb \<and> f_watcher fb = Some k"
    using links_live [OF ok, of k] a h j' by (auto split: if_splits)
next
  fix k i assume a: "(H(h \<mapsto> j')) k = Some i" "jh_fiber i = None" "\<not> jh_completed i"
  show "waitee (jh_lot i) = None" using links_idle [OF ok, of k] a h j' by (auto split: if_splits)
qed

text \<open>A handle that no longer speaks for a fiber.\<close>

lemma links_clear:
  assumes ok: "links_ok F H" and h: "H h = Some j" "jh_completed j"
  shows "links_ok F (H(h \<mapsto> j\<lparr>jh_fiber := None\<rparr>))"
proof (rule links_okI)
  fix g gb k assume "F g = Some gb" "f_watcher gb = Some k"
  then show "\<exists>i. (H(h \<mapsto> j\<lparr>jh_fiber := None\<rparr>)) k = Some i \<and> jh_fiber i = Some g \<and> \<not> jh_completed i"
    using links_watcher [OF ok, of g gb k] h by (auto split: if_splits)
next
  fix k i g assume a: "(H(h \<mapsto> j\<lparr>jh_fiber := None\<rparr>)) k = Some i" "jh_fiber i = Some g" "jh_completed i"
  show "F g = None" using links_done [OF ok, of k] a h by (auto split: if_splits)
next
  fix k i g assume a: "(H(h \<mapsto> j\<lparr>jh_fiber := None\<rparr>)) k = Some i" "jh_fiber i = Some g" "\<not> jh_completed i"
  show "\<exists>fb. F g = Some fb \<and> f_watcher fb = Some k"
    using links_live [OF ok, of k] a h by (auto split: if_splits)
next
  fix k i assume a: "(H(h \<mapsto> j\<lparr>jh_fiber := None\<rparr>)) k = Some i" "jh_fiber i = None" "\<not> jh_completed i"
  show "waitee (jh_lot i) = None" using links_idle [OF ok, of k] a h by (auto split: if_splits)
qed

lemma links_complete:
  assumes ok: "links_ok F H" and f: "F f = Some fb" "f_watcher fb = Some h" and h: "H h = Some j"
  shows "links_ok (F(f := None)) (H(h \<mapsto> j\<lparr>jh_completed := True\<rparr>))"
proof (rule links_okI)
  have j: "jh_fiber j = Some f" "\<not> jh_completed j" using links_watcher [OF ok f] h by auto
  {
    fix g gb k assume a: "(F(f := None)) g = Some gb" "f_watcher gb = Some k"
    then have "g \<noteq> f" "F g = Some gb" by (auto split: if_splits)
    then show "\<exists>i. (H(h \<mapsto> j\<lparr>jh_completed := True\<rparr>)) k = Some i \<and> jh_fiber i = Some g \<and> \<not> jh_completed i"
      using links_watcher [OF ok _ a(2)] h j by (auto split: if_splits)
  next
    fix k i g assume a: "(H(h \<mapsto> j\<lparr>jh_completed := True\<rparr>)) k = Some i" "jh_fiber i = Some g" "jh_completed i"
    show "(F(f := None)) g = None" using links_done [OF ok, of k] a h j by (auto split: if_splits)
  next
    fix k i g assume a: "(H(h \<mapsto> j\<lparr>jh_completed := True\<rparr>)) k = Some i" "jh_fiber i = Some g" "\<not> jh_completed i"
    show "\<exists>fb. (F(f := None)) g = Some fb \<and> f_watcher fb = Some k"
      using links_live [OF ok, of k i g] a h j f by (auto split: if_splits)
  next
    fix k i assume a: "(H(h \<mapsto> j\<lparr>jh_completed := True\<rparr>)) k = Some i" "jh_fiber i = None" "\<not> jh_completed i"
    show "waitee (jh_lot i) = None" using links_idle [OF ok, of k] a h by (auto split: if_splits)
  }
qed

lemma links_delete:
  assumes ok: "links_ok F H" and f: "F f = Some fb" "f_watcher fb = None"
  shows "links_ok (F(f := None)) H"
proof (rule links_okI)
  fix g gb k assume "(F(f := None)) g = Some gb" "f_watcher gb = Some k"
  then show "\<exists>i. H k = Some i \<and> jh_fiber i = Some g \<and> \<not> jh_completed i"
    using links_watcher [OF ok, of g gb k] by (auto split: if_splits)
next
  fix k i g assume a: "H k = Some i" "jh_fiber i = Some g" "jh_completed i"
  show "(F(f := None)) g = None" using links_done [OF ok a] by auto
next
  fix k i g assume a: "H k = Some i" "jh_fiber i = Some g" "\<not> jh_completed i"
  show "\<exists>fb. (F(f := None)) g = Some fb \<and> f_watcher fb = Some k"
    using links_live [OF ok a] f by auto
qed (rule links_idle [OF ok])

lemma links_detach:
  assumes ok: "links_ok F H" and h: "H h = Some j" "jh_fiber j = Some f" "\<not> jh_completed j"
    "waitee (jh_lot j) = None" and f: "F f = Some fb"
  shows "links_ok (F(f \<mapsto> fb\<lparr>f_watcher := None\<rparr>)) (H(h \<mapsto> j\<lparr>jh_fiber := None\<rparr>))"
proof (rule links_okI)
  have w: "f_watcher fb = Some h" using links_live [OF ok h(1-3)] f by auto
  {
    fix g gb k assume a: "(F(f \<mapsto> fb\<lparr>f_watcher := None\<rparr>)) g = Some gb" "f_watcher gb = Some k"
    then have "g \<noteq> f" "F g = Some gb" by (auto split: if_splits)
    then show "\<exists>i. (H(h \<mapsto> j\<lparr>jh_fiber := None\<rparr>)) k = Some i \<and> jh_fiber i = Some g \<and> \<not> jh_completed i"
      using links_watcher [OF ok _ a(2)] h by (auto split: if_splits)
  next
    fix k i g assume a: "(H(h \<mapsto> j\<lparr>jh_fiber := None\<rparr>)) k = Some i" "jh_fiber i = Some g" "jh_completed i"
    show "(F(f \<mapsto> fb\<lparr>f_watcher := None\<rparr>)) g = None"
      using links_done [OF ok _ a(2,3)] a f by (auto split: if_splits)
  next
    fix k i g assume a: "(H(h \<mapsto> j\<lparr>jh_fiber := None\<rparr>)) k = Some i" "jh_fiber i = Some g" "\<not> jh_completed i"
    show "\<exists>fb'. (F(f \<mapsto> fb\<lparr>f_watcher := None\<rparr>)) g = Some fb' \<and> f_watcher fb' = Some k"
      using links_live [OF ok _ a(2,3)] a f w by (auto split: if_splits)
  next
    fix k i assume a: "(H(h \<mapsto> j\<lparr>jh_fiber := None\<rparr>)) k = Some i" "jh_fiber i = None" "\<not> jh_completed i"
    show "waitee (jh_lot i) = None" using links_idle [OF ok, of k] a h by (auto split: if_splits)
  }
qed

lemma links_drop:
  assumes ok: "links_ok F H" and h: "H h = Some j" "jh_fiber j = None"
  shows "links_ok F (H(h := None))"
proof (rule links_okI)
  fix g gb k assume "F g = Some gb" "f_watcher gb = Some k"
  then show "\<exists>i. (H(h := None)) k = Some i \<and> jh_fiber i = Some g \<and> \<not> jh_completed i"
    using links_watcher [OF ok, of g gb k] h by auto
next
  fix k i g assume "(H(h := None)) k = Some i" "jh_fiber i = Some g" "jh_completed i"
  then show "F g = None" using links_done [OF ok] by (auto split: if_splits)
next
  fix k i g assume "(H(h := None)) k = Some i" "jh_fiber i = Some g" "\<not> jh_completed i"
  then show "\<exists>fb. F g = Some fb \<and> f_watcher fb = Some k" using links_live [OF ok] by (auto split: if_splits)
next
  fix k i assume "(H(h := None)) k = Some i" "jh_fiber i = None" "\<not> jh_completed i"
  then show "waitee (jh_lot i) = None" using links_idle [OF ok] by (auto split: if_splits)
qed

text \<open>Moving a handle is a detachment followed by a new handle on the same fiber.\<close>

lemma links_new_handle:
  assumes ok: "links_ok F H" and h: "H h = None" and w: "\<And>k i. H k = Some i \<Longrightarrow> jh_fiber i \<noteq> Some f"
    and f: "F f = Some fb" and j': "jh_fiber j' = Some f" "\<not> jh_completed j'"
  shows "links_ok (F(f \<mapsto> fb\<lparr>f_watcher := Some h\<rparr>)) (H(h \<mapsto> j'))"
proof (rule links_okI)
  fix g gb k assume "(F(f \<mapsto> fb\<lparr>f_watcher := Some h\<rparr>)) g = Some gb" "f_watcher gb = Some k"
  then show "\<exists>i. (H(h \<mapsto> j')) k = Some i \<and> jh_fiber i = Some g \<and> \<not> jh_completed i"
    using links_watcher [OF ok, of g gb k] h j' by (auto split: if_splits)
next
  fix k i g assume a: "(H(h \<mapsto> j')) k = Some i" "jh_fiber i = Some g" "jh_completed i"
  show "(F(f \<mapsto> fb\<lparr>f_watcher := Some h\<rparr>)) g = None"
    using links_done [OF ok, of k] a w j' by (auto split: if_splits)
next
  fix k i g assume a: "(H(h \<mapsto> j')) k = Some i" "jh_fiber i = Some g" "\<not> jh_completed i"
  show "\<exists>fb'. (F(f \<mapsto> fb\<lparr>f_watcher := Some h\<rparr>)) g = Some fb' \<and> f_watcher fb' = Some k"
    using links_live [OF ok _ a(2,3)] a w j' by (auto split: if_splits)
next
  fix k i assume a: "(H(h \<mapsto> j')) k = Some i" "jh_fiber i = None" "\<not> jh_completed i"
  show "waitee (jh_lot i) = None" using links_idle [OF ok, of k] a j' by (auto split: if_splits)
qed

lemma links_same_fiber:
  assumes ok: "links_ok F H" and "H h = Some j" "H k = Some i" "jh_fiber j = Some f" "jh_fiber i = Some f"
    and live: "F f = Some fb"
  shows "h = k"
proof -
  have "\<not> jh_completed j" "\<not> jh_completed i" using links_done [OF ok] assms by fastforce+
  then show ?thesis using links_live [OF ok] assms by (metis option.inject)
qed

subsection \<open>Suspended calls\<close>

text \<open>Handles that other fibers than \<open>f\<close> wait for stay.\<close>

definition handles_keep :: "fid \<Rightarrow> handles \<Rightarrow> handles \<Rightarrow> bool" where
  "handles_keep f H H' \<longleftrightarrow>
     (\<forall>h j g. H h = Some j \<longrightarrow> jh_fiber j \<noteq> None \<longrightarrow> waitee (jh_lot j) = Some g \<longrightarrow> g \<noteq> f \<longrightarrow>
        (\<exists>j'. H' h = Some j' \<and> jh_fiber j' \<noteq> None \<and> waitee (jh_lot j') = Some g \<and>
              (jh_completed j \<longrightarrow> jh_completed j')))"

definition results_keep :: "(nat \<Rightarrow> fiber_future) \<Rightarrow> (nat \<Rightarrow> fiber_future) \<Rightarrow> bool" where
  "results_keep U U' \<longleftrightarrow> (\<forall>u. ff_result (U u) \<noteq> None \<longrightarrow> ff_result (U' u) \<noteq> None)"

lemma handles_keep_same [simp]: "handles_keep f H H"
  by (simp add: handles_keep_def)

lemma results_keep_same [simp]: "results_keep U U"
  by (simp add: results_keep_def)

lemma results_keep_upd:
  "(ff_result (U u) \<noteq> None \<Longrightarrow> ff_result x \<noteq> None) \<Longrightarrow> results_keep U (U(u := x))"
  by (simp add: results_keep_def)

lemma handles_keep_upd:
  assumes "\<And>j g. H h = Some j \<Longrightarrow> jh_fiber j \<noteq> None \<Longrightarrow> waitee (jh_lot j) = Some g \<Longrightarrow> g \<noteq> f \<Longrightarrow>
     \<exists>j'. x = Some j' \<and> jh_fiber j' \<noteq> None \<and> waitee (jh_lot j') = Some g \<and> (jh_completed j \<longrightarrow> jh_completed j')"
  shows "handles_keep f H (H(h := x))"
  using assms by (simp add: handles_keep_def)

lemma handles_keep_trans:
  assumes "handles_keep f H H'" "handles_keep f H' H''"
  shows "handles_keep f H H''"
  unfolding handles_keep_def
proof (intro allI impI)
  fix h j g
  assume "H h = Some j" "jh_fiber j \<noteq> None" "waitee (jh_lot j) = Some g" "g \<noteq> f"
  with assms(1) obtain j' where j': "H' h = Some j'" "jh_fiber j' \<noteq> None" "waitee (jh_lot j') = Some g"
    "jh_completed j \<longrightarrow> jh_completed j'"
    unfolding handles_keep_def by blast
  with assms(2) \<open>g \<noteq> f\<close> obtain j'' where "H'' h = Some j''" "jh_fiber j'' \<noteq> None"
    "waitee (jh_lot j'') = Some g" "jh_completed j' \<longrightarrow> jh_completed j''"
    unfolding handles_keep_def by blast
  with j' show "\<exists>j'. H'' h = Some j' \<and> jh_fiber j' \<noteq> None \<and> waitee (jh_lot j') = Some g \<and>
    (jh_completed j \<longrightarrow> jh_completed j')" by blast
qed

lemma after_ok_keep:
  assumes ok: "after_ok g p a H U" and H: "handles_keep f H H'" and U: "results_keep U U'" and g: "g \<noteq> f"
  shows "after_ok g p a H' U'"
proof (cases a)
  case ReturnsAtOnce
  then show ?thesis by (simp add: after_ok_def)
next
  case (ClearsHandle h)
  with ok obtain j where j: "H h = Some j" "jh_fiber j \<noteq> None" "waitee (jh_lot j) = Some g"
    "jh_completed j \<or> p = Some (PlJoin h)"
    by (auto simp: after_ok_def)
  with H g obtain j' where "H' h = Some j'" "jh_fiber j' \<noteq> None" "waitee (jh_lot j') = Some g"
    "jh_completed j \<longrightarrow> jh_completed j'"
    unfolding handles_keep_def by blast
  with j(4) ClearsHandle show ?thesis by (auto simp: after_ok_def)
next
  case (ReadsFuture u)
  with ok U show ?thesis by (auto simp: after_ok_def results_keep_def)
qed

lemma afters_upd:
  assumes ok: "afters_ok pl F H U" and H: "handles_keep f H H'" and U: "results_keep U U'"
    and own: "\<And>fb'. y = Some fb' \<Longrightarrow> after_ok f p' (f_after fb') H' U'"
  shows "afters_ok (pl(f := p')) (F(f := y)) H' U'"
  unfolding afters_ok_def
proof (intro allI impI)
  fix g gb assume g: "(F(f := y)) g = Some gb"
  show "after_ok g ((pl(f := p')) g) (f_after gb) H' U'"
  proof (cases "g = f")
    case True
    with g own show ?thesis by simp
  next
    case False
    with g ok have "after_ok g (pl g) (f_after gb) H U" by (simp add: afters_ok_def)
    with H U False have "after_ok g (pl g) (f_after gb) H' U'" by (blast intro: after_ok_keep)
    with False show ?thesis by simp
  qed
qed

lemma afters_fiberD: "afters_ok pl F H U \<Longrightarrow> F f = Some fb \<Longrightarrow> after_ok f (pl f) (f_after fb) H U"
  by (simp add: afters_ok_def)

lemma after_ok_ReturnsAtOnce [simp]: "after_ok f p ReturnsAtOnce H U"
  by (simp add: after_ok_def)

text \<open>Only the handles change, or only the place and state of a woken fiber.\<close>

lemma afters_same:
  assumes ok: "afters_ok pl F H U" and f: "F f = Some fb" and H: "handles_keep f H H'" and U: "results_keep U U'"
    and own: "after_ok f (pl f) (f_after fb') H' U'"
  shows "afters_ok pl (F(f \<mapsto> fb')) H' U'"
proof -
  have "afters_ok (pl(f := pl f)) (F(f := Some fb')) H' U'"
    by (rule afters_upd [OF ok H U]) (use own in simp)
  then show ?thesis by (simp add: fun_upd_triv)
qed

lemma afters_handles:
  assumes ok: "afters_ok pl F H U" and H: "\<And>f. handles_keep f H H'" and U: "results_keep U U'"
  shows "afters_ok pl F H' U'"
  unfolding afters_ok_def
proof (intro allI impI)
  fix g gb assume g: "F g = Some gb"
  obtain f where f: "g \<noteq> f" using n_not_Suc_n by blast
  from ok g have "after_ok g (pl g) (f_after gb) H U" by (simp add: afters_ok_def)
  with H U f show "after_ok g (pl g) (f_after gb) H' U'" by (blast intro: after_ok_keep)
qed

subsection \<open>Identifiers and stacks\<close>

lemma ids_fiber: "ids_ok F H n m \<Longrightarrow> F f = Some fb \<Longrightarrow> ids_ok (F(f := y)) H n m"
  by (auto simp: ids_ok_def)

lemma ids_handle:
  assumes "ids_ok F H n m" "H h = Some j" "\<And>i f. x = Some i \<Longrightarrow> jh_fiber i = Some f \<Longrightarrow> jh_fiber j = Some f"
  shows "ids_ok F (H(h := x)) n m"
  using assms unfolding ids_ok_def by auto

lemma ids_clear: "ids_ok F H n m \<Longrightarrow> H h = Some j \<Longrightarrow> ids_ok F (H(h \<mapsto> j\<lparr>jh_fiber := None\<rparr>)) n m"
  by (rule ids_handle) auto

lemma ids_same: "ids_ok F H n m \<Longrightarrow> H h = Some j \<Longrightarrow> jh_fiber j' = jh_fiber j \<Longrightarrow> ids_ok F (H(h \<mapsto> j')) n m"
  by (rule ids_handle) auto

lemma ids_new_handle:
  assumes "ids_ok F H n m" "\<And>f. jh_fiber j = Some f \<Longrightarrow> f < n"
  shows "ids_ok F (H(m \<mapsto> j)) n (Suc m)"
  using assms unfolding ids_ok_def by auto

lemma ids_new_fiber: "ids_ok F H n m \<Longrightarrow> ids_ok (F(n \<mapsto> fb)) H (Suc n) m"
  unfolding ids_ok_def by (auto intro: less_SucI)

lemma stacks_fiber:
  assumes "stacks_ok F pool n" "F f = Some fb" "f_stack fb' = f_stack fb"
  shows "stacks_ok (F(f \<mapsto> fb')) pool n"
  using assms unfolding stacks_ok_def by auto

lemma stacks_delete:
  assumes ok: "stacks_ok F pool n" and f: "F f = Some fb"
  shows "stacks_ok (F(f := None)) (pool @ [f_stack fb]) n"
proof -
  have "f_stack gb \<noteq> f_stack fb" if "F g = Some gb" "g \<noteq> f" for g gb
    using ok f that unfolding stacks_ok_def by blast
  with ok f show ?thesis unfolding stacks_ok_def by auto
qed

lemma stacks_take:
  assumes ok: "stacks_ok F pool n" and pool: "pool \<noteq> []" and f: "F f = None" "f_stack fb = last pool"
  shows "stacks_ok (F(f \<mapsto> fb)) (butlast pool) n"
proof -
  have split: "pool = butlast pool @ [last pool]" using pool by simp
  have "distinct (butlast pool @ [last pool])" using ok split by (simp add: stacks_ok_def)
  then have d: "last pool \<notin> set (butlast pool)" "distinct (butlast pool)" by auto
  have sub: "set (butlast pool) \<subseteq> set pool" by (auto dest: in_set_butlastD)
  have "last pool \<in> set pool" using pool by simp
  then have other: "f_stack gb \<noteq> last pool" if "F g = Some gb" for g gb
    using ok that unfolding stacks_ok_def by metis
  show ?thesis
    using ok f d sub other \<open>last pool \<in> set pool\<close> unfolding stacks_ok_def by (auto split: if_splits)
qed

lemma stacks_new:
  assumes ok: "stacks_ok F pool n" and f: "F f = None" "f_stack fb = n"
  shows "stacks_ok (F(f \<mapsto> fb)) pool (Suc n)"
proof -
  have other: "f_stack gb < n" if "F g = Some gb" for g gb
    using ok that unfolding stacks_ok_def by metis
  then have "f_stack gb \<noteq> n" if "F g = Some gb" for g gb using that by fastforce
  with ok f show ?thesis unfolding stacks_ok_def by (auto split: if_splits intro: less_SucI) metis+
qed

section \<open>Every operation keeps the invariant\<close>

lemma inv_atD:
  assumes "rt_inv_at pl s"
  shows "\<not> rt_aborted s" "places_ok pl (members s) (rt_fibers s)" "links_ok (rt_fibers s) (rt_handles s)"
    "afters_ok pl (rt_fibers s) (rt_handles s) (rt_futures s)"
    "ids_ok (rt_fibers s) (rt_handles s) (rt_next_id s) (rt_next_handle s)"
    "stacks_ok (rt_fibers s) (stack_pool s) (next_stack s)"
  using assms by (simp_all add: rt_inv_at_def)

lemma rt_invI: "rt_inv_at pl s \<Longrightarrow> rt_inv s"
  by (auto simp: rt_inv_def)

text \<open>The places in which a fiber is suspended.\<close>

definition waiting_place :: "place \<Rightarrow> bool" where
  "waiting_place p \<longleftrightarrow> p \<noteq> PlRunning \<and> p \<noteq> PlQueue"

lemma waiting_place_simps [simp]:
  "waiting_place PlTimer" "waiting_place (PlWait q)" "waiting_place (PlJoin h)" "waiting_place (PlFuture u)"
  "\<not> waiting_place PlRunning" "\<not> waiting_place PlQueue"
  by (simp_all add: waiting_place_def)

lemma state_fits_waiting: "waiting_place p \<Longrightarrow> state_fits p st \<longleftrightarrow> st = Suspended"
  by (cases p) simp_all

lemma Scheduler_Resume_eq:
  "rt_fibers s f = Some fb \<Longrightarrow> f_state fb = Suspended \<Longrightarrow>
   Scheduler_Resume f s =
     s\<lparr>rt_fibers := (rt_fibers s)(f \<mapsto> fb\<lparr>f_state := Runnable\<rparr>), io_posted := io_posted s @ [f]\<rparr>"
  by (simp add: Scheduler_Resume_def Fiber_SetState_def Scheduler_Schedule_def)

lemma Scheduler_Suspend_eq:
  "rt_running s = Some f \<Longrightarrow> rt_fibers s f = Some fb \<Longrightarrow>
   Scheduler_Suspend s = s\<lparr>rt_fibers := (rt_fibers s)(f \<mapsto> fb\<lparr>f_state := Suspended\<rparr>), rt_running := None\<rparr>"
  by (simp add: Scheduler_Suspend_def with_current_def Fiber_SetState_def Scheduler_SwitchToScheduler_def
      Scheduler_Reschedule_def)

lemma set_after_eq:
  "rt_fibers s f = Some fb \<Longrightarrow>
   set_after f a s = s\<lparr>rt_fibers := (rt_fibers s)(f \<mapsto> fb\<lparr>f_after := a\<rparr>)\<rparr>"
  by (simp add: set_after_def)

subsection \<open>Waking\<close>

lemma inv_wake:
  assumes places: "places_ok pl A (rt_fibers s)" and f: "pl f = Some p" "waiting_place p"
    and mem: "members s = A(p := xs)" "distinct xs" "set xs = set (A p) - {f}"
    and na: "\<not> rt_aborted s" and links: "links_ok (rt_fibers s) (rt_handles s)"
    and afters: "afters_ok pl (rt_fibers s) (rt_handles s) (rt_futures s)"
    and own: "\<And>fb. rt_fibers s f = Some fb \<Longrightarrow> after_ok f (Some PlQueue) (f_after fb) (rt_handles s) (rt_futures s)"
    and ids: "ids_ok (rt_fibers s) (rt_handles s) (rt_next_id s) (rt_next_handle s)"
    and stacks: "stacks_ok (rt_fibers s) (stack_pool s) (next_stack s)"
  shows "rt_inv (Scheduler_Resume f s)"
proof -
  from places f(1) obtain fb where fb: "rt_fibers s f = Some fb" "state_fits p (f_state fb)"
    by (rule places_fiber)
  then have susp: "f_state fb = Suspended" using f(2) by (simp add: state_fits_waiting)
  let ?fb = "fb\<lparr>f_state := Runnable\<rparr>"
  let ?s = "s\<lparr>rt_fibers := (rt_fibers s)(f \<mapsto> ?fb), io_posted := io_posted s @ [f]\<rparr>"
  have pq: "p \<noteq> PlQueue" using f(2) by auto
  have "io_posted s = A PlQueue" using mem(1) pq by (metis fun_upd_other members.simps(2))
  then have m: "members ?s = A(p := xs, PlQueue := A PlQueue @ [f])" by (simp add: mem(1))
  have "places_ok (pl(f \<mapsto> PlQueue)) (members ?s) (rt_fibers ?s)"
    unfolding m using places_move [OF places f(1) pq mem(2,3), of ?fb] by simp
  moreover have "links_ok (rt_fibers ?s) (rt_handles ?s)" using links_fiber [OF links fb(1), of ?fb] by simp
  moreover have "afters_ok (pl(f \<mapsto> PlQueue)) (rt_fibers ?s) (rt_handles ?s) (rt_futures ?s)"
    using afters_upd [OF afters handles_keep_same results_keep_same, where f = f and y = "Some ?fb"] own [OF fb(1)]
    by simp
  moreover have "ids_ok (rt_fibers ?s) (rt_handles ?s) (rt_next_id ?s) (rt_next_handle ?s)"
    using ids_fiber [OF ids fb(1)] by simp
  moreover have "stacks_ok (rt_fibers ?s) (stack_pool ?s) (next_stack ?s)"
    using stacks_fiber [OF stacks fb(1), of ?fb] by simp
  ultimately have "rt_inv_at (pl(f \<mapsto> PlQueue)) ?s" using na by (simp add: rt_inv_at_def)
  then show ?thesis unfolding Scheduler_Resume_eq [OF fb(1) susp] by (rule rt_invI)
qed

lemma after_ok_elsewhere:
  assumes "after_ok f (Some p) a H U" "\<And>h. p \<noteq> PlJoin h" "\<And>u. p \<noteq> PlFuture u"
  shows "after_ok f q a H U"
  using assms by (auto simp: after_ok_def split: after_switch.splits)

lemma inv_timer:
  assumes inv: "rt_inv_at pl s" and k: "k < length (io_timers s)"
  shows "rt_inv (Scheduler_Resume (snd (io_timers s ! k)) (s\<lparr>io_timers := take k (io_timers s) @ drop (Suc k) (io_timers s)\<rparr>))"
    (is "rt_inv (Scheduler_Resume ?f ?s)")
proof (rule inv_wake [where pl = pl and A = "members s" and p = PlTimer])
  note parts = inv_atD [OF inv]
  have f: "?f = map snd (io_timers s) ! k" using k by simp
  have d: "distinct (map snd (io_timers s))" using places_distinct [OF parts(2), of PlTimer] by simp
  note rm = remove_nth_distinct [OF d, of k, unfolded take_map drop_map length_map, OF k]
  show "places_ok pl (members s) (rt_fibers ?s)" using parts(2) by simp
  have "?f \<in> set (members s PlTimer)" using k by simp
  then show pf: "pl ?f = Some PlTimer" unfolding places_member [OF parts(2)] .
  show "members ?s = (members s)(PlTimer := map snd (take k (io_timers s) @ drop (Suc k) (io_timers s)))" by simp
  show "distinct (map snd (take k (io_timers s) @ drop (Suc k) (io_timers s)))" using rm(1) by simp
  show "set (map snd (take k (io_timers s) @ drop (Suc k) (io_timers s))) = set (members s PlTimer) - {?f}"
    using rm(2) k by simp
  fix fb assume "rt_fibers ?s ?f = Some fb"
  then have "after_ok ?f (pl ?f) (f_after fb) (rt_handles s) (rt_futures s)" using afters_fiberD [OF parts(4)] by simp
  then show "after_ok ?f (Some PlQueue) (f_after fb) (rt_handles ?s) (rt_futures ?s)"
    unfolding pf by (simp, elim after_ok_elsewhere) simp_all
qed (use inv_atD [OF inv] in simp_all)

lemma inv_wake_waiter:
  assumes inv: "rt_inv_at pl s" and q: "rt_waits s q = f # rest"
  shows "rt_inv (Scheduler_Resume f (s\<lparr>rt_waits := (rt_waits s)(q := rest)\<rparr>))" (is "rt_inv (Scheduler_Resume f ?s)")
proof (rule inv_wake [where pl = pl and A = "members s" and p = "PlWait q"])
  note parts = inv_atD [OF inv]
  have d: "distinct (f # rest)" using places_distinct [OF parts(2), of "PlWait q"] q by simp
  show "places_ok pl (members s) (rt_fibers ?s)" using parts(2) by simp
  have "f \<in> set (members s (PlWait q))" using q by simp
  then show pf: "pl f = Some (PlWait q)" unfolding places_member [OF parts(2)] .
  show "members ?s = (members s)(PlWait q := rest)" by simp
  show "distinct rest" using d by simp
  show "set rest = set (members s (PlWait q)) - {f}" using d q by auto
  fix fb assume "rt_fibers ?s f = Some fb"
  then have "after_ok f (pl f) (f_after fb) (rt_handles s) (rt_futures s)" using afters_fiberD [OF parts(4)] by simp
  then show "after_ok f (Some PlQueue) (f_after fb) (rt_handles ?s) (rt_futures ?s)"
    unfolding pf by (simp, elim after_ok_elsewhere) simp_all
qed (use inv_atD [OF inv] in simp_all)

lemma inv_WakeOne: "rt_inv s \<Longrightarrow> rt_inv (WaitQueue_WakeOne q s)"
  by (auto simp: WaitQueue_WakeOne_def rt_inv_def [of s] split: list.split intro: inv_wake_waiter)

lemma Scheduler_Resume_waits [simp]: "rt_waits (Scheduler_Resume f s) = rt_waits s"
  by (simp add: Scheduler_Resume_def Fiber_SetState_def Scheduler_Schedule_def rt_abort_def split: option.split)

lemma inv_wake_all_loop: "rt_inv s \<Longrightarrow> rt_waits s q = fs \<Longrightarrow> rt_inv (wake_all_loop fs q s)"
proof (induction fs arbitrary: s)
  case (Cons f fs)
  then have "rt_inv (Scheduler_Resume f (s\<lparr>rt_waits := (rt_waits s)(q := fs)\<rparr>))"
    by (auto simp: rt_inv_def [of s] intro: inv_wake_waiter)
  with Cons.IH show ?case by simp
qed simp

lemma inv_WakeAll: "rt_inv s \<Longrightarrow> rt_inv (WaitQueue_WakeAll q s)"
  by (simp add: WaitQueue_WakeAll_def inv_wake_all_loop)

lemma inv_future_set:
  assumes inv: "rt_inv_at pl s" and r: "ff_result (rt_futures s u) = None"
  shows "rt_inv (FiberFuture_Set u v s)"
proof -
  note parts = inv_atD [OF inv]
  let ?s = "s\<lparr>rt_futures := (rt_futures s)(u := (rt_futures s u)\<lparr>ff_result := Some v\<rparr>)\<rparr>"
  have m: "members ?s = (members s)(PlFuture u := [])" by (simp add: future_waiter_def)
  have keep: "results_keep (rt_futures s) (rt_futures ?s)" by (simp add: results_keep_def)
  have afters: "afters_ok pl (rt_fibers ?s) (rt_handles ?s) (rt_futures ?s)"
    using afters_handles [OF parts(4) handles_keep_same keep] by simp
  show ?thesis
  proof (cases "waitee (ff_lot (rt_futures s u))")
    case None
    then have "members s (PlFuture u) = []" by (simp add: future_waiter_def)
    then have "members ?s = members s" unfolding m by (simp add: fun_upd_idem)
    then have "rt_inv_at pl ?s" using parts afters by (simp add: rt_inv_at_def)
    then show ?thesis by (simp add: FiberFuture_Set_def ParkingLot_Wake_def None rt_invI)
  next
    case (Some f)
    then have mf: "members s (PlFuture u) = [f]" using r by (simp add: future_waiter_def)
    then have "f \<in> set (members s (PlFuture u))" by simp
    then have pf: "pl f = Some (PlFuture u)" unfolding places_member [OF parts(2)] .
    have "rt_inv (Scheduler_Resume f ?s)"
    proof (rule inv_wake [where pl = pl and A = "members s" and p = "PlFuture u" and xs = "[]"])
      show "set [] = set (members s (PlFuture u)) - {f}" using mf by simp
      fix fb assume "rt_fibers ?s f = Some fb"
      then have "after_ok f (pl f) (f_after fb) (rt_handles s) (rt_futures s)"
        using afters_fiberD [OF parts(4)] by simp
      then show "after_ok f (Some PlQueue) (f_after fb) (rt_handles ?s) (rt_futures ?s)"
        unfolding pf by (auto simp: after_ok_def split: after_switch.splits)
    qed (use parts afters pf m in simp_all)
    then show ?thesis by (simp add: FiberFuture_Set_def ParkingLot_Wake_def Some)
  qed
qed

subsection \<open>Giving up the processor\<close>

lemma inv_running:
  assumes "rt_inv_at pl s" "rt_running s = Some f"
  obtains fb where "rt_fibers s f = Some fb" "f_state fb = RunningState" "pl f = Some PlRunning"
    "members s PlRunning = [f]"
proof -
  have m: "members s PlRunning = [f]" using assms(2) by simp
  then have pf: "pl f = Some PlRunning" using places_member [OF inv_atD(2) [OF assms(1)], of f PlRunning] by simp
  with inv_atD(2) [OF assms(1)] obtain fb where "rt_fibers s f = Some fb" "state_fits PlRunning (f_state fb)"
    by (rule places_fiber)
  with m pf that show thesis by simp
qed

lemma inv_park:
  assumes places: "places_ok pl A (rt_fibers s)" and f: "rt_running s = Some f" "pl f = Some PlRunning" "A PlRunning = [f]"
    and p: "waiting_place p" and mem: "members s = A(p := A p @ [f])"
    and na: "\<not> rt_aborted s" and links: "links_ok (rt_fibers s) (rt_handles s)"
    and afters: "afters_ok (pl(f \<mapsto> p)) (rt_fibers s) (rt_handles s) (rt_futures s)"
    and ids: "ids_ok (rt_fibers s) (rt_handles s) (rt_next_id s) (rt_next_handle s)"
    and stacks: "stacks_ok (rt_fibers s) (stack_pool s) (next_stack s)"
  shows "rt_inv (Scheduler_Suspend s)"
proof -
  from places f(2) obtain fb where fb: "rt_fibers s f = Some fb" by (rule places_fiber)
  let ?fb = "fb\<lparr>f_state := Suspended\<rparr>"
  let ?s = "s\<lparr>rt_fibers := (rt_fibers s)(f \<mapsto> ?fb), rt_running := None\<rparr>"
  have pr: "PlRunning \<noteq> p" using p by auto
  have m: "members ?s = A(PlRunning := [], p := A p @ [f])" using pr by (simp add: mem fun_upd_twist)
  have "places_ok (pl(f \<mapsto> p)) (members ?s) (rt_fibers ?s)"
    unfolding m using places_move [OF places f(2) pr, of "[]" ?fb] f(3) p by (simp add: state_fits_waiting)
  moreover have "links_ok (rt_fibers ?s) (rt_handles ?s)" using links_fiber [OF links fb, of ?fb] by simp
  moreover have "afters_ok (pl(f \<mapsto> p)) (rt_fibers ?s) (rt_handles ?s) (rt_futures ?s)"
    using afters_same [OF afters fb handles_keep_same results_keep_same, of ?fb] afters_fiberD [OF afters fb] by simp
  moreover have "ids_ok (rt_fibers ?s) (rt_handles ?s) (rt_next_id ?s) (rt_next_handle ?s)"
    using ids_fiber [OF ids fb] by simp
  moreover have "stacks_ok (rt_fibers ?s) (stack_pool ?s) (next_stack ?s)"
    using stacks_fiber [OF stacks fb, of ?fb] by simp
  ultimately have "rt_inv_at (pl(f \<mapsto> p)) ?s" using na by (simp add: rt_inv_at_def)
  then show ?thesis unfolding Scheduler_Suspend_eq [OF f(1) fb] by (rule rt_invI)
qed

lemma afters_other_place:
  assumes ok: "afters_ok pl F H U" and f: "F f = Some fb" "pl f = Some PlRunning"
  shows "afters_ok (pl(f := q)) F H U"
proof -
  have "after_ok f q (f_after fb) H U"
    using afters_fiberD [OF ok f(1)] unfolding f(2) by (rule after_ok_elsewhere) simp_all
  then have "afters_ok (pl(f := q)) (F(f := F f)) H U"
    by (intro afters_upd [OF ok handles_keep_same results_keep_same]) (use f(1) in auto)
  then show ?thesis by simp
qed

lemma inv_SleepFor:
  assumes inv: "rt_inv_at pl s" and f: "rt_running s = Some f"
  shows "rt_inv (Scheduler_SleepFor d s)"
proof -
  note parts = inv_atD [OF inv]
  from inv f obtain fb where fb: "rt_fibers s f = Some fb" "pl f = Some PlRunning" "members s PlRunning = [f]"
    by (rule inv_running)
  let ?s = "s\<lparr>io_timers := io_timers s @ [(rt_clock s + d, f)]\<rparr>"
  have "rt_inv (Scheduler_Suspend ?s)"
    by (rule inv_park [where pl = pl and A = "members s" and p = PlTimer and f = f])
      (use parts f fb afters_other_place [OF parts(4) fb(1,2)] in simp_all)
  with f show ?thesis by (simp add: Scheduler_SleepFor_def with_current_def)
qed

lemma inv_Park:
  assumes inv: "rt_inv_at pl s" and f: "rt_running s = Some f"
  shows "rt_inv (WaitQueue_Park q s)"
proof -
  note parts = inv_atD [OF inv]
  from inv f obtain fb where fb: "rt_fibers s f = Some fb" "pl f = Some PlRunning" "members s PlRunning = [f]"
    by (rule inv_running)
  let ?s = "s\<lparr>rt_waits := (rt_waits s)(q := rt_waits s q @ [f])\<rparr>"
  have "rt_inv (Scheduler_Suspend ?s)"
    by (rule inv_park [where pl = pl and A = "members s" and p = "PlWait q" and f = f])
      (use parts f fb afters_other_place [OF parts(4) fb(1,2)] in simp_all)
  with f show ?thesis by (simp add: WaitQueue_Park_def with_current_def)
qed

lemma inv_Get:
  assumes inv: "rt_inv_at pl s" and f: "rt_running s = Some f"
    and u: "ff_result (rt_futures s u) = None" "waitee (ff_lot (rt_futures s u)) = None"
  shows "rt_inv (FiberFuture_Get u s)"
proof -
  note parts = inv_atD [OF inv]
  from inv f obtain fb where fb: "rt_fibers s f = Some fb" "pl f = Some PlRunning" "members s PlRunning = [f]"
    by (rule inv_running)
  let ?fb = "fb\<lparr>f_after := ReadsFuture u\<rparr>"
  let ?U = "(rt_futures s)(u := (rt_futures s u)\<lparr>ff_lot := \<lparr>waitee = Some f\<rparr>\<rparr>)"
  let ?s = "s\<lparr>rt_futures := ?U, rt_fibers := (rt_fibers s)(f \<mapsto> ?fb)\<rparr>"
  have "members s (PlFuture u) = []" using u by (simp add: future_waiter_def)
  then have m: "members ?s = (members s)(PlFuture u := members s (PlFuture u) @ [f])"
    using u by (simp add: future_waiter_def)
  have keep: "results_keep (rt_futures s) ?U" by (rule results_keep_upd) simp
  have "rt_inv (Scheduler_Suspend ?s)"
  proof (rule inv_park [where pl = pl and A = "members s" and p = "PlFuture u" and f = f])
    show "places_ok pl (members s) (rt_fibers ?s)" using places_same [OF parts(2) fb(1), of ?fb] by simp
    show "links_ok (rt_fibers ?s) (rt_handles ?s)" using links_fiber [OF parts(3) fb(1), of ?fb] by simp
    show "afters_ok (pl(f \<mapsto> PlFuture u)) (rt_fibers ?s) (rt_handles ?s) (rt_futures ?s)"
      using afters_upd [OF parts(4) handles_keep_same keep, where f = f and y = "Some ?fb"] by (simp add: after_ok_def)
    show "ids_ok (rt_fibers ?s) (rt_handles ?s) (rt_next_id ?s) (rt_next_handle ?s)"
      using ids_fiber [OF parts(5) fb(1)] by simp
    show "stacks_ok (rt_fibers ?s) (stack_pool ?s) (next_stack ?s)" using stacks_fiber [OF parts(6) fb(1), of ?fb] by simp
    show "members ?s = (members s)(PlFuture u := members s (PlFuture u) @ [f])" by (rule m)
  qed (use parts f fb in simp_all)
  with f fb(1) show ?thesis by (simp add: FiberFuture_Get_def ParkingLot_Park_def with_current_def set_after_eq)
qed

lemma inv_Join:
  assumes inv: "rt_inv_at pl s" and f: "rt_running s = Some f"
    and h: "rt_handles s h = Some j" "jh_fiber j \<noteq> None" "waitee (jh_lot j) = None"
  shows "rt_inv (JoinHandle_Join h s)"
proof (cases "jh_completed j")
  case True
  note parts = inv_atD [OF inv]
  let ?s = "s\<lparr>rt_handles := (rt_handles s)(h \<mapsto> j\<lparr>jh_fiber := None\<rparr>)\<rparr>"
  have "members s (PlJoin h) = []" using h True by (simp add: handle_waiter_def)
  then have m: "members ?s = members s" using True by (simp add: handle_waiter_def fun_upd_idem)
  have keep: "handles_keep g (rt_handles s) (rt_handles ?s)" for g
    using h by (simp add: handles_keep_def)
  have "rt_inv_at pl ?s"
    using parts m links_clear [OF parts(3) h(1) True] afters_handles [OF parts(4) keep results_keep_same]
      ids_clear [OF parts(5) h(1)]
    by (simp add: rt_inv_at_def)
  with f h True show ?thesis by (auto simp: JoinHandle_Join_def ParkingLot_Park_def with_current_def rt_invI)
next
  case False
  note parts = inv_atD [OF inv]
  from inv f obtain fb where fb: "rt_fibers s f = Some fb" "pl f = Some PlRunning" "members s PlRunning = [f]"
    by (rule inv_running)
  let ?fb = "fb\<lparr>f_after := ClearsHandle h\<rparr>" and ?j = "j\<lparr>jh_lot := \<lparr>waitee = Some f\<rparr>\<rparr>"
  let ?s = "s\<lparr>rt_handles := (rt_handles s)(h \<mapsto> ?j), rt_fibers := (rt_fibers s)(f \<mapsto> ?fb)\<rparr>"
  have "members s (PlJoin h) = []" using h by (simp add: handle_waiter_def)
  then have m: "members ?s = (members s)(PlJoin h := members s (PlJoin h) @ [f])"
    using False by (simp add: handle_waiter_def)
  have keep: "handles_keep f (rt_handles s) (rt_handles ?s)" using h by (simp add: handles_keep_def)
  have l: "links_ok (rt_fibers s) (rt_handles ?s)" using links_handle [OF parts(3) h(1,2), of ?j] by simp
  have i: "ids_ok (rt_fibers s) (rt_handles ?s) (rt_next_id s) (rt_next_handle s)"
    using ids_same [OF parts(5) h(1), of ?j] by simp
  have "rt_inv (Scheduler_Suspend ?s)"
  proof (rule inv_park [where pl = pl and A = "members s" and p = "PlJoin h" and f = f])
    show "places_ok pl (members s) (rt_fibers ?s)" using places_same [OF parts(2) fb(1), of ?fb] by simp
    show "links_ok (rt_fibers ?s) (rt_handles ?s)" using links_fiber [OF l fb(1), of ?fb] by simp
    show "afters_ok (pl(f \<mapsto> PlJoin h)) (rt_fibers ?s) (rt_handles ?s) (rt_futures ?s)"
      using afters_upd [OF parts(4) keep results_keep_same, where y = "Some ?fb"] h(2) by (simp add: after_ok_def)
    show "ids_ok (rt_fibers ?s) (rt_handles ?s) (rt_next_id ?s) (rt_next_handle ?s)"
      using ids_fiber [OF i fb(1)] by simp
    show "stacks_ok (rt_fibers ?s) (stack_pool ?s) (next_stack ?s)" using stacks_fiber [OF parts(6) fb(1), of ?fb] by simp
    show "members ?s = (members s)(PlJoin h := members s (PlJoin h) @ [f])" by (rule m)
  qed (use parts f fb in simp_all)
  with f fb(1) h False show ?thesis by (auto simp: JoinHandle_Join_def ParkingLot_Park_def with_current_def set_after_eq)
qed

lemma inv_Yield:
  assumes inv: "rt_inv_at pl s" and f: "rt_running s = Some f"
  shows "rt_inv (Scheduler_Yield s)"
proof -
  note parts = inv_atD [OF inv]
  from inv f obtain fb where fb: "rt_fibers s f = Some fb" "pl f = Some PlRunning" "members s PlRunning = [f]"
    by (rule inv_running)
  let ?fb = "fb\<lparr>f_state := Runnable\<rparr>"
  let ?s = "s\<lparr>rt_fibers := (rt_fibers s)(f \<mapsto> ?fb), rt_running := None, io_posted := io_posted s @ [f]\<rparr>"
  have m: "members ?s = (members s)(PlRunning := [], PlQueue := members s PlQueue @ [f])" by simp
  have "places_ok (pl(f \<mapsto> PlQueue)) (members ?s) (rt_fibers ?s)"
    unfolding m using places_move [OF parts(2) fb(2), of PlQueue "[]" ?fb] f by simp
  moreover have "links_ok (rt_fibers ?s) (rt_handles ?s)" using links_fiber [OF parts(3) fb(1), of ?fb] by simp
  moreover have "afters_ok (pl(f \<mapsto> PlQueue)) (rt_fibers ?s) (rt_handles ?s) (rt_futures ?s)"
  proof -
    note a = afters_other_place [OF parts(4) fb(1,2), of "Some PlQueue"]
    show ?thesis
      using afters_same [OF a fb(1) handles_keep_same results_keep_same, of ?fb] afters_fiberD [OF a fb(1)] by simp
  qed
  moreover have "ids_ok (rt_fibers ?s) (rt_handles ?s) (rt_next_id ?s) (rt_next_handle ?s)"
    using ids_fiber [OF parts(5) fb(1)] by simp
  moreover have "stacks_ok (rt_fibers ?s) (stack_pool ?s) (next_stack ?s)"
    using stacks_fiber [OF parts(6) fb(1), of ?fb] by simp
  ultimately have "rt_inv_at (pl(f \<mapsto> PlQueue)) ?s" using parts(1) by (simp add: rt_inv_at_def)
  moreover have "Scheduler_Yield s = ?s"
    using f fb(1) by (simp add: Scheduler_Yield_def with_current_def Fiber_SetState_def Scheduler_SwitchToScheduler_def
        Scheduler_Reschedule_def Scheduler_Schedule_def)
  ultimately show ?thesis by (metis rt_invI)
qed

subsection \<open>Running a fiber\<close>

text \<open>The effect of \<open>finish_call\<close> on the handles.\<close>

definition handles_after :: "after_switch \<Rightarrow> handles \<Rightarrow> handles" where
  "handles_after a H =
     (case a of
        ClearsHandle h \<Rightarrow> (case H h of None \<Rightarrow> H | Some j \<Rightarrow> H(h \<mapsto> j\<lparr>jh_fiber := None\<rparr>))
      | _ \<Rightarrow> H)"

lemma finish_call_eq:
  assumes "after_ok f (Some PlQueue) (f_after fb) (rt_handles s) (rt_futures s)"
  shows "finish_call f fb s =
    s\<lparr>rt_fibers := (rt_fibers s)(f \<mapsto> fb\<lparr>f_after := ReturnsAtOnce\<rparr>),
      rt_handles := handles_after (f_after fb) (rt_handles s)\<rparr>"
  using assms
  by (auto simp: finish_call_def handles_after_def after_ok_def Let_def split: after_switch.splits option.splits)

lemma handles_after_ok:
  assumes links: "links_ok F H" and own: "after_ok f (Some PlQueue) a H U"
  shows "links_ok F (handles_after a H)" and "handles_keep f H (handles_after a H)"
    and "ids_ok F H n m \<Longrightarrow> ids_ok F (handles_after a H) n m"
    and "handle_waiter (handles_after a H k) = handle_waiter (H k)"
proof -
  have "links_ok F (handles_after a H) \<and> handles_keep f H (handles_after a H) \<and>
    (ids_ok F H n m \<longrightarrow> ids_ok F (handles_after a H) n m) \<and>
    handle_waiter (handles_after a H k) = handle_waiter (H k)"
  proof (cases a)
    case (ClearsHandle h)
    with own obtain j where j: "H h = Some j" "jh_completed j" "waitee (jh_lot j) = Some f"
      by (auto simp: after_ok_def)
    then have "handles_after a H = H(h \<mapsto> j\<lparr>jh_fiber := None\<rparr>)" using ClearsHandle by (simp add: handles_after_def)
    moreover have "handles_keep f H (H(h \<mapsto> j\<lparr>jh_fiber := None\<rparr>))" using j by (simp add: handles_keep_def)
    ultimately show ?thesis
      using links_clear [OF links j(1,2)] ids_clear [of F H n m h j] j by (simp add: handle_waiter_def)
  qed (use links in \<open>simp_all add: handles_after_def\<close>)
  then show "links_ok F (handles_after a H)" "handles_keep f H (handles_after a H)"
    "ids_ok F H n m \<Longrightarrow> ids_ok F (handles_after a H) n m"
    "handle_waiter (handles_after a H k) = handle_waiter (H k)" by blast+
qed

lemma members_same_waiters:
  "(\<And>k. handle_waiter (H k) = handle_waiter (rt_handles s k)) \<Longrightarrow> members (s\<lparr>rt_handles := H\<rparr>) = members s"
  by (rule members_ext, rename_tac p, case_tac p) simp_all

lemma inv_Step:
  assumes inv: "rt_inv_at pl s" and idle: "rt_running s = None" and k: "k < length (io_posted s)"
  shows "rt_inv (Scheduler_Step (io_posted s ! k) (s\<lparr>io_posted := take k (io_posted s) @ drop (Suc k) (io_posted s)\<rparr>))"
    (is "rt_inv (Scheduler_Step ?f ?t)")
proof -
  note parts = inv_atD [OF inv]
  have d: "distinct (members s PlQueue)" by (rule places_distinct [OF parts(2)])
  note rm = remove_nth_distinct [of "members s PlQueue" k, OF d]
  have "?f \<in> set (members s PlQueue)" using k by simp
  then have pf: "pl ?f = Some PlQueue" unfolding places_member [OF parts(2)] .
  with parts(2) obtain fb where fb: "rt_fibers s ?f = Some fb" by (rule places_fiber)
  have own: "after_ok ?f (Some PlQueue) (f_after fb) (rt_handles s) (rt_futures s)"
    using afters_fiberD [OF parts(4) fb] pf by simp
  note ha = handles_after_ok [OF parts(3) own]
  let ?fb = "fb\<lparr>f_state := RunningState, f_after := ReturnsAtOnce\<rparr>"
  let ?H = "handles_after (f_after fb) (rt_handles s)"
  let ?s = "?t\<lparr>rt_running := Some ?f, rt_fibers := (rt_fibers s)(?f \<mapsto> ?fb), rt_handles := ?H\<rparr>"
  have m: "members ?s = (members s)(PlQueue := take k (io_posted s) @ drop (Suc k) (io_posted s),
      PlRunning := members s PlRunning @ [?f])"
    using idle by (subst members_same_waiters) (simp_all add: ha(4))
  have "places_ok (pl(?f \<mapsto> PlRunning)) (members ?s) (rt_fibers ?s)"
    unfolding m using places_move [OF parts(2) pf, of PlRunning "take k (io_posted s) @ drop (Suc k) (io_posted s)" ?fb] rm k
    by simp
  moreover have "links_ok (rt_fibers ?s) (rt_handles ?s)" using links_fiber [OF ha(1) fb, of ?fb] by simp
  moreover have "afters_ok (pl(?f \<mapsto> PlRunning)) (rt_fibers ?s) (rt_handles ?s) (rt_futures ?s)"
    using afters_upd [OF parts(4) ha(2) results_keep_same, where y = "Some ?fb"] by simp
  moreover have "ids_ok (rt_fibers ?s) (rt_handles ?s) (rt_next_id ?s) (rt_next_handle ?s)"
    using ids_fiber [OF ha(3) [OF parts(5)] fb] by simp
  moreover have "stacks_ok (rt_fibers ?s) (stack_pool ?s) (next_stack ?s)"
    using stacks_fiber [OF parts(6) fb, of ?fb] by simp
  ultimately have "rt_inv_at (pl(?f \<mapsto> PlRunning)) ?s" using parts(1) by (simp add: rt_inv_at_def)
  moreover have "Scheduler_Step ?f ?t = ?s"
    using fb own by (simp add: Scheduler_Step_def finish_call_eq)
  ultimately show ?thesis by (metis rt_invI)
qed

subsection \<open>The end of a fiber\<close>

lemma Scheduler_Terminate_eq:
  assumes "rt_running s = Some f" "rt_fibers s f = Some fb"
  shows "Scheduler_Terminate s =
    Fiber_dtor f (fb\<lparr>f_state := Terminated\<rparr>)
      (s\<lparr>rt_fibers := (rt_fibers s)(f \<mapsto> fb\<lparr>f_state := Terminated\<rparr>), rt_running := None,
         stack_pool := stack_pool s @ [f_stack fb]\<rparr>)"
  using assms
  by (simp add: Scheduler_Terminate_def with_current_def Fiber_SetState_def Scheduler_SwitchToScheduler_def
      Scheduler_Reschedule_def Scheduler_Destroy_def StackAllocator_Release_def)

lemma inv_Terminate:
  assumes inv: "rt_inv_at pl s" and f: "rt_running s = Some f"
  shows "rt_inv (Scheduler_Terminate s)"
proof -
  note parts = inv_atD [OF inv]
  from inv f obtain fb where fb: "rt_fibers s f = Some fb" "pl f = Some PlRunning" "members s PlRunning = [f]"
    by (rule inv_running)
  let ?pl = "pl(f := None)" and ?F = "(rt_fibers s)(f := None)" and ?A = "(members s)(PlRunning := [])"
  have places: "places_ok ?pl ?A ?F" using places_delete [OF parts(2) fb(2), of "[]"] f by simp
  have stacks: "stacks_ok ?F (stack_pool s @ [f_stack fb]) (next_stack s)" by (rule stacks_delete [OF parts(6) fb(1)])
  have afters: "handles_keep f (rt_handles s) H \<Longrightarrow> afters_ok ?pl ?F H (rt_futures s)" for H
    by (rule afters_upd [OF parts(4) _ results_keep_same]) simp_all
  let ?s0 = "s\<lparr>rt_running := None, stack_pool := stack_pool s @ [f_stack fb], rt_fibers := ?F\<rparr>"
  show ?thesis
  proof (cases "f_watcher fb")
    case None
    have "rt_inv_at ?pl ?s0"
      using parts(1) places stacks afters [OF handles_keep_same] links_delete [OF parts(3) fb(1) None]
        ids_fiber [OF parts(5) fb(1)] by (simp add: rt_inv_at_def)
    then show ?thesis
      unfolding Scheduler_Terminate_eq [OF f fb(1)] by (simp add: Fiber_dtor_def None rt_invI)
  next
    case (Some h)
    then obtain j where h: "rt_handles s h = Some j" "jh_fiber j = Some f" "\<not> jh_completed j"
      using links_watcher [OF parts(3) fb(1)] by blast
    let ?j = "j\<lparr>jh_completed := True\<rparr>"
    let ?H = "(rt_handles s)(h \<mapsto> ?j)"
    let ?s = "?s0\<lparr>rt_handles := ?H\<rparr>"
    have keep: "handles_keep f (rt_handles s) ?H" using h by (simp add: handles_keep_def)
    have links: "links_ok ?F ?H" by (rule links_complete [OF parts(3) fb(1) Some h(1)])
    have ids: "ids_ok ?F ?H (rt_next_id s) (rt_next_handle s)"
      using ids_same [OF ids_fiber [OF parts(5) fb(1), of None] h(1), of ?j] by simp
    have m: "members ?s = ?A(PlJoin h := [])" by (simp add: handle_waiter_def)
    have eq: "Scheduler_Terminate s = ParkingLot_Wake (jh_lot j) ?s"
      unfolding Scheduler_Terminate_eq [OF f fb(1)] using h by (simp add: Fiber_dtor_def Some JoinHandle_OnCompleted_def)
    show ?thesis
    proof (cases "waitee (jh_lot j)")
      case None
      then have "?A (PlJoin h) = []" using h by (simp add: handle_waiter_def)
      then have "members ?s = ?A" unfolding m by (rule fun_upd_idem)
      then have "rt_inv_at ?pl ?s"
        using parts(1) places stacks afters [OF keep] links ids by (simp add: rt_inv_at_def)
      then show ?thesis unfolding eq by (simp add: ParkingLot_Wake_def None rt_invI)
    next
      case (Some g)
      then have mg: "?A (PlJoin h) = [g]" using h by (simp add: handle_waiter_def)
      then have pg: "?pl g = Some (PlJoin h)" using places_member [OF places, of g "PlJoin h"] by simp
      then have gf: "g \<noteq> f" by auto
      have "rt_inv (Scheduler_Resume g ?s)"
      proof (rule inv_wake [where pl = ?pl and A = ?A and p = "PlJoin h" and xs = "[]"])
        show "set [] = set (?A (PlJoin h)) - {g}" using mg by simp
        fix gb assume "rt_fibers ?s g = Some gb"
        then have "after_ok g (?pl g) (f_after gb) ?H (rt_futures s)"
          using afters_fiberD [OF afters [OF keep]] by simp
        then show "after_ok g (Some PlQueue) (f_after gb) (rt_handles ?s) (rt_futures ?s)"
          unfolding pg by (auto simp: after_ok_def split: after_switch.splits)
      qed (use parts(1) places stacks afters [OF keep] links ids pg m in simp_all)
      then show ?thesis unfolding eq by (simp add: ParkingLot_Wake_def Some)
    qed
  qed
qed

subsection \<open>Spawning\<close>

lemma StackAllocator_Allocate_ok:
  assumes ok: "stacks_ok (rt_fibers s) (stack_pool s) (next_stack s)" and f: "rt_fibers s f = None"
    and alloc: "StackAllocator_Allocate s = (st, t)" and fb: "f_stack fb = st"
  obtains pool n where "t = s\<lparr>stack_pool := pool, next_stack := n\<rparr>" "stacks_ok ((rt_fibers s)(f \<mapsto> fb)) pool n"
proof (cases "stack_pool s = []")
  case False
  then have "st = last (stack_pool s)" "t = s\<lparr>stack_pool := butlast (stack_pool s), next_stack := next_stack s\<rparr>"
    using alloc by (auto simp: StackAllocator_Allocate_def StackAllocator_TakeFromPool_def)
  with stacks_take [OF ok False f] fb that show thesis by blast
next
  case True
  then have "st = next_stack s" "t = s\<lparr>stack_pool := stack_pool s, next_stack := Suc (next_stack s)\<rparr>"
    using alloc by (auto simp: StackAllocator_Allocate_def StackAllocator_AllocateNewStack_def)
  with stacks_new [OF ok f] fb that show thesis by blast
qed

lemma inv_Spawn:
  assumes inv: "rt_inv_at pl s"
  shows "rt_inv (api_Spawn s)"
proof -
  note parts = inv_atD [OF inv]
  obtain st t where alloc: "StackAllocator_Allocate s = (st, t)" by (cases "StackAllocator_Allocate s")
  let ?f = "rt_next_id s" and ?h = "rt_next_handle s"
  let ?fb = "\<lparr>f_state = Starting, f_stack = st, f_watcher = Some ?h, f_after = ReturnsAtOnce\<rparr>"
  let ?j = "\<lparr>jh_fiber = Some ?f, jh_completed = False, jh_lot = \<lparr>waitee = None\<rparr>\<rparr>"
  have fresh: "rt_fibers s ?f = None" "rt_handles s ?h = None" using parts(5) by (simp_all add: ids_ok_def)
  obtain pool n where t: "t = s\<lparr>stack_pool := pool, next_stack := n\<rparr>"
    and stacks: "stacks_ok ((rt_fibers s)(?f \<mapsto> ?fb)) pool n"
    by (rule StackAllocator_Allocate_ok [OF parts(6) fresh(1) alloc, of ?fb]) simp_all
  let ?s = "s\<lparr>stack_pool := pool, next_stack := n, rt_next_id := Suc ?f, io_posted := io_posted s @ [?f],
     rt_next_handle := Suc ?h, rt_handles := (rt_handles s)(?h \<mapsto> ?j), rt_fibers := (rt_fibers s)(?f \<mapsto> ?fb)\<rparr>"
  have "api_Spawn s = ?s"
    unfolding api_Spawn_def Scheduler_Spawn_def Scheduler_CreateFiber_def alloc
    by (simp add: t Scheduler_Schedule_def JoinHandle_ctor_def Fiber_SetWatcher_def Let_def)
  moreover have "rt_inv_at (pl(?f \<mapsto> PlQueue)) ?s"
  proof -
    have "members s (PlJoin ?h) = []" using fresh(2) by (simp add: handle_waiter_def)
    then have m: "members ?s = (members s)(PlQueue := members s PlQueue @ [?f])"
      by (simp add: handle_waiter_def fun_upd_idem)
    have "places_ok (pl(?f \<mapsto> PlQueue)) (members ?s) (rt_fibers ?s)"
      unfolding m using places_new [OF parts(2) fresh(1), of PlQueue ?fb] by simp
    moreover have "links_ok (rt_fibers ?s) (rt_handles ?s)"
      using links_spawn [OF parts(3) fresh, of ?fb ?j] parts(5) by (fastforce simp: ids_ok_def)
    moreover have "handles_keep ?f (rt_handles s) ((rt_handles s)(?h \<mapsto> ?j))"
      using fresh(2) by (simp add: handles_keep_def)
    then have "afters_ok (pl(?f \<mapsto> PlQueue)) (rt_fibers ?s) (rt_handles ?s) (rt_futures ?s)"
      using afters_upd [OF parts(4) _ results_keep_same, where f = ?f and y = "Some ?fb"] by simp
    moreover have "ids_ok (rt_fibers ?s) (rt_handles ?s) (rt_next_id ?s) (rt_next_handle ?s)"
      using ids_new_handle [OF ids_new_fiber [OF parts(5), of ?fb], of ?j] by simp
    ultimately show ?thesis using parts(1) stacks by (simp add: rt_inv_at_def)
  qed
  ultimately show ?thesis by (metis rt_invI)
qed

subsection \<open>Handles\<close>

lemma inv_Detach:
  assumes inv: "rt_inv_at pl s"
    and h: "rt_handles s h = Some j" "jh_fiber j \<noteq> None" "waitee (jh_lot j) = None" "\<not> jh_completed j"
  shows "rt_inv (JoinHandle_Detach h s)"
proof -
  note parts = inv_atD [OF inv]
  from h(2) obtain f where f: "jh_fiber j = Some f" by auto
  with links_live [OF parts(3) h(1) _ h(4)] obtain fb where fb: "rt_fibers s f = Some fb" by blast
  let ?fb = "fb\<lparr>f_watcher := None\<rparr>"
  let ?H = "(rt_handles s)(h \<mapsto> j\<lparr>jh_fiber := None\<rparr>)"
  let ?s = "s\<lparr>rt_handles := ?H, rt_fibers := (rt_fibers s)(f \<mapsto> ?fb)\<rparr>"
  have "members s (PlJoin h) = []" using h by (simp add: handle_waiter_def)
  then have m: "members ?s = members s" using h by (simp add: handle_waiter_def fun_upd_idem)
  have keep: "handles_keep g (rt_handles s) ?H" for g using h by (simp add: handles_keep_def)
  have a: "afters_ok pl (rt_fibers s) ?H (rt_futures s)" by (rule afters_handles [OF parts(4) keep results_keep_same])
  have "rt_inv_at pl ?s"
    using parts(1) m places_same [OF parts(2) fb, of ?fb] links_detach [OF parts(3) h(1) f h(4) h(3) fb]
      afters_same [OF a fb handles_keep_same results_keep_same, of ?fb] afters_fiberD [OF a fb]
      ids_fiber [OF ids_clear [OF parts(5) h(1)] fb] stacks_fiber [OF parts(6) fb, of ?fb]
    by (simp add: rt_inv_at_def)
  moreover have "JoinHandle_Detach h s = ?s"
    using h f fb by (simp add: JoinHandle_Detach_def Fiber_SetWatcher_def)
  ultimately show ?thesis by (metis rt_invI)
qed

lemma inv_move:
  assumes inv: "rt_inv_at pl s"
    and h: "rt_handles s h = Some j" "jh_fiber j \<noteq> None" "waitee (jh_lot j) = None"
  shows "rt_inv (JoinHandle_move h s)"
proof -
  note parts = inv_atD [OF inv]
  from h(2) obtain f where f: "jh_fiber j = Some f" by auto
  let ?k = "rt_next_handle s"
  let ?j = "\<lparr>jh_fiber = Some f, jh_completed = jh_completed j, jh_lot = \<lparr>waitee = None\<rparr>\<rparr>"
  let ?G = "(rt_handles s)(h \<mapsto> j\<lparr>jh_fiber := None\<rparr>)"
  let ?H = "?G(?k \<mapsto> ?j)"
  let ?s = "s\<lparr>rt_next_handle := Suc ?k, rt_handles := ?H\<rparr>"
  have k: "rt_handles s ?k = None" and fn: "f < rt_next_id s" using parts(5) h(1) f by (simp_all add: ids_ok_def)
  then have "?k \<noteq> h" using h by auto
  have hw: "handle_waiter (?H q) = handle_waiter (rt_handles s q)" for q
    using h k by (simp add: handle_waiter_def)
  have "members ?s = members (s\<lparr>rt_next_handle := Suc ?k\<rparr>)" by (rule members_same_waiters) (use hw in simp)
  then have m: "members ?s = members s" by simp
  have keep: "handles_keep g (rt_handles s) ?H" for g using h k by (auto simp: handles_keep_def)
  have a: "afters_ok pl (rt_fibers s) ?H (rt_futures s)" by (rule afters_handles [OF parts(4) keep results_keep_same])
  have i: "ids_ok (rt_fibers s) ?H (rt_next_id s) (Suc ?k)"
    using ids_new_handle [OF ids_clear [OF parts(5) h(1)], of ?j] fn by simp
  show ?thesis
  proof (cases "jh_completed j")
    case True
    have l: "links_ok (rt_fibers s) ?G" by (rule links_clear [OF parts(3) h(1) True])
    have "links_ok (rt_fibers s) ?H"
    proof (rule links_okI)
      fix g gb q assume "rt_fibers s g = Some gb" "f_watcher gb = Some q"
      from links_watcher [OF l this] k \<open>?k \<noteq> h\<close>
      show "\<exists>i. ?H q = Some i \<and> jh_fiber i = Some g \<and> \<not> jh_completed i" by (auto split: if_splits)
    next
      fix q i g assume "?H q = Some i" "jh_fiber i = Some g" "jh_completed i"
      then show "rt_fibers s g = None" using links_done [OF l, of q i g] links_done [OF parts(3) h(1) f True]
        by (auto split: if_splits)
    next
      fix q i g assume "?H q = Some i" "jh_fiber i = Some g" "\<not> jh_completed i"
      then show "\<exists>fb. rt_fibers s g = Some fb \<and> f_watcher fb = Some q"
        using links_live [OF l, of q i g] True by (auto split: if_splits)
    next
      fix q i assume "?H q = Some i" "jh_fiber i = None" "\<not> jh_completed i"
      then show "waitee (jh_lot i) = None" using links_idle [OF l, of q i] by (auto split: if_splits)
    qed
    then have "rt_inv_at pl ?s" using parts m a i by (simp add: rt_inv_at_def)
    moreover have "JoinHandle_move h s = ?s" using h f True by (simp add: JoinHandle_move_def Let_def)
    ultimately show ?thesis by (metis rt_invI)
  next
    case False
    with links_live [OF parts(3) h(1) f] obtain fb where fb: "rt_fibers s f = Some fb" by blast
    let ?fb = "fb\<lparr>f_watcher := Some ?k\<rparr>"
    let ?t = "?s\<lparr>rt_fibers := (rt_fibers s)(f \<mapsto> ?fb)\<rparr>"
    have l: "links_ok ((rt_fibers s)(f \<mapsto> fb\<lparr>f_watcher := None\<rparr>)) ?G"
      by (rule links_detach [OF parts(3) h(1) f False h(3) fb])
    have w: "jh_fiber i \<noteq> Some f" if "?G q = Some i" for q i
      using that links_same_fiber [OF parts(3) h(1) _ f _ fb, of q i] by (auto split: if_splits)
    have "links_ok ((rt_fibers s)(f \<mapsto> ?fb)) ?H"
      using links_new_handle [OF l, where h = ?k and f = f and fb = "fb\<lparr>f_watcher := None\<rparr>" and j' = ?j] w k \<open>?k \<noteq> h\<close> False by simp
    then have "rt_inv_at pl ?t"
      using parts(1) m places_same [OF parts(2) fb, of ?fb] stacks_fiber [OF parts(6) fb, of ?fb] ids_fiber [OF i fb]
        afters_same [OF a fb handles_keep_same results_keep_same, of ?fb] afters_fiberD [OF a fb]
      by (simp add: rt_inv_at_def)
    moreover have "JoinHandle_move h s = ?t"
      using h f False fb by (simp add: JoinHandle_move_def Let_def Fiber_SetWatcher_def)
    ultimately show ?thesis by (metis rt_invI)
  qed
qed

lemma inv_drop:
  assumes inv: "rt_inv_at pl s" and h: "rt_handles s h = Some j" "jh_fiber j = None"
  shows "rt_inv (JoinHandle_dtor h s)"
proof -
  note parts = inv_atD [OF inv]
  let ?H = "(rt_handles s)(h := None)"
  let ?s = "s\<lparr>rt_handles := ?H\<rparr>"
  have "members s (PlJoin h) = []" using h links_idle [OF parts(3) h] by (auto simp: handle_waiter_def)
  then have m: "members ?s = members s" by (simp add: handle_waiter_def fun_upd_idem)
  have keep: "handles_keep g (rt_handles s) ?H" for g using h by (simp add: handles_keep_def)
  have "rt_inv_at pl ?s"
    using parts m links_drop [OF parts(3) h] afters_handles [OF parts(4) keep results_keep_same]
      ids_handle [OF parts(5) h(1), of None] by (simp add: rt_inv_at_def)
  with h show ?thesis by (simp add: JoinHandle_dtor_def rt_invI)
qed

subsection \<open>The system\<close>

lemma inv_fiber_act:
  assumes inv: "rt_inv_at pl s" and f: "rt_running s = Some f" and ok: "client_allowed l s"
    and step: "fiber_act l s = Some s'"
  shows "rt_inv s'"
proof (cases l)
  case (ActJoin h)
  with ok obtain j where "rt_handles s h = Some j" "jh_fiber j \<noteq> None" "waitee (jh_lot j) = None"
    by (auto split: option.splits)
  with inv f have "rt_inv (JoinHandle_Join h s)" by (rule inv_Join)
  with step ActJoin show ?thesis by simp
next
  case (ActDetach h)
  with ok obtain j where "rt_handles s h = Some j" "jh_fiber j \<noteq> None" "waitee (jh_lot j) = None" "\<not> jh_completed j"
    by (auto split: option.splits)
  with inv have "rt_inv (JoinHandle_Detach h s)" by (rule inv_Detach)
  with step ActDetach show ?thesis by simp
next
  case (ActMove h)
  with ok obtain j where "rt_handles s h = Some j" "jh_fiber j \<noteq> None" "waitee (jh_lot j) = None"
    by (auto split: option.splits)
  with inv have "rt_inv (JoinHandle_move h s)" by (rule inv_move)
  with step ActMove show ?thesis by simp
next
  case (ActDrop h)
  with ok obtain j where "rt_handles s h = Some j" "jh_fiber j = None" by (auto split: option.splits)
  with inv have "rt_inv (JoinHandle_dtor h s)" by (rule inv_drop)
  with step ActDrop show ?thesis by simp
next
  case (ActGet u)
  with inv f ok have "rt_inv (FiberFuture_Get u s)" by (intro inv_Get) simp_all
  with step ActGet show ?thesis by simp
next
  case (ActSetValue u v)
  with inv ok have "rt_inv (FiberFuture_SetValue u v s)" unfolding FiberFuture_SetValue_def by (intro inv_future_set) simp_all
  with step ActSetValue show ?thesis by simp
next
  case (ActSetError u e)
  with inv ok have "rt_inv (FiberFuture_SetError u e s)" unfolding FiberFuture_SetError_def by (intro inv_future_set) simp_all
  with step ActSetError show ?thesis by simp
next
  case ActSpawn
  with step inv_Spawn [OF inv] show ?thesis by simp
next
  case ActYield
  with step inv_Yield [OF inv f] show ?thesis by simp
next
  case ActReturn
  with step inv_Terminate [OF inv f] show ?thesis by (simp add: Fiber_Trampoline_def)
next
  case ActThrow
  with ok show ?thesis by simp
next
  case (ActDestroyQueue q)
  with step ok rt_invI [OF inv] show ?thesis by (simp add: WaitQueue_dtor_def)
next
  case (ActSleepFor d)
  with step inv_SleepFor [OF inv f, of d] show ?thesis by simp
next
  case (ActPark q)
  with step inv_Park [OF inv f, of q] show ?thesis by simp
next
  case (ActWakeOne q)
  with step inv_WakeOne [OF rt_invI [OF inv], of q] show ?thesis by simp
next
  case (ActWakeAll q)
  with step inv_WakeAll [OF rt_invI [OF inv], of q] show ?thesis by simp
qed (use step in simp_all)

lemma inv_loop_act:
  assumes inv: "rt_inv_at pl s" and idle: "rt_running s = None" and ok: "client_allowed l s"
    and step: "loop_act l s = Some s'"
  shows "rt_inv s'"
proof (cases l)
  case (IoPosted k)
  with step inv_Step [OF inv idle] show ?thesis by (auto split: if_splits)
next
  case (IoTimer k)
  with step inv_timer [OF inv] show ?thesis by (auto split: if_splits)
next
  case (IoCompletes u v)
  with inv ok have "rt_inv (FiberFuture_SetValue u v s)" unfolding FiberFuture_SetValue_def by (intro inv_future_set) simp_all
  with step IoCompletes show ?thesis by simp
next
  case (IoFails u e)
  with inv ok have "rt_inv (FiberFuture_SetError u e s)" unfolding FiberFuture_SetError_def by (intro inv_future_set) simp_all
  with step IoFails show ?thesis by simp
next
  case Tick
  moreover have "rt_inv_at pl (s\<lparr>rt_clock := Suc (rt_clock s)\<rparr>)" using inv by (simp add: rt_inv_at_def)
  ultimately show ?thesis using step by (auto intro: rt_invI)
qed (use step in simp_all)

lemma rt_inv_step:
  assumes "rt_inv s" "disciplined_step l s = Some s'"
  shows "rt_inv s'"
proof -
  from assms(1) obtain pl where pl: "rt_inv_at pl s" by (auto simp: rt_inv_def)
  from assms(2) have ok: "client_allowed l s" and step: "fiber_step l s = Some s'"
    by (auto simp: disciplined_step_def split: if_splits)
  from step have na: "\<not> rt_aborted s" by (auto simp: fiber_step_def)
  show ?thesis
  proof (cases "rt_running s")
    case None
    with step na have "loop_act l s = Some s'" by (simp add: fiber_step_def)
    with pl None ok show ?thesis by (rule inv_loop_act)
  next
    case (Some f)
    with step na have "fiber_act l s = Some s'" by (simp add: fiber_step_def)
    with pl Some ok show ?thesis by (rule inv_fiber_act)
  qed
qed

lemma rt_start_eq:
  "rt_start = \<lparr>rt_fibers = [0 \<mapsto> \<lparr>f_state = Starting, f_stack = 0, f_watcher = None, f_after = ReturnsAtOnce\<rparr>],
      rt_next_id = 1, io_posted = [0], io_timers = [], rt_running = None,
      rt_clock = 0, rt_waits = (\<lambda>_. []), rt_handles = (\<lambda>_. None), rt_next_handle = 0,
      rt_futures = (\<lambda>_. \<lparr>ff_result = None, ff_lot = \<lparr>waitee = None\<rparr>\<rparr>), stack_pool = [], next_stack = 1,
      rt_aborted = False\<rparr>"
  by (simp add: rt_start_def Scheduler_Spawn_def Scheduler_CreateFiber_def StackAllocator_Allocate_def
      StackAllocator_AllocateNewStack_def Scheduler_Schedule_def)

lemma rt_inv_start: "rt_inv rt_start"
proof (rule rt_invI [where pl = "[0 \<mapsto> PlQueue]"])
  have m: "members rt_start p = (if p = PlQueue then [0] else [])" for p
    by (cases p) (simp_all add: rt_start_eq handle_waiter_def future_waiter_def)
  have "places_ok [0 \<mapsto> PlQueue] (members rt_start) (rt_fibers rt_start)"
    unfolding places_ok_def m by (auto simp: rt_start_eq)
  moreover have "links_ok (rt_fibers rt_start) (rt_handles rt_start)" by (simp add: links_ok_def rt_start_eq)
  moreover have "afters_ok [0 \<mapsto> PlQueue] (rt_fibers rt_start) (rt_handles rt_start) (rt_futures rt_start)"
    by (simp add: afters_ok_def rt_start_eq)
  moreover have "ids_ok (rt_fibers rt_start) (rt_handles rt_start) (rt_next_id rt_start) (rt_next_handle rt_start)"
    by (simp add: ids_ok_def rt_start_eq)
  moreover have "stacks_ok (rt_fibers rt_start) (stack_pool rt_start) (next_stack rt_start)"
    by (simp add: stacks_ok_def rt_start_eq)
  ultimately show "rt_inv_at [0 \<mapsto> PlQueue] rt_start" by (simp add: rt_inv_at_def rt_start_eq)
qed

interpretation fibers: invariant_system disciplined_step rt_start rt_inv
  by unfold_locales (auto intro: rt_inv_start rt_inv_step)

end
