(* ===== verification/Fiber_Properties.thy ===== *)
theory Fiber_Properties
  imports Fiber_Invariant
begin

text \<open>
  What the fiber runtime guarantees to disciplined clients: no failed assertion, one place per
  fiber, private stacks, sleeping long enough, joining. The
  last section shows two ways in which undisciplined clients fail.
\<close>

section \<open>Time and order\<close>

text \<open>Everything but the loop taking a posted function or a timer only adds to the two queues.\<close>

definition rt_grows :: "runtime \<Rightarrow> runtime \<Rightarrow> bool" where
  "rt_grows s s' \<longleftrightarrow> rt_clock s' = rt_clock s \<and> set (io_timers s) \<subseteq> set (io_timers s') \<and>
     (\<exists>new. io_posted s' = io_posted s @ new)"

lemma rt_grows_refl [simp]: "rt_grows s s"
  by (simp add: rt_grows_def)

lemma rt_grows_trans: "rt_grows s t \<Longrightarrow> rt_grows t u \<Longrightarrow> rt_grows s u"
  by (auto simp: rt_grows_def)

lemma rt_grows_frame [simp]:
  "rt_grows s (t\<lparr>rt_fibers := F\<rparr>) \<longleftrightarrow> rt_grows s t"
  "rt_grows s (t\<lparr>rt_running := r\<rparr>) \<longleftrightarrow> rt_grows s t"
  "rt_grows s (t\<lparr>rt_next_id := n\<rparr>) \<longleftrightarrow> rt_grows s t"
  "rt_grows s (t\<lparr>rt_waits := W\<rparr>) \<longleftrightarrow> rt_grows s t"
  "rt_grows s (t\<lparr>rt_handles := H\<rparr>) \<longleftrightarrow> rt_grows s t"
  "rt_grows s (t\<lparr>rt_next_handle := n\<rparr>) \<longleftrightarrow> rt_grows s t"
  "rt_grows s (t\<lparr>rt_futures := U\<rparr>) \<longleftrightarrow> rt_grows s t"
  "rt_grows s (t\<lparr>stack_pool := xs\<rparr>) \<longleftrightarrow> rt_grows s t"
  "rt_grows s (t\<lparr>next_stack := n\<rparr>) \<longleftrightarrow> rt_grows s t"
  "rt_grows s (rt_abort t) \<longleftrightarrow> rt_grows s t"
  by (simp_all add: rt_grows_def rt_abort_def)

lemma rt_grows_posted [simp]: "rt_grows s t \<Longrightarrow> rt_grows s (t\<lparr>io_posted := io_posted t @ xs\<rparr>)"
  by (auto simp: rt_grows_def)

lemma rt_grows_timers [simp]: "rt_grows s t \<Longrightarrow> rt_grows s (t\<lparr>io_timers := io_timers t @ xs\<rparr>)"
  by (auto simp: rt_grows_def)

lemma rt_grows_basic [simp]:
  assumes "rt_grows s t"
  shows "rt_grows s (Scheduler_Schedule f t)" "rt_grows s (Fiber_SetState f st t)"
    "rt_grows s (Fiber_SetWatcher f w t)" "rt_grows s (set_after f a t)"
    "rt_grows s (StackAllocator_Release st' t)" "rt_grows s (snd (StackAllocator_Allocate t))"
  using assms
  by (simp_all add: Scheduler_Schedule_def Fiber_SetState_def Fiber_SetWatcher_def set_after_def
      StackAllocator_Release_def StackAllocator_Allocate_def StackAllocator_TakeFromPool_def
      StackAllocator_AllocateNewStack_def split: option.split)

lemma rt_grows_Resume [simp]: "rt_grows s t \<Longrightarrow> rt_grows s (Scheduler_Resume f t)"
  by (simp add: Scheduler_Resume_def split: option.split)

lemma rt_grows_Wake [simp]: "rt_grows s t \<Longrightarrow> rt_grows s (ParkingLot_Wake lot t)"
  by (simp add: ParkingLot_Wake_def split: option.split)

lemma rt_grows_OnCompleted [simp]: "rt_grows s t \<Longrightarrow> rt_grows s (JoinHandle_OnCompleted h t)"
  by (simp add: JoinHandle_OnCompleted_def split: option.split)

lemma rt_grows_Destroy [simp]: "rt_grows s t \<Longrightarrow> rt_grows s (Scheduler_Destroy f t)"
  by (simp add: Scheduler_Destroy_def Fiber_dtor_def Let_def split: option.split)

lemma rt_grows_Switch [simp]: "rt_grows s t \<Longrightarrow> rt_grows s (Scheduler_SwitchToScheduler f t)"
  by (simp add: Scheduler_SwitchToScheduler_def Scheduler_Reschedule_def split: option.split fiber_state.split)

lemma rt_grows_Suspend [simp]: "rt_grows s t \<Longrightarrow> rt_grows s (Scheduler_Suspend t)"
  by (simp add: Scheduler_Suspend_def with_current_def split: option.split)

lemma rt_grows_wake_all [simp]: "rt_grows s t \<Longrightarrow> rt_grows s (wake_all_loop fs q t)"
  by (induction fs arbitrary: t) simp_all

lemma rt_grows_Spawn [simp]: "rt_grows s t \<Longrightarrow> rt_grows s (api_Spawn t)"
  by (cases "StackAllocator_Allocate t")
    (use rt_grows_basic(6) [of s t] in \<open>auto simp: api_Spawn_def Scheduler_Spawn_def Scheduler_CreateFiber_def
      JoinHandle_ctor_def Let_def\<close>)

lemma rt_grows_Set [simp]: "rt_grows s t \<Longrightarrow> rt_grows s (FiberFuture_Set u v t)"
  by (simp add: FiberFuture_Set_def)

lemma rt_grows_SetValue [simp]: "rt_grows s t \<Longrightarrow> rt_grows s (FiberFuture_SetValue u v t)"
  "rt_grows s t \<Longrightarrow> rt_grows s (FiberFuture_SetError u e t)"
  by (simp_all add: FiberFuture_SetValue_def FiberFuture_SetError_def)

lemma rt_grows_act: "fiber_act l s = Some s' \<Longrightarrow> rt_grows s s'"
  by (cases l)
    (auto simp: Scheduler_Yield_def Scheduler_SleepFor_def Scheduler_Terminate_def JoinHandle_Join_def ParkingLot_Park_def
      JoinHandle_Detach_def JoinHandle_move_def JoinHandle_dtor_def WaitQueue_Park_def WaitQueue_WakeOne_def WaitQueue_dtor_def
      Fiber_Trampoline_def
      WaitQueue_WakeAll_def FiberFuture_Get_def with_current_def Let_def split: option.split list.split)

lemma Scheduler_Step_frame [simp]:
  "rt_clock (Scheduler_Step f t) = rt_clock t" "io_timers (Scheduler_Step f t) = io_timers t"
  "io_posted (Scheduler_Step f t) = io_posted t"
  by (simp_all add: Scheduler_Step_def finish_call_def rt_abort_def Let_def split: option.split after_switch.split)

text \<open>A deadline is still in a timer or has passed.\<close>

definition due_later :: "nat \<Rightarrow> fid \<Rightarrow> runtime \<Rightarrow> bool" where
  "due_later D f s \<longleftrightarrow> (D, f) \<in> set (io_timers s) \<or> D \<le> rt_clock s"

lemma due_later_grows: "rt_grows s t \<Longrightarrow> due_later D f s \<Longrightarrow> due_later D f t"
  by (auto simp: rt_grows_def due_later_def)

lemma due_later_loop:
  assumes "loop_act l s = Some s'" "due_later D f s"
  shows "due_later D f s'"
proof (cases l)
  case (IoPosted k)
  with assms show ?thesis by (auto simp: due_later_def split: if_splits)
next
  case (IoTimer k)
  let ?t = "s\<lparr>io_timers := take k (io_timers s) @ drop (Suc k) (io_timers s)\<rparr>"
  from IoTimer assms(1) have k: "k < length (io_timers s)" "fst (io_timers s ! k) \<le> rt_clock s"
    and s': "s' = Scheduler_Resume (snd (io_timers s ! k)) ?t" by (auto split: if_splits)
  have "set (io_timers s) = insert (io_timers s ! k) (set (io_timers ?t))"
    using id_take_nth_drop [OF k(1)] by (metis (no_types) Un_insert_right list.simps(15) runtime.select_convs(4)
        runtime.surjective runtime.update_convs(4) set_append)
  with k assms(2) have "due_later D f ?t" by (cases "io_timers s ! k") (auto simp: due_later_def)
  then show ?thesis unfolding s' by (rule due_later_grows [rotated]) simp
next
  case (IoCompletes u v)
  with assms due_later_grows [OF rt_grows_Set [OF rt_grows_refl], of D f s u "Inr v"] show ?thesis
    by (simp add: FiberFuture_SetValue_def)
next
  case (IoFails u e)
  with assms due_later_grows [OF rt_grows_Set [OF rt_grows_refl], of D f s u "Inl e"] show ?thesis
    by (simp add: FiberFuture_SetError_def)
next
  case Tick
  with assms show ?thesis by (auto simp: due_later_def)
qed (use assms in simp_all)

lemma due_later_run: "run disciplined_step ls s = Some s' \<Longrightarrow> due_later D f s \<Longrightarrow> due_later D f s'"
proof (induction ls arbitrary: s)
  case (Cons l ls)
  from Cons.prems(1) obtain t where t: "disciplined_step l s = Some t" "run disciplined_step ls t = Some s'"
    by (auto split: option.splits)
  then have "fiber_act l s = Some t \<or> loop_act l s = Some t"
    by (auto simp: disciplined_step_def fiber_step_def split: if_splits option.splits)
  with Cons.prems(2) have "due_later D f t" by (auto intro: due_later_loop due_later_grows rt_grows_act)
  with t(2) Cons.IH show ?case by blast
qed simp

section \<open>Properties\<close>

text \<open>C9: If the clients of the runtime keep its discipline (a handle is joined or detached once and
  before it is dropped, a future is set and read at most once and read before it is set), no assertion
  fails and no deleted fiber or handle is accessed, whatever the loop and the fibers do. Every
  fiber that has not ended is in exactly one place, once: it runs, its lambda is posted, or it is in one
  timer, wait queue, join handle or future; its state says which, and only fibers that have not
  ended are in these places.\<close>

theorem Scheduler_every_fiber_in_one_place:
  assumes "reachable disciplined_step rt_start s"
  shows "\<not> rt_aborted s \<and> (\<forall>p. distinct (members s p)) \<and>
    (\<forall>p f. f \<in> set (members s p) \<longrightarrow> (\<exists>fb. rt_fibers s f = Some fb \<and> state_fits p (f_state fb))) \<and>
    (\<forall>f fb. rt_fibers s f = Some fb \<longrightarrow> (\<exists>!p. f \<in> set (members s p)))"
proof -
  from assms obtain pl where "rt_inv_at pl s" using fibers.inv_reachable by (auto simp: rt_inv_def)
  note parts = inv_atD [OF this]
  have "distinct (members s p)" for p by (rule places_distinct [OF parts(2)])
  moreover have "\<exists>fb. rt_fibers s f = Some fb \<and> state_fits p (f_state fb)" if "f \<in> set (members s p)" for p f
    using that parts(2) by (metis places_fiber places_member)
  moreover have "\<exists>!p. f \<in> set (members s p)" if f: "rt_fibers s f = Some fb" for f fb
  proof -
    from f parts(2) obtain p where "pl f = Some p" by (fastforce simp: places_ok_def)
    with places_member [OF parts(2), of f] show ?thesis by auto
  qed
  ultimately show ?thesis using parts(1) by blast
qed

lemmas fiber_run_simps = Fiber_Trampoline_def disciplined_step_def fiber_step_def rt_start_eq api_Spawn_def Scheduler_Spawn_def
  Scheduler_CreateFiber_def StackAllocator_Allocate_def StackAllocator_TakeFromPool_def StackAllocator_AllocateNewStack_def
  StackAllocator_Release_def Scheduler_Schedule_def JoinHandle_ctor_def Fiber_SetWatcher_def Fiber_SetState_def
  Scheduler_Step_def finish_call_def Scheduler_Yield_def Scheduler_Suspend_def Scheduler_Terminate_def
  Scheduler_SleepFor_def Scheduler_SwitchToScheduler_def Scheduler_Reschedule_def Scheduler_Destroy_def Fiber_dtor_def
  JoinHandle_OnCompleted_def ParkingLot_Wake_def Scheduler_Resume_def JoinHandle_Join_def ParkingLot_Park_def JoinHandle_Detach_def
  WaitQueue_Park_def WaitQueue_WakeOne_def FiberFuture_Get_def FiberFuture_Set_def FiberFuture_SetValue_def FiberFuture_SetError_def set_after_def with_current_def
  rt_abort_def Let_def

text \<open>The schedule of the witnesses: the first fiber spawns a second one and joins it; the second one
  sleeps for two ticks.\<close>

definition join_schedule :: "fiber_label list" where
  "join_schedule = [IoPosted 0, ActSpawn, ActJoin 0, IoPosted 0]"

lemma join_schedule_runs:
  "\<exists>s. run disciplined_step join_schedule rt_start = Some s \<and> rt_running s = Some 1"
  by (simp add: join_schedule_def fiber_run_simps)

theorem Scheduler_every_fiber_in_one_place_witness:
  "\<exists>s. run disciplined_step join_schedule rt_start = Some s \<and> \<not> rt_aborted s \<and> rt_running s = Some 1"
  using join_schedule_runs Scheduler_every_fiber_in_one_place [OF run_reachable] by blast

text \<open>Two fibers that have not ended never share a stack, and no stack in the pool is in use.\<close>

theorem StackAllocator_no_shared_stack:
  assumes "reachable disciplined_step rt_start s"
    and "rt_fibers s f = Some fb" and "rt_fibers s g = Some gb" and "f \<noteq> g"
  shows "f_stack fb \<noteq> f_stack gb \<and> f_stack fb \<notin> set (stack_pool s)"
proof -
  from assms(1) obtain pl where "rt_inv_at pl s" using fibers.inv_reachable by (auto simp: rt_inv_def)
  from inv_atD(6) [OF this] assms(2-4) show ?thesis unfolding stacks_ok_def by blast
qed

lemma join_schedule_fibers:
  "\<exists>s fb gb. run disciplined_step join_schedule rt_start = Some s \<and> rt_fibers s 0 = Some fb \<and> rt_fibers s 1 = Some gb"
  by (simp add: join_schedule_def fiber_run_simps)

theorem StackAllocator_no_shared_stack_witness:
  "\<exists>s fb gb. run disciplined_step join_schedule rt_start = Some s \<and> rt_fibers s 0 = Some fb \<and>
     rt_fibers s 1 = Some gb \<and> f_stack fb \<noteq> f_stack gb"
  using join_schedule_fibers StackAllocator_no_shared_stack [OF run_reachable, where f = 0 and g = 1] by fastforce

text \<open>C10: A fiber that calls \<open>SleepFor\<close> does not run again before that time has passed.\<close>

theorem Scheduler_SleepFor_not_early:
  assumes "reachable disciplined_step rt_start s" and "rt_running s = Some f"
    and "disciplined_step (ActSleepFor d) s = Some s1" and "run disciplined_step ls s1 = Some s2"
    and "rt_running s2 = Some f"
  shows "rt_clock s + d \<le> rt_clock s2"
proof -
  have "s1 = Scheduler_SleepFor d s" using assms(2,3) by (auto simp: disciplined_step_def fiber_step_def split: if_splits)
  moreover have "rt_grows (s\<lparr>io_timers := io_timers s @ [(rt_clock s + d, f)]\<rparr>) (Scheduler_SleepFor d s)"
    using assms(2) by (simp add: Scheduler_SleepFor_def with_current_def)
  then have "due_later (rt_clock s + d) f (Scheduler_SleepFor d s)" by (rule due_later_grows) (simp add: due_later_def)
  ultimately have due: "due_later (rt_clock s + d) f s2" using due_later_run [OF assms(4)] by simp
  have "reachable disciplined_step rt_start s2"
    using assms by (blast intro: reachable_run reachable.step)
  then obtain pl where "rt_inv_at pl s2" using fibers.inv_reachable by (auto simp: rt_inv_def)
  note pl = places_member [OF inv_atD(2) [OF this], of f]
  have "pl f = Some PlRunning" using pl [of PlRunning] assms(5) by simp
  then have "f \<notin> set (members s2 PlTimer)" unfolding pl by simp
  then have "(rt_clock s + d, f) \<notin> set (io_timers s2)" by force
  with due show ?thesis by (simp add: due_later_def)
qed

definition sleep_schedule :: "fiber_label list" where
  "sleep_schedule = [Tick, Tick, IoTimer 0, IoPosted 0]"

lemma sleep_schedule_runs:
  "\<exists>s s1 s2. run disciplined_step join_schedule rt_start = Some s \<and> rt_running s = Some 1 \<and>
     disciplined_step (ActSleepFor 2) s = Some s1 \<and> run disciplined_step sleep_schedule s1 = Some s2 \<and>
     rt_running s2 = Some 1"
  by (simp add: join_schedule_def sleep_schedule_def fiber_run_simps)

theorem Scheduler_SleepFor_not_early_witness:
  "\<exists>s s1 s2. run disciplined_step join_schedule rt_start = Some s \<and>
     disciplined_step (ActSleepFor 2) s = Some s1 \<and> run disciplined_step sleep_schedule s1 = Some s2 \<and>
     rt_clock s + 2 \<le> rt_clock s2"
proof -
  obtain s s1 s2 where "run disciplined_step join_schedule rt_start = Some s" "rt_running s = Some 1"
    "disciplined_step (ActSleepFor 2) s = Some s1" "run disciplined_step sleep_schedule s1 = Some s2"
    "rt_running s2 = Some 1"
    using sleep_schedule_runs by blast
  with Scheduler_SleepFor_not_early [OF run_reachable] show ?thesis by blast
qed

text \<open>C11: \<open>Join\<close> returns only after the joined fiber has been destroyed: a fiber suspended in \<open>Join\<close> is
  posted only then, and \<open>Join\<close> returns without suspending only then.\<close>

theorem JoinHandle_Join_waits_for_end:
  assumes "reachable disciplined_step rt_start s"
  shows "(\<forall>f fb h. f \<in> set (io_posted s) \<longrightarrow> rt_fibers s f = Some fb \<longrightarrow> f_after fb = ClearsHandle h \<longrightarrow>
      (\<exists>j g. rt_handles s h = Some j \<and> jh_fiber j = Some g \<and> rt_fibers s g = None)) \<and>
    (\<forall>h s' j g. disciplined_step (ActJoin h) s = Some s' \<longrightarrow> rt_running s' \<noteq> None \<longrightarrow>
      rt_handles s h = Some j \<longrightarrow> jh_fiber j = Some g \<longrightarrow> rt_fibers s g = None)"
proof (intro conjI allI impI)
  from assms obtain pl where "rt_inv_at pl s" using fibers.inv_reachable by (auto simp: rt_inv_def)
  note parts = inv_atD [OF this]
  {
    fix f fb h assume a: "f \<in> set (io_posted s)" "rt_fibers s f = Some fb" "f_after fb = ClearsHandle h"
    have "pl f = Some PlQueue" using places_member [OF parts(2), of f PlQueue] a(1) by simp
    with afters_fiberD [OF parts(4) a(2)] a(3) obtain j g
      where j: "rt_handles s h = Some j" "jh_fiber j = Some g" "jh_completed j" by (auto simp: after_ok_def)
    with links_done [OF parts(3)] show "\<exists>j g. rt_handles s h = Some j \<and> jh_fiber j = Some g \<and> rt_fibers s g = None"
      by blast
  next
    fix h s' j g
    assume a: "disciplined_step (ActJoin h) s = Some s'" "rt_running s' \<noteq> None" "rt_handles s h = Some j" "jh_fiber j = Some g"
    then obtain f where f: "rt_running s = Some f" and s': "s' = JoinHandle_Join h s"
      by (auto simp: disciplined_step_def fiber_step_def split: if_splits option.splits)
    from \<open>rt_inv_at pl s\<close> f obtain fb where fb: "rt_fibers s f = Some fb" by (rule inv_running)
    have "jh_completed j"
    proof (rule ccontr)
      assume "\<not> jh_completed j"
      then have "rt_running (JoinHandle_Join h s) = None"
        using f fb a(3,4) by (simp add: JoinHandle_Join_def ParkingLot_Park_def with_current_def set_after_eq Scheduler_Suspend_eq)
      with a(2) s' show False by simp
    qed
    with links_done [OF parts(3) a(3,4)] show "rt_fibers s g = None" by blast
  }
qed

lemma join_schedule_ends:
  "\<exists>s fb. run disciplined_step (join_schedule @ [ActReturn]) rt_start = Some s \<and> 0 \<in> set (io_posted s) \<and>
     rt_fibers s 0 = Some fb \<and> f_after fb = ClearsHandle 0 \<and> rt_fibers s 1 = None"
  by (simp add: join_schedule_def fiber_run_simps)

theorem JoinHandle_Join_waits_for_end_witness:
  "\<exists>s j g. run disciplined_step (join_schedule @ [ActReturn]) rt_start = Some s \<and>
     rt_handles s 0 = Some j \<and> jh_fiber j = Some g \<and> rt_fibers s g = None"
proof -
  obtain s fb where "run disciplined_step (join_schedule @ [ActReturn]) rt_start = Some s" "0 \<in> set (io_posted s)"
    "rt_fibers s 0 = Some fb" "f_after fb = ClearsHandle 0"
    using join_schedule_ends by blast
  with JoinHandle_Join_waits_for_end [OF run_reachable] show ?thesis by blast
qed

text \<open>C12: The end of a fiber that is being joined wakes the joiner: in every reachable state in which \<open>f\<close> is parked in the lot of the handle
  of the running fiber \<open>g\<close>, the return of \<open>g\<close> posts \<open>f\<close>, deletes \<open>g\<close> and returns its stack to the pool.\<close>

theorem Fiber_end_wakes_joiner:
  assumes "reachable disciplined_step rt_start s"
    and "rt_running s = Some g" and "rt_fibers s g = Some gb" and "rt_handles s h = Some j" and "jh_fiber j = Some g"
    and "f \<in> set (members s (PlJoin h))" and "disciplined_step ActReturn s = Some s'"
  shows "io_posted s' = io_posted s @ [f] \<and> rt_fibers s' g = None \<and> stack_pool s' = stack_pool s @ [f_stack gb]"
proof -
  from assms(1) obtain pl where inv: "rt_inv_at pl s" using fibers.inv_reachable by (auto simp: rt_inv_def)
  note parts = inv_atD [OF inv]
  have pf: "pl f = Some (PlJoin h)" using places_member [OF parts(2)] assms(6) by blast
  with parts(2) obtain fb where fb: "rt_fibers s f = Some fb" "f_state fb = Suspended"
    by (rule places_fiber) simp
  from inv assms(2) have "pl g = Some PlRunning" by (rule inv_running)
  then have fg: "f \<noteq> g" using pf by auto
  have j: "\<not> jh_completed j" "waitee (jh_lot j) = Some f"
    using assms(4,6) by (auto simp: handle_waiter_def split: if_splits option.splits)
  then have w: "f_watcher gb = Some h" using links_live [OF parts(3) assms(4,5)] assms(3) by auto
  have "s' = Scheduler_Terminate s"
    using assms(2,7) by (auto simp: Fiber_Trampoline_def disciplined_step_def fiber_step_def split: if_splits)
  then show ?thesis
    unfolding Scheduler_Terminate_eq [OF assms(2,3)]
    using w j fg fb assms(4) by (simp add: Fiber_dtor_def JoinHandle_OnCompleted_def ParkingLot_Wake_def Scheduler_Resume_eq)
qed

lemma join_schedule_waits:
  "\<exists>s s' j gb. run disciplined_step join_schedule rt_start = Some s \<and> rt_running s = Some 1 \<and>
     rt_fibers s 1 = Some gb \<and> rt_handles s 0 = Some j \<and> jh_fiber j = Some 1 \<and> 0 \<in> set (members s (PlJoin 0)) \<and>
     disciplined_step ActReturn s = Some s'"
  by (simp add: join_schedule_def fiber_run_simps handle_waiter_def)

theorem Fiber_end_wakes_joiner_witness:
  "\<exists>s s'. run disciplined_step join_schedule rt_start = Some s \<and> disciplined_step ActReturn s = Some s' \<and>
     io_posted s' = io_posted s @ [0]"
proof -
  obtain s s' j gb where s: "run disciplined_step join_schedule rt_start = Some s" "rt_running s = Some 1"
     "rt_fibers s 1 = Some gb" "rt_handles s 0 = Some j" "jh_fiber j = Some 1" "0 \<in> set (members s (PlJoin 0))"
     "disciplined_step ActReturn s = Some s'" using join_schedule_waits by blast
  from Fiber_end_wakes_joiner [OF run_reachable [OF s(1)] s(2-7)] s(1,7) show ?thesis by blast
qed

section \<open>Outside the discipline\<close>

text \<open>\<open>Detach\<close> of a handle whose fiber has ended accesses the deleted fiber: the first fiber spawns a
  second one, lets it run to its end, and detaches the handle.\<close>

theorem JoinHandle_Detach_after_end_aborts:
  "\<exists>s. run fiber_step [IoPosted 0, ActSpawn, ActYield, IoPosted 0, ActReturn, IoPosted 0, ActDetach 0] rt_start = Some s \<and>
     rt_aborted s"
  by (simp add: fiber_run_simps)

text \<open>\<open>Get\<close> on a future that has been set suspends the fiber, and then no run queue, timer or lot that a
  wake-up could come from holds it.\<close>

theorem FiberFuture_Get_after_Set_is_lost:
  assumes "reachable disciplined_step rt_start s" and "rt_running s = Some f"
    and "ff_result (rt_futures s u) = Some v" and "fiber_step (ActGet u) s = Some s'"
  shows "(\<forall>p. f \<notin> set (members s' p)) \<and> map_option f_state (rt_fibers s' f) = Some Suspended"
proof -
  from assms(1) obtain pl where inv: "rt_inv_at pl s" using fibers.inv_reachable by (auto simp: rt_inv_def)
  from inv assms(2) obtain fb where fb: "rt_fibers s f = Some fb" "pl f = Some PlRunning"
    by (rule inv_running)
  have "s' = FiberFuture_Get u s" using assms(2,4) by (auto simp: fiber_step_def split: if_splits)
  also have "\<dots> = s\<lparr>rt_futures := (rt_futures s)(u := (rt_futures s u)\<lparr>ff_lot := \<lparr>waitee = Some f\<rparr>\<rparr>),
     rt_fibers := (rt_fibers s)(f \<mapsto> fb\<lparr>f_after := ReadsFuture u, f_state := Suspended\<rparr>), rt_running := None\<rparr>"
    using assms(2) fb by (simp add: FiberFuture_Get_def ParkingLot_Park_def with_current_def set_after_eq Scheduler_Suspend_eq)
  finally have s': "s' = \<dots>" .
  have "members s' = (members s)(PlFuture u := [], PlRunning := [])"
    using assms(3) by (simp add: s' future_waiter_def)
  moreover have "f \<notin> set (members s p)" if "p \<noteq> PlRunning" for p
    using places_member [OF inv_atD(2) [OF inv], of f p] fb(2) that by simp
  ultimately show ?thesis by (simp add: s')
qed

end
