(* ===== verification/Scheduler_Runs.thy ===== *)
theory Scheduler_Runs
  imports Fiber_Properties
begin

text \<open>
  A thread that runs fiber schedulers: \<open>RunScheduler\<close> of \<^verbatim>\<open>tinyfibers/echo/tinyfibers/runtime/api.cpp\<close>, the thread-local pointer
  \<open>current_scheduler\<close> with \<open>SchedulerScope\<close>, and the functions of the interface that go through \<open>GetCurrentScheduler\<close>. A scheduler lives for one
  call of \<open>RunScheduler\<close>; the stack allocator is thread local too and serves all of them. Fibers that are suspended for ever when the loop runs
  out of work are not destroyed with the scheduler, so their stacks are lost.
\<close>

section \<open>Stacks of a scheduler\<close>

text \<open>The stacks a scheduler has to do with: those in the pool and those of its fibers.\<close>

definition stack_total :: "runtime \<Rightarrow> stack_id set" where
  "stack_total s = set (stack_pool s) \<union> f_stack ` ran (rt_fibers s)"

text \<open>From \<open>s\<close> to \<open>t\<close> no stack was lost, and the new ones came from the operating system.\<close>

definition stacks_grow :: "runtime \<Rightarrow> runtime \<Rightarrow> bool" where
  "stacks_grow s t \<longleftrightarrow> next_stack s \<le> next_stack t \<and> stack_total t = stack_total s \<union> {next_stack s ..< next_stack t}"

lemma stacks_grow_refl [simp]: "stacks_grow s s"
  by (simp add: stacks_grow_def)

lemma stacks_grow_trans: "stacks_grow s t \<Longrightarrow> stacks_grow t u \<Longrightarrow> stacks_grow s u"
  by (auto simp: stacks_grow_def)

lemma stack_total_frame [simp]:
  "stack_total (t\<lparr>rt_running := r\<rparr>) = stack_total t" "stack_total (t\<lparr>rt_next_id := n\<rparr>) = stack_total t"
  "stack_total (t\<lparr>rt_waits := W\<rparr>) = stack_total t" "stack_total (t\<lparr>rt_handles := H\<rparr>) = stack_total t"
  "stack_total (t\<lparr>rt_next_handle := n\<rparr>) = stack_total t" "stack_total (t\<lparr>rt_futures := U\<rparr>) = stack_total t"
  "stack_total (t\<lparr>io_posted := xs\<rparr>) = stack_total t" "stack_total (t\<lparr>io_timers := ts\<rparr>) = stack_total t"
  "stack_total (t\<lparr>rt_clock := n\<rparr>) = stack_total t" "stack_total (rt_abort t) = stack_total t"
  by (simp_all add: stack_total_def rt_abort_def)

lemma stack_total_fiber:
  assumes "rt_fibers t f = Some fb" and "f_stack fb' = f_stack fb"
  shows "stack_total (t\<lparr>rt_fibers := (rt_fibers t)(f \<mapsto> fb')\<rparr>) = stack_total t"
proof -
  have "f_stack ` ran ((rt_fibers t)(f \<mapsto> fb')) = f_stack ` ran (rt_fibers t)"
    using assms by (auto simp: ran_def image_iff) (metis option.inject)+
  then show ?thesis by (simp add: stack_total_def)
qed

lemma stack_total_destroy:
  assumes "rt_fibers t f = Some fb"
  shows "stack_total (t\<lparr>stack_pool := stack_pool t @ [f_stack fb], rt_fibers := (rt_fibers t)(f := None)\<rparr>) = stack_total t"
proof -
  have "insert (f_stack fb) (f_stack ` ran ((rt_fibers t)(f := None))) = f_stack ` ran (rt_fibers t)"
    using assms by (auto simp: ran_def image_iff) (metis option.inject)+
  then show ?thesis by (auto simp: stack_total_def)
qed

lemma stacks_grow_frame [simp]:
  "stacks_grow s (t\<lparr>rt_running := r\<rparr>) \<longleftrightarrow> stacks_grow s t"
  "stacks_grow s (t\<lparr>rt_next_id := n\<rparr>) \<longleftrightarrow> stacks_grow s t"
  "stacks_grow s (t\<lparr>rt_waits := W\<rparr>) \<longleftrightarrow> stacks_grow s t"
  "stacks_grow s (t\<lparr>rt_handles := H\<rparr>) \<longleftrightarrow> stacks_grow s t"
  "stacks_grow s (t\<lparr>rt_next_handle := n\<rparr>) \<longleftrightarrow> stacks_grow s t"
  "stacks_grow s (t\<lparr>rt_futures := U\<rparr>) \<longleftrightarrow> stacks_grow s t"
  "stacks_grow s (t\<lparr>io_posted := xs\<rparr>) \<longleftrightarrow> stacks_grow s t"
  "stacks_grow s (t\<lparr>io_timers := ts\<rparr>) \<longleftrightarrow> stacks_grow s t"
  "stacks_grow s (t\<lparr>rt_clock := n\<rparr>) \<longleftrightarrow> stacks_grow s t"
  "stacks_grow s (rt_abort t) \<longleftrightarrow> stacks_grow s t"
  by (simp_all add: stacks_grow_def) (simp add: rt_abort_def)

lemma stacks_grow_fiber:
  "stacks_grow s t \<Longrightarrow> rt_fibers t f = Some fb \<Longrightarrow> f_stack fb' = f_stack fb \<Longrightarrow>
   stacks_grow s (t\<lparr>rt_fibers := (rt_fibers t)(f \<mapsto> fb')\<rparr>)"
  by (simp add: stacks_grow_def stack_total_fiber)

lemma stacks_grow_destroy:
  "stacks_grow s t \<Longrightarrow> rt_fibers t f = Some fb \<Longrightarrow>
   stacks_grow s (t\<lparr>stack_pool := stack_pool t @ [f_stack fb], rt_fibers := (rt_fibers t)(f := None)\<rparr>)"
  by (simp add: stacks_grow_def stack_total_destroy)

lemma stacks_grow_basic [simp]:
  assumes "stacks_grow s t"
  shows "stacks_grow s (Scheduler_Schedule f t)" "stacks_grow s (Fiber_SetState f st t)"
    "stacks_grow s (Fiber_SetWatcher f w t)" "stacks_grow s (set_after f a t)"
  using assms
  by (simp_all add: Scheduler_Schedule_def Fiber_SetState_def Fiber_SetWatcher_def set_after_def stacks_grow_fiber split: option.split)

lemma stacks_grow_Resume [simp]: "stacks_grow s t \<Longrightarrow> stacks_grow s (Scheduler_Resume f t)"
  by (simp add: Scheduler_Resume_def split: option.split)

lemma stacks_grow_Wake [simp]: "stacks_grow s t \<Longrightarrow> stacks_grow s (ParkingLot_Wake lot t)"
  by (simp add: ParkingLot_Wake_def split: option.split)

lemma stacks_grow_OnCompleted [simp]: "stacks_grow s t \<Longrightarrow> stacks_grow s (JoinHandle_OnCompleted h t)"
  by (simp add: JoinHandle_OnCompleted_def split: option.split)

lemma stacks_grow_Destroy [simp]: "stacks_grow s t \<Longrightarrow> stacks_grow s (Scheduler_Destroy f t)"
  by (simp add: Scheduler_Destroy_def Fiber_dtor_def StackAllocator_Release_def Let_def stacks_grow_destroy split: option.split)

lemma stacks_grow_Switch [simp]: "stacks_grow s t \<Longrightarrow> stacks_grow s (Scheduler_SwitchToScheduler f t)"
  by (simp add: Scheduler_SwitchToScheduler_def Scheduler_Reschedule_def split: option.split fiber_state.split)

lemma stacks_grow_Suspend [simp]: "stacks_grow s t \<Longrightarrow> stacks_grow s (Scheduler_Suspend t)"
  by (simp add: Scheduler_Suspend_def with_current_def split: option.split)

lemma stacks_grow_wake_all [simp]: "stacks_grow s t \<Longrightarrow> stacks_grow s (wake_all_loop fs q t)"
  by (induction fs arbitrary: t) simp_all

lemma stacks_grow_Set [simp]: "stacks_grow s t \<Longrightarrow> stacks_grow s (FiberFuture_SetValue u v t)"
  "stacks_grow s t \<Longrightarrow> stacks_grow s (FiberFuture_SetError u e t)"
  by (simp_all add: FiberFuture_Set_def FiberFuture_SetValue_def FiberFuture_SetError_def)

lemma stacks_grow_Spawn:
  assumes "rt_fibers t (rt_next_id t) = None"
  shows "stacks_grow t (snd (Scheduler_Spawn t))"
proof -
  obtain st t1 where a: "StackAllocator_Allocate t = (st, t1)" by (cases "StackAllocator_Allocate t")
  then have f: "rt_fibers t1 = rt_fibers t" "rt_next_id t1 = rt_next_id t"
    by (auto simp: StackAllocator_Allocate_def StackAllocator_TakeFromPool_def StackAllocator_AllocateNewStack_def split: if_splits)
  have n: "next_stack t \<le> next_stack t1 \<and> insert st (set (stack_pool t1)) = set (stack_pool t) \<union> {next_stack t ..< next_stack t1}"
  proof (cases "stack_pool t = []")
    case True
    with a show ?thesis by (auto simp: StackAllocator_Allocate_def StackAllocator_AllocateNewStack_def)
  next
    case False
    have "insert (last (stack_pool t)) (set (butlast (stack_pool t))) = set (stack_pool t)"
      using arg_cong [OF append_butlast_last_id [OF False], of set] by simp
    moreover have "st = last (stack_pool t)" "stack_pool t1 = butlast (stack_pool t)" "next_stack t1 = next_stack t"
      using a False by (auto simp: StackAllocator_Allocate_def StackAllocator_TakeFromPool_def)
    ultimately show ?thesis by simp
  qed
  let ?fb = "\<lparr>f_state = Starting, f_stack = st, f_watcher = None, f_after = ReturnsAtOnce\<rparr>"
  have "ran ((rt_fibers t)(rt_next_id t \<mapsto> ?fb)) = insert ?fb (ran (rt_fibers t))" using assms by (rule ran_map_upd)
  then have "set (stack_pool t1) \<union> f_stack ` ran ((rt_fibers t)(rt_next_id t \<mapsto> ?fb)) =
      insert st (set (stack_pool t1)) \<union> f_stack ` ran (rt_fibers t)" by simp
  also have "\<dots> = stack_total t \<union> {next_stack t ..< next_stack t1}" using n by (simp add: stack_total_def Un_ac)
  finally show ?thesis
    using n by (simp add: stacks_grow_def stack_total_def Scheduler_Spawn_def Scheduler_CreateFiber_def Scheduler_Schedule_def a f Let_def)
qed

lemma stacks_grow_api_Spawn:
  assumes "rt_fibers t (rt_next_id t) = None"
  shows "stacks_grow t (api_Spawn t)"
  using stacks_grow_Spawn [OF assms] by (auto simp: api_Spawn_def JoinHandle_ctor_def Let_def split: prod.split)

lemma stacks_grow_Step: "stacks_grow s t \<Longrightarrow> stacks_grow s (Scheduler_Step f t)"
  using stacks_grow_fiber [of s "t\<lparr>rt_running := Some f\<rparr>"]
  by (simp add: Scheduler_Step_def finish_call_def Let_def split: option.split after_switch.split)

lemma stacks_grow_act:
  assumes "fiber_act l s = Some s'" and "rt_fibers s (rt_next_id s) = None"
  shows "stacks_grow s s'"
  using assms
  by (cases l)
    (auto simp: stacks_grow_api_Spawn Scheduler_Yield_def Scheduler_SleepFor_def Scheduler_Terminate_def JoinHandle_Join_def ParkingLot_Park_def
      JoinHandle_Detach_def JoinHandle_move_def JoinHandle_dtor_def WaitQueue_Park_def WaitQueue_WakeOne_def WaitQueue_dtor_def
      Fiber_Trampoline_def WaitQueue_WakeAll_def FiberFuture_Get_def with_current_def Let_def split: option.split list.split)

lemma stacks_grow_loop: "loop_act l s = Some s' \<Longrightarrow> stacks_grow s s'"
  by (cases l) (auto simp: stacks_grow_Step split: if_splits)

lemma stacks_grow_fiber_step:
  assumes "fiber_step l s = Some s'" and "rt_fibers s (rt_next_id s) = None"
  shows "stacks_grow s s'"
  using assms stacks_grow_act stacks_grow_loop by (auto simp: fiber_step_def split: if_splits option.splits)

section \<open>The thread\<close>

text \<open>
  \<open>th_scheduler\<close> is \<open>current_scheduler\<close>, a scheduler being named by the number of its \<open>RunScheduler\<close>; \<open>th_runtime\<close> holds the scheduler that
  runs and the allocator of the thread. History: \<open>th_lost\<close> has the stacks of the fibers that earlier schedulers left suspended.
\<close>

record fiber_thread =
  th_scheduler :: "nat option"
  th_next :: nat
  th_runtime :: runtime
  th_lost :: "stack_id list"
  th_aborted :: bool

definition th_abort :: "fiber_thread \<Rightarrow> fiber_thread" where
  "th_abort s = s\<lparr>th_aborted := True\<rparr>"

text \<open>\<open>None\<close> is the failed \<open>WHEELS_VERIFY\<close>.\<close>

definition GetCurrentScheduler :: "fiber_thread \<Rightarrow> nat option" where
  "GetCurrentScheduler s = th_scheduler s"

definition SchedulerScope_ctor :: "nat \<Rightarrow> fiber_thread \<Rightarrow> fiber_thread" where
  "SchedulerScope_ctor scheduler s =
     (if th_scheduler s \<noteq> None then th_abort s else s\<lparr>th_scheduler := Some scheduler\<rparr>)"

definition SchedulerScope_dtor :: "fiber_thread \<Rightarrow> fiber_thread" where
  "SchedulerScope_dtor s = s\<lparr>th_scheduler := None\<rparr>"

text \<open>A new scheduler on a thread: only the allocator and the clock are those of before.\<close>

definition Scheduler_ctor :: "stack_id list \<Rightarrow> nat \<Rightarrow> nat \<Rightarrow> runtime" where
  "Scheduler_ctor pool stacks clock =
     \<lparr>rt_fibers = (\<lambda>_. None), rt_next_id = 0, io_posted = [], io_timers = [], rt_running = None, rt_clock = clock,
      rt_waits = (\<lambda>_. []), rt_handles = (\<lambda>_. None), rt_next_handle = 0,
      rt_futures = (\<lambda>_. \<lparr>ff_result = None, ff_lot = \<lparr>waitee = None\<rparr>\<rparr>),
      stack_pool = pool, next_stack = stacks, rt_aborted = False\<rparr>"

definition next_runtime :: "runtime \<Rightarrow> runtime" where
  "next_runtime s = Scheduler_ctor (stack_pool s) (next_stack s) (rt_clock s)"

text \<open>\<open>RunScheduler\<close> up to \<open>RunLoop\<close>.\<close>

definition Scheduler_Run_enter :: "nat \<Rightarrow> fiber_thread \<Rightarrow> fiber_thread" where
  "Scheduler_Run_enter scheduler s =
     (let s1 = SchedulerScope_ctor scheduler s
      in if th_aborted s1 then s1
         else s1\<lparr>th_runtime := snd (Scheduler_Spawn (next_runtime (th_runtime s1)))\<rparr>)"

definition RunScheduler :: "fiber_thread \<Rightarrow> fiber_thread" where
  "RunScheduler s = Scheduler_Run_enter (th_next s) (s\<lparr>th_next := Suc (th_next s)\<rparr>)"

text \<open>\<open>io_context_.run()\<close> returns when there is nothing left to run; then the scope and the scheduler are destroyed, the fibers that have
  not ended are not.\<close>

definition Scheduler_RunLoop_done :: "runtime \<Rightarrow> bool" where
  "Scheduler_RunLoop_done s \<longleftrightarrow> rt_running s = None \<and> io_posted s = [] \<and> io_timers s = []"

definition live_stacks :: "runtime \<Rightarrow> stack_id list" where
  "live_stacks s = map f_stack (List.map_filter (rt_fibers s) [0..<rt_next_id s])"

definition Scheduler_Run_leave :: "fiber_thread \<Rightarrow> fiber_thread" where
  "Scheduler_Run_leave s =
     (SchedulerScope_dtor s)\<lparr>th_lost := th_lost s @ live_stacks (th_runtime s), th_runtime := next_runtime (th_runtime s)\<rparr>"

text \<open>\<open>Spawn\<close>, \<open>self::Yield\<close> and \<open>self::SleepFor\<close> of \<^verbatim>\<open>api.cpp\<close>, called by whoever has control of the thread: code outside of any
  scheduler, a handler of the loop, or a fiber.\<close>

fun api_function :: "fiber_label \<Rightarrow> bool" where
  "api_function ActSpawn \<longleftrightarrow> True"
| "api_function ActYield \<longleftrightarrow> True"
| "api_function (ActSleepFor d) \<longleftrightarrow> True"
| "api_function _ \<longleftrightarrow> False"

definition api_call :: "fiber_label \<Rightarrow> fiber_thread \<Rightarrow> fiber_thread option" where
  "api_call l s =
     (case GetCurrentScheduler s of
        None \<Rightarrow> Some (th_abort s)
      | Some scheduler \<Rightarrow> map_option (\<lambda>r. s\<lparr>th_runtime := r\<rparr>) (fiber_act l (th_runtime s)))"

text \<open>\<open>GetCurrentFiber\<close>, whose identifier is what \<open>self::GetId\<close> returns; \<open>None\<close> when one of its two assertions fails.\<close>

definition GetCurrentFiber :: "fiber_thread \<Rightarrow> fid option" where
  "GetCurrentFiber s = (case GetCurrentScheduler s of None \<Rightarrow> None | Some scheduler \<Rightarrow> rt_running (th_runtime s))"

datatype thread_label =
    ThRun                     \<comment> \<open>\<open>RunScheduler\<close> is called\<close>
  | ThReturn                  \<comment> \<open>it returns\<close>
  | ThApi fiber_label         \<comment> \<open>a function of \<^verbatim>\<open>api.cpp\<close> is called\<close>
  | ThStep fiber_label        \<comment> \<open>a step of the loop or of a fiber\<close>

fun thread_act :: "thread_label \<Rightarrow> fiber_thread \<Rightarrow> fiber_thread option" where
  "thread_act ThRun s = Some (RunScheduler s)"
| "thread_act ThReturn s =
     (if th_scheduler s \<noteq> None \<and> Scheduler_RunLoop_done (th_runtime s) then Some (Scheduler_Run_leave s) else None)"
| "thread_act (ThApi l) s = (if api_function l then api_call l s else None)"
| "thread_act (ThStep l) s =
     (if th_scheduler s \<noteq> None then map_option (\<lambda>r. s\<lparr>th_runtime := r\<rparr>) (fiber_step l (th_runtime s)) else None)"

definition thread_step :: "thread_label \<Rightarrow> fiber_thread \<Rightarrow> fiber_thread option" where
  "thread_step l s = (if th_aborted s \<or> rt_aborted (th_runtime s) then None else thread_act l s)"

text \<open>The discipline of the interface: schedulers are not nested, functions that need a scheduler are called under one, those that need
  a fiber by a fiber, and fibers are as in \<open>Fibers\<close>.\<close>

fun thread_allowed :: "thread_label \<Rightarrow> fiber_thread \<Rightarrow> bool" where
  "thread_allowed ThRun s \<longleftrightarrow> th_scheduler s = None"
| "thread_allowed (ThApi l) s \<longleftrightarrow> th_scheduler s \<noteq> None \<and> (l = ActSpawn \<or> rt_running (th_runtime s) \<noteq> None)"
| "thread_allowed (ThStep l) s \<longleftrightarrow> client_allowed l (th_runtime s)"
| "thread_allowed ThReturn s \<longleftrightarrow> True"

definition disciplined_thread_step :: "thread_label \<Rightarrow> fiber_thread \<Rightarrow> fiber_thread option" where
  "disciplined_thread_step l s = (if thread_allowed l s then thread_step l s else None)"

definition thread_start :: fiber_thread where
  "thread_start =
     \<lparr>th_scheduler = None, th_next = 0, th_runtime = Scheduler_ctor [] 0 0,
      th_lost = [], th_aborted = False\<rparr>"

section \<open>Invariant\<close>

lemma set_live_stacks:
  assumes "\<And>f. rt_next_id s \<le> f \<Longrightarrow> rt_fibers s f = None"
  shows "set (live_stacks s) = f_stack ` ran (rt_fibers s)"
proof -
  have "ran (rt_fibers s) = {fb. \<exists>f < rt_next_id s. rt_fibers s f = Some fb}"
    using assms by (auto simp: ran_def) (metis not_less option.distinct(1))
  moreover have "set (live_stacks s) = f_stack ` {fb. \<exists>f < rt_next_id s. rt_fibers s f = Some fb}"
    by (force simp: live_stacks_def List.map_filter_def)
  ultimately show ?thesis by simp
qed

lemma distinct_live_stacks:
  assumes "\<And>f g fb gb. rt_fibers s f = Some fb \<Longrightarrow> rt_fibers s g = Some gb \<Longrightarrow> f_stack fb = f_stack gb \<Longrightarrow> f = g"
  shows "distinct (live_stacks s)"
proof -
  have "inj_on (f_stack \<circ> (the \<circ> rt_fibers s)) {f. f \<in> set (filter (\<lambda>x. rt_fibers s x \<noteq> None) [0..<rt_next_id s])}"
    using assms by (auto simp: inj_on_def)
  then show ?thesis by (simp add: live_stacks_def List.map_filter_def distinct_map comp_assoc inj_on_def)
qed

text \<open>Every stack the operating system gave out is in the pool, used by a fiber of the scheduler, or lost, and in one of these only.\<close>

definition stacks_accounted :: "fiber_thread \<Rightarrow> bool" where
  "stacks_accounted s \<longleftrightarrow>
     stack_total (th_runtime s) \<union> set (th_lost s) = {..< next_stack (th_runtime s)} \<and>
     stack_total (th_runtime s) \<inter> set (th_lost s) = {} \<and> distinct (th_lost s)"

definition thread_inv :: "fiber_thread \<Rightarrow> bool" where
  "thread_inv s \<longleftrightarrow> \<not> th_aborted s \<and> rt_inv (th_runtime s) \<and> stacks_accounted s \<and>
     (th_scheduler s = None \<longrightarrow> rt_fibers (th_runtime s) = (\<lambda>_. None))"

lemma rt_inv_ctor:
  assumes "stacks_ok (\<lambda>_. None) pool n"
  shows "rt_inv (Scheduler_ctor pool n clock)"
proof -
  let ?s = "Scheduler_ctor pool n clock"
  have m: "members ?s p = []" for p
    by (cases p) (simp_all add: Scheduler_ctor_def handle_waiter_def future_waiter_def)
  have "places_ok (\<lambda>_. None) (members ?s) (rt_fibers ?s)" unfolding places_ok_def m by (simp add: Scheduler_ctor_def)
  then have "rt_inv_at (\<lambda>_. None) ?s"
    using assms by (simp add: rt_inv_at_def Scheduler_ctor_def links_ok_def afters_ok_def ids_ok_def)
  then show ?thesis by (rule rt_invI)
qed

lemma rt_inv_first_fiber:
  assumes "stacks_ok (\<lambda>_. None) pool n"
  shows "rt_inv (snd (Scheduler_Spawn (Scheduler_ctor pool n clock)))"
proof -
  let ?s = "Scheduler_ctor pool n clock"
  obtain st t where alloc: "StackAllocator_Allocate ?s = (st, t)" by (cases "StackAllocator_Allocate ?s")
  let ?fb = "\<lparr>f_state = Starting, f_stack = st, f_watcher = None, f_after = ReturnsAtOnce\<rparr>"
  have "stacks_ok (rt_fibers ?s) (stack_pool ?s) (next_stack ?s)" "rt_fibers ?s 0 = None"
    using assms by (simp_all add: Scheduler_ctor_def)
  then obtain pool' m where t: "t = ?s\<lparr>stack_pool := pool', next_stack := m\<rparr>"
    and stacks: "stacks_ok ((rt_fibers ?s)(0 \<mapsto> ?fb)) pool' m"
    by (rule StackAllocator_Allocate_ok [OF _ _ alloc, of 0 ?fb]) simp_all
  let ?t = "?s\<lparr>stack_pool := pool', next_stack := m, rt_next_id := Suc 0, io_posted := [0], rt_fibers := [0 \<mapsto> ?fb]\<rparr>"
  have eq: "snd (Scheduler_Spawn ?s) = ?t"
    unfolding Scheduler_Spawn_def Scheduler_CreateFiber_def alloc
    by (simp add: t Scheduler_Schedule_def Scheduler_ctor_def Let_def)
  have mem: "members ?t p = (if p = PlQueue then [0] else [])" for p
    by (cases p) (simp_all add: Scheduler_ctor_def handle_waiter_def future_waiter_def)
  have "places_ok [0 \<mapsto> PlQueue] (members ?t) (rt_fibers ?t)" unfolding places_ok_def mem by (auto simp: Scheduler_ctor_def)
  then have "rt_inv_at [0 \<mapsto> PlQueue] ?t"
    using stacks by (simp add: rt_inv_at_def Scheduler_ctor_def links_ok_def afters_ok_def ids_ok_def)
  then show ?thesis unfolding eq by (rule rt_invI)
qed

lemma rt_inv_ids: "rt_inv s \<Longrightarrow> rt_next_id s \<le> f \<Longrightarrow> rt_fibers s f = None"
  by (auto simp: rt_inv_def rt_inv_at_def ids_ok_def)

lemma rt_inv_stacks: "rt_inv s \<Longrightarrow> stacks_ok (rt_fibers s) (stack_pool s) (next_stack s)"
  by (auto simp: rt_inv_def rt_inv_at_def)

lemma rt_inv_pool: "rt_inv s \<Longrightarrow> stacks_ok (\<lambda>_. None) (stack_pool s) (next_stack s)"
  using rt_inv_stacks [of s] by (simp add: stacks_ok_def)

lemma accounted_grow:
  assumes "stacks_accounted s" and "stacks_grow (th_runtime s) r"
  shows "stacks_accounted (s\<lparr>th_runtime := r\<rparr>)"
proof -
  let ?T = "stack_total (th_runtime s)" and ?n = "next_stack (th_runtime s)" and ?new = "{next_stack (th_runtime s) ..< next_stack r}"
  have all: "?T \<union> set (th_lost s) = {..< ?n}" "?T \<inter> set (th_lost s) = {}" "distinct (th_lost s)"
    using assms(1) by (simp_all add: stacks_accounted_def)
  have r: "?n \<le> next_stack r" "stack_total r = ?T \<union> ?new" using assms(2) by (simp_all add: stacks_grow_def)
  have "stack_total r \<union> set (th_lost s) = {..< ?n} \<union> ?new" unfolding r(2) all(1) [symmetric] by (simp add: Un_ac)
  also have "\<dots> = {..< next_stack r}" using r(1) by (rule ivl_disj_un_one(2))
  finally have "stack_total r \<union> set (th_lost s) = {..< next_stack r}" .
  moreover have "set (th_lost s) \<subseteq> {..< ?n}" using all(1) by (metis Un_upper2)
  then have "?new \<inter> set (th_lost s) = {}" by (meson atLeastLessThan_iff disjoint_iff leD lessThan_iff subsetD)
  ultimately show ?thesis using all(2,3) by (simp add: stacks_accounted_def r(2) Int_Un_distrib2)
qed

lemma thread_inv_runtime:
  assumes "thread_inv s" and "rt_inv r" and "stacks_grow (th_runtime s) r" and "th_scheduler s \<noteq> None"
  shows "thread_inv (s\<lparr>th_runtime := r\<rparr>)"
  using assms accounted_grow [of s r] by (auto simp: thread_inv_def)

lemma fiber_act_inv:
  assumes inv: "rt_inv s" and l: "l = ActSpawn \<or> api_function l \<and> rt_running s \<noteq> None" and step: "fiber_act l s = Some s'"
  shows "rt_inv s'"
proof -
  from inv obtain pl where pl: "rt_inv_at pl s" by (auto simp: rt_inv_def)
  from l show ?thesis
  proof
    assume "l = ActSpawn"
    with step inv_Spawn [OF pl] show ?thesis by simp
  next
    assume "api_function l \<and> rt_running s \<noteq> None"
    moreover from this have "client_allowed l s" by (cases l) simp_all
    ultimately show ?thesis using inv_fiber_act [OF pl] step by blast
  qed
qed

lemma next_runtime_simps [simp]:
  "stack_pool (next_runtime r) = stack_pool r" "next_stack (next_runtime r) = next_stack r"
  "rt_fibers (next_runtime r) = (\<lambda>_. None)" "rt_next_id (next_runtime r) = 0"
  "rt_aborted (next_runtime r) = False"
  by (simp_all add: next_runtime_def Scheduler_ctor_def)

lemma enter_inv:
  assumes inv: "thread_inv s" and idle: "th_scheduler s = None"
  shows "thread_inv (RunScheduler s)"
proof -
  let ?r = "next_runtime (th_runtime s)"
  have r: "rt_inv (th_runtime s)" "rt_fibers (th_runtime s) = (\<lambda>_. None)" "\<not> th_aborted s"
    using inv idle by (simp_all add: thread_inv_def)
  have "stacks_grow (th_runtime s) ?r" using r(2) by (simp add: stacks_grow_def stack_total_def)
  moreover have "stacks_grow ?r (snd (Scheduler_Spawn ?r))" by (rule stacks_grow_Spawn) simp
  ultimately have "stacks_grow (th_runtime s) (snd (Scheduler_Spawn ?r))" by (rule stacks_grow_trans)
  moreover have "rt_inv (snd (Scheduler_Spawn ?r))"
    unfolding next_runtime_def by (rule rt_inv_first_fiber [OF rt_inv_pool [OF r(1)]])
  moreover have "RunScheduler s =
      s\<lparr>th_next := Suc (th_next s), th_scheduler := Some (th_next s), th_runtime := snd (Scheduler_Spawn ?r)\<rparr>"
    using idle r(3) by (simp add: RunScheduler_def Scheduler_Run_enter_def SchedulerScope_ctor_def)
  ultimately show ?thesis
    using inv accounted_grow [of "s\<lparr>th_next := Suc (th_next s), th_scheduler := Some (th_next s)\<rparr>"]
    by (simp add: thread_inv_def stacks_accounted_def)
qed

lemma thread_stacks:
  assumes "thread_inv s"
  shows "distinct (stack_pool (th_runtime s) @ live_stacks (th_runtime s) @ th_lost s)"
    and "set (stack_pool (th_runtime s) @ live_stacks (th_runtime s) @ th_lost s) = {..< next_stack (th_runtime s)}"
proof -
  let ?r = "th_runtime s"
  have r: "rt_inv ?r" and acc: "stacks_accounted s" using assms by (simp_all add: thread_inv_def)
  note ok = rt_inv_stacks [OF r]
  have live: "set (live_stacks ?r) = f_stack ` ran (rt_fibers ?r)" by (rule set_live_stacks [OF rt_inv_ids [OF r]])
  have total: "stack_total ?r = set (stack_pool ?r) \<union> set (live_stacks ?r)" by (simp add: stack_total_def live)
  have "distinct (live_stacks ?r)" by (rule distinct_live_stacks) (use ok in \<open>simp add: stacks_ok_def\<close>)
  moreover have "set (stack_pool ?r) \<inter> set (live_stacks ?r) = {}"
    using ok by (fastforce simp: stacks_ok_def live ran_def)
  ultimately show "distinct (stack_pool ?r @ live_stacks ?r @ th_lost s)"
    using ok acc by (auto simp: stacks_ok_def stacks_accounted_def total)
  show "set (stack_pool ?r @ live_stacks ?r @ th_lost s) = {..< next_stack ?r}"
    using acc by (simp add: stacks_accounted_def total Un_assoc)
qed

lemma leave_inv:
  assumes inv: "thread_inv s"
  shows "thread_inv (Scheduler_Run_leave s)"
proof -
  let ?r = "th_runtime s"
  have "rt_inv (next_runtime ?r)"
    unfolding next_runtime_def using inv by (intro rt_inv_ctor rt_inv_pool) (simp add: thread_inv_def)
  moreover have "stacks_accounted (Scheduler_Run_leave s)"
    using thread_stacks [OF inv]
    by (auto simp: stacks_accounted_def stack_total_def Scheduler_Run_leave_def SchedulerScope_dtor_def)
  ultimately show ?thesis using inv by (simp add: thread_inv_def Scheduler_Run_leave_def SchedulerScope_dtor_def)
qed

lemma thread_inv_step:
  assumes inv: "thread_inv s" and step: "disciplined_thread_step l s = Some s'"
  shows "thread_inv s'"
proof -
  have ok: "thread_allowed l s" and act: "thread_act l s = Some s'"
    using step by (auto simp: disciplined_thread_step_def thread_step_def split: if_splits)
  have r: "rt_inv (th_runtime s)" using inv by (simp add: thread_inv_def)
  have fresh: "rt_fibers (th_runtime s) (rt_next_id (th_runtime s)) = None" by (rule rt_inv_ids [OF r order_refl])
  show ?thesis
  proof (cases l)
    case ThRun
    with ok act enter_inv [OF inv] show ?thesis by simp
  next
    case ThReturn
    with act leave_inv [OF inv] show ?thesis by (simp split: if_splits)
  next
    case (ThApi m)
    with ok act obtain r' where m: "api_function m" "fiber_act m (th_runtime s) = Some r'" "s' = s\<lparr>th_runtime := r'\<rparr>"
      by (auto simp: api_call_def GetCurrentScheduler_def split: if_splits)
    have "rt_inv r'" by (rule fiber_act_inv [OF r _ m(2)]) (use ok ThApi m(1) in auto)
    then show ?thesis unfolding m(3)
      by (rule thread_inv_runtime [OF inv _ stacks_grow_act [OF m(2) fresh]]) (use ok ThApi in simp)
  next
    case (ThStep m)
    with act obtain r' where m: "th_scheduler s \<noteq> None" "fiber_step m (th_runtime s) = Some r'" "s' = s\<lparr>th_runtime := r'\<rparr>"
      by (auto split: if_splits)
    have "disciplined_step m (th_runtime s) = Some r'" using ok ThStep m(2) by (simp add: disciplined_step_def)
    then show ?thesis unfolding m(3)
      by (intro thread_inv_runtime [OF inv rt_inv_step [OF r] stacks_grow_fiber_step [OF m(2) fresh] m(1)])
  qed
qed

interpretation thread: invariant_system disciplined_thread_step thread_start thread_inv
proof
  have "rt_inv (Scheduler_ctor [] 0 0)" by (rule rt_inv_ctor) (simp add: stacks_ok_def)
  then show "thread_inv thread_start"
    by (simp add: thread_inv_def thread_start_def stacks_accounted_def stack_total_def) (simp add: Scheduler_ctor_def)
qed (fact thread_inv_step)

section \<open>Properties\<close>

text \<open>A fiber that is neither running nor posted nor in a timer waits to be woken by another fiber or a handler.\<close>

lemma waits_when_done:
  assumes inv: "rt_inv r" and finished: "Scheduler_RunLoop_done r" and f: "rt_fibers r f = Some fb"
  shows "f_state fb = Suspended \<and> (\<exists>p. f \<in> set (members r p))"
proof -
  from inv obtain pl where "rt_inv_at pl r" by (auto simp: rt_inv_def)
  note parts = inv_atD [OF this]
  from f parts(2) obtain p where p: "pl f = Some p" by (fastforce simp: places_ok_def)
  with places_member [OF parts(2), of f] have m: "f \<in> set (members r p)" by auto
  have "p \<notin> {PlRunning, PlQueue, PlTimer}" using m finished by (auto simp: Scheduler_RunLoop_done_def)
  moreover have "state_fits p (f_state fb)" using parts(2) f p by (simp add: places_ok_def)
  ultimately have "f_state fb = Suspended" by (cases p) auto
  with m show ?thesis by blast
qed

text \<open>C13: A thread that runs schedulers one after the other, under the discipline of the interface. No assertion fails. Every stack that was
  ever allocated on the thread is in the pool, used by a fiber of the scheduler that runs, or lost with a fiber that an earlier scheduler
  left suspended, and only one of them; so schedulers whose fibers all end leak nothing. When \<open>RunScheduler\<close> returns, every fiber that has
  not ended is suspended waiting for another fiber or a handler, and the thread has no current scheduler. The current fiber is a fiber that
  runs. A call of
  \<open>RunScheduler\<close> fails its assertion exactly if it is made under a scheduler, a function of the interface exactly if it is not made under one or
  needs a fiber and is made by a handler.\<close>

theorem RunScheduler_scopes_and_stacks:
  assumes "reachable disciplined_thread_step thread_start s"
  shows "\<not> th_aborted s \<and> \<not> rt_aborted (th_runtime s) \<and>
    distinct (stack_pool (th_runtime s) @ live_stacks (th_runtime s) @ th_lost s) \<and>
    set (stack_pool (th_runtime s) @ live_stacks (th_runtime s) @ th_lost s) = {..< next_stack (th_runtime s)} \<and>
    (thread_step ThReturn s = Some s' \<longrightarrow> GetCurrentScheduler s' = None \<and>
       (\<forall>f fb. rt_fibers (th_runtime s) f = Some fb \<longrightarrow> f_state fb = Suspended \<and> (\<exists>p. f \<in> set (members (th_runtime s) p)))) \<and>
    (\<forall>f. GetCurrentFiber s = Some f \<longrightarrow> (\<exists>fb. rt_fibers (th_runtime s) f = Some fb \<and> f_state fb = RunningState)) \<and>
    (th_aborted (RunScheduler s) \<longleftrightarrow> GetCurrentScheduler s \<noteq> None) \<and>
    (thread_step (ThApi l) s = Some s' \<longrightarrow>
       (th_aborted s' \<or> rt_aborted (th_runtime s') \<longleftrightarrow>
        GetCurrentScheduler s = None \<or> l \<noteq> ActSpawn \<and> rt_running (th_runtime s) = None))"
proof (intro conjI impI allI)
  have inv: "thread_inv s" using assms by (rule thread.inv_reachable)
  then have r: "rt_inv (th_runtime s)" and na: "\<not> th_aborted s" by (simp_all add: thread_inv_def)
  show "\<not> th_aborted s" by (fact na)
  show ra: "\<not> rt_aborted (th_runtime s)" using r by (auto simp: rt_inv_def rt_inv_at_def)
  show "distinct (stack_pool (th_runtime s) @ live_stacks (th_runtime s) @ th_lost s)"
    and "set (stack_pool (th_runtime s) @ live_stacks (th_runtime s) @ th_lost s) = {..< next_stack (th_runtime s)}"
    by (rule thread_stacks [OF inv])+
  show "th_aborted (RunScheduler s) \<longleftrightarrow> GetCurrentScheduler s \<noteq> None"
    using na by (simp add: RunScheduler_def Scheduler_Run_enter_def SchedulerScope_ctor_def GetCurrentScheduler_def th_abort_def)
  show "GetCurrentScheduler s' = None" if "thread_step ThReturn s = Some s'"
    using that by (auto simp: thread_step_def GetCurrentScheduler_def Scheduler_Run_leave_def SchedulerScope_dtor_def split: if_splits)
  show "f_state fb = Suspended" and "\<exists>p. f \<in> set (members (th_runtime s) p)"
    if "thread_step ThReturn s = Some s'" "rt_fibers (th_runtime s) f = Some fb" for f fb
    using waits_when_done [OF r _ that(2)] that(1) by (auto simp: thread_step_def split: if_splits)
  show "\<exists>fb. rt_fibers (th_runtime s) f = Some fb \<and> f_state fb = RunningState" if "GetCurrentFiber s = Some f" for f
  proof -
    from r obtain pl where "rt_inv_at pl (th_runtime s)" by (auto simp: rt_inv_def)
    moreover have "rt_running (th_runtime s) = Some f" using that by (simp add: GetCurrentFiber_def split: option.splits)
    ultimately obtain fb where "rt_fibers (th_runtime s) f = Some fb" "pl f = Some PlRunning"
      and "places_ok pl (members (th_runtime s)) (rt_fibers (th_runtime s))"
      by (metis inv_running inv_atD(2))
    then show ?thesis by (fastforce simp: places_ok_def)
  qed
  assume api: "thread_step (ThApi l) s = Some s'"
  then have l: "api_function l" and act: "api_call l s = Some s'" by (auto simp: thread_step_def split: if_splits)
  show "th_aborted s' \<or> rt_aborted (th_runtime s') \<longleftrightarrow>
      GetCurrentScheduler s = None \<or> l \<noteq> ActSpawn \<and> rt_running (th_runtime s) = None"
  proof (cases "GetCurrentScheduler s = None")
    case True
    with act show ?thesis by (auto simp: api_call_def th_abort_def)
  next
    case False
    with act obtain r' where r': "fiber_act l (th_runtime s) = Some r'" "s' = s\<lparr>th_runtime := r'\<rparr>"
      by (auto simp: api_call_def split: option.splits)
    have "rt_aborted r' \<longleftrightarrow> l \<noteq> ActSpawn \<and> rt_running (th_runtime s) = None"
    proof (cases "l = ActSpawn \<or> rt_running (th_runtime s) \<noteq> None")
      case True
      then have "rt_inv r'" using fiber_act_inv [OF r _ r'(1)] l by blast
      with True show ?thesis by (auto simp: rt_inv_def rt_inv_at_def)
    next
      case False
      with l r'(1) show ?thesis
        by (cases l) (auto simp: Scheduler_Yield_def Scheduler_SleepFor_def with_current_def rt_abort_def)
    qed
    with False na show ?thesis by (auto simp: r'(2))
  qed
qed

text \<open>Two schedulers on one thread; in the first a fiber waits for ever in a wait queue, the second one reuses a stack of the first.\<close>

definition runs_schedule :: "thread_label list" where
  "runs_schedule = [ThRun, ThStep (IoPosted 0), ThApi ActSpawn, ThStep ActReturn, ThStep (IoPosted 0), ThStep (ActPark 3), ThReturn, ThRun]"

lemma runs_schedule_runs:
  "\<exists>s. run disciplined_thread_step runs_schedule thread_start = Some s \<and> GetCurrentScheduler s = Some 1 \<and>
     stack_pool (th_runtime s) = [] \<and> live_stacks (th_runtime s) = [0] \<and> th_lost s = [1] \<and> next_stack (th_runtime s) = 2"
  by (simp add: runs_schedule_def thread_start_def disciplined_thread_step_def thread_step_def RunScheduler_def Scheduler_Run_enter_def
      SchedulerScope_ctor_def Scheduler_ctor_def next_runtime_def fiber_run_simps api_call_def GetCurrentScheduler_def
      Scheduler_RunLoop_done_def Scheduler_Run_leave_def SchedulerScope_dtor_def live_stacks_def List.map_filter_def numeral_eq_Suc)

theorem RunScheduler_scopes_and_stacks_witness:
  "\<exists>s. reachable disciplined_thread_step thread_start s \<and> th_lost s = [1] \<and> live_stacks (th_runtime s) = [0] \<and>
     th_aborted (RunScheduler s)"
proof -
  obtain s where s: "run disciplined_thread_step runs_schedule thread_start = Some s"
    and p: "GetCurrentScheduler s = Some 1" "live_stacks (th_runtime s) = [0]" "th_lost s = [1]"
    using runs_schedule_runs by blast
  note r = run_reachable [OF s]
  from RunScheduler_scopes_and_stacks [OF r, of s ActSpawn] r p show ?thesis by (intro exI [of _ s]) simp
qed

end
