(* ===== verification/Executors.thy ===== *)
theory Executors
  imports Prelude
begin

text \<open>
  The small executors of \<^verbatim>\<open>futures/executors/await/executors\<close>: the inline executor, the
  manual executor, the priority executor and thread labels. A task of the manual executor is
  an identifier; the parameter \<open>submits\<close> gives the tasks it hands to the same executor while
  it runs (the exceptions it throws are ignored by \<open>ExecuteHere\<close>).
\<close>

section \<open>Inline executor\<close>

text \<open>A task is a state transformer that also says whether it ended by an exception.\<close>

definition InlineExecutor_Execute :: "('s \<Rightarrow> bool \<times> 's) \<Rightarrow> 's \<Rightarrow> 's" where
  "InlineExecutor_Execute task s = snd (task s)"

section \<open>Thread labels\<close>

type_synonym thread_labels = "tid \<Rightarrow> string"

definition LabelThread :: "tid \<Rightarrow> string \<Rightarrow> thread_labels \<Rightarrow> thread_labels" where
  "LabelThread t label ls = ls(t := label)"

definition GetThreadLabel :: "tid \<Rightarrow> thread_labels \<Rightarrow> string" where
  "GetThreadLabel t ls = ls t"

text \<open>\<open>None\<close>: the verification fails and the program aborts.\<close>

definition ExpectThread :: "tid \<Rightarrow> string \<Rightarrow> thread_labels \<Rightarrow> thread_labels option" where
  "ExpectThread t label ls = (if label = ls t then Some ls else None)"

section \<open>Manual executor\<close>

record manual_executor =
  me_tasks :: "nat list"
  me_ran :: "nat list"

definition ManualExecutor_Execute :: "nat \<Rightarrow> manual_executor \<Rightarrow> manual_executor" where
  "ManualExecutor_Execute task s = s\<lparr>me_tasks := me_tasks s @ [task]\<rparr>"

definition ManualExecutor_PopTask :: "manual_executor \<Rightarrow> (nat \<times> manual_executor) option" where
  "ManualExecutor_PopTask s =
     (case me_tasks s of [] \<Rightarrow> None | task # rest \<Rightarrow> Some (task, s\<lparr>me_tasks := rest\<rparr>))"

text \<open>Running a popped task: it is recorded and submits its tasks in order.\<close>

definition manual_run_task :: "(nat \<Rightarrow> nat list) \<Rightarrow> nat \<Rightarrow> manual_executor \<Rightarrow> manual_executor" where
  "manual_run_task submits task s = fold ManualExecutor_Execute (submits task) (s\<lparr>me_ran := me_ran s @ [task]\<rparr>)"

text \<open>The loop of \<open>RunAtMost\<close>: so many rounds are left, \<open>i\<close> are done. \<open>None\<close> is a failed assertion.\<close>

primrec run_at_most_loop :: "(nat \<Rightarrow> nat list) \<Rightarrow> nat \<Rightarrow> nat \<Rightarrow> manual_executor \<Rightarrow> (nat \<times> manual_executor) option" where
  "run_at_most_loop submits 0 i s = Some (i, s)"
| "run_at_most_loop submits (Suc k) i s =
     (if me_tasks s = [] then Some (i, s)
      else case ManualExecutor_PopTask s of
             None \<Rightarrow> None
           | Some (task, s1) \<Rightarrow> run_at_most_loop submits k (Suc i) (manual_run_task submits task s1))"

definition ManualExecutor_RunAtMost :: "(nat \<Rightarrow> nat list) \<Rightarrow> nat \<Rightarrow> manual_executor \<Rightarrow> (nat \<times> manual_executor) option" where
  "ManualExecutor_RunAtMost submits limit s = run_at_most_loop submits limit 0 s"

definition ManualExecutor_RunAtMostOne :: "(nat \<Rightarrow> nat list) \<Rightarrow> manual_executor \<Rightarrow> (bool \<times> manual_executor) option" where
  "ManualExecutor_RunAtMostOne submits s =
     map_option (\<lambda>(n, s1). (n = 1, s1)) (ManualExecutor_RunAtMost submits 1 s)"

definition ManualExecutor_RunAllScheduled :: "(nat \<Rightarrow> nat list) \<Rightarrow> manual_executor \<Rightarrow> (nat \<times> manual_executor) option" where
  "ManualExecutor_RunAllScheduled submits s = ManualExecutor_RunAtMost submits (length (me_tasks s)) s"

text \<open>\<open>Drain\<close> may run forever, when tasks keep submitting tasks: then it is \<open>None\<close>.\<close>

partial_function (option) drain_loop ::
  "(nat \<Rightarrow> nat list) \<Rightarrow> nat \<Rightarrow> manual_executor \<Rightarrow> (nat \<times> manual_executor) option" where
  "drain_loop submits n s =
     (if me_tasks s = [] then Some (n, s)
      else case ManualExecutor_PopTask s of
             None \<Rightarrow> None
           | Some (task, s1) \<Rightarrow> drain_loop submits (Suc n) (manual_run_task submits task s1))"

definition ManualExecutor_Drain :: "(nat \<Rightarrow> nat list) \<Rightarrow> manual_executor \<Rightarrow> (nat \<times> manual_executor) option" where
  "ManualExecutor_Drain submits s = drain_loop submits 0 s"

definition ManualExecutor_Clear :: "manual_executor \<Rightarrow> manual_executor" where
  "ManualExecutor_Clear s = s\<lparr>me_tasks := []\<rparr>"

section \<open>Priority executor\<close>

text \<open>
  The executor under the hood is represented by the number of lambdas it was given and has not
  started; it may run them in any order and on any threads. Among tasks of equal
  priority \<open>std::priority_queue\<close> may put any on top: the label of a thunk says which
  element is on top. A \<open>top\<close> of an empty queue is undefined behaviour, here an abort. A lambda
  takes its task under the mutex and starts it later, after it has released the mutex: \<open>pe_taken\<close>
  are the tasks between the two, \<open>pe_popped\<close> and \<open>pe_ran\<close> the tasks in the order in which they were
  popped and in which they were started.
\<close>

datatype pe_pc = PeIdle | PeSubmit

record priority_executor =
  pe_queue :: "(int \<times> nat) list"
  pe_hood :: nat
  pe_pcs :: "pe_pc list"
  pe_given :: "(int \<times> nat) list"
  pe_popped :: "(int \<times> nat) list"
  pe_taken :: "(int \<times> nat) list"
  pe_ran :: "(int \<times> nat) list"
  pe_aborted :: bool

definition PriorityExecutor_Execute :: "tid \<Rightarrow> int \<Rightarrow> nat \<Rightarrow> priority_executor \<Rightarrow> priority_executor option" where
  "PriorityExecutor_Execute i priority task s =
     (if i < length (pe_pcs s) \<and> pe_pcs s ! i = PeIdle
      then Some (s\<lparr>pe_queue := pe_queue s @ [(priority, task)], pe_given := pe_given s @ [(priority, task)],
                   pe_pcs := (pe_pcs s)[i := PeSubmit]\<rparr>)
      else None)"

text \<open>The second half of \<open>Execute\<close>, after the mutex is released.\<close>

definition PriorityExecutor_submit :: "tid \<Rightarrow> priority_executor \<Rightarrow> priority_executor option" where
  "PriorityExecutor_submit i s =
     (if i < length (pe_pcs s) \<and> pe_pcs s ! i = PeSubmit
      then Some (s\<lparr>pe_hood := Suc (pe_hood s), pe_pcs := (pe_pcs s)[i := PeIdle]\<rparr>)
      else None)"

definition TaskNodeComparator :: "int \<times> nat \<Rightarrow> int \<times> nat \<Rightarrow> bool" where
  "TaskNodeComparator first second \<longleftrightarrow> fst first < fst second"

definition is_top :: "(int \<times> nat) list \<Rightarrow> nat \<Rightarrow> bool" where
  "is_top q k \<longleftrightarrow> k < length q \<and> list_all (\<lambda>x. \<not> TaskNodeComparator (q ! k) x) q"

definition PriorityExecutor_thunk :: "nat \<Rightarrow> priority_executor \<Rightarrow> priority_executor option" where
  "PriorityExecutor_thunk k s =
     (if pe_hood s = 0 then None
      else if pe_queue s = [] then Some (s\<lparr>pe_hood := pe_hood s - 1, pe_aborted := True\<rparr>)
      else if is_top (pe_queue s) k
      then Some (s\<lparr>pe_hood := pe_hood s - 1,
                   pe_queue := take k (pe_queue s) @ drop (Suc k) (pe_queue s),
                   pe_popped := pe_popped s @ [pe_queue s ! k],
                   pe_taken := pe_taken s @ [pe_queue s ! k]\<rparr>)
      else None)"

text \<open>The end of a lambda, \<open>task()\<close>, of any of those that have taken a task.\<close>

definition PriorityExecutor_run :: "nat \<Rightarrow> priority_executor \<Rightarrow> priority_executor option" where
  "PriorityExecutor_run j s =
     (if j < length (pe_taken s)
      then Some (s\<lparr>pe_taken := take j (pe_taken s) @ drop (Suc j) (pe_taken s), pe_ran := pe_ran s @ [pe_taken s ! j]\<rparr>)
      else None)"

text \<open>\<open>FixPriority\<close> gives an executor that adds its priority.\<close>

definition PriorityExecutorImplFixed_Execute :: "int \<Rightarrow> tid \<Rightarrow> nat \<Rightarrow> priority_executor \<Rightarrow> priority_executor option" where
  "PriorityExecutorImplFixed_Execute priority i task s = PriorityExecutor_Execute i priority task s"

datatype pe_label = PExecute tid int nat | PFixed int tid nat | PSubmit tid | PThunk nat | PRun nat

fun pe_step :: "pe_label \<Rightarrow> priority_executor \<Rightarrow> priority_executor option" where
  "pe_step (PExecute i priority task) s = PriorityExecutor_Execute i priority task s"
| "pe_step (PFixed priority i task) s = PriorityExecutorImplFixed_Execute priority i task s"
| "pe_step (PSubmit i) s = PriorityExecutor_submit i s"
| "pe_step (PThunk k) s = PriorityExecutor_thunk k s"
| "pe_step (PRun j) s = PriorityExecutor_run j s"

definition pe_start :: "nat \<Rightarrow> priority_executor" where
  "pe_start n = \<lparr>pe_queue = [], pe_hood = 0, pe_pcs = replicate n PeIdle, pe_given = [],
     pe_popped = [], pe_taken = [], pe_ran = [], pe_aborted = False\<rparr>"

section \<open>The manual executor runs everything once, in order\<close>

lemma fold_Execute [simp]: "fold ManualExecutor_Execute ts s = s\<lparr>me_tasks := me_tasks s @ ts\<rparr>"
  by (induction ts arbitrary: s) (simp_all add: ManualExecutor_Execute_def)

lemma run_at_most_loop_eq:
  assumes "me_tasks s = now @ later"
  shows "run_at_most_loop submits (length now) i s =
    Some (i + length now, s\<lparr>me_ran := me_ran s @ now, me_tasks := later @ concat (map submits now)\<rparr>)"
  using assms
proof (induction now arbitrary: i s later)
  case (Cons t now)
  let ?s = "s\<lparr>me_ran := me_ran s @ [t], me_tasks := now @ later @ submits t\<rparr>"
  have "run_at_most_loop submits (length (t # now)) i s = run_at_most_loop submits (length now) (Suc i) ?s"
    using Cons.prems by (simp add: ManualExecutor_PopTask_def manual_run_task_def)
  also have "\<dots> = Some (Suc i + length now,
      ?s\<lparr>me_ran := me_ran ?s @ now, me_tasks := (later @ submits t) @ concat (map submits now)\<rparr>)"
    by (rule Cons.IH) simp
  finally show ?case by simp
qed simp

lemma run_at_most_loop_empty: "me_tasks s = [] \<Longrightarrow> run_at_most_loop submits k i s = Some (i, s)"
  by (cases k) simp_all

lemma run_at_most_loop_bounds:
  assumes "run_at_most_loop submits k i s = Some (n, s')"
  shows "i \<le> n \<and> n \<le> i + k \<and> (n < i + k \<longrightarrow> me_tasks s' = []) \<and> length (me_ran s') = length (me_ran s) + (n - i)"
  using assms
proof (induction k arbitrary: i s)
  case (Suc k)
  show ?case
  proof (cases "me_tasks s")
    case (Cons t rest)
    with Suc.prems have "run_at_most_loop submits k (Suc i) (manual_run_task submits t (s\<lparr>me_tasks := rest\<rparr>)) = Some (n, s')"
      by (simp add: ManualExecutor_PopTask_def)
    from Suc.IH [OF this] show ?thesis by (auto simp: manual_run_task_def)
  qed (use Suc.prems in auto)
qed auto

lemma drain_loop_step:
  "me_tasks s = t # rest \<Longrightarrow>
   drain_loop submits n s =
   drain_loop submits (Suc n) (s\<lparr>me_ran := me_ran s @ [t], me_tasks := rest @ submits t\<rparr>)"
  by (subst drain_loop.simps) (simp add: ManualExecutor_PopTask_def manual_run_task_def)

lemma drain_loop_Nil: "me_tasks s = [] \<Longrightarrow> drain_loop submits n s = Some (n, s)"
  by (simp add: drain_loop.simps)

text \<open>The tasks left decrease in the multiset order when every task submits only smaller ones.\<close>

lemma submits_decrease:
  assumes "\<And>u. u \<in> set (submits t) \<Longrightarrow> u < t"
  shows "(mset (rest @ submits t), mset (t # rest)) \<in> mult less_than"
proof -
  have "(mset rest + mset (submits t), mset rest + {#t#}) \<in> mult less_than"
    by (rule one_step_implies_mult) (use assms in auto)
  then show ?thesis by simp
qed

lemma drain_loop_total:
  assumes dec: "\<And>t u. u \<in> set (submits t) \<Longrightarrow> u < t"
  shows "\<exists>xs. drain_loop submits n s = Some (n + length xs, s\<lparr>me_ran := me_ran s @ xs, me_tasks := []\<rparr>) \<and>
    mset xs = mset (me_tasks s) + mset (concat (map submits xs))"
proof (induction "mset (me_tasks s)" arbitrary: s n rule: wf_induct_rule [OF wf_mult [OF wf_less_than]])
  case 1
  show ?case
  proof (cases "me_tasks s")
    case Nil
    then have "drain_loop submits n s = Some (n + length [], s\<lparr>me_ran := me_ran s @ [], me_tasks := []\<rparr>)"
      by (simp add: drain_loop_Nil)
    with Nil show ?thesis by (intro exI [of _ "[]"]) simp
  next
    case (Cons t rest)
    let ?s = "s\<lparr>me_ran := me_ran s @ [t], me_tasks := rest @ submits t\<rparr>"
    have "(mset (me_tasks ?s), mset (me_tasks s)) \<in> mult less_than"
      using submits_decrease [of submits t rest] dec Cons by simp
    from 1 [OF this, of "Suc n"] obtain xs where xs: "drain_loop submits (Suc n) ?s =
        Some (Suc n + length xs, ?s\<lparr>me_ran := me_ran ?s @ xs, me_tasks := []\<rparr>)"
      and m: "mset xs = mset (me_tasks ?s) + mset (concat (map submits xs))" by blast
    from xs Cons have "drain_loop submits n s =
        Some (n + length (t # xs), s\<lparr>me_ran := me_ran s @ t # xs, me_tasks := []\<rparr>)"
      by (simp add: drain_loop_step)
    moreover have "mset (t # xs) = mset (me_tasks s) + mset (concat (map submits (t # xs)))"
      using m Cons by simp
    ultimately show ?thesis by blast
  qed
qed

text \<open>\<open>RunAllScheduled\<close> runs exactly the tasks that were scheduled when it was called, in the order in
  which they were scheduled, and returns their number; the tasks they submit stay in the queue, in order.\<close>

theorem ManualExecutor_RunAllScheduled_exact:
  "ManualExecutor_RunAllScheduled submits s =
     Some (length (me_tasks s), s\<lparr>me_ran := me_ran s @ me_tasks s, me_tasks := concat (map submits (me_tasks s))\<rparr>)"
  using run_at_most_loop_eq [of s "me_tasks s" "[]"]
  by (simp add: ManualExecutor_RunAllScheduled_def ManualExecutor_RunAtMost_def)

text \<open>\<open>RunAtMost\<close> runs as many tasks as it returns, at most \<open>limit\<close>, and fewer only if the queue is empty.\<close>

theorem ManualExecutor_RunAtMost_count:
  assumes "ManualExecutor_RunAtMost submits limit s = Some (n, s')"
  shows "n \<le> limit \<and> (n < limit \<longrightarrow> me_tasks s' = []) \<and> length (me_ran s') = length (me_ran s) + n"
  using run_at_most_loop_bounds assms by (fastforce simp: ManualExecutor_RunAtMost_def)

text \<open>\<open>Drain\<close> returns when no task can resubmit itself, directly or through others (each submits only
  tasks of smaller rank): the queue is empty then, the count is the number of tasks run, and
  every task that was scheduled, before or during the call, ran exactly once.\<close>

theorem ManualExecutor_Drain_terminates:
  assumes "\<And>t u. u \<in> set (submits t) \<Longrightarrow> u < t"
  shows "\<exists>xs. ManualExecutor_Drain submits s = Some (length xs, s\<lparr>me_ran := me_ran s @ xs, me_tasks := []\<rparr>) \<and>
    mset xs = mset (me_tasks s) + mset (concat (map submits xs))"
  using drain_loop_total [of submits 0 s] assms by (simp add: ManualExecutor_Drain_def)

theorem ManualExecutor_Drain_terminates_witness:
  "\<exists>xs. ManualExecutor_Drain (\<lambda>t. if t = 2 then [1, 0] else []) \<lparr>me_tasks = [2, 0], me_ran = []\<rparr> =
     Some (length xs, \<lparr>me_tasks = [], me_ran = xs\<rparr>) \<and>
   mset xs = {#2, 0#} + mset (concat (map (\<lambda>t. if t = 2 then [1, 0] else []) xs))"
proof -
  have "u < t" if "u \<in> set (if t = 2 then [1, 0] else [])" for t u :: nat
    using that by (auto split: if_splits)
  from ManualExecutor_Drain_terminates [of "\<lambda>t. if t = 2 then [1, 0] else []", OF this, of "\<lparr>me_tasks = [2, 0], me_ran = []\<rparr>"] show ?thesis by simp
qed

text \<open>A task that resubmits itself keeps \<open>Drain\<close> in its loop forever.\<close>

lemma drain_loop_forever:
  assumes "drain_loop submits n s = Some r"
  shows "submits t = [t] \<longrightarrow> me_tasks s \<noteq> [t]"
proof (rule drain_loop.raw_induct [OF _ assms, where P = "\<lambda>submits n s r. submits t = [t] \<longrightarrow> me_tasks s \<noteq> [t]"])
  fix drain submits n s r
  assume IH: "\<And>submits n s r. drain submits n s = Some r \<Longrightarrow> submits t = [t] \<longrightarrow> me_tasks s \<noteq> [t]"
    and run: "(if me_tasks s = [] then Some (n, s)
      else case ManualExecutor_PopTask s of
             None \<Rightarrow> None
           | Some (task, s1) \<Rightarrow> drain submits (Suc n) (manual_run_task submits task s1)) = Some r"
  show "submits t = [t] \<longrightarrow> me_tasks s \<noteq> [t]"
  proof (intro impI notI)
    assume "submits t = [t]" "me_tasks s = [t]"
    with run have "drain submits (Suc n) (s\<lparr>me_ran := me_ran s @ [t], me_tasks := [t]\<rparr>) = Some r"
      by (simp add: ManualExecutor_PopTask_def manual_run_task_def)
    from IH [OF this] \<open>submits t = [t]\<close> show False by simp
  qed
qed

lemma ManualExecutor_Drain_forever: "submits t = [t] \<Longrightarrow> me_tasks s = [t] \<Longrightarrow> ManualExecutor_Drain submits s = None"
  using drain_loop_forever [of submits 0 s] by (cases "ManualExecutor_Drain submits s") (auto simp: ManualExecutor_Drain_def)

section \<open>The priority executor\<close>

definition pe_inv :: "priority_executor \<Rightarrow> bool" where
  "pe_inv s \<longleftrightarrow> \<not> pe_aborted s \<and> length (pe_queue s) = pe_hood s + cnt (\<lambda>p. p = PeSubmit) (pe_pcs s) \<and>
     mset (pe_given s) = mset (pe_popped s) + mset (pe_queue s) \<and>
     mset (pe_popped s) = mset (pe_ran s) + mset (pe_taken s)"

lemma pe_inv_Execute: "pe_inv s \<Longrightarrow> PriorityExecutor_Execute i p t s = Some s' \<Longrightarrow> pe_inv s'"
  by (auto simp: PriorityExecutor_Execute_def pe_inv_def cnt_update_eq split: if_splits)

text \<open>A lambda that does not abort takes a task from the top of the queue.\<close>

lemma pe_thunk_takes:
  assumes "PriorityExecutor_thunk k s = Some s'" "pe_queue s \<noteq> []"
  shows "k < length (pe_queue s)" "is_top (pe_queue s) k" "pe_hood s \<noteq> 0"
    "s' = s\<lparr>pe_hood := pe_hood s - 1, pe_queue := take k (pe_queue s) @ drop (Suc k) (pe_queue s),
            pe_popped := pe_popped s @ [pe_queue s ! k], pe_taken := pe_taken s @ [pe_queue s ! k]\<rparr>"
  using assms by (auto simp: PriorityExecutor_thunk_def is_top_def split: if_splits)

lemma pe_inv_step:
  assumes "pe_inv s" "pe_step l s = Some s'"
  shows "pe_inv s'"
proof (cases l)
  case (PSubmit i)
  with assms show ?thesis
    using cnt_posI [of i "pe_pcs s" "\<lambda>p. p = PeSubmit"]
    by (auto simp: PriorityExecutor_submit_def pe_inv_def cnt_update_eq split: if_splits)
next
  case (PThunk k)
  with assms have "pe_hood s \<noteq> 0" by (auto simp: PriorityExecutor_thunk_def split: if_splits)
  then have "pe_queue s \<noteq> []" using assms(1) by (auto simp: pe_inv_def)
  with PThunk assms(2) have th: "PriorityExecutor_thunk k s = Some s'" "pe_queue s \<noteq> []" by simp_all
  note k = pe_thunk_takes [OF th]
  show ?thesis using assms(1) k(1,3) mset_remove_nth [OF k(1)] by (auto simp: k(4) pe_inv_def)
next
  case (PRun j)
  with assms show ?thesis using mset_remove_nth [of j "pe_taken s"]
    by (auto simp: PriorityExecutor_run_def pe_inv_def split: if_splits)
qed (use assms pe_inv_Execute in \<open>auto simp: PriorityExecutorImplFixed_Execute_def\<close>)

lemma pe_inv_start: "pe_inv (pe_start n)"
  by (simp add: pe_inv_def pe_start_def)

interpretation pe: invariant_system pe_step "pe_start n" pe_inv
  by unfold_locales (auto intro: pe_inv_start pe_inv_step)

lemma pe_every_task_once:
  assumes "reachable pe_step (pe_start n) s"
  shows "\<not> pe_aborted s \<and> mset (pe_given s) = mset (pe_ran s) + mset (pe_taken s) + mset (pe_queue s) \<and>
    (pe_hood s = 0 \<and> (\<forall>i < length (pe_pcs s). pe_pcs s ! i = PeIdle) \<and> pe_taken s = [] \<longrightarrow> mset (pe_ran s) = mset (pe_given s))"
proof -
  note inv = pe.inv_reachable [OF assms]
  have "cnt (\<lambda>p. p = PeSubmit) (pe_pcs s) = 0" if "\<forall>i < length (pe_pcs s). pe_pcs s ! i = PeIdle"
    using that cnt_pos_iff [of "\<lambda>p. p = PeSubmit" "pe_pcs s"] by force
  with inv show ?thesis by (auto simp: pe_inv_def)
qed

lemmas pe_run_simps = pe_start_def PriorityExecutor_Execute_def PriorityExecutor_submit_def PriorityExecutor_run_def
  PriorityExecutor_thunk_def is_top_def TaskNodeComparator_def PriorityExecutorImplFixed_Execute_def

fun gives_task :: "pe_label \<Rightarrow> bool" where
  "gives_task (PExecute i p t) \<longleftrightarrow> True"
| "gives_task (PFixed p i t) \<longleftrightarrow> True"
| "gives_task _ \<longleftrightarrow> False"

text \<open>\<open>ys\<close> were popped in order of priority, and what is left is not higher than any of them.\<close>

definition popped_in_order :: "(int \<times> nat) list \<Rightarrow> priority_executor \<Rightarrow> priority_executor \<Rightarrow> bool" where
  "popped_in_order ys s s' \<longleftrightarrow> pe_popped s' = pe_popped s @ ys \<and> mset (pe_queue s) = mset ys + mset (pe_queue s') \<and>
     sorted_wrt (\<lambda>x y. fst y \<le> fst x) ys \<and> (\<forall>y \<in> set ys. \<forall>x \<in> set (pe_queue s'). fst x \<le> fst y)"

lemma pe_pops_sorted:
  assumes "run pe_step ls s = Some s'" "pe_inv s" "\<forall>l \<in> set ls. \<not> gives_task l"
  shows "\<exists>ys. popped_in_order ys s s'"
  using assms
proof (induction ls arbitrary: s)
  case Nil
  then show ?case by (intro exI [of _ "[]"]) (simp add: popped_in_order_def)
next
  case (Cons l ls)
  then obtain t where t: "pe_step l s = Some t" "run pe_step ls t = Some s'" by (auto split: option.splits)
  note inv = pe_inv_step [OF Cons.prems(2) t(1)]
  from Cons.IH [OF t(2) inv] Cons.prems(3) obtain ys where ys: "popped_in_order ys t s'" by auto
  show ?case
  proof (cases "\<exists>k. l = PThunk k")
    case False
    with t(1) Cons.prems(3) have "pe_queue t = pe_queue s" "pe_popped t = pe_popped s"
      by (cases l; auto simp: PriorityExecutor_submit_def PriorityExecutor_run_def split: if_splits)+
    with ys show ?thesis unfolding popped_in_order_def by auto
  next
    case True
    then obtain k where l: "l = PThunk k" by blast
    with t(1) have "pe_hood s \<noteq> 0" by (auto simp: PriorityExecutor_thunk_def split: if_splits)
    then have "pe_queue s \<noteq> []" using Cons.prems(2) by (auto simp: pe_inv_def)
    with l t(1) have th: "PriorityExecutor_thunk k s = Some t" "pe_queue s \<noteq> []" by simp_all
    note k = pe_thunk_takes [OF th]
    have all: "\<forall>y \<in> set (pe_queue s). fst y \<le> fst (pe_queue s ! k)"
      using k(2) by (auto simp: is_top_def list_all_iff TaskNodeComparator_def not_less)
    have q: "mset (pe_queue t) = mset ys + mset (pe_queue s')" using ys by (simp add: popped_in_order_def)
    then have "set (pe_queue t) = set ys \<union> set (pe_queue s')" by (metis set_mset_mset set_mset_union)
    moreover have "set (pe_queue t) \<subseteq> set (pe_queue s)" by (auto simp: k(4) dest: in_set_takeD in_set_dropD)
    ultimately have "popped_in_order (pe_queue s ! k # ys) s s'"
      using ys all q mset_remove_nth [OF k(1)] unfolding popped_in_order_def by (auto simp: k(4))
    then show ?thesis by blast
  qed
qed

text \<open>Lambdas that run one after the other, each to its end.\<close>

definition undisturbed :: "nat list \<Rightarrow> pe_label list" where
  "undisturbed ks = concat (map (\<lambda>k. [PThunk k, PRun 0]) ks)"

lemma undisturbed_gives_nothing: "\<forall>l \<in> set (undisturbed ks). \<not> gives_task l"
  by (auto simp: undisturbed_def)

lemma pe_undisturbed_runs:
  assumes "run pe_step (undisturbed ks) s = Some s'" "pe_inv s" "pe_taken s = []"
  shows "\<exists>ys. pe_popped s' = pe_popped s @ ys \<and> pe_ran s' = pe_ran s @ ys"
  using assms
proof (induction ks arbitrary: s)
  case (Cons k ks)
  then obtain t u where t: "PriorityExecutor_thunk k s = Some t" "PriorityExecutor_run 0 t = Some u"
    "run pe_step (undisturbed ks) u = Some s'"
    by (auto simp: undisturbed_def split: option.splits)
  have invs: "pe_inv u" using pe_inv_step [OF pe_inv_step [OF Cons.prems(2), of "PThunk k"], of t "PRun 0"] t by simp
  have "pe_queue s \<noteq> []"
    using t(1) Cons.prems(2) by (auto simp: PriorityExecutor_thunk_def pe_inv_def split: if_splits)
  from pe_thunk_takes [OF t(1) this] t(2) Cons.prems(3)
  have u: "pe_taken u = []" "pe_popped u = pe_popped s @ [pe_queue s ! k]" "pe_ran u = pe_ran s @ [pe_queue s ! k]"
    by (auto simp: PriorityExecutor_run_def)
  from Cons.IH [OF t(3) invs u(1)] u show ?case by auto
qed (simp add: undisturbed_def)

text \<open>C32: The priority executor over any executor under the hood and for any number of threads: a lambda never finds the queue empty, and no
  task is lost or run twice: when every lambda has been handed over and has run, exactly the tasks given to \<open>Execute\<close> have run. Higher
  priorities first: as long as no new task is given, whatever else the threads do, tasks are popped in the order of non-increasing
  priority, and none that is left has a higher priority than one that was popped. Lambdas that run undisturbed, one
  after the other, also start their tasks in the order in which they are popped (with several workers under the hood a task that was
  popped first may start second: the lambda calls it after it has released the mutex).\<close>

theorem PriorityExecutor_once_and_higher_first:
  assumes "reachable pe_step (pe_start n) s"
  shows "\<not> pe_aborted s \<and> mset (pe_given s) = mset (pe_ran s) + mset (pe_taken s) + mset (pe_queue s) \<and>
    (pe_hood s = 0 \<and> (\<forall>i < length (pe_pcs s). pe_pcs s ! i = PeIdle) \<and> pe_taken s = [] \<longrightarrow> mset (pe_ran s) = mset (pe_given s)) \<and>
    (\<forall>ls s'. run pe_step ls s = Some s' \<and> (\<forall>l \<in> set ls. \<not> gives_task l) \<longrightarrow> (\<exists>ys. popped_in_order ys s s')) \<and>
    (\<forall>ks s'. run pe_step (undisturbed ks) s = Some s' \<and> pe_taken s = [] \<longrightarrow>
       (\<exists>ys. pe_ran s' = pe_ran s @ ys \<and> popped_in_order ys s s'))"
proof -
  note inv = pe.inv_reachable [OF assms]
  have "\<exists>ys. pe_ran s' = pe_ran s @ ys \<and> popped_in_order ys s s'"
    if "run pe_step (undisturbed ks) s = Some s' \<and> pe_taken s = []" for ks s'
    using pe_undisturbed_runs [OF _ inv, of ks s'] pe_pops_sorted [OF _ inv undisturbed_gives_nothing, of ks s'] that
    by (auto simp: popped_in_order_def)
  with pe_every_task_once [OF assms] pe_pops_sorted [OF _ inv] show ?thesis by blast
qed

lemma pe_waiting_runs:
  "\<exists>s s'. run pe_step [PExecute 0 1 7, PFixed 5 1 8, PSubmit 0, PSubmit 1] (pe_start 2) = Some s \<and>
     pe_queue s = [(1, 7), (5, 8)] \<and> pe_ran s = [] \<and> pe_taken s = [] \<and> run pe_step (undisturbed [1, 0]) s = Some s' \<and>
     pe_queue s' = []"
  by (simp add: pe_run_simps replicate_two undisturbed_def)

theorem PriorityExecutor_once_and_higher_first_witness:
  "\<exists>s s' ys. run pe_step [PExecute 0 1 7, PFixed 5 1 8, PSubmit 0, PSubmit 1] (pe_start 2) = Some s \<and>
     mset (pe_given s) = {#(1, 7), (5, 8)#} \<and> run pe_step (undisturbed [1, 0]) s = Some s' \<and> pe_ran s' = ys \<and>
     mset ys = {#(1, 7), (5, 8)#} \<and> sorted_wrt (\<lambda>x y. fst y \<le> fst x) ys"
proof -
  obtain s s' where s: "run pe_step [PExecute 0 1 7, PFixed 5 1 8, PSubmit 0, PSubmit 1] (pe_start 2) = Some s"
     "pe_queue s = [(1, 7), (5, 8)]" "pe_ran s = []" "pe_taken s = []" "run pe_step (undisturbed [1, 0]) s = Some s'" "pe_queue s' = []"
    using pe_waiting_runs by (elim exE conjE)
  note once = PriorityExecutor_once_and_higher_first [OF run_reachable [OF s(1)]]
  then have "mset (pe_given s) = {#(1, 7), (5, 8)#}" using s(2-4) by simp
  moreover from once s(4,5) obtain ys where "pe_ran s' = pe_ran s @ ys" "popped_in_order ys s s'" by blast
  then have "pe_ran s' = ys" "mset ys = {#(1, 7), (5, 8)#}" "sorted_wrt (\<lambda>x y. fst y \<le> fst x) ys"
    using s(2,3,6) by (auto simp: popped_in_order_def)
  ultimately show ?thesis using s(1,5) by blast
qed

end
