(* ===== verification/Net.thy ===== *)
theory Net
  imports Prelude "HOL-Library.Sublist"
begin

text \<open>
  The blocking sockets over fibers (\<^verbatim>\<open>tinyfibers/echo/tinyfibers/net\<close>) and the two echo servers.
  \<open>asio\<close> is a parameter: \<open>'w\<close> is the state of the operating system and the peers, and a read,
  write, connect or accept is a function on it that gives the error code and the result with
  which the completion handler is called. The fiber waits in \<open>Future::Get\<close> until the handler has
  set the future, so a call of an asynchronous operation followed by \<open>Get\<close> is here the
  application of that function and of the handler. Bytes read are the list of bytes
  that arrived in the buffer; the number the code returns is its length.
\<close>

type_synonym byte = "8 word"

datatype net_error = Eof | NoBufferSpace | NetError nat

type_synonym 'w reader = "nat \<Rightarrow> 'w \<Rightarrow> (net_error option \<times> byte list) \<times> 'w"
type_synonym 'w writer = "byte list \<Rightarrow> 'w \<Rightarrow> (net_error option \<times> nat) \<times> 'w"

section \<open>Completion handlers\<close>

definition BuildTask :: "net_error option \<Rightarrow> 'a \<Rightarrow> net_error + 'a" where
  "BuildTask code async_result = (case code of Some e \<Rightarrow> Inl e | None \<Rightarrow> Inr async_result)"

definition BuildDummyTask :: "net_error option \<Rightarrow> net_error + unit" where
  "BuildDummyTask code = (case code of Some e \<Rightarrow> Inl e | None \<Rightarrow> Inr ())"

section \<open>Sockets\<close>

definition Socket_ReadSome :: "'w reader \<Rightarrow> nat \<Rightarrow> 'w \<Rightarrow> (net_error + byte list) \<times> 'w" where
  "Socket_ReadSome rd sz w =
     (let ((code, data), w1) = rd sz w
      in case BuildTask code data of
           Inl e \<Rightarrow> (if e = Eof \<or> e = NoBufferSpace then Inr [] else Inl e, w1)
         | Inr d \<Rightarrow> (Inr d, w1))"

text \<open>The loop of \<open>Read\<close>: \<open>got\<close> are the bytes in the buffer, their number is \<open>shift\<close>; \<open>buffer + shift\<close> is the
  rest of the buffer, empty when the buffer is full.\<close>

partial_function (option) read_loop ::
  "'w reader \<Rightarrow> nat \<Rightarrow> byte list \<Rightarrow> 'w \<Rightarrow> ((net_error + byte list) \<times> 'w) option" where
  "read_loop rd sz got w =
     (case Socket_ReadSome rd (sz - length got) w of
        (received, w1) \<Rightarrow>
          (case received of
             Inl e \<Rightarrow> Some (Inl e, w1)
           | Inr d \<Rightarrow> (if d = [] then Some (Inr got, w1) else read_loop rd sz (got @ d) w1)))"

definition Socket_Read :: "'w reader \<Rightarrow> nat \<Rightarrow> 'w \<Rightarrow> ((net_error + byte list) \<times> 'w) option" where
  "Socket_Read rd sz w = read_loop rd sz [] w"

definition Socket_WriteSome :: "'w writer \<Rightarrow> byte list \<Rightarrow> 'w \<Rightarrow> (net_error + nat) \<times> 'w" where
  "Socket_WriteSome wr buf w =
     (let ((code, n), w1) = wr buf w
      in case BuildTask code n of
           Inl e \<Rightarrow> (if e = Eof then Inr 0 else Inl e, w1)
         | Inr k \<Rightarrow> (Inr k, w1))"

partial_function (option) write_loop ::
  "'w writer \<Rightarrow> byte list \<Rightarrow> nat \<Rightarrow> 'w \<Rightarrow> ((net_error + unit) \<times> 'w) option" where
  "write_loop wr buf shift w =
     (case Socket_WriteSome wr (drop shift buf) w of
        (result, w1) \<Rightarrow>
          (case result of
             Inl e \<Rightarrow> Some (Inl e, w1)
           | Inr n \<Rightarrow> (if n = 0 then Some (Inr (), w1) else write_loop wr buf (shift + n) w1)))"

definition Socket_Write :: "'w writer \<Rightarrow> byte list \<Rightarrow> 'w \<Rightarrow> ((net_error + unit) \<times> 'w) option" where
  "Socket_Write wr buf w = write_loop wr buf 0 w"

definition Socket_ShutdownWrite :: "('w \<Rightarrow> net_error option \<times> 'w) \<Rightarrow> 'w \<Rightarrow> (net_error + unit) \<times> 'w" where
  "Socket_ShutdownWrite shutdown w =
     (let (code, w1) = shutdown w in (case code of Some e \<Rightarrow> Inl e | None \<Rightarrow> Inr (), w1))"

section \<open>Connecting\<close>

definition Socket_GetEndpoints ::
  "(string \<Rightarrow> string \<Rightarrow> 'w \<Rightarrow> (net_error option \<times> 'ep list) \<times> 'w) \<Rightarrow> string \<Rightarrow> string \<Rightarrow> 'w \<Rightarrow> (net_error + 'ep list) \<times> 'w" where
  "Socket_GetEndpoints resolve host port w =
     (let ((code, eps), w1) = resolve host port w
      in case BuildTask code eps of Inl e \<Rightarrow> (Inl e, w1) | Inr r \<Rightarrow> (Inr r, w1))"

definition Socket_TryToConnectToEndpoint ::
  "('ep \<Rightarrow> 'w \<Rightarrow> net_error option \<times> 'w) \<Rightarrow> 'ep \<Rightarrow> 'w \<Rightarrow> (net_error + unit) \<times> 'w" where
  "Socket_TryToConnectToEndpoint connect endpoint w =
     (let (code, w1) = connect endpoint w in (BuildDummyTask code, w1))"

text \<open>The loop over the endpoints; it gives the value of \<open>err\<close> after the loop.\<close>

primrec connect_loop ::
  "('ep \<Rightarrow> 'w \<Rightarrow> net_error option \<times> 'w) \<Rightarrow> 'ep list \<Rightarrow> net_error option \<Rightarrow> 'w \<Rightarrow> net_error option \<times> 'w" where
  "connect_loop connect [] err w = (err, w)"
| "connect_loop connect (endpoint # rest) err w =
     (case Socket_TryToConnectToEndpoint connect endpoint w of
        (con_result, w1) \<Rightarrow>
          (case con_result of
             Inr _ \<Rightarrow> (None, w1)
           | Inl e \<Rightarrow> connect_loop connect rest (Some e) w1))"

definition Socket_TryToConnect ::
  "('ep \<Rightarrow> 'w \<Rightarrow> net_error option \<times> 'w) \<Rightarrow> 'ep list \<Rightarrow> 'w \<Rightarrow> (net_error + unit) \<times> 'w" where
  "Socket_TryToConnect connect endpoints w =
     (case connect_loop connect endpoints None w of
        (Some e, w1) \<Rightarrow> (Inl e, w1)
      | (None, w1) \<Rightarrow> (Inr (), w1))"

fun to_string :: "nat \<Rightarrow> string" where
  "to_string n = (if n < 10 then [char_of (48 + n)] else to_string (n div 10) @ [char_of (48 + n mod 10)])"

text \<open>\<open>ConnectTo\<close> passes the result of \<open>TryToConnect\<close> to the constructor of the socket without a
  check: what the conversion of a failed \<open>wheels::Result\<close> does is the parameter \<open>convert\<close>.\<close>

definition Socket_ConnectTo ::
  "(string \<Rightarrow> string \<Rightarrow> 'w \<Rightarrow> (net_error option \<times> 'ep list) \<times> 'w) \<Rightarrow> ('ep \<Rightarrow> 'w \<Rightarrow> net_error option \<times> 'w) \<Rightarrow>
   (net_error + unit \<Rightarrow> net_error + unit) \<Rightarrow> string \<Rightarrow> u16 \<Rightarrow> 'w \<Rightarrow> (net_error + unit) \<times> 'w" where
  "Socket_ConnectTo resolve connect convert host port w =
     (case Socket_GetEndpoints resolve host (to_string (unat port)) w of
        (Inl e, w1) \<Rightarrow> (Inl e, w1)
      | (Inr eps, w1) \<Rightarrow>
          (case Socket_TryToConnect connect eps w1 of (asio_sock, w2) \<Rightarrow> (convert asio_sock, w2)))"

definition Socket_ConnectToLocal ::
  "(string \<Rightarrow> string \<Rightarrow> 'w \<Rightarrow> (net_error option \<times> 'ep list) \<times> 'w) \<Rightarrow> ('ep \<Rightarrow> 'w \<Rightarrow> net_error option \<times> 'w) \<Rightarrow>
   (net_error + unit \<Rightarrow> net_error + unit) \<Rightarrow> u16 \<Rightarrow> 'w \<Rightarrow> (net_error + unit) \<times> 'w" where
  "Socket_ConnectToLocal resolve connect convert port w = Socket_ConnectTo resolve connect convert ''127.0.0.1'' port w"

section \<open>Acceptor\<close>

definition ToStatus :: "net_error option \<Rightarrow> net_error + unit" where
  "ToStatus code = (case code of None \<Rightarrow> Inr () | Some e \<Rightarrow> Inl e)"

definition Acceptor_BindTo ::
  "('w \<Rightarrow> net_error option \<times> 'w) \<Rightarrow> (u16 \<Rightarrow> 'w \<Rightarrow> net_error option \<times> 'w) \<Rightarrow> u16 \<Rightarrow> 'w \<Rightarrow> (net_error + unit) \<times> 'w" where
  "Acceptor_BindTo opn bnd port w =
     (case opn w of
        (Some e, w1) \<Rightarrow> (Inl e, w1)
      | (None, w1) \<Rightarrow> (case bnd port w1 of (err, w2) \<Rightarrow> (ToStatus err, w2)))"

text \<open>\<open>GetPort\<close> may throw: \<open>local_port\<close> gives \<open>Inl\<close> then.\<close>

definition Acceptor_BindToAvailablePort ::
  "('w \<Rightarrow> net_error option \<times> 'w) \<Rightarrow> (u16 \<Rightarrow> 'w \<Rightarrow> net_error option \<times> 'w) \<Rightarrow> ('w \<Rightarrow> net_error + u16) \<Rightarrow> 'w \<Rightarrow>
   (net_error + u16) \<times> 'w" where
  "Acceptor_BindToAvailablePort opn bnd local_port w =
     (case Acceptor_BindTo opn bnd 0 w of
        (Inl e, w1) \<Rightarrow> (Inl e, w1)
      | (Inr _, w1) \<Rightarrow> (case local_port w1 of Inl e \<Rightarrow> (Inl e, w1) | Inr p \<Rightarrow> (Inr p, w1)))"

definition Acceptor_Listen :: "(nat \<Rightarrow> 'w \<Rightarrow> net_error option \<times> 'w) \<Rightarrow> nat \<Rightarrow> 'w \<Rightarrow> (net_error + unit) \<times> 'w" where
  "Acceptor_Listen listen backlog w = (case listen backlog w of (err, w1) \<Rightarrow> (ToStatus err, w1))"

definition Acceptor_Accept :: "('w \<Rightarrow> (net_error option \<times> 'c) \<times> 'w) \<Rightarrow> 'w \<Rightarrow> (net_error + 'c) \<times> 'w" where
  "Acceptor_Accept accept w =
     (let ((code, client), w1) = accept w
      in case BuildDummyTask code of Inl e \<Rightarrow> (Inl e, w1) | Inr _ \<Rightarrow> (Inr client, w1))"

section \<open>The echo server on fibers\<close>

partial_function (option) AcceptClient :: "'w reader \<Rightarrow> 'w writer \<Rightarrow> 'w \<Rightarrow> 'w option" where
  "AcceptClient rd wr w =
     (case Socket_ReadSome rd 256 w of
        (read_result, w1) \<Rightarrow>
          (case read_result of
             Inl e \<Rightarrow> Some w1
           | Inr d \<Rightarrow>
               (if d = [] then Some w1
                else case Socket_Write wr d w1 of
                       None \<Rightarrow> None
                     | Some (write_result, w2) \<Rightarrow>
                         (case write_result of Inl e \<Rightarrow> Some w2 | Inr _ \<Rightarrow> AcceptClient rd wr w2))))"

text \<open>The accept loop never ends; over a finite prefix of its rounds it spawns a detached fiber for every
  accepted client.\<close>

primrec accept_rounds :: "('w \<Rightarrow> (net_error option \<times> 'c) \<times> 'w) \<Rightarrow> nat \<Rightarrow> 'c list \<Rightarrow> 'w \<Rightarrow> 'c list \<times> 'w" where
  "accept_rounds accept 0 spawned w = (spawned, w)"
| "accept_rounds accept (Suc k) spawned w =
     (case Acceptor_Accept accept w of
        (Inl e, w1) \<Rightarrow> accept_rounds accept k spawned w1
      | (Inr c, w1) \<Rightarrow> accept_rounds accept k (spawned @ [c]) w1)"

text \<open>\<open>ThrowIfError\<close> after \<open>BindTo\<close> and \<open>Listen\<close>: \<open>Inl\<close> is the exception.\<close>

definition ServeForever ::
  "('w \<Rightarrow> net_error option \<times> 'w) \<Rightarrow> (u16 \<Rightarrow> 'w \<Rightarrow> net_error option \<times> 'w) \<Rightarrow> (nat \<Rightarrow> 'w \<Rightarrow> net_error option \<times> 'w) \<Rightarrow>
   ('w \<Rightarrow> (net_error option \<times> 'c) \<times> 'w) \<Rightarrow> u16 \<Rightarrow> nat \<Rightarrow> 'w \<Rightarrow> (net_error + 'c list) \<times> 'w" where
  "ServeForever opn bnd listen accept port k w =
     (case Acceptor_BindTo opn bnd port w of
        (Inl e, w1) \<Rightarrow> (Inl e, w1)
      | (Inr _, w1) \<Rightarrow>
          (case Acceptor_Listen listen 128 w1 of
             (Inl e, w2) \<Rightarrow> (Inl e, w2)
           | (Inr _, w2) \<Rightarrow> (case accept_rounds accept k [] w2 of (cs, w3) \<Rightarrow> (Inr cs, w3))))"

section \<open>The echo server on callbacks\<close>

text \<open>A session of \<^verbatim>\<open>asio/echo/echo/server.cpp\<close>: which operation is pending, and the bytes given to
  \<open>async_write\<close> so far. The handlers are called by the loop; a session without a pending operation is
  released by its last \<open>shared_ptr\<close>.\<close>

datatype session_state = ReadPending | WritePending "byte list" | SessionReleased

record session =
  ses_state :: session_state
  ses_written :: "byte list"

definition Session_ReadChunk :: "session \<Rightarrow> session" where
  "Session_ReadChunk s = s\<lparr>ses_state := ReadPending\<rparr>"

definition Session_Start :: "session \<Rightarrow> session" where
  "Session_Start s = Session_ReadChunk s"

definition Session_WriteChunk :: "byte list \<Rightarrow> session \<Rightarrow> session" where
  "Session_WriteChunk chunk s = s\<lparr>ses_state := WritePending chunk\<rparr>"

datatype session_event = ReadDone "net_error option" "byte list" | WriteDone "net_error option"

text \<open>The two lambdas. \<open>asio::async_write\<close> without an error has written the whole buffer.\<close>

fun session_handler :: "session_event \<Rightarrow> session \<Rightarrow> session option" where
  "session_handler (ReadDone code chunk) s =
     (if ses_state s \<noteq> ReadPending \<or> 1024 < length chunk then None
      else case code of None \<Rightarrow> Some (Session_WriteChunk chunk s) | Some e \<Rightarrow> Some (s\<lparr>ses_state := SessionReleased\<rparr>))"
| "session_handler (WriteDone code) s =
     (case ses_state s of
        WritePending chunk \<Rightarrow>
          (case code of
             None \<Rightarrow> Some (Session_ReadChunk (s\<lparr>ses_written := ses_written s @ chunk\<rparr>))
           | Some e \<Rightarrow> Some (s\<lparr>ses_state := SessionReleased\<rparr>))
      | _ \<Rightarrow> None)"

text \<open>The server: the sessions it started and whether an accept is pending.\<close>

record echo_server =
  srv_sessions :: "session list"
  srv_accepting :: bool

definition Server_AcceptClient :: "echo_server \<Rightarrow> echo_server" where
  "Server_AcceptClient s = s\<lparr>srv_accepting := True\<rparr>"

definition Server_Start :: "echo_server \<Rightarrow> echo_server" where
  "Server_Start s = Server_AcceptClient s"

definition Server_on_accept :: "net_error option \<Rightarrow> echo_server \<Rightarrow> echo_server option" where
  "Server_on_accept code s =
     (if \<not> srv_accepting s then None
      else let s1 = s\<lparr>srv_accepting := False\<rparr>;
               s2 = (if code = None
                     then s1\<lparr>srv_sessions := srv_sessions s1 @ [Session_Start \<lparr>ses_state = SessionReleased, ses_written = []\<rparr>]\<rparr>
                     else s1)
           in Some (Server_AcceptClient s2))"

section \<open>What the code relies on\<close>

text \<open>
  \<open>stream w\<close> are the bytes that will still arrive and \<open>sent w\<close> the bytes that have been sent.
  A read without error delivers the next bytes, at least one unless the buffer is empty; end of file
  is reported only when no bytes are left, and with any other error nothing is read. A write
  without error sends a prefix of its buffer, not an empty one unless the buffer is empty; with an
  error it sends nothing. Nothing is said of when \<open>no_buffer_space\<close> is reported.
\<close>

definition reads_stream :: "'w reader \<Rightarrow> ('w \<Rightarrow> byte list) \<Rightarrow> ('w \<Rightarrow> byte list) \<Rightarrow> bool" where
  "reads_stream rd stream sent \<longleftrightarrow>
     (\<forall>n w code d w1. rd n w = ((code, d), w1) \<longrightarrow> sent w1 = sent w \<and>
        (case code of
           None \<Rightarrow> stream w = d @ stream w1 \<and> length d \<le> n \<and> (d = [] \<longrightarrow> n = 0)
         | Some e \<Rightarrow> stream w1 = stream w \<and> (e = Eof \<longrightarrow> stream w = [])))"

definition writes_stream :: "'w writer \<Rightarrow> ('w \<Rightarrow> byte list) \<Rightarrow> ('w \<Rightarrow> byte list) \<Rightarrow> bool" where
  "writes_stream wr stream sent \<longleftrightarrow>
     (\<forall>buf w code n w1. wr buf w = ((code, n), w1) \<longrightarrow> stream w1 = stream w \<and>
        (case code of
           None \<Rightarrow> n \<le> length buf \<and> (n = 0 \<longrightarrow> buf = []) \<and> sent w1 = sent w @ take n buf
         | Some e \<Rightarrow> sent w1 = sent w))"

definition never_eof :: "'w writer \<Rightarrow> bool" where
  "never_eof wr \<longleftrightarrow> (\<forall>buf w. fst (fst (wr buf w)) \<noteq> Some Eof)"

section \<open>Reading\<close>

text \<open>A read of \<open>n\<close> bytes reported \<open>no_buffer_space\<close>, which \<open>ReadSome\<close> turns into \<open>Ok(0)\<close>.\<close>

definition no_buffer_space :: "'w reader \<Rightarrow> nat \<Rightarrow> 'w \<Rightarrow> 'w \<Rightarrow> bool" where
  "no_buffer_space rd n w w1 \<longleftrightarrow> fst (fst (rd n w)) = Some NoBufferSpace \<and> snd (rd n w) = w1"

lemma ReadSome_cases:
  assumes ok: "reads_stream rd stream sent" and r: "Socket_ReadSome rd n w = (r, w1)"
  obtains (error) e where "r = Inl e" "stream w1 = stream w" "sent w1 = sent w"
  | (zero) "r = Inr []" "stream w1 = stream w" "sent w1 = sent w"
      "n = 0 \<or> stream w = [] \<or> no_buffer_space rd n w w1"
  | (data) d where "r = Inr d" "d \<noteq> []" "stream w = d @ stream w1" "length d \<le> n" "sent w1 = sent w"
proof -
  obtain code d w2 where rd: "rd n w = ((code, d), w2)" by (metis surj_pair)
  with r have w2: "w2 = w1" by (auto simp: Socket_ReadSome_def BuildTask_def split: option.splits)
  have law: "sent w1 = sent w" "code = None \<Longrightarrow> stream w = d @ stream w1 \<and> length d \<le> n \<and> (d = [] \<longrightarrow> n = 0)"
    "code = Some e \<Longrightarrow> stream w1 = stream w \<and> (e = Eof \<longrightarrow> stream w = [])" for e
    using ok rd w2 unfolding reads_stream_def by fastforce+
  show thesis
  proof (cases code)
    case None
    then have "r = Inr d" using r rd by (simp add: Socket_ReadSome_def BuildTask_def)
    with None law(1,2) zero data show thesis by (cases "d = []") simp_all
  next
    case (Some e)
    then have "r = (if e = Eof \<or> e = NoBufferSpace then Inr [] else Inl e)"
      using r rd by (simp add: Socket_ReadSome_def BuildTask_def)
    with Some rd w2 law(1) law(3) [OF Some] show thesis
      by (auto simp: no_buffer_space_def intro: zero error split: if_splits)
  qed
qed

lemma read_loop_correct:
  assumes ok: "reads_stream rd stream sent" and "length got \<le> sz"
  shows "\<exists>r w'. read_loop rd sz got w = Some (r, w') \<and> sent w' = sent w \<and>
    (\<forall>all. r = Inr all \<longrightarrow> (\<exists>d. all = got @ d \<and> stream w = d @ stream w' \<and> length all \<le> sz \<and>
       (length all < sz \<longrightarrow> stream w' = [] \<or> (\<exists>w0. no_buffer_space rd (sz - length all) w0 w'))))"
  using assms(2)
proof (induction "sz - length got" arbitrary: got w rule: less_induct)
  case less
  obtain r w1 where r: "Socket_ReadSome rd (sz - length got) w = (r, w1)" by (metis surj_pair)
  with ok show ?case
  proof (cases rule: ReadSome_cases)
    case (error e)
    then show ?thesis using r by (subst read_loop.simps) auto
  next
    case zero
    then have "read_loop rd sz got w = Some (Inr got, w1)" using r by (subst read_loop.simps) simp
    with zero less.prems show ?thesis by (intro exI [of _ "Inr got"] exI [of _ w1]) auto
  next
    case (data d)
    have "read_loop rd sz got w = read_loop rd sz (got @ d) w1"
      using r data by (subst read_loop.simps) simp
    moreover have "length (got @ d) \<le> sz" "sz - length (got @ d) < sz - length got"
      using data less.prems by (cases d, auto)+
    ultimately show ?thesis using less.hyps [of "got @ d" w1] data by fastforce
  qed
qed

text \<open>C33: \<open>Read\<close> returns. Without an error it has received the next bytes of the stream, no more than the
  buffer holds. It has received fewer only at the end of the stream, or when its last read of the
  rest of the buffer reported \<open>no_buffer_space\<close>, which the code treats as an end of file.\<close>

theorem Socket_Read_fills_buffer:
  assumes "reads_stream rd stream sent"
  shows "\<exists>r w'. Socket_Read rd sz w = Some (r, w') \<and>
    (\<forall>got. r = Inr got \<longrightarrow> stream w = got @ stream w' \<and> length got \<le> sz \<and>
       (length got < sz \<longrightarrow> stream w' = [] \<or> (\<exists>w0. no_buffer_space rd (sz - length got) w0 w')))"
  using read_loop_correct [OF assms, of "[]" sz w] unfolding Socket_Read_def by fastforce

text \<open>A network for the witnesses: at most two bytes at a time.\<close>

definition slow_read :: "(byte list \<times> byte list) reader" where
  "slow_read n w = (case fst w of [] \<Rightarrow> ((if n = 0 then None else Some Eof, []), w)
     | _ \<Rightarrow> ((None, take (min n 2) (fst w)), (drop (min n 2) (fst w), snd w)))"

definition slow_write :: "(byte list \<times> byte list) writer" where
  "slow_write buf w = ((None, min (length buf) 2), (fst w, snd w @ take 2 buf))"

lemma slow_read_ok: "reads_stream slow_read fst snd"
  by (auto simp: reads_stream_def slow_read_def split: list.splits if_splits option.splits)

lemma slow_write_ok: "writes_stream slow_write fst snd" "never_eof slow_write"
  by (auto simp: writes_stream_def never_eof_def slow_write_def min_def split: if_splits option.splits)

theorem Socket_Read_fills_buffer_witness:
  "\<exists>r w'. Socket_Read slow_read 4 ([1, 2, 3, 4, 5], []) = Some (r, w') \<and>
     (\<forall>got. r = Inr got \<longrightarrow> [1, 2, 3, 4, 5] = got @ fst w' \<and> length got \<le> 4 \<and> (length got < 4 \<longrightarrow> fst w' = []))"
proof -
  have "\<not> no_buffer_space slow_read n w0 w1" for n w0 w1
    by (auto simp: no_buffer_space_def slow_read_def split: list.splits)
  with Socket_Read_fills_buffer [OF slow_read_ok, of 4 "([1, 2, 3, 4, 5], [])"] show ?thesis by auto
qed

text \<open>The second case happens: when the system has no buffer space \<open>Read\<close> returns \<open>Ok\<close> although bytes are left
  to be read and the buffer is not full; the comment in \<^verbatim>\<open>socket.hpp\<close> promises the end of the stream.\<close>

definition full_read :: "(byte list \<times> byte list) reader" where
  "full_read n w = ((Some NoBufferSpace, []), w)"

theorem Socket_Read_short_on_no_buffer_space:
  "reads_stream full_read fst snd \<and> Socket_Read full_read 4 ([1, 2], []) = Some (Inr [], ([1, 2], []))"
proof
  show "reads_stream full_read fst snd" by (auto simp: reads_stream_def full_read_def)
  show "Socket_Read full_read 4 ([1, 2], []) = Some (Inr [], ([1, 2], []))"
    unfolding Socket_Read_def read_loop.simps [of _ _ "[]"]
    by (simp add: Socket_ReadSome_def BuildTask_def full_read_def)
qed

section \<open>Writing\<close>

lemma WriteSome_cases:
  assumes ok: "writes_stream wr stream sent" and r: "Socket_WriteSome wr buf w = (r, w1)"
  obtains (error) e where "r = Inl e" "stream w1 = stream w" "sent w1 = sent w"
  | (zero) "r = Inr 0" "stream w1 = stream w" "sent w1 = sent w" "never_eof wr \<longrightarrow> buf = []"
  | (some) n where "r = Inr n" "0 < n" "n \<le> length buf" "sent w1 = sent w @ take n buf" "stream w1 = stream w"
proof -
  obtain code n w2 where wr: "wr buf w = ((code, n), w2)" by (metis surj_pair)
  with r have w2: "w2 = w1" by (auto simp: Socket_WriteSome_def BuildTask_def split: option.splits)
  have law: "stream w1 = stream w" "code = None \<Longrightarrow> n \<le> length buf \<and> (n = 0 \<longrightarrow> buf = []) \<and> sent w1 = sent w @ take n buf"
    "code = Some e \<Longrightarrow> sent w1 = sent w" for e
    using ok wr w2 unfolding writes_stream_def by fastforce+
  show thesis
  proof (cases code)
    case None
    then have "r = Inr n" using r wr by (simp add: Socket_WriteSome_def BuildTask_def)
    with None law(1,2) zero some show thesis by (cases "n = 0") simp_all
  next
    case (Some e)
    then have "r = (if e = Eof then Inr 0 else Inl e)"
      using r wr by (simp add: Socket_WriteSome_def BuildTask_def)
    moreover have "never_eof wr \<Longrightarrow> e \<noteq> Eof" using wr Some by (metis fst_conv never_eof_def)
    ultimately show thesis using law(1) law(3) [OF Some] by (auto intro: zero error split: if_splits)
  qed
qed

lemma write_loop_correct:
  assumes ok: "writes_stream wr stream sent" and "shift \<le> length buf"
  shows "\<exists>r w' n. write_loop wr buf shift w = Some (r, w') \<and> stream w' = stream w \<and>
    sent w' = sent w @ take n (drop shift buf) \<and> (never_eof wr \<and> r = Inr () \<longrightarrow> length buf \<le> shift + n)"
  using assms(2)
proof (induction "length buf - shift" arbitrary: shift w rule: less_induct)
  case less
  obtain r w1 where r: "Socket_WriteSome wr (drop shift buf) w = (r, w1)" by (metis surj_pair)
  with ok show ?case
  proof (cases rule: WriteSome_cases)
    case (error e)
    then have "write_loop wr buf shift w = Some (Inl e, w1)" using r by (subst write_loop.simps) simp
    with error show ?thesis by (intro exI [of _ "Inl e"] exI [of _ w1] exI [of _ 0]) simp
  next
    case zero
    then have "write_loop wr buf shift w = Some (Inr (), w1)" using r by (subst write_loop.simps) simp
    then show ?thesis
      using zero by (intro exI [of _ "Inr ()"] exI [of _ w1] exI [of _ 0]) auto
  next
    case (some n)
    have step: "write_loop wr buf shift w = write_loop wr buf (shift + n) w1"
      using r some by (subst write_loop.simps) simp
    have "shift + n \<le> length buf" "length buf - (shift + n) < length buf - shift" using some less.prems by auto
    from less.hyps [OF this(2,1), of w1] obtain r' w' m where m: "write_loop wr buf (shift + n) w1 = Some (r', w')"
      "stream w' = stream w1" "sent w' = sent w1 @ take m (drop (shift + n) buf)"
      "never_eof wr \<and> r' = Inr () \<longrightarrow> length buf \<le> shift + n + m" by blast
    have "take n (drop shift buf) @ take m (drop (shift + n) buf) = take (n + m) (drop shift buf)"
      by (simp only: take_add drop_drop add.commute [of n shift])
    with m some step show ?thesis
      by (intro exI [of _ r'] exI [of _ w'] exI [of _ "n + m"]) (simp add: add.assoc)
  qed
qed

text \<open>C34: \<open>Write\<close> returns; the bytes it sent are a prefix of the buffer, and when it returns \<open>Ok\<close> and the
  connection never reports an end of file to a write, the whole buffer was sent.\<close>

theorem Socket_Write_sends_all:
  assumes "writes_stream wr stream sent"
  shows "\<exists>r w' n. Socket_Write wr buf w = Some (r, w') \<and> stream w' = stream w \<and> sent w' = sent w @ take n buf \<and>
    (never_eof wr \<and> r = Inr () \<longrightarrow> sent w' = sent w @ buf)"
proof -
  obtain r w' n where "write_loop wr buf 0 w = Some (r, w')" "stream w' = stream w"
    "sent w' = sent w @ take n (drop 0 buf)" "never_eof wr \<and> r = Inr () \<longrightarrow> length buf \<le> 0 + n"
    using write_loop_correct [OF assms, of 0 buf w] by blast
  then show ?thesis unfolding Socket_Write_def by (intro exI [of _ r] exI [of _ w'] exI [of _ n]) simp
qed

theorem Socket_Write_sends_all_witness:
  "\<exists>r w' n. Socket_Write slow_write [1, 2, 3] ([], [9]) = Some (r, w') \<and> fst w' = [] \<and>
     snd w' = 9 # take n [1, 2, 3] \<and> (r = Inr () \<longrightarrow> snd w' = [9, 1, 2, 3])"
  using Socket_Write_sends_all [OF slow_write_ok(1), of "[1, 2, 3]" "([], [9])"] slow_write_ok(2) by simp

text \<open>A peer that closes the connection after two bytes: \<open>Write\<close> returns \<open>Ok\<close> although the third byte was not sent.\<close>

definition closing_write :: "(byte list \<times> byte list) writer" where
  "closing_write buf w = (if snd w = [] then ((None, min (length buf) 2), (fst w, take 2 buf)) else ((Some Eof, 0), w))"

theorem Socket_Write_ok_after_eof:
  "writes_stream closing_write fst snd \<and> Socket_Write closing_write [1, 2, 3] ([], []) = Some (Inr (), ([], [1, 2]))"
proof
  show "writes_stream closing_write fst snd"
    by (auto simp: writes_stream_def closing_write_def min_def split: if_splits option.splits)
  show "Socket_Write closing_write [1, 2, 3] ([], []) = Some (Inr (), ([], [1, 2]))"
    unfolding Socket_Write_def write_loop.simps [of _ _ 0]
    by (simp add: Socket_WriteSome_def BuildTask_def closing_write_def numeral_2_eq_2 [symmetric] write_loop.simps [of _ _ 2])
qed

section \<open>Connecting and echoing\<close>

text \<open>The error codes of the attempts to connect to one endpoint after the other.\<close>

primrec connect_codes :: "('ep \<Rightarrow> 'w \<Rightarrow> net_error option \<times> 'w) \<Rightarrow> 'ep list \<Rightarrow> 'w \<Rightarrow> net_error option list" where
  "connect_codes connect [] w = []"
| "connect_codes connect (ep # eps) w = (case connect ep w of (code, w1) \<Rightarrow> code # connect_codes connect eps w1)"

lemma connect_loop_codes:
  "fst (connect_loop connect eps err w) =
     (let codes = connect_codes connect eps w in if None \<in> set codes then None else if codes = [] then err else last codes)"
proof (induction eps arbitrary: err w)
  case (Cons ep eps)
  obtain code w1 where c: "connect ep w = (code, w1)" by (metis surj_pair)
  then show ?case
    by (cases code) (simp_all add: Socket_TryToConnectToEndpoint_def BuildDummyTask_def Cons.IH Let_def)
qed simp

text \<open>\<open>TryToConnect\<close> succeeds exactly when some endpoint accepts the connection (or there is no endpoint at
  all), and fails with the error of the last endpoint otherwise.\<close>

theorem Socket_TryToConnect_outcome:
  "fst (Socket_TryToConnect connect eps w) =
     (let codes = connect_codes connect eps w
      in if codes = [] \<or> None \<in> set codes then Inr () else case last codes of Some e \<Rightarrow> Inl e | None \<Rightarrow> Inr ())"
proof -
  obtain err w1 where r: "connect_loop connect eps None w = (err, w1)" by (metis surj_pair)
  then have "err = fst (connect_loop connect eps None w)" by simp
  then have "err = (let codes = connect_codes connect eps w
      in if None \<in> set codes then None else if codes = [] then None else last codes)"
    by (simp only: connect_loop_codes)
  with r show ?thesis by (cases err) (auto simp: Socket_TryToConnect_def Let_def split: if_splits option.splits)
qed

definition no_failures :: "'w reader \<Rightarrow> 'w writer \<Rightarrow> bool" where
  "no_failures rd wr \<longleftrightarrow> (\<forall>n w. fst (fst (rd n w)) \<in> {None, Some Eof}) \<and> (\<forall>buf w. fst (fst (wr buf w)) = None)"

lemma write_loop_ok:
  assumes "write_loop wr buf i w = Some y" and none: "\<forall>buf w. fst (fst (wr buf w)) = None"
  shows "fst y = Inr ()"
proof -
  have "(\<forall>buf w. fst (fst (wr buf w)) = None) \<longrightarrow> fst y = Inr ()"
  proof (rule write_loop.raw_induct [OF _ assms(1), where P = "\<lambda>wr _ _ _ y. (\<forall>buf w. fst (fst (wr buf w)) = None) \<longrightarrow> fst y = Inr ()"])
    fix rec and wr :: "'b writer" and buf i w y
    assume IH: "\<And>wr buf i w y. rec wr buf i w = Some y \<Longrightarrow> (\<forall>buf w. fst (fst (wr buf w)) = None) \<longrightarrow> fst y = Inr ()"
      and run: "(case Socket_WriteSome wr (drop i buf) w of
        (result, w1) \<Rightarrow>
          (case result of
             Inl e \<Rightarrow> Some (Inl e, w1)
           | Inr n \<Rightarrow> (if n = 0 then Some (Inr (), w1) else rec wr buf (i + n) w1))) = Some y"
    show "(\<forall>buf w. fst (fst (wr buf w)) = None) \<longrightarrow> fst y = Inr ()"
    proof
      assume none: "\<forall>buf w. fst (fst (wr buf w)) = None"
      obtain n w1 where "wr (drop i buf) w = ((None, n), w1)" using none by (metis fst_conv surj_pair)
      then have "Socket_WriteSome wr (drop i buf) w = (Inr n, w1)" by (simp add: Socket_WriteSome_def BuildTask_def)
      with run IH none show "fst y = Inr ()" by (auto split: if_splits)
    qed
  qed
  with none show ?thesis by blast
qed

lemma no_failures_never_eof: "no_failures rd wr \<Longrightarrow> never_eof wr"
  by (simp add: no_failures_def never_eof_def)

lemma AcceptClient_correct:
  assumes rd: "reads_stream rd stream sent" and wr: "writes_stream wr stream sent"
  shows "\<exists>w' consumed echoed. AcceptClient rd wr w = Some w' \<and> stream w = consumed @ stream w' \<and>
    sent w' = sent w @ echoed \<and> subseq echoed consumed \<and> (never_eof wr \<longrightarrow> prefix echoed consumed) \<and>
    (no_failures rd wr \<longrightarrow> stream w' = [] \<and> echoed = consumed)"
proof (induction "length (stream w)" arbitrary: w rule: less_induct)
  case less
  obtain r w1 where r: "Socket_ReadSome rd 256 w = (r, w1)" by (metis surj_pair)
  with rd show ?case
  proof (cases rule: ReadSome_cases)
    case (error e)
    then have "AcceptClient rd wr w = Some w1" using r by (subst AcceptClient.simps) simp
    moreover have "fst (fst (rd 256 w)) \<notin> {None, Some Eof}"
      using r error by (auto simp: Socket_ReadSome_def BuildTask_def split: prod.splits option.splits if_splits)
    then have "\<not> no_failures rd wr" unfolding no_failures_def by blast
    ultimately show ?thesis using error by (intro exI [of _ w1] exI [of _ "[]"]) auto
  next
    case zero
    then have "AcceptClient rd wr w = Some w1" using r by (subst AcceptClient.simps) simp
    moreover have "no_failures rd wr \<Longrightarrow> \<not> no_buffer_space rd 256 w w1"
      unfolding no_failures_def no_buffer_space_def by (metis insert_iff net_error.distinct(1) option.distinct(1) option.inject singletonD)
    then have "no_failures rd wr \<Longrightarrow> stream w1 = []" using zero by auto
    ultimately show ?thesis using zero by (intro exI [of _ w1] exI [of _ "[]"]) auto
  next
    case (data d)
    obtain wres w2 k where w2: "Socket_Write wr d w1 = Some (wres, w2)" "stream w2 = stream w1"
      "sent w2 = sent w1 @ take k d" "never_eof wr \<and> wres = Inr () \<longrightarrow> length d \<le> k"
      using write_loop_correct [OF wr, of 0 d w1] by (auto simp: Socket_Write_def)
    have sub: "subseq (take k d) d" "prefix (take k d) d"
      by (simp_all add: prefix_imp_subseq take_is_prefix)
    show ?thesis
    proof (cases wres)
      case (Inl e)
      then have "AcceptClient rd wr w = Some w2" using r data w2 by (subst AcceptClient.simps) simp
      moreover have "\<not> no_failures rd wr"
        using write_loop_ok w2(1) Inl by (fastforce simp: Socket_Write_def no_failures_def)
      ultimately show ?thesis using data w2 sub by (intro exI [of _ w2] exI [of _ d] exI [of _ "take k d"]) simp
    next
      case (Inr u)
      then have step: "AcceptClient rd wr w = AcceptClient rd wr w2" using r data w2 by (subst AcceptClient.simps) simp
      have "length (stream w2) < length (stream w)" using data w2 by (cases d) auto
      from less.hyps [OF this] obtain w' consumed echoed where IH: "AcceptClient rd wr w2 = Some w'"
        "stream w2 = consumed @ stream w'" "sent w' = sent w2 @ echoed" "subseq echoed consumed"
        "never_eof wr \<longrightarrow> prefix echoed consumed" "no_failures rd wr \<longrightarrow> stream w' = [] \<and> echoed = consumed" by blast
      have all: "never_eof wr \<Longrightarrow> take k d = d" using w2(4) Inr by simp
      show ?thesis
      proof (rule exI [of _ w'], rule exI [of _ "d @ consumed"], rule exI [of _ "take k d @ echoed"], intro conjI impI)
        show "subseq (take k d @ echoed) (d @ consumed)" using sub(1) IH(4) by (rule list_emb_append_mono)
        show "prefix (take k d @ echoed) (d @ consumed)" if "never_eof wr" using all [OF that] IH(5) that by simp
        show "take k d @ echoed = d @ consumed" if "no_failures rd wr"
          using all [OF no_failures_never_eof [OF that]] IH(6) that by simp
      qed (use IH data w2 step in auto)
    qed
  qed
qed

text \<open>C35: The fiber that serves a client ends when the client's stream is finite. The bytes it has sent back are
  bytes it has received, in their order and none twice. They are a prefix of what it has received
  when the connection never reports an end of file to a write (\<open>Write\<close> takes an end of file for
  success, so the rest of that chunk is then skipped and the fiber goes on with the next one), and
  they are the whole stream when no operation fails: reads report nothing but the end of file and
  writes nothing at all.\<close>

theorem AcceptClient_echoes:
  assumes "reads_stream rd stream sent" and "writes_stream wr stream sent"
  shows "\<exists>w' consumed echoed. AcceptClient rd wr w = Some w' \<and> stream w = consumed @ stream w' \<and>
    sent w' = sent w @ echoed \<and> subseq echoed consumed \<and> (never_eof wr \<longrightarrow> prefix echoed consumed) \<and>
    (no_failures rd wr \<longrightarrow> stream w' = [] \<and> echoed = consumed)"
  by (rule AcceptClient_correct [OF assms])

theorem AcceptClient_echoes_witness:
  "\<exists>w'. AcceptClient slow_read slow_write ([1, 2, 3, 4, 5], []) = Some w' \<and> w' = ([], [1, 2, 3, 4, 5])"
proof -
  have "no_failures slow_read slow_write" by (auto simp: no_failures_def slow_read_def slow_write_def split: list.splits)
  then obtain w' where w': "AcceptClient slow_read slow_write ([1, 2, 3, 4, 5], []) = Some w'"
    "fst w' = []" "snd w' = [1, 2, 3, 4, 5]"
    using AcceptClient_echoes [OF slow_read_ok slow_write_ok(1), of "([1, 2, 3, 4, 5], [])"] by auto
  then have "w' = ([], [1, 2, 3, 4, 5])" by (simp add: prod_eq_iff)
  with w'(1) show ?thesis by blast
qed

section \<open>Sessions of the callback server\<close>

primrec session_run :: "session_event list \<Rightarrow> session \<Rightarrow> session option" where
  "session_run [] s = Some s"
| "session_run (e # es) s = (case session_handler e s of None \<Rightarrow> None | Some s1 \<Rightarrow> session_run es s1)"

fun read_bytes :: "session_event \<Rightarrow> byte list" where
  "read_bytes (ReadDone None chunk) = chunk"
| "read_bytes _ = []"

fun ses_pending :: "session \<Rightarrow> byte list" where
  "ses_pending s = (case ses_state s of WritePending chunk \<Rightarrow> chunk | _ \<Rightarrow> [])"

lemma session_handler_cases:
  assumes "session_handler e s = Some t"
  shows "ses_state t = SessionReleased \<and> ses_written t = ses_written s \<or>
    ses_written t @ ses_pending t = ses_written s @ ses_pending s @ read_bytes e"
  using assms
  by (cases e; cases "ses_state s")
    (auto simp: Session_WriteChunk_def Session_ReadChunk_def split: if_splits option.splits)

lemma session_released: "ses_state s = SessionReleased \<Longrightarrow> session_run es s = Some t \<Longrightarrow> t = s"
  by (cases es; cases "hd es") (auto split: option.splits)

text \<open>A session of the callback server writes back what it has read: as long as no operation fails, the bytes
  written and the chunk being written are the bytes read so far, in order.\<close>

theorem Session_echoes:
  assumes "session_run es (Session_Start \<lparr>ses_state = SessionReleased, ses_written = []\<rparr>) = Some s"
    and "ses_state s \<noteq> SessionReleased"
  shows "ses_written s @ ses_pending s = concat (map read_bytes es)"
proof -
  have "ses_written s @ ses_pending s = ses_written t @ ses_pending t @ concat (map read_bytes es)"
    if "session_run es t = Some s" for t
    using that
  proof (induction es arbitrary: t)
    case (Cons e es)
    then obtain u where u: "session_handler e t = Some u" "session_run es u = Some s" by (auto split: option.splits)
    have "ses_state u \<noteq> SessionReleased" using session_released u(2) assms(2) by blast
    with session_handler_cases [OF u(1)] Cons.IH [OF u(2)] show ?case by simp
  qed simp
  from this [OF assms(1)] show ?thesis by (simp add: Session_Start_def Session_ReadChunk_def)
qed

theorem Session_echoes_witness:
  "\<exists>s. session_run [ReadDone None [1, 2], WriteDone None, ReadDone None [3]]
      (Session_Start \<lparr>ses_state = SessionReleased, ses_written = []\<rparr>) = Some s \<and>
     ses_written s @ ses_pending s = [1, 2, 3]"
  using Session_echoes [of "[ReadDone None [1, 2], WriteDone None, ReadDone None [3]]"]
  by (simp add: Session_Start_def Session_ReadChunk_def Session_WriteChunk_def)

text \<open>The server keeps accepting whatever the outcome of an accept is.\<close>

lemma Server_keeps_accepting: "Server_on_accept code s = Some t \<Longrightarrow> srv_accepting t"
  by (auto simp: Server_on_accept_def Server_AcceptClient_def Let_def split: if_splits)

end
