(* ===== verification/Coroutines.thy ===== *)
theory Coroutines
  imports Prelude
begin

text \<open>
  The stackful asymmetric coroutines of \<^verbatim>\<open>fibers/coroutine/mtf/coroutine\<close>, for any number of threads; a coroutine that was suspended
  in one thread may be resumed in another. The code keeps who resumed whom in the pointers \<open>parent_\<close> and in the thread-local
  \<open>current_coroutine\<close>; the machine keeps it in the saved contexts. The model has both: \<open>co_control\<close> is, for every thread, the chain of
  coroutines whose \<open>Resume\<close> has not returned, innermost first, as the machine contexts give it. A
  switch that does not fit this chain, the use of a null or dangling pointer and the resumption of a
  coroutine that is running or completed set \<open>co_aborted\<close>.
\<close>

type_synonym coid = nat

record coroutine =
  co_parent :: "coid option"
  co_completed :: bool
  co_exception :: "nat option"

record costate =
  co_store :: "coid \<Rightarrow> coroutine option"
  co_next :: nat
  co_current :: "coid option list"     \<comment> \<open>\<open>current_coroutine\<close> of every thread\<close>
  co_control :: "coid list list"
  co_raised :: "nat option list"       \<comment> \<open>the exception that the last \<open>Resume\<close> of the thread threw\<close>
  co_aborted :: bool

definition co_abort :: "costate \<Rightarrow> costate" where
  "co_abort s = s\<lparr>co_aborted := True\<rparr>"

definition Coroutine_ctor :: "costate \<Rightarrow> costate" where
  "Coroutine_ctor s =
     s\<lparr>co_store := (co_store s)(co_next s \<mapsto> \<lparr>co_parent = None, co_completed = False, co_exception = None\<rparr>),
       co_next := Suc (co_next s)\<rparr>"

text \<open>The destructor, which the language supplies; afterwards the pointer dangles.\<close>

definition Coroutine_dtor :: "coid \<Rightarrow> costate \<Rightarrow> costate" where
  "Coroutine_dtor c s = s\<lparr>co_store := (co_store s)(c := None)\<rparr>"

text \<open>\<open>Resume\<close> in the thread \<open>t\<close> up to the switch into the routine.\<close>

definition Coroutine_Resume :: "tid \<Rightarrow> coid \<Rightarrow> costate \<Rightarrow> costate" where
  "Coroutine_Resume t c s =
     (case co_store s c of
        None \<Rightarrow> co_abort s
      | Some co \<Rightarrow>
          (if co_completed co \<or> c \<in> set (concat (co_control s)) then co_abort s
           else s\<lparr>co_store := (co_store s)(c \<mapsto> co\<lparr>co_parent := co_current s ! t\<rparr>),
                  co_current := (co_current s)[t := Some c],
                  co_control := (co_control s)[t := c # co_control s ! t]\<rparr>))"

text \<open>The rest of \<open>Resume\<close> of \<open>c\<close>, when control is back: the pointer is restored and an exception of the routine is
  thrown at the caller.\<close>

definition Resume_returns :: "tid \<Rightarrow> coid \<Rightarrow> costate \<Rightarrow> costate" where
  "Resume_returns t c s =
     (case co_store s c of
        None \<Rightarrow> co_abort s
      | Some co \<Rightarrow>
          s\<lparr>co_current := (co_current s)[t := co_parent co], co_raised := (co_raised s)[t := co_exception co]\<rparr>)"

text \<open>The switch from the routine of \<open>c\<close> to the context that resumed it.\<close>

definition switch_to_caller :: "tid \<Rightarrow> coid \<Rightarrow> costate \<Rightarrow> costate" where
  "switch_to_caller t c s =
     (case co_control s ! t of
        [] \<Rightarrow> co_abort s
      | running # rest \<Rightarrow>
          (if running \<noteq> c then co_abort s
           else Resume_returns t c (s\<lparr>co_control := (co_control s)[t := rest]\<rparr>)))"

definition Coroutine_Suspend :: "tid \<Rightarrow> costate \<Rightarrow> costate" where
  "Coroutine_Suspend t s =
     (case co_current s ! t of
        None \<Rightarrow> co_abort s
      | Some c \<Rightarrow>
          (case co_store s c of
             None \<Rightarrow> co_abort s
           | Some co \<Rightarrow> switch_to_caller t c (s\<lparr>co_current := (co_current s)[t := co_parent co]\<rparr>)))"

text \<open>The end of the trampoline: the routine returned or threw. It uses the pointer it read when the routine
  started, the coroutine that runs.\<close>

definition Coroutine_Trampoline :: "tid \<Rightarrow> nat option \<Rightarrow> costate \<Rightarrow> costate" where
  "Coroutine_Trampoline t exn s =
     (case co_control s ! t of
        [] \<Rightarrow> co_abort s
      | c # _ \<Rightarrow>
          (case co_store s c of
             None \<Rightarrow> co_abort s
           | Some co \<Rightarrow>
               switch_to_caller t c
                 (s\<lparr>co_store := (co_store s)(c \<mapsto> co\<lparr>co_exception := exn, co_completed := True\<rparr>)\<rparr>)))"

definition Coroutine_IsCompleted :: "coid \<Rightarrow> costate \<Rightarrow> bool" where
  "Coroutine_IsCompleted c s = (case co_store s c of None \<Rightarrow> False | Some co \<Rightarrow> co_completed co)"

section \<open>The system\<close>

datatype co_label = CoNew | CoDelete coid | CoResume tid coid | CoSuspend tid | CoReturn tid "nat option"

fun co_act :: "co_label \<Rightarrow> costate \<Rightarrow> costate" where
  "co_act CoNew s = Coroutine_ctor s"
| "co_act (CoDelete c) s = Coroutine_dtor c s"
| "co_act (CoResume t c) s = Coroutine_Resume t c s"
| "co_act (CoSuspend t) s = Coroutine_Suspend t s"
| "co_act (CoReturn t exn) s = Coroutine_Trampoline t exn s"

text \<open>What clients have to keep to: \<open>Resume\<close> for a coroutine that is suspended, \<open>Suspend\<close> inside a coroutine, no coroutine is
  deleted while it runs.\<close>

fun co_allowed :: "co_label \<Rightarrow> costate \<Rightarrow> bool" where
  "co_allowed CoNew s \<longleftrightarrow> True"
| "co_allowed (CoDelete c) s \<longleftrightarrow> co_store s c \<noteq> None \<and> c \<notin> set (concat (co_control s))"
| "co_allowed (CoResume t c) s \<longleftrightarrow> t < length (co_control s) \<and> co_store s c \<noteq> None \<and> \<not> Coroutine_IsCompleted c s \<and>
     c \<notin> set (concat (co_control s))"
| "co_allowed (CoSuspend t) s \<longleftrightarrow> t < length (co_control s) \<and> co_control s ! t \<noteq> []"
| "co_allowed (CoReturn t exn) s \<longleftrightarrow> t < length (co_control s) \<and> co_control s ! t \<noteq> []"

definition co_client_step :: "co_label \<Rightarrow> costate \<Rightarrow> costate option" where
  "co_client_step l s = (if co_allowed l s \<and> \<not> co_aborted s then Some (co_act l s) else None)"

definition co_start :: "nat \<Rightarrow> costate" where
  "co_start n = \<lparr>co_store = (\<lambda>_. None), co_next = 0, co_current = replicate n None, co_control = replicate n [],
     co_raised = replicate n None, co_aborted = False\<rparr>"

section \<open>The pointers follow the control\<close>

definition top_of :: "'a list \<Rightarrow> 'a option" where
  "top_of xs = (case xs of [] \<Rightarrow> None | x # _ \<Rightarrow> Some x)"

lemma top_of_simps [simp]: "top_of [] = None" "top_of (x # xs) = Some x"
  by (simp_all add: top_of_def)

text \<open>The parents of the coroutines in the chain are their successors.\<close>

primrec chain_ok :: "(coid \<Rightarrow> coroutine option) \<Rightarrow> coid list \<Rightarrow> bool" where
  "chain_ok st [] \<longleftrightarrow> True"
| "chain_ok st (c # cs) \<longleftrightarrow>
     (\<exists>co. st c = Some co \<and> co_parent co = top_of cs \<and> \<not> co_completed co \<and> co_exception co = None) \<and> chain_ok st cs"

definition co_inv :: "nat \<Rightarrow> costate \<Rightarrow> bool" where
  "co_inv n s \<longleftrightarrow> \<not> co_aborted s \<and> length (co_current s) = n \<and> length (co_control s) = n \<and> length (co_raised s) = n \<and>
     (\<forall>t < n. distinct (co_control s ! t) \<and> co_current s ! t = top_of (co_control s ! t) \<and> chain_ok (co_store s) (co_control s ! t)) \<and>
     (\<forall>t < n. \<forall>u < n. t \<noteq> u \<longrightarrow> set (co_control s ! t) \<inter> set (co_control s ! u) = {}) \<and>
     (\<forall>c. co_next s \<le> c \<longrightarrow> co_store s c = None) \<and>
     (\<forall>c co. co_store s c = Some co \<longrightarrow> co_completed co \<or> co_exception co = None)"

lemma chain_ok_other: "c \<notin> set cs \<Longrightarrow> chain_ok (st(c := x)) cs = chain_ok st cs"
  by (induction cs) auto

lemma chain_ok_live: "chain_ok st cs \<Longrightarrow> c \<in> set cs \<Longrightarrow> st c \<noteq> None"
  by (induction cs) auto

lemma in_control: "c \<in> set (concat xs) \<longleftrightarrow> (\<exists>t < length xs. c \<in> set (xs ! t))"
  by (auto simp: in_set_conv_nth [of _ xs] intro: nth_mem)

text \<open>A change of the control of one thread, and of one coroutine that no other thread runs.\<close>

lemma co_inv_change:
  assumes inv: "co_inv n s" and t: "t < n" and ok: "chain_ok st ctl" "distinct ctl" "cur = top_of ctl"
    and other: "\<And>u x. u < n \<Longrightarrow> u \<noteq> t \<Longrightarrow> x \<in> set (co_control s ! u) \<Longrightarrow> x \<notin> set ctl"
    and frame: "\<And>x. x \<noteq> c \<Longrightarrow> st x = co_store s x" and c: "\<And>u. u < n \<Longrightarrow> u \<noteq> t \<Longrightarrow> c \<notin> set (co_control s ! u)"
    and live: "c < co_next s" "\<And>co. st c = Some co \<Longrightarrow> co_completed co \<or> co_exception co = None"
    and s': "s' = s\<lparr>co_store := st, co_control := (co_control s)[t := ctl], co_current := (co_current s)[t := cur], co_raised := r\<rparr>"
    and r: "length r = n"
  shows "co_inv n s'"
proof -
  have st: "st = (co_store s)(c := st c)" using frame by auto
  have "chain_ok st (co_control s ! u)" if "u < n" "u \<noteq> t" for u
    using inv that chain_ok_other [OF c [OF that], of "co_store s" "st c"] st by (simp add: co_inv_def)
  moreover have "set ctl \<inter> set (co_control s ! u) = {}" "set (co_control s ! u) \<inter> set ctl = {}" if "u < n" "u \<noteq> t" for u
    using other [OF that] by auto
  moreover have "st x = None" if "co_next s \<le> x" for x using inv frame [of x] live(1) that by (auto simp: co_inv_def)
  moreover have "co_completed co \<or> co_exception co = None" if "st x = Some co" for x co
    using inv frame [of x] live(2) that by (cases "x = c") (auto simp: co_inv_def)
  ultimately show ?thesis using inv t ok r unfolding s' co_inv_def
    by (simp add: nth_list_update)
qed

lemma co_invD:
  assumes "co_inv n s"
  shows "\<not> co_aborted s" "length (co_current s) = n" "length (co_control s) = n" "length (co_raised s) = n"
    "t < n \<Longrightarrow> distinct (co_control s ! t)" "t < n \<Longrightarrow> co_current s ! t = top_of (co_control s ! t)"
    "t < n \<Longrightarrow> chain_ok (co_store s) (co_control s ! t)"
    "t < n \<Longrightarrow> u < n \<Longrightarrow> u \<noteq> t \<Longrightarrow> x \<in> set (co_control s ! u) \<Longrightarrow> x \<notin> set (co_control s ! t)"
    "co_store s c = Some co \<Longrightarrow> c < co_next s" "co_store s c = Some co \<Longrightarrow> \<not> co_completed co \<Longrightarrow> co_exception co = None"
  using assms unfolding co_inv_def by (blast, blast, blast, blast, blast, blast, blast, blast, metis leI option.distinct(1), blast)

lemma co_inv_new:
  assumes inv: "co_inv n s"
  shows "co_inv n (Coroutine_ctor s)"
proof -
  have "co_next s \<notin> set (co_control s ! t)" if "t < n" for t
    using chain_ok_live [OF co_invD(7) [OF inv that]] co_invD(9) [OF inv] by blast
  with inv show ?thesis by (auto simp: co_inv_def Coroutine_ctor_def chain_ok_other)
qed

lemma co_inv_delete:
  assumes inv: "co_inv n s" and c: "c \<notin> set (concat (co_control s))"
  shows "co_inv n (Coroutine_dtor c s)"
proof -
  have "c \<notin> set (co_control s ! t)" if "t < n" for t using c that co_invD(3) [OF inv] in_control [of c "co_control s"] by auto
  with inv show ?thesis by (auto simp: co_inv_def Coroutine_dtor_def chain_ok_other)
qed

lemma Coroutine_Resume_eq:
  assumes "co_allowed (CoResume t c) s" "co_store s c = Some co"
  shows "Coroutine_Resume t c s = s\<lparr>co_store := (co_store s)(c \<mapsto> co\<lparr>co_parent := co_current s ! t\<rparr>),
     co_current := (co_current s)[t := Some c], co_control := (co_control s)[t := c # co_control s ! t]\<rparr>"
  using assms by (simp add: Coroutine_Resume_def Coroutine_IsCompleted_def)

lemma co_inv_resume:
  assumes inv: "co_inv n s" and a: "co_allowed (CoResume t c) s"
  shows "co_inv n (Coroutine_Resume t c s)"
proof -
  from a obtain co where co: "co_store s c = Some co" and nc: "\<not> co_completed co" and t: "t < n"
    and out: "\<And>u. u < n \<Longrightarrow> c \<notin> set (co_control s ! u)"
    using co_invD(3) [OF inv] in_control [of c "co_control s"] by (auto simp: Coroutine_IsCompleted_def)
  let ?st = "(co_store s)(c \<mapsto> co\<lparr>co_parent := co_current s ! t\<rparr>)"
  have "chain_ok ?st (c # co_control s ! t)"
    using nc co_invD(6,7) [OF inv t] co_invD(10) [OF inv co nc] out [OF t] by (simp add: chain_ok_other)
  moreover have "distinct (c # co_control s ! t)" using out [OF t] co_invD(5) [OF inv t] by simp
  ultimately show ?thesis
    using out co_invD(4) [OF inv] co_invD(8) [OF inv t] co_invD(9) [OF inv co] co_invD(10) [OF inv co nc]
    by (intro co_inv_change [OF inv t, of ?st "c # co_control s ! t" "Some c" c, where r = "co_raised s"])
      (auto simp: Coroutine_Resume_eq [OF a co])
qed

text \<open>Where control is.\<close>

lemma co_inv_control:
  assumes inv: "co_inv n s" and "t < length (co_control s)" "co_control s ! t \<noteq> []"
  obtains c rest co where "t < n" "co_control s ! t = c # rest" "co_current s ! t = Some c" "co_store s c = Some co"
    "co_parent co = top_of rest" "chain_ok (co_store s) rest" "c \<notin> set rest" "distinct rest"
    "co_exception co = None" "\<not> co_completed co"
proof -
  have t: "t < n" using assms(2) co_invD(3) [OF inv] by simp
  show thesis using that co_invD(5-7) [OF inv t] t assms(3) by (cases "co_control s ! t") auto
qed

text \<open>Suspension and the end of a routine give control back to the chain below.\<close>

lemma Coroutine_Suspend_eq:
  assumes "co_current s ! t = Some c" "co_control s ! t = c # rest" "co_store s c = Some co" "co_parent co = top_of rest"
    "co_exception co = None"
  shows "Coroutine_Suspend t s =
    s\<lparr>co_control := (co_control s)[t := rest], co_current := (co_current s)[t := top_of rest], co_raised := (co_raised s)[t := None]\<rparr>"
  using assms by (simp add: Coroutine_Suspend_def switch_to_caller_def Resume_returns_def)

lemma Coroutine_Trampoline_eq:
  assumes "co_control s ! t = c # rest" "co_store s c = Some co" "co_parent co = top_of rest"
  shows "Coroutine_Trampoline t exn s =
    s\<lparr>co_store := (co_store s)(c \<mapsto> co\<lparr>co_exception := exn, co_completed := True\<rparr>),
      co_control := (co_control s)[t := rest], co_current := (co_current s)[t := top_of rest], co_raised := (co_raised s)[t := exn]\<rparr>"
  using assms by (simp add: Coroutine_Trampoline_def switch_to_caller_def Resume_returns_def)

lemma co_inv_suspend:
  assumes inv: "co_inv n s" and a: "co_allowed (CoSuspend t) s"
  shows "co_inv n (Coroutine_Suspend t s)"
proof -
  from a have a: "t < length (co_control s)" "co_control s ! t \<noteq> []" by simp_all
  obtain c rest co where c: "t < n" "co_control s ! t = c # rest" "co_current s ! t = Some c" "co_store s c = Some co"
    "co_parent co = top_of rest" "chain_ok (co_store s) rest" "c \<notin> set rest" "distinct rest"
    "co_exception co = None" "\<not> co_completed co" by (rule co_inv_control [OF inv a])
  show ?thesis
    using c co_invD(4) [OF inv] co_invD(8) [OF inv c(1)] co_invD(9) [OF inv c(4)]
    by (intro co_inv_change [OF inv c(1,6,8) refl, of c, where r = "(co_raised s)[t := None]"])
      (auto simp: Coroutine_Suspend_eq [OF c(3,2,4,5,9)])
qed

lemma co_inv_trampoline:
  assumes inv: "co_inv n s" and a: "co_allowed (CoReturn t exn) s"
  shows "co_inv n (Coroutine_Trampoline t exn s)"
proof -
  from a have a: "t < length (co_control s)" "co_control s ! t \<noteq> []" by simp_all
  obtain c rest co where c: "t < n" "co_control s ! t = c # rest" "co_current s ! t = Some c" "co_store s c = Some co"
    "co_parent co = top_of rest" "chain_ok (co_store s) rest" "c \<notin> set rest" "distinct rest"
    "co_exception co = None" "\<not> co_completed co" by (rule co_inv_control [OF inv a])
  let ?st = "(co_store s)(c \<mapsto> co\<lparr>co_exception := exn, co_completed := True\<rparr>)"
  have "chain_ok ?st rest" using c(6,7) by (simp add: chain_ok_other)
  then show ?thesis
    using c co_invD(4) [OF inv] co_invD(8) [OF inv c(1)] co_invD(9) [OF inv c(4)]
    by (intro co_inv_change [OF inv c(1) _ c(8) refl, of ?st c, where r = "(co_raised s)[t := exn]"])
      (auto simp: Coroutine_Trampoline_eq [OF c(2,4,5)])
qed

lemma co_inv_step: "co_inv n s \<Longrightarrow> co_client_step l s = Some s' \<Longrightarrow> co_inv n s'"
  by (cases l)
    (auto simp del: co_allowed.simps simp: co_client_step_def co_inv_new co_inv_suspend co_inv_trampoline co_inv_resume
      intro!: co_inv_delete split: if_splits, simp)

lemma co_inv_start: "co_inv n (co_start n)"
  by (simp add: co_inv_def co_start_def)

interpretation co: invariant_system co_client_step "co_start n" "co_inv n" for n
  by unfold_locales (auto intro: co_inv_start co_inv_step)

text \<open>The chain of pointers that starts at \<open>current_coroutine\<close> and follows \<open>parent_\<close>.\<close>

fun parent_chain :: "nat \<Rightarrow> (coid \<Rightarrow> coroutine option) \<Rightarrow> coid option \<Rightarrow> coid list" where
  "parent_chain 0 st p = []"
| "parent_chain (Suc n) st p =
     (case p of None \<Rightarrow> []
      | Some c \<Rightarrow> c # (case st c of None \<Rightarrow> [] | Some co \<Rightarrow> parent_chain n st (co_parent co)))"

lemma parent_chain_control: "chain_ok st cs \<Longrightarrow> length cs \<le> n \<Longrightarrow> parent_chain n st (top_of cs) = cs"
proof (induction cs arbitrary: n)
  case Nil
  then show ?case by (cases n) simp_all
next
  case (Cons c cs)
  then show ?case by (cases n) auto
qed

text \<open>C16: The pointers are right, in every thread: in every state that clients can reach, \<open>current_coroutine\<close> of a thread is the coroutine
  that runs in it and its chain of \<open>parent_\<close> pointers is the chain of pending \<open>Resume\<close> calls of the thread, although coroutines move
  between threads; so \<open>Suspend\<close> and the end of a routine switch to the caller of the running coroutine, and when \<open>Resume\<close> returns,
  \<open>current_coroutine\<close> is what it was before the call. No coroutine runs in two threads.\<close>

theorem Coroutine_pointers_follow_control:
  assumes "reachable co_client_step (co_start n) s" and "t < n"
  shows "\<not> co_aborted s \<and> co_current s ! t = top_of (co_control s ! t) \<and>
    parent_chain (length (co_control s ! t)) (co_store s) (co_current s ! t) = co_control s ! t \<and>
    (\<forall>u < n. u \<noteq> t \<longrightarrow> set (co_control s ! u) \<inter> set (co_control s ! t) = {})"
proof -
  note inv = co.inv_reachable [OF assms(1)]
  have "set (co_control s ! u) \<inter> set (co_control s ! t) = {}" if "u < n" "u \<noteq> t" for u
    using co_invD(8) [OF inv assms(2) that] by blast
  with co_invD(1,6,7) [OF inv] assms(2) show ?thesis by (simp add: parent_chain_control)
qed

definition co_schedule :: "co_label list" where
  "co_schedule = [CoNew, CoNew, CoResume 0 0, CoResume 0 1, CoSuspend 0, CoResume 1 1]"

lemmas co_run_simps = co_client_step_def co_start_def Coroutine_ctor_def Coroutine_Resume_def Coroutine_IsCompleted_def
  Coroutine_Suspend_def switch_to_caller_def Resume_returns_def Coroutine_Trampoline_def Coroutine_dtor_def

lemma co_schedule_runs:
  "\<exists>s. run co_client_step co_schedule (co_start 2) = Some s \<and> co_control s = [[0], [1]]"
  by (simp add: co_schedule_def co_run_simps replicate_two)

theorem Coroutine_pointers_follow_control_witness:
  "\<exists>s. run co_client_step co_schedule (co_start 2) = Some s \<and> co_current s ! 1 = Some 1"
proof -
  obtain s where s: "run co_client_step co_schedule (co_start 2) = Some s" "co_control s = [[0], [1]]"
    using co_schedule_runs by blast
  from Coroutine_pointers_follow_control [OF run_reachable [OF s(1)], of 1] s show ?thesis by simp
qed

text \<open>The outcome of a resumption: after the routine ends, \<open>IsCompleted\<close> holds, control is where \<open>Resume\<close> was called, and
  exactly the exception that left the routine is thrown there; after a suspension nothing is
  thrown and the coroutine can be resumed again, in any thread.\<close>

theorem Coroutine_Resume_outcome:
  assumes "reachable co_client_step (co_start n) s" and "t < n" and "co_control s ! t = c # rest"
  shows "(\<forall>exn s'. co_client_step (CoReturn t exn) s = Some s' \<longrightarrow>
       Coroutine_IsCompleted c s' \<and> co_raised s' ! t = exn \<and> co_control s' ! t = rest) \<and>
    (\<forall>s' u. co_client_step (CoSuspend t) s = Some s' \<and> u < n \<longrightarrow>
       co_raised s' ! t = None \<and> co_control s' ! t = rest \<and> co_allowed (CoResume u c) s')"
proof -
  have inv: "co_inv n s" by (rule co.inv_reachable [OF assms(1)])
  have "t < length (co_control s)" "co_control s ! t \<noteq> []" using assms(2,3) co_invD(3) [OF inv] by simp_all
  with inv obtain d r co where "co_control s ! t = d # r" and c: "co_current s ! t = Some d" "co_store s d = Some co" "co_parent co = top_of r"
    "d \<notin> set r" "co_exception co = None" "\<not> co_completed co" by (rule co_inv_control)
  then have d: "d = c" "r = rest" using assms(3) by simp_all
  note c = c [unfolded d]
  have other: "c \<notin> set (co_control s ! u)" if "u < n" "u \<noteq> t" for u
    using co_invD(8) [OF inv assms(2) that, of c] assms(3) by auto
  have "c \<notin> set (concat ((co_control s)[t := rest]))"
    unfolding in_control using other c(4) assms(2) co_invD(3) [OF inv] by (auto simp: nth_list_update)
  then show ?thesis
    using Coroutine_Suspend_eq [OF c(1) assms(3) c(2,3,5)] Coroutine_Trampoline_eq [OF assms(3) c(2,3)] c assms(2) co_invD(2-4) [OF inv]
    by (auto simp del: set_concat simp: co_client_step_def Coroutine_IsCompleted_def split: if_splits)
qed

end
