(* ===== verification/Mtf_Fibers.thy ===== *)
theory Mtf_Fibers
  imports Prelude
begin

text \<open>
  Fibers on a thread pool (\<^verbatim>\<open>fibers/coroutine/mtf/fibers\<close> and \<^verbatim>\<open>thread_pool\<close>). A fiber owns a
  coroutine and a stack; the pool holds for it a task that resumes the coroutine once and then
  submits the next task or deletes the fiber. The pool is an \<open>asio::io_context\<close>: the multiset of submitted
  functions, of which a worker takes any, and the rule that \<open>run\<close> returns when no function is submitted
  or running and the work guard is gone. What the routine does next (yield, spawn, return, throw) is the
  environment's choice. The access of a deleted fiber and an exception that reaches a worker
  set \<open>mt_aborted\<close>.
\<close>

type_synonym mfid = nat

record mfiber =
  mf_stack :: "nat option"   \<comment> \<open>\<open>None\<close> until \<open>CoroutineFactory\<close> has run\<close>

datatype mworker =
    MwIdle
  | MwRunning mfid      \<comment> \<open>inside \<open>worker_co->Resume()\<close>\<close>
  | MwYielded mfid      \<comment> \<open>\<open>Resume\<close> returned, the coroutine is not completed\<close>
  | MwCompleted mfid    \<comment> \<open>\<open>Resume\<close> returned, the coroutine is completed\<close>
  | MwExited

record mtf =
  mt_fibers :: "mfid \<Rightarrow> mfiber option"
  mt_next :: nat
  mt_tasks :: "mfid list"
  mt_workers :: "mworker list"
  mt_pool :: "nat option list"          \<comment> \<open>\<open>None\<close> is an empty \<open>Stack\<close>\<close>
  mt_next_stack :: nat
  mt_guard :: bool
  mt_joined :: bool
  mt_aborted :: bool

section \<open>Stacks\<close>

text \<open>The critical sections of the allocator, guarded by its spinlock.\<close>

definition MtfStackAllocator_GetNewStack :: "mtf \<Rightarrow> nat option \<times> mtf" where
  "MtfStackAllocator_GetNewStack s = (Some (mt_next_stack s), s\<lparr>mt_next_stack := Suc (mt_next_stack s)\<rparr>)"

definition MtfStackAllocator_Allocate :: "mtf \<Rightarrow> nat option \<times> mtf" where
  "MtfStackAllocator_Allocate s =
     (if mt_pool s = [] then MtfStackAllocator_GetNewStack s
      else (last (mt_pool s), s\<lparr>mt_pool := butlast (mt_pool s)\<rparr>))"

definition MtfStackAllocator_Release :: "nat option \<Rightarrow> mtf \<Rightarrow> mtf" where
  "MtfStackAllocator_Release st s = s\<lparr>mt_pool := mt_pool s @ [st]\<rparr>"

section \<open>The pool\<close>

definition MtfPool_Submit :: "mfid \<Rightarrow> mtf \<Rightarrow> mtf" where
  "MtfPool_Submit task s = s\<lparr>mt_tasks := mt_tasks s @ [task]\<rparr>"

definition MtfPool_SubmitContinuation :: "mfid \<Rightarrow> mtf \<Rightarrow> mtf" where
  "MtfPool_SubmitContinuation task s = s\<lparr>mt_tasks := mt_tasks s @ [task]\<rparr>"

definition worker_set :: "nat \<Rightarrow> mworker \<Rightarrow> mtf \<Rightarrow> mtf" where
  "worker_set w p s = s\<lparr>mt_workers := (mt_workers s)[w := p]\<rparr>"

text \<open>\<open>Work\<close> ends when \<open>run\<close> returns.\<close>

definition MtfPool_Work_returns :: "nat \<Rightarrow> mtf \<Rightarrow> mtf option" where
  "MtfPool_Work_returns w s =
     (if w < length (mt_workers s) \<and> mt_workers s ! w = MwIdle \<and> \<not> mt_guard s \<and> mt_tasks s = [] \<and>
         list_all (\<lambda>p. p = MwIdle \<or> p = MwExited) (mt_workers s)
      then Some (worker_set w MwExited s) else None)"

text \<open>\<open>Join\<close>: the guard is released, then all workers are joined.\<close>

definition MtfPool_Join_begin :: "mtf \<Rightarrow> mtf option" where
  "MtfPool_Join_begin s = (if mt_joined s then None else Some (s\<lparr>mt_guard := False\<rparr>))"

definition MtfPool_Join_end :: "mtf \<Rightarrow> mtf option" where
  "MtfPool_Join_end s =
     (if \<not> mt_guard s \<and> list_all (\<lambda>p. p = MwExited) (mt_workers s) then Some (s\<lparr>mt_joined := True\<rparr>) else None)"

section \<open>Fibers\<close>

datatype planning_type = WithContinuation | WithoutContinuation

definition MtfFiber_PlanTask :: "planning_type \<Rightarrow> mfid \<Rightarrow> mtf \<Rightarrow> mtf" where
  "MtfFiber_PlanTask pt f s =
     (case pt of WithoutContinuation \<Rightarrow> MtfPool_Submit f s | WithContinuation \<Rightarrow> MtfPool_SubmitContinuation f s)"

definition MtfFiber_Schedule :: "mfid \<Rightarrow> mtf \<Rightarrow> mtf" where
  "MtfFiber_Schedule f s = MtfFiber_PlanTask WithoutContinuation f s"

definition Mtf_Spawn :: "mtf \<Rightarrow> mtf" where
  "Mtf_Spawn s =
     MtfFiber_Schedule (mt_next s)
       (s\<lparr>mt_fibers := (mt_fibers s)(mt_next s \<mapsto> \<lparr>mf_stack = None\<rparr>), mt_next := Suc (mt_next s)\<rparr>)"

text \<open>\<open>CoroutineFactory\<close> with \<open>ConstructCoroutine\<close>, whose assertion fails on an empty stack. A fiber has a coroutine when it has a stack.\<close>

definition MtfFiber_CoroutineFactory :: "mfid \<Rightarrow> mfiber \<Rightarrow> mtf \<Rightarrow> mtf" where
  "MtfFiber_CoroutineFactory f fb s =
     (if mf_stack fb \<noteq> None then s
      else let (st, s1) = MtfStackAllocator_Allocate s
           in if st = None then s1\<lparr>mt_aborted := True\<rparr>
              else s1\<lparr>mt_fibers := (mt_fibers s1)(f \<mapsto> \<lparr>mf_stack = st\<rparr>)\<rparr>)"

definition MtfFiber_dtor :: "mfid \<Rightarrow> mfiber \<Rightarrow> mtf \<Rightarrow> mtf" where
  "MtfFiber_dtor f fb s = MtfStackAllocator_Release (mf_stack fb) (s\<lparr>mt_fibers := (mt_fibers s)(f := None)\<rparr>)"

text \<open>The lambda of \<open>PlanTask\<close>: up to the resumption, and after it.\<close>

definition worker_task_start :: "nat \<Rightarrow> nat \<Rightarrow> mtf \<Rightarrow> mtf option" where
  "worker_task_start w k s =
     (if w < length (mt_workers s) \<and> mt_workers s ! w = MwIdle \<and> k < length (mt_tasks s)
      then let f = mt_tasks s ! k; s1 = s\<lparr>mt_tasks := take k (mt_tasks s) @ drop (Suc k) (mt_tasks s)\<rparr>
           in case mt_fibers s f of
                None \<Rightarrow> Some (s1\<lparr>mt_aborted := True\<rparr>)
              | Some fb \<Rightarrow> Some (worker_set w (MwRunning f) (MtfFiber_CoroutineFactory f fb s1))
      else None)"

definition worker_task_end :: "nat \<Rightarrow> mtf \<Rightarrow> mtf option" where
  "worker_task_end w s =
     (if w < length (mt_workers s)
      then case mt_workers s ! w of
             MwYielded f \<Rightarrow>
               (case mt_fibers s f of
                  None \<Rightarrow> Some (s\<lparr>mt_aborted := True\<rparr>)
                | Some fb \<Rightarrow> Some (worker_set w MwIdle (MtfFiber_PlanTask WithContinuation f s)))
           | MwCompleted f \<Rightarrow>
               (case mt_fibers s f of
                  None \<Rightarrow> Some (s\<lparr>mt_aborted := True\<rparr>)
                | Some fb \<Rightarrow> Some (worker_set w MwIdle (MtfFiber_dtor f fb s)))
           | _ \<Rightarrow> None
      else None)"

section \<open>The system\<close>

datatype mtf_label =
    MtSpawn                \<comment> \<open>\<open>Spawn\<close> from outside, while the pool is not being joined\<close>
  | MtTake nat nat         \<comment> \<open>a worker starts a task\<close>
  | MtSpawnIn nat          \<comment> \<open>the fiber that a worker runs spawns another\<close>
  | MtYield nat | MtReturn nat | MtThrow nat
  | MtTaskEnd nat | MtExit nat | MtJoin | MtJoined

definition running_at :: "nat \<Rightarrow> mtf \<Rightarrow> mfid option" where
  "running_at w s = (if w < length (mt_workers s) then case mt_workers s ! w of MwRunning f \<Rightarrow> Some f | _ \<Rightarrow> None else None)"

fun mtf_act :: "mtf_label \<Rightarrow> mtf \<Rightarrow> mtf option" where
  "mtf_act MtSpawn s = (if mt_guard s then Some (Mtf_Spawn s) else None)"
| "mtf_act (MtTake w k) s = worker_task_start w k s"
| "mtf_act (MtSpawnIn w) s = (case running_at w s of None \<Rightarrow> None | Some f \<Rightarrow> Some (Mtf_Spawn s))"
| "mtf_act (MtYield w) s = (case running_at w s of None \<Rightarrow> None | Some f \<Rightarrow> Some (worker_set w (MwYielded f) s))"
| "mtf_act (MtReturn w) s = (case running_at w s of None \<Rightarrow> None | Some f \<Rightarrow> Some (worker_set w (MwCompleted f) s))"
| "mtf_act (MtThrow w) s = (case running_at w s of None \<Rightarrow> None | Some f \<Rightarrow> Some (s\<lparr>mt_aborted := True\<rparr>))"
| "mtf_act (MtTaskEnd w) s = worker_task_end w s"
| "mtf_act (MtExit w) s = MtfPool_Work_returns w s"
| "mtf_act MtJoin s = MtfPool_Join_begin s"
| "mtf_act MtJoined s = MtfPool_Join_end s"

definition mtf_step :: "mtf_label \<Rightarrow> mtf \<Rightarrow> mtf option" where
  "mtf_step l s = (if mt_aborted s then None else mtf_act l s)"

text \<open>Routines that do not throw.\<close>

definition mtf_quiet_step :: "mtf_label \<Rightarrow> mtf \<Rightarrow> mtf option" where
  "mtf_quiet_step l s = (case l of MtThrow _ \<Rightarrow> None | _ \<Rightarrow> mtf_step l s)"

definition mtf_start :: "nat \<Rightarrow> mtf" where
  "mtf_start n = \<lparr>mt_fibers = (\<lambda>_. None), mt_next = 0, mt_tasks = [], mt_workers = replicate n MwIdle, mt_pool = [],
     mt_next_stack = 0, mt_guard = True, mt_joined = False, mt_aborted = False\<rparr>"

section \<open>One owner per fiber\<close>

fun owns :: "mfid \<Rightarrow> mworker \<Rightarrow> bool" where
  "owns f (MwRunning g) \<longleftrightarrow> f = g"
| "owns f (MwYielded g) \<longleftrightarrow> f = g"
| "owns f (MwCompleted g) \<longleftrightarrow> f = g"
| "owns f _ \<longleftrightarrow> False"

text \<open>How many tasks and workers hold the fiber.\<close>

definition owners :: "mfid \<Rightarrow> mtf \<Rightarrow> nat" where
  "owners f s = count_list (mt_tasks s) f + cnt (owns f) (mt_workers s)"

definition stack_of :: "(mfid \<Rightarrow> mfiber option) \<Rightarrow> mfid \<Rightarrow> nat option" where
  "stack_of F f = (case F f of None \<Rightarrow> None | Some fb \<Rightarrow> mf_stack fb)"

definition mstacks_ok :: "(mfid \<Rightarrow> nat option) \<Rightarrow> nat option list \<Rightarrow> nat \<Rightarrow> bool" where
  "mstacks_ok S pool n \<longleftrightarrow>
     distinct pool \<and> (\<forall>p \<in> set pool. \<exists>x < n. p = Some x) \<and> (\<forall>f x. S f = Some x \<longrightarrow> x < n \<and> Some x \<notin> set pool) \<and>
     (\<forall>f g x. S f = Some x \<longrightarrow> S g = Some x \<longrightarrow> f = g)"

text \<open>A fiber that a worker has started has a stack.\<close>

definition mstarted_ok :: "(mfid \<Rightarrow> nat option) \<Rightarrow> mworker list \<Rightarrow> bool" where
  "mstarted_ok S ws \<longleftrightarrow> (\<forall>w < length ws. \<forall>f. owns f (ws ! w) \<longrightarrow> S f \<noteq> None)"

definition mtf_inv :: "mtf \<Rightarrow> bool" where
  "mtf_inv s \<longleftrightarrow> \<not> mt_aborted s \<and> (\<forall>f. owners f s = of_bool (mt_fibers s f \<noteq> None)) \<and>
     (\<forall>f. mt_next s \<le> f \<longrightarrow> mt_fibers s f = None) \<and> mstacks_ok (stack_of (mt_fibers s)) (mt_pool s) (mt_next_stack s) \<and>
     mstarted_ok (stack_of (mt_fibers s)) (mt_workers s) \<and>
     (mt_joined s \<longrightarrow> \<not> mt_guard s \<and> list_all (\<lambda>p. p = MwExited) (mt_workers s)) \<and>
     ((\<exists>w < length (mt_workers s). mt_workers s ! w = MwExited) \<longrightarrow> \<not> mt_guard s \<and> (\<forall>f. mt_fibers s f = None))"

lemma owners_worker_set:
  assumes "w < length (mt_workers s)"
  shows "owners f (worker_set w p s) + of_bool (owns f (mt_workers s ! w)) = owners f s + of_bool (owns f p)"
  using cnt_update [OF assms, of "owns f" p] by (simp add: owners_def worker_set_def)

lemma worker_set_frame [simp]:
  "mt_fibers (worker_set w p s) = mt_fibers s" "mt_next (worker_set w p s) = mt_next s"
  "mt_tasks (worker_set w p s) = mt_tasks s" "mt_pool (worker_set w p s) = mt_pool s"
  "mt_next_stack (worker_set w p s) = mt_next_stack s" "mt_guard (worker_set w p s) = mt_guard s"
  "mt_joined (worker_set w p s) = mt_joined s" "mt_aborted (worker_set w p s) = mt_aborted s"
  "mt_workers (worker_set w p s) = (mt_workers s)[w := p]"
  by (simp_all add: worker_set_def)

lemma mtf_invD:
  assumes "mtf_inv s"
  shows "\<not> mt_aborted s" "owners f s = of_bool (mt_fibers s f \<noteq> None)" "mt_next s \<le> f \<Longrightarrow> mt_fibers s f = None"
    "mstacks_ok (stack_of (mt_fibers s)) (mt_pool s) (mt_next_stack s)"
    "mt_joined s \<Longrightarrow> \<not> mt_guard s \<and> list_all (\<lambda>p. p = MwExited) (mt_workers s)"
    "w < length (mt_workers s) \<Longrightarrow> mt_workers s ! w = MwExited \<Longrightarrow> \<not> mt_guard s \<and> mt_fibers s f = None"
    "mstarted_ok (stack_of (mt_fibers s)) (mt_workers s)"
  using assms unfolding mtf_inv_def by blast+

lemma owners_pos_task: "f \<in> set (mt_tasks s) \<Longrightarrow> 0 < owners f s"
  using count_list_0_iff [of "mt_tasks s" f] by (auto simp: owners_def)

lemma owners_pos_worker: "w < length (mt_workers s) \<Longrightarrow> owns f (mt_workers s ! w) \<Longrightarrow> 0 < owners f s"
  using cnt_posI [of w "mt_workers s" "owns f"] by (simp add: owners_def)

lemma owner_live:
  assumes "mtf_inv s" "0 < owners f s"
  obtains fb where "mt_fibers s f = Some fb"
  using mtf_invD(2) [OF assms(1), of f] assms(2) by (cases "mt_fibers s f") auto

text \<open>Nobody has exited while a fiber is alive.\<close>

lemma no_exit_live:
  assumes "mtf_inv s" "mt_fibers s f = Some fb" "w < length (mt_workers s)"
  shows "mt_workers s ! w \<noteq> MwExited" "\<not> mt_joined s"
proof -
  show a: "mt_workers s ! w \<noteq> MwExited" using mtf_invD(6) [OF assms(1,3), of f] assms(2) by auto
  show "\<not> mt_joined s" using mtf_invD(5) [OF assms(1)] a assms(3) by (auto simp: list_all_length)
qed

text \<open>The steps that keep the workers' list free of exits.\<close>

lemma mtf_invI:
  assumes "\<not> mt_aborted s" "\<And>f. owners f s = of_bool (mt_fibers s f \<noteq> None)" "\<And>f. mt_next s \<le> f \<Longrightarrow> mt_fibers s f = None"
    "mstacks_ok (stack_of (mt_fibers s)) (mt_pool s) (mt_next_stack s)" "mstarted_ok (stack_of (mt_fibers s)) (mt_workers s)"
    "\<not> mt_joined s"
    "\<And>w. w < length (mt_workers s) \<Longrightarrow> mt_workers s ! w \<noteq> MwExited"
  shows "mtf_inv s"
  using assms unfolding mtf_inv_def by blast

lemma mstarted_update:
  assumes "mstarted_ok S ws" and "\<And>g. owns g p \<Longrightarrow> S g \<noteq> None"
  shows "mstarted_ok S (ws[w := p])"
  unfolding mstarted_ok_def
proof (intro allI impI)
  fix v f
  assume "v < length (ws[w := p])" and "owns f (ws[w := p] ! v)"
  with assms show "S f \<noteq> None" by (cases "v = w") (auto simp: mstarted_ok_def)
qed

lemma mstarted_idle: "mstarted_ok S ws \<Longrightarrow> mstarted_ok S (ws[w := MwIdle])"
  by (rule mstarted_update) simp_all

lemma inv_worker_change:
  assumes inv: "mtf_inv s" and w: "w < length (mt_workers s)" and own: "\<And>g. owns g (mt_workers s ! w) = owns g p"
    and f: "mt_fibers s f = Some fb" and p: "p \<noteq> MwExited"
  shows "mtf_inv (worker_set w p s)"
proof (rule mtf_invI)
  fix g show "owners g (worker_set w p s) = of_bool (mt_fibers (worker_set w p s) g \<noteq> None)"
    using owners_worker_set [OF w, of g p] own mtf_invD(2) [OF inv, of g] by simp
next
  fix v assume "v < length (mt_workers (worker_set w p s))"
  then show "mt_workers (worker_set w p s) ! v \<noteq> MwExited"
    using no_exit_live(1) [OF inv f, of v] p by (cases "v = w") simp_all
next
  show "mstarted_ok (stack_of (mt_fibers (worker_set w p s))) (mt_workers (worker_set w p s))"
    using mtf_invD(7) [OF inv] mstarted_update [OF mtf_invD(7) [OF inv], of p w] own w by (simp add: mstarted_ok_def)
qed (use mtf_invD [OF inv] no_exit_live(2) [OF inv f w] in simp_all)

lemma running_atD: "running_at w s = Some f \<Longrightarrow> w < length (mt_workers s) \<and> mt_workers s ! w = MwRunning f"
  by (auto simp: running_at_def split: if_splits mworker.splits)

lemma running_live:
  assumes "mtf_inv s" "running_at w s = Some f"
  obtains fb where "mt_fibers s f = Some fb"
proof -
  have "0 < owners f s" using running_atD [OF assms(2)] by (intro owners_pos_worker [of w]) simp_all
  with assms(1) obtain fb where "mt_fibers s f = Some fb" by (rule owner_live)
  then show thesis by (rule that)
qed

lemma Mtf_Spawn_eq:
  "Mtf_Spawn s = s\<lparr>mt_fibers := (mt_fibers s)(mt_next s \<mapsto> \<lparr>mf_stack = None\<rparr>), mt_next := Suc (mt_next s),
     mt_tasks := mt_tasks s @ [mt_next s]\<rparr>"
  by (simp add: Mtf_Spawn_def MtfFiber_Schedule_def MtfFiber_PlanTask_def MtfPool_Submit_def)

lemma mtf_inv_Spawn:
  assumes inv: "mtf_inv s" and nj: "\<not> mt_joined s" and ne: "\<And>w. w < length (mt_workers s) \<Longrightarrow> mt_workers s ! w \<noteq> MwExited"
  shows "mtf_inv (Mtf_Spawn s)"
proof (rule mtf_invI)
  have none: "mt_fibers s (mt_next s) = None" using mtf_invD(3) [OF inv] by simp
  fix f show "owners f (Mtf_Spawn s) = of_bool (mt_fibers (Mtf_Spawn s) f \<noteq> None)"
    using mtf_invD(2) [OF inv, of f] none by (auto simp: Mtf_Spawn_eq owners_def)
next
  have same: "stack_of (mt_fibers (Mtf_Spawn s)) = stack_of (mt_fibers s)"
    using mtf_invD(3) [OF inv, of "mt_next s"] by (auto simp: Mtf_Spawn_eq stack_of_def)
  show "mstarted_ok (stack_of (mt_fibers (Mtf_Spawn s))) (mt_workers (Mtf_Spawn s))"
    using mtf_invD(7) [OF inv] unfolding same by (simp add: Mtf_Spawn_eq)
  from same show "mstacks_ok (stack_of (mt_fibers (Mtf_Spawn s))) (mt_pool (Mtf_Spawn s)) (mt_next_stack (Mtf_Spawn s))"
    using mtf_invD(4) [OF inv] by (simp add: Mtf_Spawn_eq)
qed (use mtf_invD(1,3) [OF inv] nj ne in \<open>simp_all add: Mtf_Spawn_eq\<close>)

subsection \<open>Stacks\<close>

lemma mstacks_alloc:
  assumes ok: "mstacks_ok S (mt_pool s) (mt_next_stack s)" and f: "S f = None" and a: "MtfStackAllocator_Allocate s = (st, t)"
  shows "\<exists>x. st = Some x \<and> mstacks_ok (S(f \<mapsto> x)) (mt_pool t) (mt_next_stack t)"
proof (cases "mt_pool s = []")
  case True
  then have t: "st = Some (mt_next_stack s)" "mt_pool t = []" "mt_next_stack t = Suc (mt_next_stack s)"
    using a by (auto simp: MtfStackAllocator_Allocate_def MtfStackAllocator_GetNewStack_def)
  have "\<And>g x. S g = Some x \<Longrightarrow> x < mt_next_stack s" using ok by (simp add: mstacks_ok_def)
  then have "\<And>g. S g \<noteq> Some (mt_next_stack s)" by fastforce
  with ok t show ?thesis unfolding mstacks_ok_def by (auto intro: less_SucI)
next
  case False
  then have t: "st = last (mt_pool s)" "mt_pool t = butlast (mt_pool s)" "mt_next_stack t = mt_next_stack s"
    using a by (auto simp: MtfStackAllocator_Allocate_def)
  have split: "mt_pool s = butlast (mt_pool s) @ [last (mt_pool s)]" using False by simp
  have "distinct (butlast (mt_pool s) @ [last (mt_pool s)])" using ok split by (simp add: mstacks_ok_def)
  then have d: "last (mt_pool s) \<notin> set (butlast (mt_pool s))" "distinct (butlast (mt_pool s))" by auto
  have mem: "last (mt_pool s) \<in> set (mt_pool s)" using False by simp
  then obtain x where x: "last (mt_pool s) = Some x" "x < mt_next_stack s" using ok unfolding mstacks_ok_def by blast
  have sub: "set (butlast (mt_pool s)) \<subseteq> set (mt_pool s)" by (auto dest: in_set_butlastD)
  have "\<And>g. S g \<noteq> Some x" using ok mem x unfolding mstacks_ok_def by metis
  with ok t d mem sub x show ?thesis unfolding mstacks_ok_def by (auto split: if_splits)
qed

lemma mstacks_release:
  assumes ok: "mstacks_ok S pool n" and f: "S f \<noteq> None"
  shows "mstacks_ok (S(f := None)) (pool @ [S f]) n"
proof -
  from f obtain x where x: "S f = Some x" by blast
  have "\<And>g. g \<noteq> f \<Longrightarrow> S g \<noteq> Some x" using ok x unfolding mstacks_ok_def by metis
  moreover have "x < n" "Some x \<notin> set pool" using ok x unfolding mstacks_ok_def by blast+
  ultimately show ?thesis using ok x unfolding mstacks_ok_def by auto
qed

lemma CoroutineFactory_ok:
  assumes "mt_fibers s f = Some fb" "mstacks_ok (stack_of (mt_fibers s)) (mt_pool s) (mt_next_stack s)"
  obtains F pool n where "MtfFiber_CoroutineFactory f fb s = s\<lparr>mt_pool := pool, mt_next_stack := n, mt_fibers := F\<rparr>"
    "mstacks_ok (stack_of F) pool n" "\<And>g. F g = None \<longleftrightarrow> mt_fibers s g = None"
    "stack_of F f \<noteq> None" "\<And>g. g \<noteq> f \<Longrightarrow> stack_of F g = stack_of (mt_fibers s) g"
proof (cases "mf_stack fb")
  case None
  obtain st t where a: "MtfStackAllocator_Allocate s = (st, t)" by (metis surj_pair)
  have "stack_of (mt_fibers s) f = None" using assms(1) None by (simp add: stack_of_def)
  with mstacks_alloc [OF assms(2) _ a] obtain x where st: "st = Some x"
    and ok: "mstacks_ok ((stack_of (mt_fibers s))(f \<mapsto> x)) (mt_pool t) (mt_next_stack t)" by blast
  let ?F = "(mt_fibers s)(f \<mapsto> \<lparr>mf_stack = Some x\<rparr>)"
  have F: "stack_of ?F = (stack_of (mt_fibers s))(f \<mapsto> x)" by (auto simp: stack_of_def)
  have t: "t = s\<lparr>mt_pool := mt_pool t, mt_next_stack := mt_next_stack t\<rparr>"
    using a by (auto simp: MtfStackAllocator_Allocate_def MtfStackAllocator_GetNewStack_def split: if_splits)
  then have "mt_fibers t = mt_fibers s" by (metis mtf.simps(1) mtf.surjective mtf.update_convs(5,6))
  then have "MtfFiber_CoroutineFactory f fb s = t\<lparr>mt_fibers := ?F\<rparr>"
    using None a st by (simp add: MtfFiber_CoroutineFactory_def)
  then have fac: "MtfFiber_CoroutineFactory f fb s = s\<lparr>mt_pool := mt_pool t, mt_next_stack := mt_next_stack t, mt_fibers := ?F\<rparr>"
    by (subst (asm) t)
  show thesis by (rule that [OF fac]) (use ok assms(1) in \<open>simp_all add: F\<close>)
next
  case (Some st)
  then have fac: "MtfFiber_CoroutineFactory f fb s = s\<lparr>mt_pool := mt_pool s, mt_next_stack := mt_next_stack s, mt_fibers := mt_fibers s\<rparr>"
    by (simp add: MtfFiber_CoroutineFactory_def)
  show thesis by (rule that [OF fac assms(2)]) (use assms(1) Some in \<open>simp_all add: stack_of_def\<close>)
qed

subsection \<open>The steps\<close>

lemma inv_task_start:
  assumes inv: "mtf_inv s" and step: "worker_task_start w k s = Some s'"
  shows "mtf_inv s'"
proof -
  from step have w: "w < length (mt_workers s)" "mt_workers s ! w = MwIdle" and k: "k < length (mt_tasks s)"
    by (auto simp: worker_task_start_def split: if_splits)
  let ?f = "mt_tasks s ! k" and ?s1 = "s\<lparr>mt_tasks := take k (mt_tasks s) @ drop (Suc k) (mt_tasks s)\<rparr>"
  have "0 < owners ?f s" using k by (intro owners_pos_task) simp
  with inv obtain fb where fb: "mt_fibers s ?f = Some fb" by (rule owner_live)
  obtain F pool n where fac: "MtfFiber_CoroutineFactory ?f fb ?s1 = ?s1\<lparr>mt_pool := pool, mt_next_stack := n, mt_fibers := F\<rparr>"
    and F: "mstacks_ok (stack_of F) pool n" "\<And>g. F g = None \<longleftrightarrow> mt_fibers s g = None"
      "stack_of F ?f \<noteq> None" "\<And>g. g \<noteq> ?f \<Longrightarrow> stack_of F g = stack_of (mt_fibers s) g"
    by (rule CoroutineFactory_ok [of ?s1 ?f fb]) (use fb mtf_invD(4) [OF inv] in simp_all)
  let ?t = "?s1\<lparr>mt_pool := pool, mt_next_stack := n, mt_fibers := F\<rparr>"
  have s': "s' = worker_set w (MwRunning ?f) ?t"
    using step w k fb fac by (simp add: worker_task_start_def Let_def)
  show ?thesis unfolding s'
  proof (rule mtf_invI)
    fix g
    have "owners g ?t + of_bool (?f = g) = owners g s"
      using count_remove_nth [OF k, of g] by (simp add: owners_def)
    moreover have "mt_fibers (worker_set w (MwRunning ?f) ?t) g = None \<longleftrightarrow> mt_fibers s g = None" using F(2) by simp
    ultimately show "owners g (worker_set w (MwRunning ?f) ?t) = of_bool (mt_fibers (worker_set w (MwRunning ?f) ?t) g \<noteq> None)"
      using owners_worker_set [of w ?t g "MwRunning ?f"] w mtf_invD(2) [OF inv, of g]
      by (cases "?f = g") (simp_all del: worker_set_frame)
  next
    fix v assume "v < length (mt_workers (worker_set w (MwRunning ?f) ?t))"
    then show "mt_workers (worker_set w (MwRunning ?f) ?t) ! v \<noteq> MwExited"
      using no_exit_live(1) [OF inv fb, of v] by (cases "v = w") simp_all
  next
    have "stack_of (mt_fibers s) g \<noteq> None \<Longrightarrow> stack_of F g \<noteq> None" for g using F(3,4) by (cases "g = ?f") simp_all
    then have "mstarted_ok (stack_of F) (mt_workers s)" using mtf_invD(7) [OF inv] unfolding mstarted_ok_def by blast
    with F(3) show "mstarted_ok (stack_of (mt_fibers (worker_set w (MwRunning ?f) ?t))) (mt_workers (worker_set w (MwRunning ?f) ?t))"
      by (auto intro: mstarted_update)
  qed (use F mtf_invD(1,3) [OF inv] no_exit_live(2) [OF inv fb w(1)] in simp_all)
qed

lemma inv_task_end_yield:
  assumes inv: "mtf_inv s" and w: "w < length (mt_workers s)" "mt_workers s ! w = MwYielded f" and fb: "mt_fibers s f = Some fb"
  shows "mtf_inv (worker_set w MwIdle (MtfFiber_PlanTask WithContinuation f s))"
proof -
  let ?t = "s\<lparr>mt_tasks := mt_tasks s @ [f]\<rparr>"
  have t: "MtfFiber_PlanTask WithContinuation f s = ?t"
    by (simp add: MtfFiber_PlanTask_def MtfPool_SubmitContinuation_def)
  show ?thesis unfolding t
  proof (rule mtf_invI)
    fix g
    have "owners g ?t = owners g s + of_bool (f = g)" by (simp add: owners_def)
    with owners_worker_set [of w ?t g MwIdle] w mtf_invD(2) [OF inv, of g]
    show "owners g (worker_set w MwIdle ?t) = of_bool (mt_fibers (worker_set w MwIdle ?t) g \<noteq> None)"
      by (cases "f = g") simp_all
  next
    fix v assume "v < length (mt_workers (worker_set w MwIdle ?t))"
    then show "mt_workers (worker_set w MwIdle ?t) ! v \<noteq> MwExited"
      using no_exit_live(1) [OF inv fb, of v] by (cases "v = w") simp_all
  qed (use mtf_invD(1,3,4) [OF inv] mstarted_idle [OF mtf_invD(7) [OF inv]] no_exit_live(2) [OF inv fb w(1)] in simp_all)
qed

lemma inv_task_end_delete:
  assumes inv: "mtf_inv s" and w: "w < length (mt_workers s)" "mt_workers s ! w = MwCompleted f" and fb: "mt_fibers s f = Some fb"
  shows "mtf_inv (worker_set w MwIdle (MtfFiber_dtor f fb s))"
proof -
  let ?F = "(mt_fibers s)(f := None)" and ?pool = "mt_pool s @ [stack_of (mt_fibers s) f]"
  let ?t = "s\<lparr>mt_fibers := ?F, mt_pool := ?pool\<rparr>"
  have t: "MtfFiber_dtor f fb s = ?t"
    using fb by (simp add: MtfFiber_dtor_def MtfStackAllocator_Release_def stack_of_def)
  have F: "stack_of ?F = (stack_of (mt_fibers s))(f := None)" by (auto simp: stack_of_def)
  have "stack_of (mt_fibers s) f \<noteq> None" using mtf_invD(7) [OF inv] w unfolding mstarted_ok_def by (metis owns.simps(3))
  then have stacks: "mstacks_ok (stack_of ?F) ?pool (mt_next_stack s)"
    using mstacks_release [OF mtf_invD(4) [OF inv]] by (simp add: F)
  have one: "cnt (owns f) (mt_workers s) \<le> 1" using mtf_invD(2) [OF inv, of f] by (cases "mt_fibers s f") (simp_all add: owners_def)
  have "mstarted_ok (stack_of ?F) ((mt_workers s)[w := MwIdle])"
    unfolding mstarted_ok_def
  proof (intro allI impI)
    fix v g
    assume v: "v < length ((mt_workers s)[w := MwIdle])" and g: "owns g ((mt_workers s)[w := MwIdle] ! v)"
    then have v': "v < length (mt_workers s)" "v \<noteq> w" "owns g (mt_workers s ! v)"
      by (cases "v = w"; simp)+
    have "g \<noteq> f" using cnt_le_one_unique [OF one v'(1) w(1)] v' w(2) by auto
    with v' mtf_invD(7) [OF inv] show "stack_of ?F g \<noteq> None" by (simp add: F mstarted_ok_def)
  qed
  note started = this
  show ?thesis unfolding t
  proof (rule mtf_invI)
    fix g
    have "owners g ?t = owners g s" by (simp add: owners_def)
    with owners_worker_set [of w ?t g MwIdle] w mtf_invD(2) [OF inv, of g] fb
    show "owners g (worker_set w MwIdle ?t) = of_bool (mt_fibers (worker_set w MwIdle ?t) g \<noteq> None)"
      by (auto split: if_splits)
  next
    fix v assume "v < length (mt_workers (worker_set w MwIdle ?t))"
    then show "mt_workers (worker_set w MwIdle ?t) ! v \<noteq> MwExited"
      using no_exit_live(1) [OF inv fb, of v] by (cases "v = w") simp_all
  qed (use stacks started mtf_invD(1,3) [OF inv] no_exit_live(2) [OF inv fb w(1)] in simp_all)
qed

lemma inv_task_end:
  assumes inv: "mtf_inv s" and step: "worker_task_end w s = Some s'"
  shows "mtf_inv s'"
proof -
  from step have w: "w < length (mt_workers s)" by (auto simp: worker_task_end_def split: if_splits)
  from step w consider (y) f where "mt_workers s ! w = MwYielded f" | (c) f where "mt_workers s ! w = MwCompleted f"
    by (cases "mt_workers s ! w") (auto simp: worker_task_end_def)
  then show ?thesis
  proof cases
    case y
    then have "0 < owners f s" using w by (intro owners_pos_worker [of w]) simp_all
    with inv obtain fb where fb: "mt_fibers s f = Some fb" by (rule owner_live)
    with inv_task_end_yield [OF inv w y fb] step w y show ?thesis by (simp add: worker_task_end_def)
  next
    case c
    then have "0 < owners f s" using w by (intro owners_pos_worker [of w]) simp_all
    with inv obtain fb where fb: "mt_fibers s f = Some fb" by (rule owner_live)
    with inv_task_end_delete [OF inv w c fb] step w c show ?thesis by (simp add: worker_task_end_def)
  qed
qed

lemma no_owner_all_idle:
  assumes "mt_tasks s = []" "list_all (\<lambda>p. p = MwIdle \<or> p = MwExited) (mt_workers s)"
  shows "owners f s = 0"
proof -
  have "cnt (owns f) (mt_workers s) = 0"
    using assms(2) cnt_pos_iff [of "owns f" "mt_workers s"] by (force simp: list_all_length)
  with assms(1) show ?thesis by (simp add: owners_def)
qed

lemma inv_exit:
  assumes inv: "mtf_inv s" and step: "MtfPool_Work_returns w s = Some s'"
  shows "mtf_inv s'"
proof -
  from step have w: "w < length (mt_workers s)" "mt_workers s ! w = MwIdle" "\<not> mt_guard s" "mt_tasks s = []"
      "list_all (\<lambda>p. p = MwIdle \<or> p = MwExited) (mt_workers s)" and s': "s' = worker_set w MwExited s"
    by (auto simp: MtfPool_Work_returns_def split: if_splits)
  have dead: "mt_fibers s f = None" for f using mtf_invD(2) [OF inv, of f] no_owner_all_idle [OF w(4,5), of f] by simp
  have nj: "\<not> mt_joined s" using mtf_invD(5) [OF inv] w by (auto simp: list_all_length)
  have "owners f s' = of_bool (mt_fibers s' f \<noteq> None)" for f
    using owners_worker_set [OF w(1), of f MwExited] w mtf_invD(2) [OF inv, of f] by (simp add: s')
  then show ?thesis
    using mtf_invD(1,3,4) [OF inv] mstarted_update [OF mtf_invD(7) [OF inv], of MwExited w] w(3) dead nj
    unfolding mtf_inv_def by (simp add: s')
qed

lemma inv_spawn_step:
  assumes inv: "mtf_inv s" and "mtf_act l s = Some s'" "l = MtSpawn \<or> (\<exists>w. l = MtSpawnIn w)"
  shows "mtf_inv s'"
  using assms(3)
proof
  assume l: "l = MtSpawn"
  then have g: "mt_guard s" "s' = Mtf_Spawn s" using assms(2) by (auto split: if_splits)
  have "mtf_inv (Mtf_Spawn s)" by (rule mtf_inv_Spawn [OF inv]) (use mtf_invD(5,6) [OF inv] g in auto)
  with g show ?thesis by simp
next
  assume "\<exists>w. l = MtSpawnIn w"
  then obtain w f where f: "running_at w s = Some f" and s': "s' = Mtf_Spawn s" using assms(2) by (auto split: option.splits)
  from inv f obtain fb where fb: "mt_fibers s f = Some fb" by (rule running_live)
  have "mtf_inv (Mtf_Spawn s)"
    by (rule mtf_inv_Spawn [OF inv]) (use no_exit_live [OF inv fb] running_atD [OF f] in blast)+
  with s' show ?thesis by simp
qed

lemma inv_running_change:
  assumes inv: "mtf_inv s" and f: "running_at w s = Some f" and p: "p = MwYielded f \<or> p = MwCompleted f"
  shows "mtf_inv (worker_set w p s)"
proof -
  from inv f obtain fb where fb: "mt_fibers s f = Some fb" by (rule running_live)
  show ?thesis by (rule inv_worker_change [OF inv _ _ fb]) (use running_atD [OF f] p in auto)
qed

lemma mtf_inv_step:
  assumes inv: "mtf_inv s" and "mtf_quiet_step l s = Some s'"
  shows "mtf_inv s'"
proof -
  from assms(2) have act: "mtf_act l s = Some s'" and nt: "\<And>w. l \<noteq> MtThrow w"
    by (auto simp: mtf_quiet_step_def mtf_step_def split: mtf_label.splits if_splits)
  show ?thesis
  proof (cases l)
    case (MtYield w)
    with act inv_running_change [OF inv, of w] show ?thesis by (auto split: option.splits)
  next
    case (MtReturn w)
    with act inv_running_change [OF inv, of w] show ?thesis by (auto split: option.splits)
  next
    case MtJoin
    then have "s' = s\<lparr>mt_guard := False\<rparr>" using act by (auto simp: MtfPool_Join_begin_def split: if_splits)
    then show ?thesis using inv by (auto simp: mtf_inv_def owners_def)
  next
    case MtJoined
    then have "s' = s\<lparr>mt_joined := True\<rparr>" "\<not> mt_guard s" "list_all (\<lambda>p. p = MwExited) (mt_workers s)"
      using act by (auto simp: MtfPool_Join_end_def split: if_splits)
    then show ?thesis using inv by (auto simp: mtf_inv_def owners_def)
  next
    case (MtTake w k)
    with act inv_task_start [OF inv] show ?thesis by simp
  next
    case (MtTaskEnd w)
    with act inv_task_end [OF inv] show ?thesis by simp
  next
    case (MtExit w)
    with act inv_exit [OF inv] show ?thesis by simp
  next
    case (MtThrow w)
    with nt [of w] show ?thesis by simp
  qed (use inv_spawn_step [OF inv act] in simp_all)
qed

lemma mtf_inv_start: "mtf_inv (mtf_start n)"
  by (auto simp: mtf_inv_def mtf_start_def owners_def mstacks_ok_def mstarted_ok_def stack_of_def)

interpretation mtf: invariant_system mtf_quiet_step "mtf_start n" mtf_inv
  by unfold_locales (auto intro: mtf_inv_start mtf_inv_step)

section \<open>Properties\<close>

text \<open>C14: Fibers migrate safely between the workers: if no routine throws, no deleted fiber is accessed, every fiber
  that has not ended has exactly one owner (one submitted task or one worker), so it is never
  resumed by two workers at a time, and two fibers never share a stack.\<close>

theorem MtfFiber_one_owner:
  assumes "reachable mtf_quiet_step (mtf_start n) s"
  shows "\<not> mt_aborted s \<and> (\<forall>f. owners f s = of_bool (mt_fibers s f \<noteq> None)) \<and>
    (\<forall>f g x. stack_of (mt_fibers s) f = Some x \<longrightarrow> stack_of (mt_fibers s) g = Some x \<longrightarrow> f = g) \<and>
    (\<forall>v w f. v < length (mt_workers s) \<longrightarrow> w < length (mt_workers s) \<longrightarrow>
       owns f (mt_workers s ! v) \<longrightarrow> owns f (mt_workers s ! w) \<longrightarrow> v = w)"
proof -
  have inv: "mtf_inv s" by (rule mtf.inv_reachable [OF assms])
  have "v = w" if "v < length (mt_workers s)" "w < length (mt_workers s)" "owns f (mt_workers s ! v)" "owns f (mt_workers s ! w)"
    for v w f
  proof -
    have "cnt (owns f) (mt_workers s) \<le> 1" using mtf_invD(2) [OF inv, of f] by (cases "mt_fibers s f") (auto simp: owners_def)
    then show ?thesis using that by (rule cnt_le_one_unique)
  qed
  with mtf_invD(1,2,4) [OF inv] show ?thesis unfolding mstacks_ok_def by blast
qed

lemmas mtf_run_simps = mtf_quiet_step_def mtf_step_def mtf_start_def Mtf_Spawn_eq worker_task_start_def
  MtfFiber_CoroutineFactory_def MtfStackAllocator_Allocate_def MtfStackAllocator_GetNewStack_def worker_set_def
  running_at_def worker_task_end_def MtfFiber_PlanTask_def MtfPool_SubmitContinuation_def MtfFiber_dtor_def
  MtfStackAllocator_Release_def MtfPool_Work_returns_def MtfPool_Join_begin_def MtfPool_Join_end_def

lemma mtf_two_running:
  "\<exists>s. run mtf_quiet_step [MtSpawn, MtSpawn, MtTake 0 0, MtTake 1 0] (mtf_start 2) = Some s \<and>
     mt_workers s = [MwRunning 0, MwRunning 1]"
  by (simp add: mtf_run_simps replicate_two)

theorem MtfFiber_one_owner_witness:
  "\<exists>s. run mtf_quiet_step [MtSpawn, MtSpawn, MtTake 0 0, MtTake 1 0] (mtf_start 2) = Some s \<and>
     mt_workers s = [MwRunning 0, MwRunning 1] \<and> \<not> mt_aborted s"
proof -
  obtain s where s: "run mtf_quiet_step [MtSpawn, MtSpawn, MtTake 0 0, MtTake 1 0] (mtf_start 2) = Some s"
     "mt_workers s = [MwRunning 0, MwRunning 1]" using mtf_two_running by blast
  with MtfFiber_one_owner [OF run_reachable [OF s(1)]] show ?thesis by blast
qed

text \<open>C15: When \<open>Join\<close> of a pool with workers returns, every fiber has ended and returned its stack.\<close>

theorem MtfPool_Join_waits_for_fibers:
  assumes "reachable mtf_quiet_step (mtf_start n) s" and "mt_joined s" and "0 < length (mt_workers s)"
  shows "mt_tasks s = [] \<and> (\<forall>f. mt_fibers s f = None)"
proof -
  have inv: "mtf_inv s" by (rule mtf.inv_reachable [OF assms(1)])
  have "mt_workers s ! 0 = MwExited" using mtf_invD(5) [OF inv assms(2)] assms(3) by (simp add: list_all_length)
  then have dead: "mt_fibers s f = None" for f using mtf_invD(6) [OF inv assms(3)] by blast
  moreover have "mt_tasks s = []"
  proof (rule ccontr)
    assume "mt_tasks s \<noteq> []"
    then have "0 < owners (hd (mt_tasks s)) s" by (intro owners_pos_task) simp
    then show False using mtf_invD(2) [OF inv, of "hd (mt_tasks s)"] dead by simp
  qed
  ultimately show ?thesis by blast
qed

lemma mtf_join_runs:
  "\<exists>s. run mtf_quiet_step [MtSpawn, MtTake 0 0, MtYield 0, MtTaskEnd 0, MtJoin, MtTake 1 0, MtReturn 1, MtTaskEnd 1,
       MtExit 0, MtExit 1, MtJoined] (mtf_start 2) = Some s \<and> mt_joined s \<and> 0 < length (mt_workers s)"
  by (simp add: mtf_run_simps replicate_two)

theorem MtfPool_Join_waits_for_fibers_witness:
  "\<exists>s. run mtf_quiet_step [MtSpawn, MtTake 0 0, MtYield 0, MtTaskEnd 0, MtJoin, MtTake 1 0, MtReturn 1, MtTaskEnd 1,
       MtExit 0, MtExit 1, MtJoined] (mtf_start 2) = Some s \<and> mt_tasks s = []"
proof -
  obtain s where s: "run mtf_quiet_step [MtSpawn, MtTake 0 0, MtYield 0, MtTaskEnd 0, MtJoin, MtTake 1 0, MtReturn 1, MtTaskEnd 1,
       MtExit 0, MtExit 1, MtJoined] (mtf_start 2) = Some s" "mt_joined s" "0 < length (mt_workers s)"
    using mtf_join_runs by blast
  with MtfPool_Join_waits_for_fibers [OF run_reachable [OF s(1)] s(2,3)] show ?thesis by blast
qed

text \<open>An exception in a fiber leaves the worker's function: \<open>Resume\<close> throws it again and nobody catches it.\<close>

theorem MtfFiber_exception_reaches_worker:
  "\<exists>s. run mtf_step [MtSpawn, MtTake 0 0, MtThrow 0] (mtf_start 1) = Some s \<and> mt_aborted s"
  by (simp add: mtf_run_simps)

end
