(* ===== verification/Mtf_Coroutines.thy ===== *)
theory Mtf_Coroutines
  imports Mtf_Fibers Coroutines
begin

text \<open>
  Fibers on a thread pool together with their coroutines: the composition of \<open>Mtf_Fibers\<close>, which only knows that a worker is inside
  \<open>Resume\<close> of a fiber, and \<open>Coroutines\<close>, with the pointers by which the code finds its way. A fiber calls \<open>Yield\<close>, which is
  \<open>Coroutine::Suspend\<close> for whatever \<open>current_coroutine\<close> of the thread is; the next task of the fiber may run on another worker.
  Routines do not throw and use no coroutines of their own.
\<close>

section \<open>Model\<close>

text \<open>\<open>mc_coroutine\<close> is the member \<open>coroutine_\<close> of the fibers.\<close>

record mtfco =
  mc_mtf :: mtf
  mc_co :: costate
  mc_coroutine :: "mfid \<Rightarrow> coid option"

definition mc_start :: "nat \<Rightarrow> mtfco" where
  "mc_start n = \<lparr>mc_mtf = mtf_start n, mc_co = co_start n, mc_coroutine = (\<lambda>_. None)\<rparr>"

text \<open>\<open>CoroutineFactory\<close>: the coroutine of a fiber is made when its first task runs.\<close>

definition mc_factory :: "mfid \<Rightarrow> mtfco \<Rightarrow> coid \<times> mtfco" where
  "mc_factory f s =
     (case mc_coroutine s f of
        Some c \<Rightarrow> (c, s)
      | None \<Rightarrow>
          (let c = co_next (mc_co s)
           in (c, s\<lparr>mc_co := Coroutine_ctor (mc_co s), mc_coroutine := (mc_coroutine s)(f \<mapsto> c)\<rparr>)))"

text \<open>The task of a fiber in the worker \<open>w\<close>, up to the switch into the routine.\<close>

definition mc_take :: "nat \<Rightarrow> nat \<Rightarrow> mtfco \<Rightarrow> mtfco option" where
  "mc_take w k s =
     (case mtf_step (MtTake w k) (mc_mtf s) of
        None \<Rightarrow> None
      | Some m \<Rightarrow>
          (let (c, s1) = mc_factory (mt_tasks (mc_mtf s) ! k) s
           in Some (s1\<lparr>mc_mtf := m, mc_co := Coroutine_Resume w c (mc_co s1)\<rparr>)))"

definition mc_Yield :: "nat \<Rightarrow> mtfco \<Rightarrow> mtfco option" where
  "mc_Yield w s = map_option (\<lambda>m. s\<lparr>mc_mtf := m, mc_co := Coroutine_Suspend w (mc_co s)\<rparr>) (mtf_step (MtYield w) (mc_mtf s))"

definition mc_Return :: "nat \<Rightarrow> mtfco \<Rightarrow> mtfco option" where
  "mc_Return w s =
     map_option (\<lambda>m. s\<lparr>mc_mtf := m, mc_co := Coroutine_Trampoline w None (mc_co s)\<rparr>) (mtf_step (MtReturn w) (mc_mtf s))"

text \<open>The fiber whose task a worker runs, and the rest of the task after \<open>Resume\<close>: the code tests \<open>IsCompleted\<close> of the coroutine.\<close>

definition mc_fiber_at :: "nat \<Rightarrow> mtf \<Rightarrow> mfid option" where
  "mc_fiber_at w s =
     (if w < length (mt_workers s)
      then case mt_workers s ! w of MwYielded f \<Rightarrow> Some f | MwCompleted f \<Rightarrow> Some f | _ \<Rightarrow> None else None)"

definition mc_task_end :: "nat \<Rightarrow> mtfco \<Rightarrow> mtfco option" where
  "mc_task_end w s =
     (case mc_fiber_at w (mc_mtf s) of
        None \<Rightarrow> None
      | Some f \<Rightarrow>
          (case mc_coroutine s f of
             None \<Rightarrow> Some (s\<lparr>mc_co := co_abort (mc_co s)\<rparr>)
           | Some c \<Rightarrow>
               (if \<not> Coroutine_IsCompleted c (mc_co s)
                then Some (s\<lparr>mc_mtf := worker_set w MwIdle (MtfFiber_PlanTask WithContinuation f (mc_mtf s))\<rparr>)
                else case mt_fibers (mc_mtf s) f of
                       None \<Rightarrow> Some (s\<lparr>mc_co := co_abort (mc_co s)\<rparr>)
                     | Some fb \<Rightarrow>
                         Some (s\<lparr>mc_mtf := worker_set w MwIdle (MtfFiber_dtor f fb (mc_mtf s)),
                                 mc_co := Coroutine_dtor c (mc_co s), mc_coroutine := (mc_coroutine s)(f := None)\<rparr>))))"

text \<open>The other steps do not concern coroutines.\<close>

fun mc_step :: "mtf_label \<Rightarrow> mtfco \<Rightarrow> mtfco option" where
  "mc_step (MtTake w k) s = mc_take w k s"
| "mc_step (MtYield w) s = mc_Yield w s"
| "mc_step (MtReturn w) s = mc_Return w s"
| "mc_step (MtTaskEnd w) s = mc_task_end w s"
| "mc_step l s = map_option (\<lambda>m. s\<lparr>mc_mtf := m\<rparr>) (mtf_quiet_step l (mc_mtf s))"

section \<open>The fibers keep to the rules of coroutines\<close>

text \<open>What the thread of a worker runs.\<close>

definition worker_control :: "(mfid \<Rightarrow> coid option) \<Rightarrow> mworker \<Rightarrow> coid list" where
  "worker_control C p = (case p of MwRunning f \<Rightarrow> (case C f of None \<Rightarrow> [] | Some c \<Rightarrow> [c]) | _ \<Rightarrow> [])"

text \<open>The coroutine of a fiber exists, is its own, and is completed exactly when a worker is about to delete the fiber.\<close>

definition mc_inv :: "nat \<Rightarrow> mtfco \<Rightarrow> bool" where
  "mc_inv n s \<longleftrightarrow> mtf_inv (mc_mtf s) \<and> co_inv n (mc_co s) \<and> length (mt_workers (mc_mtf s)) = n \<and>
     (\<forall>w < n. co_control (mc_co s) ! w = worker_control (mc_coroutine s) (mt_workers (mc_mtf s) ! w)) \<and>
     (\<forall>w < n. \<forall>f. owns f (mt_workers (mc_mtf s) ! w) \<longrightarrow> mc_coroutine s f \<noteq> None) \<and>
     (\<forall>f c. mc_coroutine s f = Some c \<longrightarrow> mt_fibers (mc_mtf s) f \<noteq> None \<and> co_store (mc_co s) c \<noteq> None \<and>
        (Coroutine_IsCompleted c (mc_co s) \<longleftrightarrow> (\<exists>w < n. mt_workers (mc_mtf s) ! w = MwCompleted f))) \<and>
     (\<forall>f g c. mc_coroutine s f = Some c \<longrightarrow> mc_coroutine s g = Some c \<longrightarrow> f = g)"

lemma owner_unique:
  assumes inv: "mtf_inv s" and "v < length (mt_workers s)" "w < length (mt_workers s)" "owns f (mt_workers s ! v)" "owns f (mt_workers s ! w)"
  shows "v = w"
proof -
  have "cnt (owns f) (mt_workers s) \<le> 1" using mtf_invD(2) [OF inv, of f] by (cases "mt_fibers s f") (auto simp: owners_def)
  then show ?thesis using assms(2-5) by (rule cnt_le_one_unique)
qed

lemma task_no_worker:
  assumes inv: "mtf_inv s" and f: "f \<in> set (mt_tasks s)" and w: "w < length (mt_workers s)"
  shows "\<not> owns f (mt_workers s ! w)"
proof
  assume "owns f (mt_workers s ! w)"
  then have "0 < cnt (owns f) (mt_workers s)" using w by (rule cnt_posI [rotated])
  moreover have "0 < count_list (mt_tasks s) f" using f count_list_0_iff [of "mt_tasks s" f] by simp
  ultimately show False using mtf_invD(2) [OF inv, of f] by (cases "mt_fibers s f") (simp_all add: owners_def)
qed

text \<open>What the start of a task does to the pool.\<close>

lemma task_start_effect:
  assumes inv: "mtf_inv s" and step: "worker_task_start w k s = Some s'"
  shows "w < length (mt_workers s)" "mt_workers s ! w = MwIdle" "k < length (mt_tasks s)" "mt_fibers s (mt_tasks s ! k) \<noteq> None"
    "mt_workers s' = (mt_workers s)[w := MwRunning (mt_tasks s ! k)]" "mt_fibers s' g = None \<longleftrightarrow> mt_fibers s g = None"
proof -
  show w: "w < length (mt_workers s)" "mt_workers s ! w = MwIdle" and k: "k < length (mt_tasks s)"
    using step by (auto simp: worker_task_start_def split: if_splits)
  let ?f = "mt_tasks s ! k" and ?s1 = "s\<lparr>mt_tasks := take k (mt_tasks s) @ drop (Suc k) (mt_tasks s)\<rparr>"
  have "0 < owners ?f s" using k by (intro owners_pos_task) simp
  with inv obtain fb where fb: "mt_fibers s ?f = Some fb" by (rule owner_live)
  then show "mt_fibers s ?f \<noteq> None" by simp
  obtain F pool n where fac: "MtfFiber_CoroutineFactory ?f fb ?s1 = ?s1\<lparr>mt_pool := pool, mt_next_stack := n, mt_fibers := F\<rparr>"
    and F: "\<And>g. F g = None \<longleftrightarrow> mt_fibers s g = None"
    by (rule CoroutineFactory_ok [of ?s1 ?f fb]) (use fb mtf_invD(4) [OF inv] in simp_all)
  then have "s' = worker_set w (MwRunning ?f) (?s1\<lparr>mt_pool := pool, mt_next_stack := n, mt_fibers := F\<rparr>)"
    using step w k fb by (simp add: worker_task_start_def Let_def)
  with F show "mt_workers s' = (mt_workers s)[w := MwRunning ?f]" "mt_fibers s' g = None \<longleftrightarrow> mt_fibers s g = None" by simp_all
qed

lemma mc_invD:
  assumes "mc_inv n s"
  shows "mtf_inv (mc_mtf s)" "co_inv n (mc_co s)" "length (mt_workers (mc_mtf s)) = n"
    "w < n \<Longrightarrow> co_control (mc_co s) ! w = worker_control (mc_coroutine s) (mt_workers (mc_mtf s) ! w)"
    "w < n \<Longrightarrow> owns f (mt_workers (mc_mtf s) ! w) \<Longrightarrow> \<exists>c. mc_coroutine s f = Some c"
    "mc_coroutine s f = Some c \<Longrightarrow> mt_fibers (mc_mtf s) f \<noteq> None"
    "mc_coroutine s f = Some c \<Longrightarrow> co_store (mc_co s) c \<noteq> None"
    "mc_coroutine s f = Some c \<Longrightarrow> Coroutine_IsCompleted c (mc_co s) \<longleftrightarrow> (\<exists>w < n. mt_workers (mc_mtf s) ! w = MwCompleted f)"
    "mc_coroutine s f = Some c \<Longrightarrow> mc_coroutine s g = Some c \<Longrightarrow> f = g"
  using assms unfolding mc_inv_def by (blast, blast, blast, blast, blast, blast, blast, blast, blast)

lemma mc_invI:
  assumes "mtf_inv (mc_mtf s)" "co_inv n (mc_co s)" "length (mt_workers (mc_mtf s)) = n"
    "\<And>w. w < n \<Longrightarrow> co_control (mc_co s) ! w = worker_control (mc_coroutine s) (mt_workers (mc_mtf s) ! w)"
    "\<And>w f. w < n \<Longrightarrow> owns f (mt_workers (mc_mtf s) ! w) \<Longrightarrow> mc_coroutine s f \<noteq> None"
    "\<And>f c. mc_coroutine s f = Some c \<Longrightarrow> mt_fibers (mc_mtf s) f \<noteq> None \<and> co_store (mc_co s) c \<noteq> None \<and>
      (Coroutine_IsCompleted c (mc_co s) \<longleftrightarrow> (\<exists>w < n. mt_workers (mc_mtf s) ! w = MwCompleted f))"
    "\<And>f g c. mc_coroutine s f = Some c \<Longrightarrow> mc_coroutine s g = Some c \<Longrightarrow> f = g"
  shows "mc_inv n s"
  using assms unfolding mc_inv_def by blast

lemma control_owns:
  assumes "c \<in> set (worker_control C p)"
  obtains f where "p = MwRunning f" "C f = Some c"
  using assms by (auto simp: worker_control_def split: mworker.splits option.splits)

text \<open>The coroutine of a fiber that no worker owns is suspended.\<close>

lemma unowned_suspended:
  assumes inv: "mc_inv n s" and C: "mc_coroutine s f = Some c" and no: "\<And>w. w < n \<Longrightarrow> \<not> owns f (mt_workers (mc_mtf s) ! w)"
  shows "c \<notin> set (concat (co_control (mc_co s)))" and "\<not> Coroutine_IsCompleted c (mc_co s)"
proof -
  have len: "length (co_control (mc_co s)) = n" using co_invD(3) [OF mc_invD(2) [OF inv]] .
  show "c \<notin> set (concat (co_control (mc_co s)))"
  proof
    assume "c \<in> set (concat (co_control (mc_co s)))"
    then obtain w where w: "w < n" "c \<in> set (co_control (mc_co s) ! w)" unfolding in_control len by blast
    from w(2) have "c \<in> set (worker_control (mc_coroutine s) (mt_workers (mc_mtf s) ! w))" unfolding mc_invD(4) [OF inv w(1)] .
    then obtain g where g: "mt_workers (mc_mtf s) ! w = MwRunning g" "mc_coroutine s g = Some c" by (rule control_owns)
    from mc_invD(9) [OF inv C g(2)] g(1) no [OF w(1)] show False by simp
  qed
  show "\<not> Coroutine_IsCompleted c (mc_co s)"
  proof
    assume "Coroutine_IsCompleted c (mc_co s)"
    then obtain w where "w < n" "mt_workers (mc_mtf s) ! w = MwCompleted f" using mc_invD(8) [OF inv C] by blast
    with no [of w] show False by simp
  qed
qed

text \<open>The calls of coroutines that a step makes.\<close>

fun mc_schedule :: "mtfco \<Rightarrow> mtf_label \<Rightarrow> co_label list" where
  "mc_schedule s (MtTake w k) =
     (case mc_coroutine s (mt_tasks (mc_mtf s) ! k) of
        None \<Rightarrow> [CoNew, CoResume w (co_next (mc_co s))]
      | Some c \<Rightarrow> [CoResume w c])"
| "mc_schedule s (MtYield w) = [CoSuspend w]"
| "mc_schedule s (MtReturn w) = [CoReturn w None]"
| "mc_schedule s (MtTaskEnd w) =
     (case mc_fiber_at w (mc_mtf s) of
        None \<Rightarrow> []
      | Some f \<Rightarrow> (case mc_coroutine s f of None \<Rightarrow> [] | Some c \<Rightarrow> if Coroutine_IsCompleted c (mc_co s) then [CoDelete c] else []))"
| "mc_schedule s _ = []"

text \<open>A step is a step of both components.\<close>

definition mc_good :: "nat \<Rightarrow> mtfco \<Rightarrow> mtf_label \<Rightarrow> mtfco \<Rightarrow> bool" where
  "mc_good n s l s' \<longleftrightarrow> mc_inv n s' \<and> mtf_quiet_step l (mc_mtf s) = Some (mc_mtf s') \<and>
     run co_client_step (mc_schedule s l) (mc_co s) = Some (mc_co s')"

lemma factory_ok:
  assumes inv: "mc_inv n s" and f: "mt_fibers (mc_mtf s) f \<noteq> None" and no: "\<And>w. w < n \<Longrightarrow> \<not> owns f (mt_workers (mc_mtf s) ! w)"
    and fac: "mc_factory f s = (c, s1)"
  shows "mc_inv n s1" "mc_mtf s1 = mc_mtf s" "mc_coroutine s1 f = Some c"
    "run co_client_step (case mc_coroutine s f of None \<Rightarrow> [CoNew] | Some _ \<Rightarrow> []) (mc_co s) = Some (mc_co s1)"
    "mc_coroutine s f = None \<Longrightarrow> c = co_next (mc_co s)" "\<And>d. mc_coroutine s f = Some d \<Longrightarrow> c = d"
proof -
  have "mc_inv n s1 \<and> mc_mtf s1 = mc_mtf s \<and> mc_coroutine s1 f = Some c \<and>
    run co_client_step (case mc_coroutine s f of None \<Rightarrow> [CoNew] | Some _ \<Rightarrow> []) (mc_co s) = Some (mc_co s1)"
  proof (cases "mc_coroutine s f")
    case (Some d)
    with fac inv show ?thesis by (simp add: mc_factory_def)
  next
    case None
    let ?c = "co_next (mc_co s)" and ?co = "Coroutine_ctor (mc_co s)"
    from None fac have s1: "c = ?c" "s1 = s\<lparr>mc_co := ?co, mc_coroutine := (mc_coroutine s)(f \<mapsto> ?c)\<rparr>"
      by (auto simp: mc_factory_def Let_def)
    note co = mc_invD(2) [OF inv]
    have fresh: "co_store (mc_co s) ?c = None" using co by (simp add: co_inv_def)
    then have new: "mc_coroutine s g \<noteq> Some ?c" for g using mc_invD(7) [OF inv, of g ?c] by auto
    have old: "Coroutine_IsCompleted d ?co = Coroutine_IsCompleted d (mc_co s)" "co_store ?co d = co_store (mc_co s) d" if "d \<noteq> ?c" for d
      using that by (simp_all add: Coroutine_IsCompleted_def Coroutine_ctor_def)
    have made: "\<not> Coroutine_IsCompleted ?c ?co" "co_store ?co ?c \<noteq> None" by (simp_all add: Coroutine_IsCompleted_def Coroutine_ctor_def)
    let ?s = "s\<lparr>mc_co := ?co, mc_coroutine := (mc_coroutine s)(f \<mapsto> ?c)\<rparr>"
    have "mc_inv n ?s"
    proof (rule mc_invI)
      fix w assume w: "w < n"
      have "worker_control (mc_coroutine ?s) (mt_workers (mc_mtf s) ! w) = worker_control (mc_coroutine s) (mt_workers (mc_mtf s) ! w)"
        using no [OF w] by (auto simp: worker_control_def split: mworker.split)
      with mc_invD(4) [OF inv w] show "co_control (mc_co ?s) ! w = worker_control (mc_coroutine ?s) (mt_workers (mc_mtf ?s) ! w)"
        by (simp add: Coroutine_ctor_def)
    next
      fix g d assume g: "mc_coroutine ?s g = Some d"
      have "\<not> (\<exists>w < n. mt_workers (mc_mtf s) ! w = MwCompleted f)" using no by force
      then show "mt_fibers (mc_mtf ?s) g \<noteq> None \<and> co_store (mc_co ?s) d \<noteq> None \<and>
          (Coroutine_IsCompleted d (mc_co ?s) \<longleftrightarrow> (\<exists>w < n. mt_workers (mc_mtf ?s) ! w = MwCompleted g))"
        using g made old [of d] f new [of g] mc_invD(6-8) [OF inv, of g d] by (cases "g = f") (auto split: if_splits)
    next
      fix g h d assume "mc_coroutine ?s g = Some d" "mc_coroutine ?s h = Some d"
      then show "g = h" using new mc_invD(9) [OF inv, of g d h] by (auto split: if_splits)
    next
      fix w g assume "w < n" "owns g (mt_workers (mc_mtf ?s) ! w)"
      then show "mc_coroutine ?s g \<noteq> None" using mc_invD(5) [OF inv, of w g] by auto
    qed (use mc_invD(1,3) [OF inv] co_inv_new [OF co] in simp_all)
    with s1 None co_invD(1) [OF co] show ?thesis by (simp add: co_client_step_def)
  qed
  then show "mc_inv n s1" "mc_mtf s1 = mc_mtf s" "mc_coroutine s1 f = Some c"
    "run co_client_step (case mc_coroutine s f of None \<Rightarrow> [CoNew] | Some _ \<Rightarrow> []) (mc_co s) = Some (mc_co s1)" by blast+
  show "mc_coroutine s f = None \<Longrightarrow> c = co_next (mc_co s)" "\<And>d. mc_coroutine s f = Some d \<Longrightarrow> c = d"
    using fac by (auto simp: mc_factory_def Let_def)
qed

section \<open>The steps\<close>

lemma completed_update:
  assumes "w < n" "length xs = n" "xs ! w \<noteq> MwCompleted g"
  shows "(\<exists>v < n. xs[w := p] ! v = MwCompleted g) \<longleftrightarrow> (\<exists>v < n. xs ! v = MwCompleted g) \<or> p = MwCompleted g"
  using assms by (metis nth_list_update)

lemma mc_take_good:
  assumes inv: "mc_inv n s" and step: "mc_take w k s = Some s'"
  shows "mc_good n s (MtTake w k) s'"
proof -
  let ?f = "mt_tasks (mc_mtf s) ! k"
  obtain m c s1 where m: "mtf_step (MtTake w k) (mc_mtf s) = Some m" and fac: "mc_factory ?f s = (c, s1)"
    and s': "s' = s1\<lparr>mc_mtf := m, mc_co := Coroutine_Resume w c (mc_co s1)\<rparr>"
    using step by (auto simp: mc_take_def split: option.splits prod.splits)
  note minv = mc_invD(1) [OF inv]
  from m have ts: "worker_task_start w k (mc_mtf s) = Some m" by (auto simp: mtf_step_def split: if_splits)
  note eff = task_start_effect [OF minv ts]
  have q: "mtf_quiet_step (MtTake w k) (mc_mtf s) = Some m" using m by (simp add: mtf_quiet_step_def)
  have w: "w < n" using eff(1) mc_invD(3) [OF inv] by simp
  have f: "?f \<in> set (mt_tasks (mc_mtf s))" using eff(3) by simp
  have no: "\<not> owns ?f (mt_workers (mc_mtf s) ! v)" if "v < n" for v using task_no_worker [OF minv f] that mc_invD(3) [OF inv] by simp
  note one = factory_ok [OF inv eff(4) no fac]
  have no1: "\<not> owns ?f (mt_workers (mc_mtf s1) ! v)" if "v < n" for v using no that one(2) by simp
  note sus = unowned_suspended [OF one(1) one(3) no1]
  note coinv = mc_invD(2) [OF one(1)]
  obtain co where co: "co_store (mc_co s1) c = Some co" using mc_invD(7) [OF one(1) one(3)] by auto
  have len: "length (co_control (mc_co s1)) = n" "length (co_current (mc_co s1)) = n" using co_invD(2,3) [OF coinv] by simp_all
  have al: "co_allowed (CoResume w c) (mc_co s1)" using w len co sus by simp
  let ?co = "Coroutine_Resume w c (mc_co s1)"
  note req = Coroutine_Resume_eq [OF al co]
  have cstep: "co_client_step (CoResume w c) (mc_co s1) = Some ?co"
    using al co_invD(1) [OF coinv] by (simp add: co_client_step_def)
  have r: "run co_client_step (mc_schedule s (MtTake w k)) (mc_co s) = Some ?co"
    using one(4-6) cstep by (cases "mc_coroutine s ?f") (auto split: option.splits)
  have comp: "Coroutine_IsCompleted d ?co = Coroutine_IsCompleted d (mc_co s1)" "co_store ?co d = None \<longleftrightarrow> co_store (mc_co s1) d = None" for d
    using co by (auto simp: req Coroutine_IsCompleted_def)
  have idle: "mt_workers (mc_mtf s1) ! w = MwIdle" using eff(2) one(2) by simp
  have "mc_inv n s'" unfolding s'
  proof (rule mc_invI)
    fix v assume v: "v < n"
    show "co_control (mc_co (s1\<lparr>mc_mtf := m, mc_co := ?co\<rparr>)) ! v =
        worker_control (mc_coroutine (s1\<lparr>mc_mtf := m, mc_co := ?co\<rparr>)) (mt_workers (mc_mtf (s1\<lparr>mc_mtf := m, mc_co := ?co\<rparr>)) ! v)"
      using v w mc_invD(4) [OF one(1) v] idle one(2,3) len eff(1)
      by (cases "v = w") (simp_all add: req eff(5) worker_control_def)
  next
    fix v g assume "v < n" "owns g (mt_workers (mc_mtf (s1\<lparr>mc_mtf := m, mc_co := ?co\<rparr>)) ! v)"
    then show "mc_coroutine (s1\<lparr>mc_mtf := m, mc_co := ?co\<rparr>) g \<noteq> None"
      using one(2,3) mc_invD(5) [OF one(1), of v g] eff(1) by (cases "v = w") (auto simp: eff(5))
  next
    fix g d assume g: "mc_coroutine (s1\<lparr>mc_mtf := m, mc_co := ?co\<rparr>) g = Some d"
    have "(\<exists>v < n. mt_workers m ! v = MwCompleted g) \<longleftrightarrow> (\<exists>v < n. mt_workers (mc_mtf s1) ! v = MwCompleted g)"
      using completed_update [OF w mc_invD(3) [OF inv], of g] eff(2) one(2) by (simp add: eff(5))
    then show "mt_fibers (mc_mtf (s1\<lparr>mc_mtf := m, mc_co := ?co\<rparr>)) g \<noteq> None \<and> co_store (mc_co (s1\<lparr>mc_mtf := m, mc_co := ?co\<rparr>)) d \<noteq> None \<and>
        (Coroutine_IsCompleted d (mc_co (s1\<lparr>mc_mtf := m, mc_co := ?co\<rparr>)) \<longleftrightarrow>
         (\<exists>w < n. mt_workers (mc_mtf (s1\<lparr>mc_mtf := m, mc_co := ?co\<rparr>)) ! w = MwCompleted g))"
      using g mc_invD(6-8) [OF one(1), of g d] comp [of d] eff(6) [of g] one(2) by simp
  next
    show "\<And>g h d. mc_coroutine (s1\<lparr>mc_mtf := m, mc_co := ?co\<rparr>) g = Some d \<Longrightarrow>
        mc_coroutine (s1\<lparr>mc_mtf := m, mc_co := ?co\<rparr>) h = Some d \<Longrightarrow> g = h" using mc_invD(9) [OF one(1)] by simp
  qed (use mtf_inv_step [OF minv q] co_inv_resume [OF coinv al] mc_invD(3) [OF inv] eff(5) in simp_all)
  with r q show ?thesis unfolding mc_good_def by (simp add: s')
qed

text \<open>Where a worker runs a fiber, the thread runs its coroutine.\<close>

lemma running_control:
  assumes inv: "mc_inv n s" and r: "running_at w (mc_mtf s) = Some f"
  obtains c co where "w < n" "mt_workers (mc_mtf s) ! w = MwRunning f" "mc_coroutine s f = Some c" "co_control (mc_co s) ! w = [c]"
    "co_current (mc_co s) ! w = Some c" "co_store (mc_co s) c = Some co" "co_parent co = None" "co_exception co = None" "\<not> co_completed co"
proof -
  have w: "w < n" "mt_workers (mc_mtf s) ! w = MwRunning f" using running_atD [OF r] mc_invD(3) [OF inv] by simp_all
  obtain c where c: "mc_coroutine s f = Some c" using mc_invD(5) [OF inv w(1), of f] w(2) by auto
  have ctl: "co_control (mc_co s) ! w = [c]" using mc_invD(4) [OF inv w(1)] w(2) c by (simp add: worker_control_def)
  note co = mc_invD(2) [OF inv]
  from co_invD(6,7) [OF co w(1)] ctl obtain cr where "co_current (mc_co s) ! w = Some c" "co_store (mc_co s) c = Some cr"
    "co_parent cr = None" "co_exception cr = None" "\<not> co_completed cr" by auto
  with that [OF w c ctl] show thesis by blast
qed

lemma mc_leave_good:
  assumes inv: "mc_inv n s" and r: "running_at w (mc_mtf s) = Some f" and cstep: "co_client_step l (mc_co s) = Some co'"
    and m: "m = worker_set w p (mc_mtf s)" and own: "\<And>g. owns g p = (g = f)" "\<And>g. p \<noteq> MwRunning g"
    and ctl: "co_control co' = (co_control (mc_co s))[w := []]"
    and comp: "\<And>d. co_store co' d = None \<longleftrightarrow> co_store (mc_co s) d = None"
      "\<And>d. Coroutine_IsCompleted d co' \<longleftrightarrow> Coroutine_IsCompleted d (mc_co s) \<or> p = MwCompleted f \<and> mc_coroutine s f = Some d"
    and minv: "mtf_inv m"
  shows "mc_inv n (s\<lparr>mc_mtf := m, mc_co := co'\<rparr>)"
proof -
  from running_control [OF inv r] obtain c where w: "w < n" "mt_workers (mc_mtf s) ! w = MwRunning f" and c: "mc_coroutine s f = Some c" by metis
  have len: "length (mt_workers (mc_mtf s)) = n" "length (co_control (mc_co s)) = n"
    using mc_invD(3) [OF inv] co_invD(3) [OF mc_invD(2) [OF inv]] by simp_all
  show ?thesis
  proof (rule mc_invI)
    show "co_inv n (mc_co (s\<lparr>mc_mtf := m, mc_co := co'\<rparr>))" using co_inv_step [OF mc_invD(2) [OF inv] cstep] by simp
  next
    fix v assume v: "v < n"
    have "worker_control (mc_coroutine s) p = []" using own(2) by (auto simp: worker_control_def split: mworker.split)
    with v w mc_invD(4) [OF inv v] len show "co_control (mc_co (s\<lparr>mc_mtf := m, mc_co := co'\<rparr>)) ! v =
        worker_control (mc_coroutine (s\<lparr>mc_mtf := m, mc_co := co'\<rparr>)) (mt_workers (mc_mtf (s\<lparr>mc_mtf := m, mc_co := co'\<rparr>)) ! v)"
      by (cases "v = w") (simp_all add: m ctl)
  next
    fix v g assume "v < n" "owns g (mt_workers (mc_mtf (s\<lparr>mc_mtf := m, mc_co := co'\<rparr>)) ! v)"
    then show "mc_coroutine (s\<lparr>mc_mtf := m, mc_co := co'\<rparr>) g \<noteq> None"
      using c own(1) mc_invD(5) [OF inv, of v g] len w by (cases "v = w") (auto simp: m)
  next
    fix g d assume g: "mc_coroutine (s\<lparr>mc_mtf := m, mc_co := co'\<rparr>) g = Some d"
    have "(\<exists>v < n. mt_workers m ! v = MwCompleted g) \<longleftrightarrow> (\<exists>v < n. mt_workers (mc_mtf s) ! v = MwCompleted g) \<or> p = MwCompleted g"
      using completed_update [OF w(1) len(1), of g p] w(2) by (simp add: m)
    moreover have "p = MwCompleted f \<and> mc_coroutine s f = Some d \<longleftrightarrow> p = MwCompleted g"
      using g own(1) [of g] mc_invD(9) [OF inv, of g d f] by auto
    ultimately show "mt_fibers (mc_mtf (s\<lparr>mc_mtf := m, mc_co := co'\<rparr>)) g \<noteq> None \<and> co_store (mc_co (s\<lparr>mc_mtf := m, mc_co := co'\<rparr>)) d \<noteq> None \<and>
        (Coroutine_IsCompleted d (mc_co (s\<lparr>mc_mtf := m, mc_co := co'\<rparr>)) \<longleftrightarrow>
         (\<exists>w < n. mt_workers (mc_mtf (s\<lparr>mc_mtf := m, mc_co := co'\<rparr>)) ! w = MwCompleted g))"
      using g mc_invD(6-8) [OF inv, of g d] comp [of d] by (simp add: m)
  next
    show "\<And>g h d. mc_coroutine (s\<lparr>mc_mtf := m, mc_co := co'\<rparr>) g = Some d \<Longrightarrow>
        mc_coroutine (s\<lparr>mc_mtf := m, mc_co := co'\<rparr>) h = Some d \<Longrightarrow> g = h" using mc_invD(9) [OF inv] by simp
  qed (use minv len in \<open>simp_all add: m\<close>)
qed

lemma mc_Yield_good:
  assumes inv: "mc_inv n s" and step: "mc_Yield w s = Some s'"
  shows "mc_good n s (MtYield w) s'"
proof -
  obtain m where m: "mtf_step (MtYield w) (mc_mtf s) = Some m" and s': "s' = s\<lparr>mc_mtf := m, mc_co := Coroutine_Suspend w (mc_co s)\<rparr>"
    using step by (auto simp: mc_Yield_def)
  then obtain f where f: "running_at w (mc_mtf s) = Some f" and mw: "m = worker_set w (MwYielded f) (mc_mtf s)"
    by (auto simp: mtf_step_def split: if_splits option.splits)
  have q: "mtf_quiet_step (MtYield w) (mc_mtf s) = Some m" using m by (simp add: mtf_quiet_step_def)
  from inv f obtain c co where c: "w < n" "mt_workers (mc_mtf s) ! w = MwRunning f" "mc_coroutine s f = Some c" "co_control (mc_co s) ! w = [c]"
    "co_current (mc_co s) ! w = Some c" "co_store (mc_co s) c = Some co" "co_parent co = None" "co_exception co = None" "\<not> co_completed co"
    by (rule running_control)
  have eq: "Coroutine_Suspend w (mc_co s) = (mc_co s)\<lparr>co_control := (co_control (mc_co s))[w := []],
      co_current := (co_current (mc_co s))[w := None], co_raised := (co_raised (mc_co s))[w := None]\<rparr>"
    using Coroutine_Suspend_eq [OF c(5,4,6) _ c(8)] c(7) by simp
  have cstep: "co_client_step (CoSuspend w) (mc_co s) = Some (Coroutine_Suspend w (mc_co s))"
    using c co_invD(1,3) [OF mc_invD(2) [OF inv]] by (simp add: co_client_step_def)
  have "mc_inv n s'" unfolding s'
    by (rule mc_leave_good [OF inv f cstep mw]) (use mtf_inv_step [OF mc_invD(1) [OF inv] q] in \<open>auto simp: eq Coroutine_IsCompleted_def\<close>)
  with q cstep show ?thesis by (simp add: mc_good_def s')
qed

lemma mc_Return_good:
  assumes inv: "mc_inv n s" and step: "mc_Return w s = Some s'"
  shows "mc_good n s (MtReturn w) s'"
proof -
  obtain m where m: "mtf_step (MtReturn w) (mc_mtf s) = Some m" and s': "s' = s\<lparr>mc_mtf := m, mc_co := Coroutine_Trampoline w None (mc_co s)\<rparr>"
    using step by (auto simp: mc_Return_def)
  then obtain f where f: "running_at w (mc_mtf s) = Some f" and mw: "m = worker_set w (MwCompleted f) (mc_mtf s)"
    by (auto simp: mtf_step_def split: if_splits option.splits)
  have q: "mtf_quiet_step (MtReturn w) (mc_mtf s) = Some m" using m by (simp add: mtf_quiet_step_def)
  from inv f obtain c co where c: "w < n" "mt_workers (mc_mtf s) ! w = MwRunning f" "mc_coroutine s f = Some c" "co_control (mc_co s) ! w = [c]"
    "co_current (mc_co s) ! w = Some c" "co_store (mc_co s) c = Some co" "co_parent co = None" "co_exception co = None" "\<not> co_completed co"
    by (rule running_control)
  have eq: "Coroutine_Trampoline w None (mc_co s) = (mc_co s)\<lparr>co_store := (co_store (mc_co s))(c \<mapsto> co\<lparr>co_exception := None, co_completed := True\<rparr>),
      co_control := (co_control (mc_co s))[w := []], co_current := (co_current (mc_co s))[w := None], co_raised := (co_raised (mc_co s))[w := None]\<rparr>"
    using Coroutine_Trampoline_eq [OF c(4,6)] c(7) by simp
  have cstep: "co_client_step (CoReturn w None) (mc_co s) = Some (Coroutine_Trampoline w None (mc_co s))"
    using c co_invD(1,3) [OF mc_invD(2) [OF inv]] by (simp add: co_client_step_def)
  have "mc_inv n s'" unfolding s'
    by (rule mc_leave_good [OF inv f cstep mw])
      (use mtf_inv_step [OF mc_invD(1) [OF inv] q] c in \<open>auto simp: eq Coroutine_IsCompleted_def split: if_splits\<close>)
  with q cstep show ?thesis by (simp add: mc_good_def s')
qed

text \<open>The coroutine of the fiber whose task ends is completed if and only if the worker is about to delete the fiber.\<close>

lemma mc_end_completed:
  assumes inv: "mc_inv n s" and w: "w < n" and C: "mc_coroutine s f = Some c"
  shows "mt_workers (mc_mtf s) ! w = MwYielded f \<Longrightarrow> \<not> Coroutine_IsCompleted c (mc_co s)"
    and "mt_workers (mc_mtf s) ! w = MwCompleted f \<Longrightarrow> Coroutine_IsCompleted c (mc_co s)"
proof -
  show "mt_workers (mc_mtf s) ! w = MwCompleted f \<Longrightarrow> Coroutine_IsCompleted c (mc_co s)" using mc_invD(8) [OF inv C] w by blast
  assume y: "mt_workers (mc_mtf s) ! w = MwYielded f"
  show "\<not> Coroutine_IsCompleted c (mc_co s)"
  proof
    assume "Coroutine_IsCompleted c (mc_co s)"
    then obtain v where v: "v < n" "mt_workers (mc_mtf s) ! v = MwCompleted f" using mc_invD(8) [OF inv C] by blast
    then have "v = w" using owner_unique [OF mc_invD(1) [OF inv], of v w f] w y mc_invD(3) [OF inv] by simp
    with v y show False by simp
  qed
qed

lemma mc_task_end_good:
  assumes inv: "mc_inv n s" and step: "mc_task_end w s = Some s'"
  shows "mc_good n s (MtTaskEnd w) s'"
proof -
  let ?m = "mc_mtf s"
  obtain f where at: "mc_fiber_at w ?m = Some f" using step by (auto simp: mc_task_end_def split: option.splits)
  note minv = mc_invD(1) [OF inv] and len = mc_invD(3) [OF inv] and coinv = mc_invD(2) [OF inv]
  have w: "w < n" and own: "owns f (mt_workers ?m ! w)" and pcs: "mt_workers ?m ! w = MwYielded f \<or> mt_workers ?m ! w = MwCompleted f"
    using at len by (auto simp: mc_fiber_at_def split: if_splits mworker.splits)
  obtain c where C: "mc_coroutine s f = Some c" using mc_invD(5) [OF inv w own] by blast
  obtain fb where fb: "mt_fibers ?m f = Some fb" using mc_invD(6) [OF inv C] by auto
  note comp = mc_end_completed [OF inv w C]
  have idle: "worker_control D MwIdle = []" "worker_control D (MwYielded g) = []" "worker_control D (MwCompleted g) = []" for D g
    by (simp_all add: worker_control_def)
  from pcs show ?thesis
  proof
    assume y: "mt_workers ?m ! w = MwYielded f"
    let ?m' = "worker_set w MwIdle (MtfFiber_PlanTask WithContinuation f ?m)"
    have s': "s' = s\<lparr>mc_mtf := ?m'\<rparr>" using step at C comp(1) [OF y] by (simp add: mc_task_end_def)
    have q: "mtf_quiet_step (MtTaskEnd w) ?m = Some ?m'"
      using w len y fb mtf_invD(1) [OF minv] by (simp add: mtf_quiet_step_def mtf_step_def worker_task_end_def)
    have fr: "mt_workers (MtfFiber_PlanTask WithContinuation f ?m) = mt_workers ?m" "mt_fibers (MtfFiber_PlanTask WithContinuation f ?m) = mt_fibers ?m"
      by (simp_all add: MtfFiber_PlanTask_def MtfPool_SubmitContinuation_def)
    have "mc_inv n s'" unfolding s'
    proof (rule mc_invI)
      fix v assume "v < n"
      with mc_invD(4) [OF inv this] y w len show "co_control (mc_co (s\<lparr>mc_mtf := ?m'\<rparr>)) ! v =
          worker_control (mc_coroutine (s\<lparr>mc_mtf := ?m'\<rparr>)) (mt_workers (mc_mtf (s\<lparr>mc_mtf := ?m'\<rparr>)) ! v)"
        by (cases "v = w") (simp_all add: fr idle)
    next
      fix v g assume "v < n" "owns g (mt_workers (mc_mtf (s\<lparr>mc_mtf := ?m'\<rparr>)) ! v)"
      with mc_invD(5) [OF inv, of v g] w len show "mc_coroutine (s\<lparr>mc_mtf := ?m'\<rparr>) g \<noteq> None"
        by (cases "v = w") (auto simp: fr)
    next
      fix g d assume "mc_coroutine (s\<lparr>mc_mtf := ?m'\<rparr>) g = Some d"
      with mc_invD(6-8) [OF inv, of g d] completed_update [OF w len, of g MwIdle] y
      show "mt_fibers (mc_mtf (s\<lparr>mc_mtf := ?m'\<rparr>)) g \<noteq> None \<and> co_store (mc_co (s\<lparr>mc_mtf := ?m'\<rparr>)) d \<noteq> None \<and>
          (Coroutine_IsCompleted d (mc_co (s\<lparr>mc_mtf := ?m'\<rparr>)) \<longleftrightarrow> (\<exists>v < n. mt_workers (mc_mtf (s\<lparr>mc_mtf := ?m'\<rparr>)) ! v = MwCompleted g))"
        by (simp add: fr)
    qed (use mtf_inv_step [OF minv q] coinv len mc_invD(9) [OF inv] in \<open>simp_all add: fr\<close>)
    with q comp(1) [OF y] at C show ?thesis by (simp add: mc_good_def s')
  next
    assume y: "mt_workers ?m ! w = MwCompleted f"
    let ?m' = "worker_set w MwIdle (MtfFiber_dtor f fb ?m)" and ?C = "(mc_coroutine s)(f := None)" and ?co = "Coroutine_dtor c (mc_co s)"
    let ?s = "s\<lparr>mc_mtf := ?m', mc_co := ?co, mc_coroutine := ?C\<rparr>"
    have s': "s' = ?s" using step at C comp(2) [OF y] fb by (simp add: mc_task_end_def)
    have q: "mtf_quiet_step (MtTaskEnd w) ?m = Some ?m'"
      using w len y fb mtf_invD(1) [OF minv] by (simp add: mtf_quiet_step_def mtf_step_def worker_task_end_def)
    have fr: "mt_workers (MtfFiber_dtor f fb ?m) = mt_workers ?m" "mt_fibers (MtfFiber_dtor f fb ?m) = (mt_fibers ?m)(f := None)"
      by (simp_all add: MtfFiber_dtor_def MtfStackAllocator_Release_def)
    have out: "c \<notin> set (concat (co_control (mc_co s)))"
    proof
      assume "c \<in> set (concat (co_control (mc_co s)))"
      then obtain v where v: "v < n" "c \<in> set (co_control (mc_co s) ! v)" unfolding in_control co_invD(3) [OF coinv] by blast
      from v(2) have "c \<in> set (worker_control (mc_coroutine s) (mt_workers ?m ! v))" unfolding mc_invD(4) [OF inv v(1)] .
      then obtain g where g: "mt_workers ?m ! v = MwRunning g" "mc_coroutine s g = Some c" by (rule control_owns)
      with mc_invD(9) [OF inv C] owner_unique [OF minv, of v w f] own v(1) w len have "v = w" by simp
      with g y show False by simp
    qed
    have cstep: "co_client_step (CoDelete c) (mc_co s) = Some ?co"
      using out mc_invD(7) [OF inv C] co_invD(1) [OF coinv] by (simp add: co_client_step_def)
    have no: "\<not> owns f (mt_workers ?m ! v)" if "v < n" "v \<noteq> w" for v using owner_unique [OF minv, of v w f] own that w len by auto
    have "mc_inv n ?s"
    proof (rule mc_invI)
      fix v assume v: "v < n"
      have "worker_control ?C (mt_workers ?m ! v) = worker_control (mc_coroutine s) (mt_workers ?m ! v)" if "v \<noteq> w"
        using no [OF v that] by (auto simp: worker_control_def split: mworker.split)
      with mc_invD(4) [OF inv v] y w len show "co_control (mc_co ?s) ! v = worker_control (mc_coroutine ?s) (mt_workers (mc_mtf ?s) ! v)"
        by (cases "v = w") (simp_all add: fr idle Coroutine_dtor_def)
    next
      fix v g assume "v < n" "owns g (mt_workers (mc_mtf ?s) ! v)"
      with mc_invD(5) [OF inv, of v g] no [of v] w len show "mc_coroutine ?s g \<noteq> None" by (cases "v = w") (auto simp: fr)
    next
      fix g d assume "mc_coroutine ?s g = Some d"
      then have g: "g \<noteq> f" "mc_coroutine s g = Some d" "d \<noteq> c" using mc_invD(9) [OF inv C, of g] by (auto split: if_splits)
      have upd: "(\<exists>v < n. (mt_workers ?m)[w := MwIdle] ! v = MwCompleted g) \<longleftrightarrow> (\<exists>v < n. mt_workers ?m ! v = MwCompleted g)"
        using completed_update [OF w len, of g MwIdle] y g(1) by simp
      show "mt_fibers (mc_mtf ?s) g \<noteq> None \<and> co_store (mc_co ?s) d \<noteq> None \<and>
          (Coroutine_IsCompleted d (mc_co ?s) \<longleftrightarrow> (\<exists>v < n. mt_workers (mc_mtf ?s) ! v = MwCompleted g))"
        using g mc_invD(6-8) [OF inv g(2)] upd by (simp add: fr Coroutine_dtor_def Coroutine_IsCompleted_def)
    next
      fix g h d assume "mc_coroutine ?s g = Some d" "mc_coroutine ?s h = Some d"
      then show "g = h" using mc_invD(9) [OF inv, of g d h] by (auto split: if_splits)
    qed (use mtf_inv_step [OF minv q] co_inv_delete [OF coinv out] len in \<open>simp_all add: fr\<close>)
    with q comp(2) [OF y] at C cstep show ?thesis by (simp add: mc_good_def s')
  qed
qed

text \<open>Steps of the pool that do not touch a running fiber.\<close>

lemma mc_other_good:
  assumes inv: "mc_inv n s" and q: "mtf_quiet_step l (mc_mtf s) = Some m" and none: "mc_schedule s l = []"
    and same: "\<And>f. mt_fibers (mc_mtf s) f \<noteq> None \<Longrightarrow> mt_fibers m f \<noteq> None"
    and ws: "length (mt_workers m) = n" "\<And>w. w < n \<Longrightarrow> mt_workers m ! w = mt_workers (mc_mtf s) ! w \<or>
      mt_workers (mc_mtf s) ! w = MwIdle \<and> mt_workers m ! w = MwExited"
  shows "mc_good n s l (s\<lparr>mc_mtf := m\<rparr>)"
proof -
  have "mc_inv n (s\<lparr>mc_mtf := m\<rparr>)"
  proof (rule mc_invI)
    fix w assume w: "w < n"
    with mc_invD(4) [OF inv w] ws(2) [OF w] show "co_control (mc_co (s\<lparr>mc_mtf := m\<rparr>)) ! w =
        worker_control (mc_coroutine (s\<lparr>mc_mtf := m\<rparr>)) (mt_workers (mc_mtf (s\<lparr>mc_mtf := m\<rparr>)) ! w)"
      by (auto simp: worker_control_def)
  next
    fix w f assume "w < n" "owns f (mt_workers (mc_mtf (s\<lparr>mc_mtf := m\<rparr>)) ! w)"
    with mc_invD(5) [OF inv, of w f] ws(2) [of w] show "mc_coroutine (s\<lparr>mc_mtf := m\<rparr>) f \<noteq> None" by auto
  next
    fix f c assume c: "mc_coroutine (s\<lparr>mc_mtf := m\<rparr>) f = Some c"
    have "mt_workers m ! w = MwCompleted f \<longleftrightarrow> mt_workers (mc_mtf s) ! w = MwCompleted f" if "w < n" for w using ws(2) [OF that] by auto
    then have "(\<exists>w < n. mt_workers m ! w = MwCompleted f) \<longleftrightarrow> (\<exists>w < n. mt_workers (mc_mtf s) ! w = MwCompleted f)" by blast
    with c mc_invD(6-8) [OF inv, of f c] same [of f]
    show "mt_fibers (mc_mtf (s\<lparr>mc_mtf := m\<rparr>)) f \<noteq> None \<and> co_store (mc_co (s\<lparr>mc_mtf := m\<rparr>)) c \<noteq> None \<and>
        (Coroutine_IsCompleted c (mc_co (s\<lparr>mc_mtf := m\<rparr>)) \<longleftrightarrow> (\<exists>w < n. mt_workers (mc_mtf (s\<lparr>mc_mtf := m\<rparr>)) ! w = MwCompleted f))"
      by simp
  qed (use mtf_inv_step [OF mc_invD(1) [OF inv] q] mc_invD(2,9) [OF inv] ws(1) in simp_all)
  with q none show ?thesis by (simp add: mc_good_def)
qed

lemma mc_step_good:
  assumes inv: "mc_inv n s" and step: "mc_step l s = Some s'"
  shows "mc_good n s l s'"
proof -
  have other: "mc_good n s l s'" if "mtf_quiet_step l (mc_mtf s) = Some m" "s' = s\<lparr>mc_mtf := m\<rparr>" "mc_schedule s l = []"
    "l \<in> {MtSpawn, MtJoin, MtJoined} \<union> range MtSpawnIn \<union> range MtExit" for m
  proof -
    have "(\<forall>f. mt_fibers (mc_mtf s) f \<noteq> None \<longrightarrow> mt_fibers m f \<noteq> None) \<and> length (mt_workers m) = n \<and>
      (\<forall>w < n. mt_workers m ! w = mt_workers (mc_mtf s) ! w \<or> mt_workers (mc_mtf s) ! w = MwIdle \<and> mt_workers m ! w = MwExited)"
      using that(1,4) mc_invD(3) [OF inv]
      by (auto simp: mtf_quiet_step_def mtf_step_def Mtf_Spawn_eq MtfPool_Work_returns_def MtfPool_Join_begin_def MtfPool_Join_end_def
          nth_list_update split: if_splits option.splits)
    then show ?thesis unfolding that(2) by (intro mc_other_good [OF inv that(1,3)]) auto
  qed
  show ?thesis
  proof (cases l)
    case (MtTake w k) with step mc_take_good [OF inv] show ?thesis by simp
  next
    case (MtYield w) with step mc_Yield_good [OF inv] show ?thesis by simp
  next
    case (MtReturn w) with step mc_Return_good [OF inv] show ?thesis by simp
  next
    case (MtTaskEnd w) with step mc_task_end_good [OF inv] show ?thesis by simp
  next
    case (MtThrow w) with step show ?thesis by (simp add: mtf_quiet_step_def)
  qed (use step other in auto)
qed

lemma mc_inv_start: "mc_inv n (mc_start n)"
  by (rule mc_invI) (use mtf_inv_start [of n] co_inv_start [of n] in
    \<open>auto simp: mc_start_def mtf_start_def co_start_def worker_control_def\<close>)

interpretation mc: invariant_system mc_step "mc_start n" "mc_inv n" for n
  by unfold_locales (use mc_inv_start mc_step_good in \<open>auto simp: mc_good_def\<close>)

text \<open>The composition refines both components.\<close>

interpretation mc_fibers: stuttering_refinement mc_step "mc_start n" mtf_quiet_step "mtf_start n"
    "\<lambda>s a. mc_inv n s \<and> a = mc_mtf s" "\<lambda>s l. [l]" for n
proof unfold_locales
  fix s a l s' assume "mc_inv n s \<and> a = mc_mtf s" "mc_step l s = Some s'"
  then show "\<exists>a'. run mtf_quiet_step [l] a = Some a' \<and> mc_inv n s' \<and> a' = mc_mtf s'"
    using mc_step_good by (auto simp: mc_good_def)
qed (use mc_inv_start in \<open>simp add: mc_start_def\<close>)

interpretation mc_coroutines: stuttering_refinement mc_step "mc_start n" co_client_step "co_start n"
    "\<lambda>s a. mc_inv n s \<and> a = mc_co s" mc_schedule for n
proof unfold_locales
  fix s a l s' assume "mc_inv n s \<and> a = mc_co s" "mc_step l s = Some s'"
  then show "\<exists>a'. run co_client_step (mc_schedule s l) a = Some a' \<and> mc_inv n s' \<and> a' = mc_co s'"
    using mc_step_good by (auto simp: mc_good_def)
qed (use mc_inv_start in \<open>simp add: mc_start_def\<close>)

section \<open>Properties\<close>

text \<open>C17: Fibers that move between the workers of the pool use their coroutines correctly. Whatever the workers, the pool and the routines do
  (without exceptions), the calls of coroutines that the fibers make are those of a client that keeps to the rules, and the pool sees
  nothing of the coroutines: both components make steps of their own. So nothing is resumed twice or after its end, and nothing deleted is
  used; in the thread of every worker \<open>current_coroutine\<close> is the coroutine of the fiber that the worker runs, so that \<open>Yield\<close> suspends this fiber,
  and null outside of fibers; and after \<open>Resume\<close> the test of \<open>IsCompleted\<close> tells a fiber that yielded from one that ended.\<close>

theorem MtfFiber_coroutines_follow_fibers:
  assumes "reachable mc_step (mc_start n) s"
  shows "reachable mtf_quiet_step (mtf_start n) (mc_mtf s) \<and> reachable co_client_step (co_start n) (mc_co s) \<and>
    \<not> co_aborted (mc_co s) \<and> \<not> mt_aborted (mc_mtf s) \<and>
    (\<forall>w < n. co_current (mc_co s) ! w =
       (case mt_workers (mc_mtf s) ! w of MwRunning f \<Rightarrow> mc_coroutine s f | _ \<Rightarrow> None)) \<and>
    (\<forall>w < n. \<forall>f. mc_fiber_at w (mc_mtf s) = Some f \<longrightarrow>
       (\<exists>c. mc_coroutine s f = Some c \<and>
          (Coroutine_IsCompleted c (mc_co s) \<longleftrightarrow> mt_workers (mc_mtf s) ! w = MwCompleted f)))"
proof (intro conjI allI impI)
  have inv: "mc_inv n s" using assms by (rule mc.inv_reachable)
  then show "\<not> co_aborted (mc_co s)" "\<not> mt_aborted (mc_mtf s)" using co_invD(1) mtf_invD(1) mc_invD(1,2) by blast+
  show "reachable mtf_quiet_step (mtf_start n) (mc_mtf s)" using mc_fibers.refines [OF assms] by blast
  show "reachable co_client_step (co_start n) (mc_co s)" using mc_coroutines.refines [OF assms] by blast
  fix w assume w: "w < n"
  have cur: "co_current (mc_co s) ! w = top_of (worker_control (mc_coroutine s) (mt_workers (mc_mtf s) ! w))"
    using co_invD(6) [OF mc_invD(2) [OF inv] w] mc_invD(4) [OF inv w] by simp
  show "co_current (mc_co s) ! w = (case mt_workers (mc_mtf s) ! w of MwRunning f \<Rightarrow> mc_coroutine s f | _ \<Rightarrow> None)"
    unfolding cur by (auto simp: worker_control_def split: mworker.split option.split)
  fix f assume "mc_fiber_at w (mc_mtf s) = Some f"
  then have p: "mt_workers (mc_mtf s) ! w = MwYielded f \<or> mt_workers (mc_mtf s) ! w = MwCompleted f"
    by (auto simp: mc_fiber_at_def split: if_splits mworker.splits)
  then obtain c where c: "mc_coroutine s f = Some c" using mc_invD(5) [OF inv w, of f] by auto
  with mc_end_completed [OF inv w c] p
  show "\<exists>c. mc_coroutine s f = Some c \<and> (Coroutine_IsCompleted c (mc_co s) \<longleftrightarrow> mt_workers (mc_mtf s) ! w = MwCompleted f)" by auto
qed

text \<open>A fiber that starts on one worker, yields, and continues on another.\<close>

definition mc_example :: "mtf_label list" where
  "mc_example = [MtSpawn, MtTake 0 0, MtYield 0, MtTaskEnd 0, MtTake 1 0]"

lemma mc_example_runs:
  "\<exists>s. run mc_step mc_example (mc_start 2) = Some s \<and> mt_workers (mc_mtf s) = [MwIdle, MwRunning 0] \<and> mc_coroutine s 0 = Some 0"
  by (simp add: mc_example_def mc_start_def mc_take_def mc_Yield_def mc_task_end_def mc_fiber_at_def mc_factory_def
      mtf_run_simps co_run_simps replicate_two)

theorem MtfFiber_coroutines_follow_fibers_witness:
  "\<exists>s. run mc_step mc_example (mc_start 2) = Some s \<and> co_current (mc_co s) ! 0 = None \<and> co_current (mc_co s) ! 1 = Some 0"
proof -
  obtain s where s: "run mc_step mc_example (mc_start 2) = Some s" "mt_workers (mc_mtf s) = [MwIdle, MwRunning 0]" "mc_coroutine s 0 = Some 0"
    using mc_example_runs by (elim exE conjE)
  from MtfFiber_coroutines_follow_fibers [OF run_reachable [OF s(1)]] s
  have "\<forall>w < 2. co_current (mc_co s) ! w = (case [MwIdle, MwRunning 0] ! w of MwRunning f \<Rightarrow> mc_coroutine s f | _ \<Rightarrow> None)" by simp
  from this [rule_format, of 0] this [rule_format, of 1] s(1,3) show ?thesis by simp
qed

end
