(* ===== verification/Dining.thy ===== *)
theory Dining
  imports Prelude
begin

text \<open>
  The dining philosophers of \<^verbatim>\<open>intro/dining/philosopher.cpp\<close>. The table is a parameter: \<open>left\<close> and \<open>right\<close> give
  the forks of a seat and \<open>to_right\<close> the next seat. What the properties need of the table is \<open>ring_table\<close>:
  seat \<open>i\<close> of \<open>n\<close> has the fork \<open>i\<close> on its left and the fork of the next seat on its right. Forks are mutexes:
  a locked fork blocks its next taker.
\<close>

datatype philosopher_pc =
    PhThinking        \<comment> \<open>before the first lock\<close>
  | PhHasFirst        \<comment> \<open>before the second lock\<close>
  | PhEating          \<comment> \<open>inside \<open>Eat\<close>\<close>
  | PhFull            \<comment> \<open>before the first unlock\<close>
  | PhHasSecond       \<comment> \<open>before the second unlock\<close>

record table =
  fork_owner :: "nat \<Rightarrow> nat option"
  ph_pcs :: "philosopher_pc list"
  ph_meals :: "nat list"

text \<open>Even seats take the left fork first, odd seats the right one.\<close>

definition first_fork :: "(nat \<Rightarrow> nat) \<Rightarrow> (nat \<Rightarrow> nat) \<Rightarrow> nat \<Rightarrow> nat" where
  "first_fork left right seat = (if seat mod 2 = 0 then left seat else right seat)"

definition second_fork :: "(nat \<Rightarrow> nat) \<Rightarrow> (nat \<Rightarrow> nat) \<Rightarrow> nat \<Rightarrow> nat" where
  "second_fork left right seat = (if seat mod 2 = 0 then right seat else left seat)"

definition lock_fork :: "nat \<Rightarrow> nat \<Rightarrow> philosopher_pc \<Rightarrow> table \<Rightarrow> table option" where
  "lock_fork k i pc s =
     (if fork_owner s k = None
      then Some (s\<lparr>fork_owner := (fork_owner s)(k \<mapsto> i), ph_pcs := (ph_pcs s)[i := pc]\<rparr>)
      else None)"

definition unlock_fork :: "nat \<Rightarrow> nat \<Rightarrow> philosopher_pc \<Rightarrow> table \<Rightarrow> table option" where
  "unlock_fork k i pc s = Some (s\<lparr>fork_owner := (fork_owner s)(k := None), ph_pcs := (ph_pcs s)[i := pc]\<rparr>)"

definition Philosopher_AcquireForks :: "(nat \<Rightarrow> nat) \<Rightarrow> (nat \<Rightarrow> nat) \<Rightarrow> nat \<Rightarrow> table \<Rightarrow> table option" where
  "Philosopher_AcquireForks left right i s =
     (case ph_pcs s ! i of
        PhThinking \<Rightarrow> lock_fork (first_fork left right i) i PhHasFirst s
      | PhHasFirst \<Rightarrow> lock_fork (second_fork left right i) i PhEating s
      | _ \<Rightarrow> None)"

text \<open>The plates that \<open>Eat\<close> accesses.\<close>

definition Eat_plates :: "(nat \<Rightarrow> nat) \<Rightarrow> nat \<Rightarrow> nat set" where
  "Eat_plates to_right i = {i, to_right i}"

definition Philosopher_Eat :: "nat \<Rightarrow> table \<Rightarrow> table option" where
  "Philosopher_Eat i s =
     (case ph_pcs s ! i of
        PhEating \<Rightarrow> Some (s\<lparr>ph_meals := (ph_meals s)[i := Suc (ph_meals s ! i)], ph_pcs := (ph_pcs s)[i := PhFull]\<rparr>)
      | _ \<Rightarrow> None)"

definition Philosopher_ReleaseForks :: "(nat \<Rightarrow> nat) \<Rightarrow> (nat \<Rightarrow> nat) \<Rightarrow> nat \<Rightarrow> table \<Rightarrow> table option" where
  "Philosopher_ReleaseForks left right i s =
     (case ph_pcs s ! i of
        PhFull \<Rightarrow> unlock_fork (first_fork left right i) i PhHasSecond s
      | PhHasSecond \<Rightarrow> unlock_fork (second_fork left right i) i PhThinking s
      | _ \<Rightarrow> None)"

text \<open>The next atomic step of the philosopher at a seat in its loop over \<open>EatThenThink\<close>.\<close>

definition EatThenThink_step :: "(nat \<Rightarrow> nat) \<Rightarrow> (nat \<Rightarrow> nat) \<Rightarrow> nat \<Rightarrow> table \<Rightarrow> table option" where
  "EatThenThink_step left right i s =
     (if i < length (ph_pcs s)
      then case ph_pcs s ! i of
             PhThinking \<Rightarrow> Philosopher_AcquireForks left right i s
           | PhHasFirst \<Rightarrow> Philosopher_AcquireForks left right i s
           | PhEating \<Rightarrow> Philosopher_Eat i s
           | PhFull \<Rightarrow> Philosopher_ReleaseForks left right i s
           | PhHasSecond \<Rightarrow> Philosopher_ReleaseForks left right i s
      else None)"

definition table_start :: "nat \<Rightarrow> table" where
  "table_start n = \<lparr>fork_owner = (\<lambda>_. None), ph_pcs = replicate n PhThinking, ph_meals = replicate n 0\<rparr>"

definition ring_table :: "nat \<Rightarrow> (nat \<Rightarrow> nat) \<Rightarrow> (nat \<Rightarrow> nat) \<Rightarrow> (nat \<Rightarrow> nat) \<Rightarrow> bool" where
  "ring_table n left right to_right \<longleftrightarrow>
     (\<forall>i < n. left i = i \<and> to_right i = (i + 1) mod n \<and> right i = left (to_right i))"

section \<open>Who holds which fork\<close>

definition held :: "(nat \<Rightarrow> nat) \<Rightarrow> (nat \<Rightarrow> nat) \<Rightarrow> nat \<Rightarrow> philosopher_pc \<Rightarrow> nat set" where
  "held left right i pc =
     (case pc of
        PhThinking \<Rightarrow> {}
      | PhHasFirst \<Rightarrow> {first_fork left right i}
      | PhHasSecond \<Rightarrow> {second_fork left right i}
      | _ \<Rightarrow> {first_fork left right i, second_fork left right i})"

definition din_inv :: "nat \<Rightarrow> (nat \<Rightarrow> nat) \<Rightarrow> (nat \<Rightarrow> nat) \<Rightarrow> table \<Rightarrow> bool" where
  "din_inv n left right s \<longleftrightarrow> length (ph_pcs s) = n \<and>
     (\<forall>k i. fork_owner s k = Some i \<longleftrightarrow> i < n \<and> k \<in> held left right i (ph_pcs s ! i))"

lemma ring_forks:
  assumes "ring_table n left right tr" "2 \<le> n" "i < n"
  shows "left i = i" "right i = (i + 1) mod n" "tr i = (i + 1) mod n" "first_fork left right i \<noteq> second_fork left right i"
proof -
  have m: "(i + 1) mod n < n" using assms(2) by simp
  show l: "left i = i" and t: "tr i = (i + 1) mod n" using assms(1,3) by (auto simp: ring_table_def)
  have "right i = left (tr i)" using assms(1,3) by (simp add: ring_table_def)
  then show r: "right i = (i + 1) mod n" using assms(1) m t by (simp add: ring_table_def)
  have "(i + 1) mod n \<noteq> i" using assms(2,3) by (cases "i + 1 = n") auto
  with l r show "first_fork left right i \<noteq> second_fork left right i"
    by (auto simp: first_fork_def second_fork_def)
qed

text \<open>A step changes the program counter of one philosopher and the owners of the forks accordingly.\<close>

lemma din_inv_update:
  assumes inv: "din_inv n left right s" and i: "i < n"
    and F: "\<And>k. F k = (if k \<in> held left right i pc then Some i
        else if k \<in> held left right i (ph_pcs s ! i) then None else fork_owner s k)"
    and free: "\<And>k j. k \<in> held left right i pc \<Longrightarrow> fork_owner s k = Some j \<Longrightarrow> j = i"
    and s': "fork_owner s' = F" "ph_pcs s' = (ph_pcs s)[i := pc]"
  shows "din_inv n left right s'"
proof -
  have len: "length (ph_pcs s) = n" and own: "fork_owner s k = Some j \<longleftrightarrow> j < n \<and> k \<in> held left right j (ph_pcs s ! j)" for k j
    using inv by (auto simp: din_inv_def)
  have "fork_owner s' k = Some j \<longleftrightarrow> j < n \<and> k \<in> held left right j (ph_pcs s' ! j)" for k j
  proof (cases "j = i")
    case True
    then show ?thesis using i len own [of k i] by (auto simp: s' F)
  next
    case False
    have "k \<in> held left right j (ph_pcs s ! j) \<Longrightarrow> j < n \<Longrightarrow> k \<notin> held left right i (ph_pcs s ! i)"
      using own [of k j] own [of k i] i False by auto
    then show ?thesis using False len own [of k j] free [of k j] by (auto simp: s' F)
  qed
  with len show ?thesis by (simp add: din_inv_def s')
qed

lemma din_inv_step:
  assumes ring: "ring_table n left right tr" "2 \<le> n" and inv: "din_inv n left right s"
    and step: "EatThenThink_step left right i s = Some s'"
  shows "din_inv n left right s'"
proof -
  have i: "i < n" using step inv by (auto simp: EatThenThink_step_def din_inv_def split: if_splits)
  have len: "length (ph_pcs s) = n" using inv by (simp add: din_inv_def)
  note ne = ring_forks(4) [OF ring i]
  have mine: "k \<in> held left right i (ph_pcs s ! i) \<Longrightarrow> fork_owner s k = Some i" for k
    using inv i by (simp add: din_inv_def)
  show ?thesis
  proof (cases "ph_pcs s ! i")
    case PhThinking
    with step i len show ?thesis
      by (intro din_inv_update [OF inv i, of _ PhHasFirst])
        (auto simp: EatThenThink_step_def Philosopher_AcquireForks_def lock_fork_def held_def split: if_splits)
  next
    case PhHasFirst
    with step i len mine show ?thesis
      by (intro din_inv_update [OF inv i, of _ PhEating])
        (auto simp: EatThenThink_step_def Philosopher_AcquireForks_def lock_fork_def held_def split: if_splits)
  next
    case PhEating
    with step i len mine show ?thesis
      by (intro din_inv_update [OF inv i, of _ PhFull])
        (auto simp: EatThenThink_step_def Philosopher_Eat_def held_def split: if_splits)
  next
    case PhFull
    with step i len ne mine show ?thesis
      by (intro din_inv_update [OF inv i, of _ PhHasSecond])
        (auto simp: EatThenThink_step_def Philosopher_ReleaseForks_def unlock_fork_def held_def split: if_splits)
  next
    case PhHasSecond
    with step i len ne mine show ?thesis
      by (intro din_inv_update [OF inv i, of _ PhThinking])
        (auto simp: EatThenThink_step_def Philosopher_ReleaseForks_def unlock_fork_def held_def split: if_splits)
  qed
qed

lemma din_inv_start: "din_inv n left right (table_start n)"
  by (auto simp: din_inv_def table_start_def held_def)

text \<open>The invariant for a ring table with at least two seats; the table is fixed by the assumptions of the facts.\<close>

lemma din_inv_reachable:
  assumes "ring_table n left right tr" "2 \<le> n" "reachable (EatThenThink_step left right) (table_start n) s"
  shows "din_inv n left right s"
  using assms(3)
  by (induction rule: reachable.induct) (auto intro: din_inv_start din_inv_step [OF assms(1,2)])

section \<open>Nobody deadlocks\<close>

text \<open>A philosopher that has its first fork and waits for the second one, taken as first fork by a neighbour:
  only the last even seat can wait like that, for seat 0.\<close>

lemma waiting_pair:
  assumes ring: "ring_table n left right tr" "2 \<le> n" and ij: "i < n" "j < n"
    and eq: "first_fork left right j = second_fork left right i"
  shows "even i \<and> i = n - 1 \<and> j = 0"
proof -
  note fi = ring_forks [OF ring ij(1)] and fj = ring_forks [OF ring ij(2)]
  have succ: "(k + 1) mod n = (if k = n - 1 then 0 else k + 1)" if "k < n" for k
    using that ring(2) by (auto simp: mod_if)
  show ?thesis
    using eq ij ring(2) unfolding first_fork_def second_fork_def fi(1,2) fj(1,2) succ [OF ij(1)] succ [OF ij(2)]
    by (auto simp: even_iff_mod_2_eq_zero [symmetric] split: if_splits)
qed

lemma blocked_cases:
  assumes inv: "din_inv n left right s" and i: "i < n" and blocked: "EatThenThink_step left right i s = None"
  shows "ph_pcs s ! i = PhThinking \<and> fork_owner s (first_fork left right i) \<noteq> None \<or>
    ph_pcs s ! i = PhHasFirst \<and> fork_owner s (second_fork left right i) \<noteq> None"
  using assms
  by (cases "ph_pcs s ! i")
    (auto simp: din_inv_def EatThenThink_step_def Philosopher_AcquireForks_def Philosopher_Eat_def
      Philosopher_ReleaseForks_def lock_fork_def unlock_fork_def split: if_splits)

lemma no_deadlock:
  assumes ring: "ring_table n left right tr" "2 \<le> n" and inv: "din_inv n left right s"
  shows "\<exists>i < n. EatThenThink_step left right i s \<noteq> None"
proof (rule ccontr)
  assume "\<not> (\<exists>i < n. EatThenThink_step left right i s \<noteq> None)"
  then have blocked: "\<And>i. i < n \<Longrightarrow> EatThenThink_step left right i s = None" by blast
  note cases = blocked_cases [OF inv _ blocked]
  have owner: "j < n \<and> ph_pcs s ! j = PhHasFirst \<and> k = first_fork left right j" if "fork_owner s k = Some j" for k j
  proof -
    have j: "j < n" "k \<in> held left right j (ph_pcs s ! j)" using inv that by (auto simp: din_inv_def)
    with cases [of j] show ?thesis by (auto simp: held_def)
  qed
  have "\<exists>i < n. ph_pcs s ! i = PhHasFirst"
    using cases [of 0] ring(2) owner by fastforce
  then obtain i where i: "i < n" "ph_pcs s ! i = PhHasFirst" by blast
  then obtain j where j: "fork_owner s (second_fork left right i) = Some j" using cases [of i] by fastforce
  from owner [OF this] have jn: "j < n" "ph_pcs s ! j = PhHasFirst" "first_fork left right j = second_fork left right i" by auto
  have e: "even i" "i = n - 1" "j = 0" using waiting_pair [OF ring i(1) jn(1,3)] by auto
  obtain k where "fork_owner s (second_fork left right j) = Some k" using cases [of j] jn by fastforce
  from owner [OF this] have "k < n" "first_fork left right k = second_fork left right j" by auto
  with waiting_pair [OF ring jn(1)] have "j = n - 1" by blast
  with e ring(2) show False by auto
qed

text \<open>C36: At a round table with at least two seats, somebody can always move: the philosophers never deadlock.\<close>

theorem Philosophers_never_deadlock:
  assumes "ring_table n left right tr" and "2 \<le> n" and "reachable (EatThenThink_step left right) (table_start n) s"
  shows "\<exists>i < n. \<exists>s'. EatThenThink_step left right i s = Some s'"
  using no_deadlock [OF assms(1,2) din_inv_reachable [OF assms]] by auto

lemma five_seats: "ring_table 5 (\<lambda>i. i) (\<lambda>i. (i + 1) mod 5) (\<lambda>i. (i + 1) mod 5)"
  by (simp add: ring_table_def)

theorem Philosophers_never_deadlock_witness:
  "\<exists>i < 5. \<exists>s'. EatThenThink_step (\<lambda>i. i) (\<lambda>i. (i + 1) mod 5) i (table_start 5) = Some s'"
  by (rule Philosophers_never_deadlock [OF five_seats]) (simp_all add: reachable.start)

text \<open>Two philosophers that eat at the same time access different plates, so \<open>Eat\<close> has no data race.\<close>

theorem Philosophers_plates_exclusive:
  assumes "ring_table n left right tr" and "2 \<le> n" and "reachable (EatThenThink_step left right) (table_start n) s"
    and "i < n" and "j < n" and "i \<noteq> j" and "ph_pcs s ! i = PhEating" and "ph_pcs s ! j = PhEating"
  shows "Eat_plates tr i \<inter> Eat_plates tr j = {}"
proof -
  have inv: "din_inv n left right s" by (rule din_inv_reachable [OF assms(1-3)])
  have "held left right k PhEating = Eat_plates tr k" if "k < n" for k
    using ring_forks [OF assms(1,2) that] by (auto simp: held_def Eat_plates_def first_fork_def second_fork_def)
  then have own: "x \<in> Eat_plates tr k \<Longrightarrow> k < n \<Longrightarrow> ph_pcs s ! k = PhEating \<Longrightarrow> fork_owner s x = Some k" for x k
    using inv by (auto simp: din_inv_def)
  show ?thesis
  proof (rule equals0I)
    fix x assume "x \<in> Eat_plates tr i \<inter> Eat_plates tr j"
    then have "fork_owner s x = Some i" "fork_owner s x = Some j" using own assms by auto
    with assms(6) show False by simp
  qed
qed

lemma table_start_five:
  "table_start 5 = \<lparr>fork_owner = (\<lambda>_. None),
     ph_pcs = [PhThinking, PhThinking, PhThinking, PhThinking, PhThinking], ph_meals = [0, 0, 0, 0, 0]\<rparr>"
  by (simp add: table_start_def numeral_eq_Suc)

lemma two_eat:
  "\<exists>s. run (EatThenThink_step (\<lambda>i. i) (\<lambda>i. (i + 1) mod 5)) [0, 0, 2, 2] (table_start 5) = Some s \<and>
     ph_pcs s ! 0 = PhEating \<and> ph_pcs s ! 2 = PhEating"
  by (simp add: EatThenThink_step_def Philosopher_AcquireForks_def lock_fork_def first_fork_def second_fork_def
      table_start_five)

theorem Philosophers_plates_exclusive_witness:
  "Eat_plates (\<lambda>i. (i + 1) mod 5) 0 \<inter> Eat_plates (\<lambda>i. (i + 1) mod 5) 2 = {}"
proof -
  obtain s where s: "run (EatThenThink_step (\<lambda>i. i) (\<lambda>i. (i + 1) mod 5)) [0, 0, 2, 2] (table_start 5) = Some s"
    "ph_pcs s ! 0 = PhEating" "ph_pcs s ! 2 = PhEating" using two_eat by blast
  show ?thesis by (rule Philosophers_plates_exclusive [OF five_seats _ run_reachable [OF s(1)] _ _ _ s(2,3)]) simp_all
qed

end
