(* ===== verification/Guarded.thy ===== *)
theory Guarded
  imports Prelude
begin

text \<open>
  The wrapper \<open>Guarded\<close> of \<^verbatim>\<open>intro/guarded/guarded.hpp\<close>: \<open>guarded->call(...)\<close> makes a temporary
  \<open>GuardedReference\<close> that locks the mutex, runs the method through the raw pointer and
  unlocks the mutex when the temporary is destroyed at the end of the expression. The methods are state
  transformers of the object; which one a thread calls is part of the label.
\<close>

datatype guarded_pc = GOutside | GHasReference | GCalled

record 'a guarded =
  g_object :: 'a
  g_owner :: "tid option"
  g_pcs :: "guarded_pc list"
  g_calls :: "('a \<Rightarrow> 'a) list"

definition Guarded_ctor :: "'a \<Rightarrow> nat \<Rightarrow> 'a guarded" where
  "Guarded_ctor x n = \<lparr>g_object = x, g_owner = None, g_pcs = replicate n GOutside, g_calls = []\<rparr>"

text \<open>\<open>Guarded::operator->\<close> makes the reference; its \<open>lock_guard\<close> locks the mutex.\<close>

definition Guarded_arrow :: "tid \<Rightarrow> 'a guarded \<Rightarrow> 'a guarded option" where
  "Guarded_arrow t s =
     (if g_owner s = None then Some (s\<lparr>g_owner := Some t, g_pcs := (g_pcs s)[t := GHasReference]\<rparr>) else None)"

text \<open>\<open>GuardedReference::operator->\<close> gives the pointer through which the call runs.\<close>

definition GuardedReference_arrow :: "tid \<Rightarrow> ('a \<Rightarrow> 'a) \<Rightarrow> 'a guarded \<Rightarrow> 'a guarded" where
  "GuardedReference_arrow t call s =
     s\<lparr>g_object := call (g_object s), g_calls := g_calls s @ [call], g_pcs := (g_pcs s)[t := GCalled]\<rparr>"

definition GuardedReference_dtor :: "tid \<Rightarrow> 'a guarded \<Rightarrow> 'a guarded" where
  "GuardedReference_dtor t s = s\<lparr>g_owner := None, g_pcs := (g_pcs s)[t := GOutside]\<rparr>"

datatype 'a guarded_label = GArrow tid | GCall tid "'a \<Rightarrow> 'a" | GDestroy tid

fun guarded_step :: "'a guarded_label \<Rightarrow> 'a guarded \<Rightarrow> 'a guarded option" where
  "guarded_step (GArrow t) s =
     (if t < length (g_pcs s) \<and> g_pcs s ! t = GOutside then Guarded_arrow t s else None)"
| "guarded_step (GCall t call) s =
     (if t < length (g_pcs s) \<and> g_pcs s ! t = GHasReference then Some (GuardedReference_arrow t call s) else None)"
| "guarded_step (GDestroy t) s =
     (if t < length (g_pcs s) \<and> g_pcs s ! t = GCalled then Some (GuardedReference_dtor t s) else None)"

definition guarded_holds :: "'a guarded \<Rightarrow> tid \<Rightarrow> bool" where
  "guarded_holds s t \<longleftrightarrow> t < length (g_pcs s) \<and> g_pcs s ! t \<noteq> GOutside"

definition guarded_inv :: "'a \<Rightarrow> 'a guarded \<Rightarrow> bool" where
  "guarded_inv x s \<longleftrightarrow> (\<forall>t. guarded_holds s t \<longleftrightarrow> g_owner s = Some t) \<and> g_object s = fold (\<lambda>f. f) (g_calls s) x"

lemma guarded_invD:
  "guarded_inv x s \<Longrightarrow> t < length (g_pcs s) \<Longrightarrow> g_pcs s ! t \<noteq> GOutside \<longleftrightarrow> g_owner s = Some t"
  "guarded_inv x s \<Longrightarrow> g_owner s = Some t \<Longrightarrow> t < length (g_pcs s)"
  "guarded_inv x s \<Longrightarrow> g_object s = fold (\<lambda>f. f) (g_calls s) x"
  by (auto simp: guarded_inv_def guarded_holds_def)

lemma guarded_invI:
  assumes "\<And>t. t < length (g_pcs s) \<Longrightarrow> g_pcs s ! t \<noteq> GOutside \<longleftrightarrow> g_owner s = Some t"
    "\<And>t. g_owner s = Some t \<Longrightarrow> t < length (g_pcs s)" "g_object s = fold (\<lambda>f. f) (g_calls s) x"
  shows "guarded_inv x s"
  using assms unfolding guarded_inv_def guarded_holds_def by blast

lemma guarded_inv_step:
  assumes inv: "guarded_inv x s" and step: "guarded_step l s = Some s'"
  shows "guarded_inv x s'"
proof (cases l)
  case (GArrow t)
  then have t: "t < length (g_pcs s)" "g_owner s = None"
    and s': "s' = s\<lparr>g_owner := Some t, g_pcs := (g_pcs s)[t := GHasReference]\<rparr>"
    using step by (auto simp: Guarded_arrow_def split: if_splits)
  show ?thesis
    by (rule guarded_invI) (use t guarded_invD [OF inv] in \<open>auto simp: s' nth_list_update\<close>)
next
  case (GCall t call)
  then have t: "t < length (g_pcs s)" "g_pcs s ! t = GHasReference"
    and s': "s' = GuardedReference_arrow t call s" using step by (auto split: if_splits)
  have o: "g_owner s = Some t" using guarded_invD(1) [OF inv t(1)] t(2) by simp
  show ?thesis
  proof (rule guarded_invI)
    fix u assume "u < length (g_pcs s')"
    then show "g_pcs s' ! u \<noteq> GOutside \<longleftrightarrow> g_owner s' = Some u"
      using guarded_invD(1) [OF inv, of u] o t by (cases "u = t") (auto simp: s' GuardedReference_arrow_def)
  next
    fix u assume "g_owner s' = Some u"
    then show "u < length (g_pcs s')" using o t by (simp add: s' GuardedReference_arrow_def)
  next
    show "g_object s' = fold (\<lambda>f. f) (g_calls s') x"
      using guarded_invD(3) [OF inv] by (simp add: s' GuardedReference_arrow_def)
  qed
next
  case (GDestroy t)
  then have t: "t < length (g_pcs s)" "g_pcs s ! t = GCalled"
    and s': "s' = GuardedReference_dtor t s" using step by (auto split: if_splits)
  have o: "g_owner s = Some t" using guarded_invD(1) [OF inv t(1)] t(2) by simp
  show ?thesis
  proof (rule guarded_invI)
    fix u assume "u < length (g_pcs s')"
    then show "g_pcs s' ! u \<noteq> GOutside \<longleftrightarrow> g_owner s' = Some u"
      using guarded_invD(1) [OF inv, of u] o t by (cases "u = t") (auto simp: s' GuardedReference_dtor_def)
  next
    show "g_object s' = fold (\<lambda>f. f) (g_calls s') x"
      using guarded_invD(3) [OF inv] by (simp add: s' GuardedReference_dtor_def)
  qed (simp add: s' GuardedReference_dtor_def)
qed

lemma guarded_inv_start: "guarded_inv x (Guarded_ctor x n)"
  by (rule guarded_invI) (auto simp: Guarded_ctor_def)

lemma guarded_holds_unique: "guarded_inv x s \<Longrightarrow> guarded_holds s i \<Longrightarrow> guarded_holds s j \<Longrightarrow> i = j"
  by (simp add: guarded_inv_def)

interpretation guarded: exclusive_lock guarded_step "Guarded_ctor x n" "guarded_inv x" guarded_holds for x n
  by unfold_locales (fact guarded_inv_start, fact guarded_inv_step, fact guarded_holds_unique)

text \<open>Accesses to a guarded object do not overlap, and the object is what the calls made so far, one after the
  other, make of the initial object: concurrent calls behave like some sequence of calls.\<close>

theorem Guarded_serializes:
  assumes "reachable guarded_step (Guarded_ctor x n) s"
  shows "(\<forall>t u. guarded_holds s t \<longrightarrow> guarded_holds s u \<longrightarrow> t = u) \<and> g_object s = fold (\<lambda>f. f) (g_calls s) x"
  using guarded.mutual_exclusion [OF assms] guarded.inv_reachable [OF assms] by (auto simp: guarded_inv_def)

end
