(* ===== verification/Jump.thy ===== *)
theory Jump
  imports Prelude
begin

text \<open>
  The local jumps of \<^verbatim>\<open>intro/jump\<close>: the assembly routines \<open>Capture\<close> and \<open>JumpTo\<close> as lists of instructions of a small
  x86-64 machine. Memory is a map from addresses to 64-bit cells; the routines only access cells at
  multiples of 8 (the stack slot and the fields of \<open>JumpContext\<close>), so cells do not overlap.
\<close>

datatype reg = RAX | RBX | RSP | RBP | R12 | R13 | R14 | R15 | RDI

datatype instr =
    Load reg reg u64     \<comment> \<open>\<open>movq off(base), dst\<close>\<close>
  | Store reg reg u64    \<comment> \<open>\<open>movq src, off(base)\<close>\<close>
  | Ret

record cpu =
  regs :: "reg \<Rightarrow> u64"
  rip :: u64
  mem :: "u64 \<Rightarrow> u64"

fun exec :: "instr \<Rightarrow> cpu \<Rightarrow> cpu" where
  "exec (Load dst base off) s = s\<lparr>regs := (regs s)(dst := mem s (regs s base + off))\<rparr>"
| "exec (Store src base off) s = s\<lparr>mem := (mem s)(regs s base + off := regs s src)\<rparr>"
| "exec Ret s = s\<lparr>rip := mem s (regs s RSP), regs := (regs s)(RSP := regs s RSP + 8)\<rparr>"

text \<open>The offsets of the fields of \<open>JumpContext\<close>; \<open>rip\<close> is at offset 0.\<close>

fun JumpContext_offset :: "reg \<Rightarrow> u64 option" where
  "JumpContext_offset RBX = Some 8"
| "JumpContext_offset RSP = Some 16"
| "JumpContext_offset RBP = Some 24"
| "JumpContext_offset R12 = Some 32"
| "JumpContext_offset R13 = Some 40"
| "JumpContext_offset R14 = Some 48"
| "JumpContext_offset R15 = Some 56"
| "JumpContext_offset _ = None"

definition Capture :: "instr list" where
  "Capture = [Load RAX RSP 0, Store RAX RDI 0,
     Store RBX RDI 8, Store RSP RDI 16, Store RBP RDI 24,
     Store R12 RDI 32, Store R13 RDI 40, Store R14 RDI 48, Store R15 RDI 56, Ret]"

definition JumpTo :: "instr list" where
  "JumpTo = [Load RAX RDI 0, Store RAX RSP 0,
     Load RBX RDI 8, Load RSP RDI 16, Load RBP RDI 24,
     Load R12 RDI 32, Load R13 RDI 40, Load R14 RDI 48, Load R15 RDI 56, Ret]"

definition call :: "instr list \<Rightarrow> cpu \<Rightarrow> cpu" where
  "call code s = fold exec code s"

definition callee_saved :: "reg set" where
  "callee_saved = {RBX, RSP, RBP, R12, R13, R14, R15}"

text \<open>The cells of the context.\<close>

definition context_cells :: "u64 \<Rightarrow> u64 set" where
  "context_cells c = {c, c + 8, c + 16, c + 24, c + 32, c + 40, c + 48, c + 56}"

text \<open>What \<open>Capture\<close> leaves in the context and in the registers, when the stack slot that holds the return address is not
  part of the context.\<close>

lemma Capture_effect:
  assumes "regs s RSP \<notin> context_cells (regs s RDI)"
  shows "rip (call Capture s) = mem s (regs s RSP)"
    and "regs (call Capture s) RSP = regs s RSP + 8"
    and "r \<in> callee_saved \<Longrightarrow> r \<noteq> RSP \<Longrightarrow> regs (call Capture s) r = regs s r"
    and "mem (call Capture s) (regs s RDI) = mem s (regs s RSP)"
    and "r \<in> callee_saved \<Longrightarrow> JumpContext_offset r = Some off \<Longrightarrow> mem (call Capture s) (regs s RDI + off) = regs s r"
  using assms
  by (cases r; auto simp: call_def Capture_def context_cells_def callee_saved_def word_eq_iff_unsigned)+

text \<open>What \<open>JumpTo\<close> makes of the context at \<open>RDI\<close>: it writes the saved address into the current stack slot, restores the
  registers and returns through the restored stack pointer.\<close>

lemma JumpTo_effect:
  assumes "regs t RSP \<notin> context_cells (regs t RDI)"
  shows "rip (call JumpTo t) =
      (if mem t (regs t RDI + 16) = regs t RSP then mem t (regs t RDI) else mem t (mem t (regs t RDI + 16)))"
    and "regs (call JumpTo t) RSP = mem t (regs t RDI + 16) + 8"
    and "r \<in> callee_saved \<Longrightarrow> r \<noteq> RSP \<Longrightarrow> JumpContext_offset r = Some off \<Longrightarrow>
      regs (call JumpTo t) r = mem t (regs t RDI + off)"
  using assms by (cases r; auto simp: call_def JumpTo_def context_cells_def callee_saved_def)+

lemma callee_saved_offset: "r \<in> callee_saved \<Longrightarrow> \<exists>off. JumpContext_offset r = Some off"
  by (cases r) (auto simp: callee_saved_def)

lemma offset_cell: "JumpContext_offset r = Some off \<Longrightarrow> c + off \<in> context_cells c"
  by (cases r) (auto simp: context_cells_def)

text \<open>C37: A jump returns a second time from \<open>Capture\<close>: if \<open>JumpTo\<close> is called with a context that was captured in the same
  frame (the stack pointer is the same) and has not been changed since, execution continues at the
  instruction after the call of \<open>Capture\<close> with the callee-saved registers and the stack pointer as
  they were when \<open>Capture\<close> returned.\<close>

theorem JumpTo_returns_from_Capture:
  assumes "regs s RSP \<notin> context_cells (regs s RDI)"
    and "regs t RDI = regs s RDI" and "regs t RSP = regs s RSP"
    and "\<forall>a \<in> context_cells (regs s RDI). mem t a = mem (call Capture s) a"
    and "r \<in> callee_saved"
  shows "rip (call JumpTo t) = rip (call Capture s) \<and> regs (call JumpTo t) r = regs (call Capture s) r"
proof -
  note cap = Capture_effect [OF assms(1)]
  have slot: "regs t RSP \<notin> context_cells (regs t RDI)" using assms(1-3) by simp
  note jmp = JumpTo_effect [OF slot]
  have field: "mem t (regs t RDI + off) = regs s x" if "x \<in> callee_saved" "JumpContext_offset x = Some off" for x off
    using cap(5) [OF that] assms(2,4) offset_cell [OF that(2), of "regs s RDI"] by simp
  have "mem t (regs t RDI + 16) = regs s RSP" by (rule field) (simp_all add: callee_saved_def)
  moreover have "mem t (regs t RDI) = mem s (regs s RSP)" using cap(4) assms(2,4) by (simp add: context_cells_def)
  ultimately have "rip (call JumpTo t) = rip (call Capture s)" "regs (call JumpTo t) RSP = regs (call Capture s) RSP"
    using jmp(1,2) cap(1,2) assms(3) by simp_all
  moreover have "regs (call JumpTo t) r = regs (call Capture s) r" if "r \<noteq> RSP"
  proof -
    obtain off where off: "JumpContext_offset r = Some off" using callee_saved_offset [OF assms(5)] by blast
    from jmp(3) [OF assms(5) that off] field [OF assms(5) off] cap(3) [OF assms(5) that] show ?thesis by simp
  qed
  ultimately show ?thesis by (cases "r = RSP") auto
qed

definition jump_example :: cpu where
  "jump_example = \<lparr>regs = (\<lambda>_. 7)(RSP := 800, RDI := 160), rip = 0, mem = (\<lambda>_. 0)(800 := 4242)\<rparr>"

definition jump_later :: cpu where
  "jump_later = (call Capture jump_example)\<lparr>regs := (\<lambda>_. 9)(RSP := 800, RDI := 160)\<rparr>"

theorem JumpTo_returns_from_Capture_witness:
  "rip (call JumpTo jump_later) = rip (call Capture jump_example) \<and>
   regs (call JumpTo jump_later) R12 = regs (call Capture jump_example) R12"
  by (rule JumpTo_returns_from_Capture)
    (simp_all add: jump_example_def jump_later_def context_cells_def callee_saved_def)

end
