(* ===== verification/Tricky_Lock.thy ===== *)
theory Tricky_Lock
  imports Prelude
begin

text \<open>
  The livelock demonstration of \<^verbatim>\<open>mutex/livelock/test.cpp\<close>: two cooperative fibers compete for a lock whose state is the
  number of its users. A turn of a fiber is the code between two calls of \<open>Yield\<close>; the two
  fibers take turns.
\<close>

datatype contender_pc =
    TrStart nat      \<comment> \<open>before \<open>Lock\<close> in the iteration\<close>
  | TrSpin nat       \<comment> \<open>after the \<open>Yield\<close> in the loop of \<open>Lock\<close>\<close>
  | TrHold nat       \<comment> \<open>after the \<open>Yield\<close> of the critical section\<close>
  | TrDone

record tricky =
  thread_count :: nat
  cs_count :: nat
  contenders :: "contender_pc list"

definition kIterations :: nat where
  "kIterations = 100"

text \<open>\<open>thread_count++ > 0\<close> and what follows up to the next \<open>Yield\<close>.\<close>

definition TrickyLock_Lock :: "nat \<Rightarrow> nat \<Rightarrow> tricky \<Rightarrow> tricky" where
  "TrickyLock_Lock f i s =
     (let s1 = s\<lparr>thread_count := Suc (thread_count s)\<rparr>
      in if thread_count s > 0 then s1\<lparr>contenders := (contenders s)[f := TrSpin i]\<rparr>
         else s1\<lparr>cs_count := Suc (cs_count s), contenders := (contenders s)[f := TrHold i]\<rparr>)"

definition contender_turn :: "nat \<Rightarrow> tricky \<Rightarrow> tricky" where
  "contender_turn f s =
     (case contenders s ! f of
        TrStart i \<Rightarrow> TrickyLock_Lock f i s
      | TrSpin i \<Rightarrow> TrickyLock_Lock f i (s\<lparr>thread_count := thread_count s - 1\<rparr>)
      | TrHold i \<Rightarrow>
          (let s1 = s\<lparr>thread_count := thread_count s - 1\<rparr>
           in if Suc i < kIterations then TrickyLock_Lock f (Suc i) s1
              else s1\<lparr>contenders := (contenders s)[f := TrDone]\<rparr>)
      | TrDone \<Rightarrow> s)"

definition tricky_start :: tricky where
  "tricky_start = \<lparr>thread_count = 0, cs_count = 0, contenders = [TrStart 0, TrStart 0]\<rparr>"

text \<open>The state after so many turns.\<close>

primrec tricky_after :: "nat \<Rightarrow> tricky" where
  "tricky_after 0 = tricky_start"
| "tricky_after (Suc k) = contender_turn (k mod 2) (tricky_after k)"

definition livelocked :: tricky where
  "livelocked = \<lparr>thread_count = 2, cs_count = 1, contenders = [TrSpin 1, TrSpin 0]\<rparr>"

lemma livelocked_turn: "contender_turn (f mod 2) livelocked = livelocked"
proof -
  have "f mod 2 = 0 \<or> f mod 2 = 1" by linarith
  then show ?thesis
  proof
    assume f: "f mod 2 = 0"
    show ?thesis unfolding f by (simp add: livelocked_def contender_turn_def TrickyLock_Lock_def)
  next
    assume f: "f mod 2 = 1"
    show ?thesis unfolding f by (simp add: livelocked_def contender_turn_def TrickyLock_Lock_def)
  qed
qed

lemma tricky_stuck: "tricky_after (k + 3) = livelocked"
proof (induction k)
  case 0
  show ?case
    by (simp add: numeral_3_eq_3 tricky_start_def contender_turn_def TrickyLock_Lock_def kIterations_def livelocked_def)
next
  case (Suc k)
  then show ?case by (simp only: add_Suc tricky_after.simps livelocked_turn)
qed

text \<open>The two fibers livelock: after three turns both are in the loop of \<open>Lock\<close> forever, one critical section was
  entered in all, and no fiber finishes its 100 iterations.\<close>

theorem TrickyLock_livelock:
  "3 \<le> k \<Longrightarrow> contenders (tricky_after k) = [TrSpin 1, TrSpin 0] \<and> cs_count (tricky_after k) = 1 \<and>
     thread_count (tricky_after k) = 2"
  using tricky_stuck [of "k - 3"] by (simp add: livelocked_def)

theorem TrickyLock_livelock_witness: "contenders (tricky_after 1000) = [TrSpin 1, TrSpin 0]"
  using TrickyLock_livelock [of 1000] by simp

end
