(* ===== verification/Deadlock.thy ===== *)
theory Deadlock
  imports Prelude
begin

text \<open>
  The deadlock demonstration of \<^verbatim>\<open>intro/deadlock/tests.cpp\<close>: fiber routines that lock two mutexes in opposite orders. The mutex and
  the scheduler are those of another repository. The mutex is a parameter, with the contract the demonstration relies on
  (\<open>mutex_laws\<close>); of the scheduler only that it is cooperative: a turn of a fiber lasts until it yields, blocks or ends, and which
  fiber has the next turn is not fixed.
\<close>

section \<open>Model\<close>

datatype dl_op = DlLock nat | DlUnlock nat | DlYield

text \<open>The routines; mutex 0 is \<open>a\<close>, mutex 1 is \<open>b\<close>.\<close>

definition locker_routine :: "dl_op list" where
  "locker_routine = [DlLock 0, DlLock 0]"

definition first_routine :: "dl_op list" where
  "first_routine = [DlLock 0, DlYield, DlLock 1, DlUnlock 1, DlUnlock 0]"

definition second_routine :: "dl_op list" where
  "second_routine = [DlLock 1, DlLock 0, DlYield, DlUnlock 0, DlUnlock 1]"

text \<open>\<open>lock m\<close> is \<open>None\<close> when the caller has to wait.\<close>

record 'm mutex_class =
  mc_lock :: "'m \<Rightarrow> 'm option"
  mc_unlock :: "'m \<Rightarrow> 'm"
  mc_free :: 'm

definition mutex_laws :: "'m mutex_class \<Rightarrow> bool" where
  "mutex_laws M \<longleftrightarrow>
     (case mc_lock M (mc_free M) of
        None \<Rightarrow> False
      | Some held \<Rightarrow> mc_lock M held = None \<and> mc_unlock M held = mc_free M)"

text \<open>A turn: the operations left to the fiber and the mutexes.\<close>

fun dl_turn :: "'m mutex_class \<Rightarrow> dl_op list \<Rightarrow> 'm list \<Rightarrow> dl_op list \<times> 'm list" where
  "dl_turn M [] ms = ([], ms)"
| "dl_turn M (DlLock i # ops) ms =
     (case mc_lock M (ms ! i) of None \<Rightarrow> (DlLock i # ops, ms) | Some m \<Rightarrow> dl_turn M ops (ms[i := m]))"
| "dl_turn M (DlUnlock i # ops) ms = dl_turn M ops (ms[i := mc_unlock M (ms ! i)])"
| "dl_turn M (DlYield # ops) ms = (ops, ms)"

text \<open>Turns of several fibers, in the order of a schedule.\<close>

fun dl_turns :: "'m mutex_class \<Rightarrow> nat list \<Rightarrow> dl_op list list \<times> 'm list \<Rightarrow> dl_op list list \<times> 'm list" where
  "dl_turns M [] s = s"
| "dl_turns M (f # fs) (fibers, ms) =
     (let (ops, ms') = dl_turn M (fibers ! f) ms in dl_turns M fs (fibers[f := ops], ms'))"

text \<open>\<open>Spawn(routine).Join()\<close>: the fiber has all the turns until it has ended; \<open>k\<close> bounds their number.\<close>

fun spawn_join :: "'m mutex_class \<Rightarrow> nat \<Rightarrow> dl_op list \<Rightarrow> 'm list \<Rightarrow> 'm list option" where
  "spawn_join M k [] ms = Some ms"
| "spawn_join M 0 (op # ops) ms = None"
| "spawn_join M (Suc k) (op # ops) ms = (let (ops', ms') = dl_turn M (op # ops) ms in spawn_join M k ops' ms')"

section \<open>Properties\<close>

text \<open>Each of the two routines run alone, twice, as the test does first, ends and leaves the mutexes unlocked.\<close>

theorem Routines_alone_end:
  assumes "mutex_laws M" and "r = first_routine \<or> r = second_routine"
  shows "spawn_join M 2 r [mc_free M, mc_free M] = Some [mc_free M, mc_free M]"
  using assms by (auto simp: mutex_laws_def first_routine_def second_routine_def numeral_2_eq_2 split: option.splits)

definition bool_mutex :: "bool mutex_class" where
  "bool_mutex = \<lparr>mc_lock = (\<lambda>locked. if locked then None else Some True), mc_unlock = (\<lambda>_. False), mc_free = False\<rparr>"

lemma bool_mutex_laws: "mutex_laws bool_mutex"
  by (simp add: mutex_laws_def bool_mutex_def)

theorem Routines_alone_end_witness: "spawn_join bool_mutex 2 first_routine [False, False] = Some [False, False]"
  using Routines_alone_end [OF bool_mutex_laws, of first_routine] by (simp add: bool_mutex_def)

text \<open>The demonstration does deadlock. A fiber that locks a mutex twice never ends. When the two fibers run at the same time and
  the second gets its first turn while the first has yielded, then after the next turn of the first each waits for the mutex the
  other holds, and no schedule of further turns changes anything.\<close>

theorem Deadlock_demonstrated:
  assumes M: "mutex_laws M"
  shows "spawn_join M k locker_routine [mc_free M] = None"
    and "\<exists>held. (\<forall>fs. set fs \<subseteq> {0, 1} \<longrightarrow>
           dl_turns M ([0, 1, 0] @ fs) ([first_routine, second_routine], [mc_free M, mc_free M]) =
           ([[DlLock 1, DlUnlock 1, DlUnlock 0], [DlLock 0, DlYield, DlUnlock 0, DlUnlock 1]], [held, held]))"
proof -
  from M obtain held where h: "mc_lock M (mc_free M) = Some held" "mc_lock M held = None"
    by (auto simp: mutex_laws_def split: option.splits)
  have "spawn_join M k [DlLock 0] [held] = None" for k using h by (induction k) simp_all
  with h show "spawn_join M k locker_routine [mc_free M] = None" by (cases k) (simp_all add: locker_routine_def)
  let ?D = "([[DlLock 1, DlUnlock 1, DlUnlock 0], [DlLock 0, DlYield, DlUnlock 0, DlUnlock 1]], [held, held])"
  have "dl_turns M fs ?D = ?D" if "set fs \<subseteq> {0, 1}" for fs
    using that by (induction fs) (use h in auto)
  then show "\<exists>held. (\<forall>fs. set fs \<subseteq> {0, 1} \<longrightarrow>
           dl_turns M ([0, 1, 0] @ fs) ([first_routine, second_routine], [mc_free M, mc_free M]) =
           ([[DlLock 1, DlUnlock 1, DlUnlock 0], [DlLock 0, DlYield, DlUnlock 0, DlUnlock 1]], [held, held]))"
    using h by (intro exI [of _ held]) (simp add: first_routine_def second_routine_def)
qed

theorem Deadlock_demonstrated_witness: "spawn_join bool_mutex 9 locker_routine [False] = None"
  using Deadlock_demonstrated(1) [OF bool_mutex_laws, of 9] by (simp add: bool_mutex_def)

end
