(* ===== verification/Spec2Isabelle.thy ===== *)
theory Spec2Isabelle
  imports Spinlock Ticket_Lock Futex_Mutex Semaphore Bounded_Queue Barrier Condvar Task_Queue
    Thread_Pool Tp_Pool Strand Node_Pool Tagged_Stack Strand_On_Pool Shared_State Futures Future_Clients Futures_On_Pool Combinators Time_Keeper Timed_Clients
    Fiber_Properties Scheduler_Runs Executors Net Coroutines Mtf_Fibers Mtf_Coroutines Dining Guarded Jump Tricky_Lock Deadlock
begin

text \<open>
  \<^bold>\<open>The program.\<close> The repository is a collection of concurrency components in C++ (and a little x86-64 assembly): locks
  and condition variables built from atomics, thread pools and other executors, futures with
  combinators and timers, a cooperative fiber runtime with sockets on top of it, stackful coroutines and fibers on a
  thread pool, and small exercises (dining philosophers, a guarded object, local jumps, a livelock). The components
  use each other in layers. Semaphores carry the bounded queue. A closable queue and a counter of outstanding
  tasks carry the thread pools. Executors (pool, strand, manual, inline, priority) run the callbacks of futures; the
  combinators and the time keeper are clients of futures and promises. The fiber scheduler carries join handles, wait queues
  and fiber futures, on which the sockets and the echo server block. Coroutines carry the fibers of \<^verbatim>\<open>mtf\<close>.

  \<^bold>\<open>How programs are modelled.\<close> A component is a record with the fields of its class, and one function per operation. A
  concurrent component adds a program counter for each thread and is a function \<open>step :: label \<Rightarrow> state \<Rightarrow> state option\<close>:
  one label is one atomic operation of the source (or one critical section of a standard mutex), executed by the
  thread the label names; \<open>None\<close> says that this thread cannot make this step. What the program does not determine is
  in the label: which thread a notification wakes, spurious wakeups, the address an allocator returns, the next call of a client. A
  schedule is a list of labels, \<open>run\<close> executes it, \<open>reachable\<close> closes the start state under steps (theory \<open>Prelude\<close>),
  so every theorem about reachable states is about all interleavings of any number of threads. Sequentially consistent
  atomics are assumed, as the source uses the default memory order. Machine integers are words where
  wrap-around can matter (tickets, counters, indices). A failed assertion, the use of a null or deleted object and the
  access of an empty container are recorded in a flag of the state or give \<open>None\<close>, never ignored. Some
  records have history fields, which no operation reads; the texts of the theories name them.

  \<^bold>\<open>Interfaces.\<close> \<open>Prelude\<close> has the locales \<open>invariant_system\<close> (an inductive invariant), \<open>bounded_invariant_system\<close> (the same for
  fewer steps than a counter has values), \<open>exclusive_lock\<close> and \<open>bounded_exclusive_lock\<close> (mutual exclusion from an invariant)
  and \<open>stuttering_refinement\<close> (one step system implements another). \<open>Task_Queue\<close> states the contract \<open>closable_fifo\<close> of the
  closable queue and \<open>Semaphore\<close> the contract \<open>counting_semaphore\<close>. Every one of them is interpreted on the definitions of the
  components, and the properties use the facts of these interpretations.

  \<^bold>\<open>Theories and sources.\<close>

  Locks and condition variables. \<open>Spinlock\<close>: \<^verbatim>\<open>mutex/spinlock\<close> (class \<open>TASSpinLock\<close> and \<^verbatim>\<open>atomics.S\<close>) and
  \<^verbatim>\<open>fibers/coroutine/mtf/fibers/spinlock\<close>; mutual exclusion. \<open>Ticket_Lock\<close>: \<^verbatim>\<open>mutex/try-lock/ticket_lock.hpp\<close>; mutual
  exclusion, first come first served, exactness of \<open>TryLock\<close>, progress, all for fewer than \<open>2 ^ 64\<close> steps, since tickets
  wrap around. \<open>Futex_Mutex\<close>: \<^verbatim>\<open>mutex/mutex/mutex.hpp\<close>; mutual exclusion and no lost wakeup. \<open>Semaphore\<close> and
  \<open>Bounded_Queue\<close>: \<^verbatim>\<open>condvar/semaphore\<close>; conservation of permits, no lost wakeup, the queue stays within its capacity, never
  reads an empty buffer, is first in first out and does not deadlock. \<open>Barrier\<close>: \<^verbatim>\<open>condvar/barrier\<close>; nobody passes a round
  before everybody has arrived, and no deadlock. \<open>Condvar\<close>: \<^verbatim>\<open>condvar/condvar\<close> over an abstract mutex, its template
  parameter; a notification between the load of the ticket and the wait is not lost, for fewer than \<open>2 ^ 32\<close> notifications. (The class \<open>Mutex\<close> of
  \<^verbatim>\<open>mutex/mutex\<close> cannot be that parameter: it has \<open>Lock\<close> and \<open>Unlock\<close> where \<open>Wait\<close> calls \<open>lock\<close> and \<open>unlock\<close>.)

  Executors. \<open>Task_Queue\<close>: \<^verbatim>\<open>blocking_queue.hpp\<close> and \<^verbatim>\<open>helpers.cpp\<close>; order of the queue, closing and cancelling.
  \<open>Thread_Pool\<close>: \<^verbatim>\<open>futures/executors/await/executors/static_thread_pool.cpp\<close>; what \<open>Join\<close>, \<open>Shutdown\<close> and the
  destructor guarantee, the counter of outstanding tasks, no deadlock of \<open>Join\<close>. \<open>Tp_Pool\<close>: \<^verbatim>\<open>condvar/thread-pool/tp\<close>, proved
  to refine \<open>Thread_Pool\<close>. \<open>Strand\<close>: \<^verbatim>\<open>strand.cpp\<close> with the lock-free stack and its pool over a heap of nodes; serial
  execution in order, memory safety (nodes that a running \<open>ExecuteFirstStack\<close> still holds included), and the race that leaves tasks behind. \<open>Node_Pool\<close>: the class \<open>LFPointersPool\<close> of the same
  file; correct with one popping thread, open to the ABA problem with two. \<open>Tagged_Stack\<close>: the other \<^verbatim>\<open>strand.cpp\<close>, in \<^verbatim>\<open>futures/futures\<close>, whose stack
  deletes its nodes and calls \<open>AddToTag\<close>; it keeps the invariant of the other strand, from which the same guarantees follow, and the class
  \<open>LockFreeStack\<close> by itself is memory safe and linearizable with one popping thread (it refines \<open>Node_Pool\<close>) and reads freed memory with
  two. \<open>Strand_On_Pool\<close>: a strand whose executor is the
  thread pool, as the composition of the two step systems; it refines both of them, a thunk is handed to the pool once and run by one
  worker, and the theorem at the end of this theory joins their guarantees. \<open>Pool_Handover\<close>: how often a pool is given a task, for
  the compositions with a pool. \<open>Executors\<close>: \<^verbatim>\<open>inline.cpp\<close>, \<^verbatim>\<open>label_thread.cpp\<close>,
  \<^verbatim>\<open>manual.cpp\<close>, \<^verbatim>\<open>priority.cpp\<close>; which tasks run, how often and in which order, termination of \<open>Drain\<close>. The
  directory \<^verbatim>\<open>futures/futures/await/executors\<close> holds identical copies of these files, except for \<^verbatim>\<open>strand.cpp\<close>.

  Futures (\<^verbatim>\<open>futures/futures/await\<close>). \<open>Shared_State\<close>: \<^verbatim>\<open>futures/core/state.hpp\<close> as the race between producer and consumer,
  one step per access; the result is delivered once, no assertion fails, no wakeup is lost. \<open>Futures\<close>:
  \<^verbatim>\<open>future.hpp\<close>, \<^verbatim>\<open>future.ipp\<close>, \<^verbatim>\<open>promise.hpp\<close>, \<^verbatim>\<open>util/async.hpp\<close> over a store of shared states, each operation in one
  piece; chains of \<open>Then\<close> and \<open>Recover\<close> compute the composition of their links, \<open>Via\<close> moves continuations to an executor. \<open>Future_Clients\<close>: the handles of clients and a typing of stores, promises and futures; clients
  that use every handle once and keep to a discipline never see a failed assertion or an endless call, and nothing they wait for is forgotten. The
  discipline (\<open>fc_disciplined\<close>): asynchronous transformations only where results are values, callbacks that throw only behind an executor, no
  promise that waits for itself, and user callbacks do nothing with the library but fulfil a promise that they own. \<open>Futures\<close> shows that without it
  the program aborts. \<open>Futures_On_Pool\<close>: the composition of
  these clients with the thread pool as their executor; it refines both, an operation hands over at most one lambda, every lambda runs at
  most once, after \<open>Join\<close> everything that was accepted has run and the futures are ready, and there is no deadlock.
  \<open>Combinators\<close>: \<^verbatim>\<open>combine/all.hpp\<close> and \<^verbatim>\<open>combine/first_of.hpp\<close>. \<open>Time_Keeper\<close>: \<^verbatim>\<open>time/time_keeper.hpp\<close>; a poll fulfils
  exactly the due timers. \<open>Timed_Clients\<close>: the time keeper, threads that call \<open>After\<close> and the clients of the futures interleaved; it refines
  \<open>Future_Clients\<close>, no timer fires twice or early, due timers fire in the next round of the worker, and timers left when the time
  keeper is destroyed never fire. The clients of \<open>Futures_On_Pool\<close> and \<open>Timed_Clients\<close> keep to the same discipline.

  Fibers and network. \<open>Fibers\<close>, \<open>Fiber_Invariant\<close>, \<open>Fiber_Properties\<close>: \<^verbatim>\<open>tinyfibers/echo/tinyfibers/runtime\<close> (and its copy in
  \<^verbatim>\<open>tinyfibers/sleep\<close>): scheduler, stacks, sleeping, join handles, wait queues, fiber futures. The invariant says that every fiber that
  has not ended is in exactly one place that fits its state; from it follow private stacks, sleeping long enough, and
  joining. It is proved for disciplined clients (\<open>disciplined_step\<close>); two theorems show
  what undisciplined clients can do. \<open>Scheduler_Runs\<close>: the schedulers that run one after the other on a thread, with \<open>current_scheduler\<close>,
  \<open>SchedulerScope\<close> and the stack allocator they share; which calls fail, and where the stacks are. \<open>Net\<close>: \<^verbatim>\<open>tinyfibers/echo/tinyfibers/net\<close> and the echo servers of
  \<^verbatim>\<open>tinyfibers/echo\<close> and \<^verbatim>\<open>asio/echo\<close>. \<open>Coroutines\<close>, \<open>Mtf_Fibers\<close> and \<open>Mtf_Coroutines\<close>: \<^verbatim>\<open>fibers/coroutine/mtf\<close>; the pointers of the
  coroutines implement, in every thread, the stack of pending calls of \<open>Resume\<close>, a fiber has one owner, \<open>Join\<close> of the pool waits for all
  fibers, and the composition of fibers and coroutines refines both: fibers that move between workers suspend and resume their own
  coroutines only.

  Exercises. \<open>Deadlock\<close>: \<^verbatim>\<open>intro/deadlock\<close>; alone the routines end, together they deadlock. \<open>Dining\<close>: \<^verbatim>\<open>intro/dining\<close>; no deadlock, no race on a plate. \<open>Guarded\<close>: \<^verbatim>\<open>intro/guarded\<close>; calls are
  serialized. \<open>Jump\<close>: \<^verbatim>\<open>intro/jump\<close>, instruction by instruction. \<open>Tricky_Lock\<close>: \<^verbatim>\<open>mutex/livelock\<close>; the two fibers do livelock.

  \<^bold>\<open>Recursion and fuel.\<close> The callbacks of futures run each other in nested calls, which the model bounds by a number of
  calls; the theorem about chains shows that \<open>3 * length ls + 4\<close> calls are enough for a chain of the links \<open>ls\<close>, and \<open>Future_Clients\<close> that six calls for every
  shared state are enough for any disciplined client. Loops that need not
  end for every input (\<open>Drain\<close> of the manual executor, reading and writing of sockets, the walk over a linked list
  in the heap) are partial functions with values in \<open>option\<close>; the theorems show that they return. Fiber
  routines, tasks and clients are not bounded: they are choices in the labels.

  \<^bold>\<open>Code outside the repository\<close> is a parameter or an environment choice with the documented behaviour: \<open>asio\<close> in \<open>Net\<close> (functions on the
  state of the network; named hypotheses say, for instance, that a successful read of a non-empty buffer returns at least one byte), the posted
  functions and timers of \<open>io_context\<close> in \<open>Fibers\<close> and \<open>Mtf_Fibers\<close>, \<open>wheels::Result\<close> and \<open>make_result::Invoke\<close> in \<open>Futures\<close>, the
  table of the philosophers in \<open>Dining\<close>, the mutex of another repository in \<open>Deadlock\<close>.

  \<^bold>\<open>Not modelled.\<close> Machine contexts and the memory of stacks (a context switch is the change of the running
  fiber or coroutine); weak memory orders (the source uses none); thread labels inside the pool (they have no effect on
  it); the constant of \<^verbatim>\<open>intro/aplusb\<close>; headers that only
  declare; build files.
\<close>

section \<open>A strand on a thread pool\<close>

text \<open>C3: A strand whose executor is the static thread pool. In every reachable state at most one worker of the pool is inside a
  task of the strand, and the tasks were started in the order in which they entered the stack. When \<open>Join\<close> of the pool has returned,
  the clients have returned from \<open>Execute\<close> and the pool accepted every thunk it was given, then nothing is scheduled and
  every task has been run, in order, except those that are still in the stack.\<close>

theorem Strand_on_pool_serial_and_complete:
  assumes "reachable sp_step (StrandOnPool n w) s"
  shows "(\<forall>i j. worker_in_task i s \<and> worker_in_task j s \<longrightarrow> i = j) \<and>
    (\<exists>rest. st_pushed (sp_strand s) = st_ran (sp_strand s) @ rest) \<and>
    (pool_closer (sp_pool s) = PoolClosed False \<and> pool_workers (sp_pool s) \<noteq> [] \<and>
     (\<forall>c < length (st_clients (sp_strand s)). st_clients (sp_strand s) ! c = PushOutside) \<and>
     length (accepted (sp_pool s)) = length (st_thunks (sp_strand s)) \<longrightarrow>
       \<not> is_scheduled (sp_strand s) \<and>
       (\<exists>as ts. chain (st_heap (sp_strand s)) (st_head (sp_strand s)) as ts \<and>
          st_pushed (sp_strand s) = st_ran (sp_strand s) @ rev ts))"
proof (intro conjI impI allI)
  have inv: "sp_inv s" using assms by (rule sp.inv_reachable)
  have rs: "reachable strand_step (MakeStrand n) (sp_strand s)" using sps.refines [OF assms] by simp
  have rp: "reachable pool_step (StaticThreadPool_ctor w n) (sp_pool s)" using spp.refines [OF assms] by simp
  have sinv: "strand_inv (sp_strand s)" using rs by (rule strand.inv_reachable)
  then obtain as ts b own where at: "strand_at as ts b own (sp_strand s)" by (auto simp: strand_inv_def)
  then show "\<exists>rest. st_pushed (sp_strand s) = st_ran (sp_strand s) @ rest" by (auto simp: strand_at_def)
  show "i = j" if ij: "worker_in_task i s \<and> worker_in_task j s" for i j
    by (rule workers_in_task_unique [OF inv pool.inv_reachable [OF rp] sinv]) (use ij in blast)+
  assume joined: "pool_closer (sp_pool s) = PoolClosed False \<and> pool_workers (sp_pool s) \<noteq> [] \<and>
     (\<forall>c < length (st_clients (sp_strand s)). st_clients (sp_strand s) ! c = PushOutside) \<and>
     length (accepted (sp_pool s)) = length (st_thunks (sp_strand s))"
  with strand_quiet [OF at sp_joined_finished [OF inv rp]]
  have "\<not> is_scheduled (sp_strand s) \<and> chain (st_heap (sp_strand s)) (st_head (sp_strand s)) as ts \<and>
      st_pushed (sp_strand s) = st_ran (sp_strand s) @ rev ts" by blast
  then show "\<not> is_scheduled (sp_strand s)"
    and "\<exists>as ts. chain (st_heap (sp_strand s)) (st_head (sp_strand s)) as ts \<and>
      st_pushed (sp_strand s) = st_ran (sp_strand s) @ rev ts" by blast+
qed

theorem Strand_on_pool_serial_and_complete_witness:
  "\<exists>s :: nat strand_on_pool. reachable sp_step (StrandOnPool 1 1) s \<and> pool_closer (sp_pool s) = PoolClosed False \<and>
     st_ran (sp_strand s) = [7] \<and> \<not> is_scheduled (sp_strand s) \<and>
     (\<exists>as ts. chain (st_heap (sp_strand s)) (st_head (sp_strand s)) as ts \<and>
        st_pushed (sp_strand s) = st_ran (sp_strand s) @ rev ts)"
proof -
  obtain s where s: "run sp_step sp_labels (StrandOnPool 1 1) = Some s"
    and p: "st_clients (sp_strand s) = [PushOutside]" "pool_closer (sp_pool s) = PoolClosed False"
      "pool_workers (sp_pool s) \<noteq> []" "length (accepted (sp_pool s)) = length (st_thunks (sp_strand s))"
      "st_ran (sp_strand s) = [7]"
    using sp_labels_run by blast
  have r: "reachable sp_step (StrandOnPool 1 1) s" using s by (rule run_reachable)
  have "\<forall>c < length (st_clients (sp_strand s)). st_clients (sp_strand s) ! c = PushOutside" using p(1) by simp
  with Strand_on_pool_serial_and_complete [OF r] r p show ?thesis by blast
qed

end
